(* ===== verification/Mosrt_Prelude.thy ===== *)
theory Mosrt_Prelude
  imports Main "HOL-Library.Word" "HOL-Library.Multiset"
begin

text \<open>
  Shared vocabulary of the MOSRT development.

  \<^item> Machine integers: \<open>uint8_t\<close>, \<open>uint16_t\<close>, \<open>uint32_t\<close>/\<open>unsigned\<close> and
    \<open>uint64_t\<close>/\<open>size_t\<close> are words of that width, so that arithmetic wraps as in C.
    A C \<open>int\<close> (process ids, priorities, message values) is an \<open>int\<close>.
  \<^item> A C array is a total function on indices. Every access the code makes is guarded in
    the model by the same bound as in the code, so indices past the end are never read.
  \<^item> The loop shapes the sources share: \<open>first_idx\<close> (scan for the first index with a
    property), \<open>shift_loop\<close> (close the gap at an index), \<open>argmin_idx\<close> (scan for the
    first least key).
  \<^item> Abstractions of arrays: \<open>arr_list\<close> (the first \<open>n\<close> cells) and \<open>ring_list\<close>
    (the \<open>n\<close> cells of a circular buffer, oldest first).
  \<^item> Byte blocks: \<open>memset_arr\<close> and \<open>memcpy_arr\<close>.
  \<^item> The arithmetic of rounding up to a power of two, as \<^verbatim>\<open>proc.c\<close> and \<^verbatim>\<open>vm_alloc.c\<close> do it.
\<close>

unbundle bit_operations_syntax

type_synonym u8 = "8 word"
type_synonym u16 = "16 word"
type_synonym u32 = "32 word"
type_synonym u64 = "64 word"

type_synonym 'a carray = "nat \<Rightarrow> 'a"

named_theorems array_simps \<open>rewriting the list view of an updated array\<close>
named_theorems inv_intros \<open>operations keep the invariant of their component\<close>


section \<open>Scanning loops\<close>

text \<open>\<^verbatim>\<open>for (i = lo; i < hi; ++i) if (P(i)) return i; return none;\<close>\<close>

function first_idx :: "(nat \<Rightarrow> bool) \<Rightarrow> nat \<Rightarrow> nat \<Rightarrow> nat option" where
  "first_idx P i n = (if i < n then (if P i then Some i else first_idx P (Suc i) n) else None)"
  by pat_completeness auto
termination
  by (relation "measure (\<lambda>(P, i, n). n - i)") auto

declare first_idx.simps [simp del]

lemma first_idx_None_iff: "first_idx P i n = None \<longleftrightarrow> (\<forall>j. i \<le> j \<and> j < n \<longrightarrow> \<not> P j)"
proof (induction P i n rule: first_idx.induct)
  case (1 P i n)
  show ?case
  proof (cases "i < n \<and> \<not> P i")
    case True
    then have "first_idx P i n = first_idx P (Suc i) n" by (simp add: first_idx.simps [of P i n])
    with True 1 show ?thesis by (auto simp: Suc_le_eq nat_less_le)
  next
    case False
    then show ?thesis by (auto simp: first_idx.simps [of P i n])
  qed
qed

lemma first_idx_Some_iff:
  "first_idx P i n = Some k \<longleftrightarrow> i \<le> k \<and> k < n \<and> P k \<and> (\<forall>j. i \<le> j \<and> j < k \<longrightarrow> \<not> P j)"
proof (induction P i n rule: first_idx.induct)
  case (1 P i n)
  show ?case
  proof (cases "i < n \<and> \<not> P i")
    case True
    then have "first_idx P i n = first_idx P (Suc i) n" by (simp add: first_idx.simps [of P i n])
    with True 1 show ?thesis by (auto simp: Suc_le_eq nat_less_le)
  next
    case False
    then consider "\<not> i < n" | "i < n" "P i" by blast
    then show ?thesis
    proof cases
      case 1
      then show ?thesis by (simp add: first_idx.simps [of P i n])
    next
      case 2
      then have "first_idx P i n = Some i" by (simp add: first_idx.simps [of P i n])
      moreover have "k = i" if "i \<le> k" "\<forall>j. i \<le> j \<and> j < k \<longrightarrow> \<not> P j"
        using that 2 by (cases "i = k") auto
      ultimately show ?thesis using 2 by auto
    qed
  qed
qed

lemma first_idx_SomeD:
  assumes "first_idx P i n = Some k"
  shows "i \<le> k" "k < n" "P k" "\<And>j. i \<le> j \<Longrightarrow> j < k \<Longrightarrow> \<not> P j"
  using assms by (auto simp: first_idx_Some_iff)

lemma first_idx_SomeI:
  "i \<le> k \<Longrightarrow> k < n \<Longrightarrow> P k \<Longrightarrow> (\<And>j. i \<le> j \<Longrightarrow> j < k \<Longrightarrow> \<not> P j) \<Longrightarrow> first_idx P i n = Some k"
  by (auto simp: first_idx_Some_iff)

lemma first_idx_exists:
  "i \<le> k \<Longrightarrow> k < n \<Longrightarrow> P k \<Longrightarrow> \<exists>j. first_idx P i n = Some j \<and> j \<le> k"
  by (metis first_idx_None_iff first_idx_SomeD(4) linorder_not_le option.exhaust)

lemma first_idx_cong:
  assumes "\<And>j. i \<le> j \<Longrightarrow> j < n \<Longrightarrow> P j = Q j"
  shows "first_idx P i n = first_idx Q i n"
proof (cases "first_idx Q i n")
  case None
  then have "first_idx P i n = None" using assms by (auto simp: first_idx_None_iff)
  with None show ?thesis by simp
next
  case (Some k)
  then have "first_idx P i n = Some k" using assms by (auto simp: first_idx_Some_iff)
  with Some show ?thesis by simp
qed

text \<open>\<^verbatim>\<open>best = lo; for (i = lo + 1; i < n; ++i) if (key[i] < key[best]) best = i;\<close>\<close>

function argmin_idx :: "(nat \<Rightarrow> 'k::linorder) \<Rightarrow> nat \<Rightarrow> nat \<Rightarrow> nat \<Rightarrow> nat" where
  "argmin_idx key best i n =
     (if i < n then argmin_idx key (if key i < key best then i else best) (Suc i) n else best)"
  by pat_completeness auto
termination
  by (relation "measure (\<lambda>(key, best, i, n). n - i)") auto

declare argmin_idx.simps [simp del]

lemma argmin_idx_cases: "argmin_idx key best i n = best \<or> i \<le> argmin_idx key best i n \<and> argmin_idx key best i n < n"
proof (induction key best i n rule: argmin_idx.induct)
  case (1 key best i n)
  show ?case
  proof (cases "i < n")
    case True
    then have "argmin_idx key best i n = argmin_idx key (if key i < key best then i else best) (Suc i) n"
      by (simp add: argmin_idx.simps [of key best i n])
    with 1 [OF True] True show ?thesis by auto
  next
    case False
    then show ?thesis by (simp add: argmin_idx.simps [of key best i n])
  qed
qed

lemma argmin_idx_le:
  "key (argmin_idx key best i n) \<le> key best \<and>
   (\<forall>j. i \<le> j \<and> j < n \<longrightarrow> key (argmin_idx key best i n) \<le> key j)"
proof (induction key best i n rule: argmin_idx.induct)
  case (1 key best i n)
  show ?case
  proof (cases "i < n")
    case True
    let ?b = "if key i < key best then i else best"
    have eq: "argmin_idx key best i n = argmin_idx key ?b (Suc i) n"
      using True by (simp add: argmin_idx.simps [of key best i n])
    have IH: "key (argmin_idx key ?b (Suc i) n) \<le> key ?b"
      "\<And>j. Suc i \<le> j \<Longrightarrow> j < n \<Longrightarrow> key (argmin_idx key ?b (Suc i) n) \<le> key j"
      using 1 [OF True] by auto
    have b: "key ?b \<le> key best" "key ?b \<le> key i" by auto
    have "key (argmin_idx key ?b (Suc i) n) \<le> key j" if "i \<le> j" "j < n" for j
    proof (cases "j = i")
      case True
      then show ?thesis using IH(1) b(2) by (blast intro: order_trans)
    next
      case False
      then show ?thesis using IH(2) [of j] that by simp
    qed
    moreover have "key (argmin_idx key ?b (Suc i) n) \<le> key best"
      using IH(1) b(1) by (rule order_trans)
    ultimately show ?thesis unfolding eq by blast
  next
    case False
    then show ?thesis by (auto simp: argmin_idx.simps [of key best i n])
  qed
qed

corollary argmin_idx_lt: "best < n \<Longrightarrow> argmin_idx key best i n < n"
  using argmin_idx_cases [of key best i n] by auto


section \<open>Closing a gap in an array\<close>

text \<open>\<^verbatim>\<open>for (j = i; j < n - 1; ++j) a[j] = a[j + 1];\<close>\<close>

function shift_loop :: "'a carray \<Rightarrow> nat \<Rightarrow> nat \<Rightarrow> 'a carray" where
  "shift_loop a j n = (if Suc j < n then shift_loop (a(j := a (Suc j))) (Suc j) n else a)"
  by pat_completeness auto
termination
  by (relation "measure (\<lambda>(a, j, n). n - j)") auto

declare shift_loop.simps [simp del]

text \<open>\<^verbatim>\<open>memmove(a + i, a + i + 1, (n - i - 1) * sizeof(a[0]));\<close>\<close>

definition memmove_down :: "'a carray \<Rightarrow> nat \<Rightarrow> nat \<Rightarrow> 'a carray" where
  "memmove_down a i n = (\<lambda>j. if i \<le> j \<and> Suc j < n then a (Suc j) else a j)"

lemma shift_loop_eq_memmove: "shift_loop a i n = memmove_down a i n"
proof (induction a i n rule: shift_loop.induct)
  case (1 a i n)
  show ?case
  proof (cases "Suc i < n")
    case True
    then have "shift_loop a i n = memmove_down (a(i := a (Suc i))) (Suc i) n"
      using 1 [OF True] by (simp add: shift_loop.simps [of a i n] fun_upd_def)
    also have "\<dots> = memmove_down a i n"
      using True by (auto simp: memmove_down_def fun_eq_iff)
    finally show ?thesis .
  next
    case False
    then show ?thesis by (auto simp: shift_loop.simps [of a i n] memmove_down_def fun_eq_iff)
  qed
qed

text \<open>The first \<open>n\<close> cells of an array.\<close>

definition arr_list :: "'a carray \<Rightarrow> nat \<Rightarrow> 'a list" where
  "arr_list a n = map a [0..<n]"

lemma length_arr_list [simp]: "length (arr_list a n) = n"
  by (simp add: arr_list_def)

lemma nth_arr_list [simp]: "i < n \<Longrightarrow> arr_list a n ! i = a i"
  by (simp add: arr_list_def)

lemma arr_list_0 [simp]: "arr_list a 0 = []"
  by (simp add: arr_list_def)

lemma arr_list_eq_Nil_iff [simp]: "arr_list a n = [] \<longleftrightarrow> n = 0"
  by (simp add: arr_list_def)

lemma set_arr_list: "set (arr_list a n) = a ` {..<n}"
  by (auto simp: arr_list_def)

lemma in_set_arr_list: "x \<in> set (arr_list a n) \<longleftrightarrow> (\<exists>i < n. a i = x)"
  by (auto simp: set_arr_list)

lemma arr_list_push [array_simps]: "arr_list (a(n := x)) (Suc n) = arr_list a n @ [x]"
  by (auto simp: arr_list_def)

lemma arr_list_upd [array_simps]: "i < n \<Longrightarrow> arr_list (a(i := x)) n = (arr_list a n)[i := x]"
  by (rule nth_equalityI) (auto simp: nth_list_update)

lemma arr_list_remove [array_simps]:
  assumes "i < n"
  shows "arr_list (memmove_down a i n) (n - 1) = take i (arr_list a n) @ drop (Suc i) (arr_list a n)"
  by (rule nth_equalityI) (use assms in \<open>auto simp: memmove_down_def nth_append min_def\<close>)

lemma arr_list_remove_first [array_simps]:
  "0 < n \<Longrightarrow> arr_list (memmove_down a 0 n) (n - 1) = tl (arr_list a n)"
  using arr_list_remove [of 0 n a] by (simp add: drop_Suc)

lemma arr_list_first [array_simps]: "0 < n \<Longrightarrow> hd (arr_list a n) = a 0"
  by (simp add: hd_conv_nth)

lemma distinct_arr_list: "distinct (arr_list a n) \<longleftrightarrow> inj_on a {..<n}"
  by (auto simp: arr_list_def distinct_map atLeast0LessThan)

text \<open>Removing the first occurrence of an element that the scan finds.\<close>

lemma take_drop_remove1:
  assumes "i < length xs" "xs ! i = x" "\<And>j. j < i \<Longrightarrow> xs ! j \<noteq> x"
  shows "take i xs @ drop (Suc i) xs = remove1 x xs"
  using assms
proof (induction xs arbitrary: i)
  case Nil
  then show ?case by simp
next
  case (Cons y ys)
  show ?case
  proof (cases i)
    case 0
    with Cons.prems show ?thesis by simp
  next
    case (Suc k)
    have "y \<noteq> x" using Cons.prems(3) [of 0] Suc by simp
    moreover have "take k ys @ drop (Suc k) ys = remove1 x ys"
    proof (rule Cons.IH)
      show "k < length ys" "ys ! k = x" using Cons.prems(1,2) Suc by simp_all
      show "ys ! j \<noteq> x" if "j < k" for j using Cons.prems(3) [of "Suc j"] that Suc by simp
    qed
    ultimately show ?thesis using Suc by simp
  qed
qed

lemma arr_list_remove1:
  assumes "first_idx (\<lambda>i. a i = x) 0 n = Some i"
  shows "arr_list (memmove_down a i n) (n - 1) = remove1 x (arr_list a n)"
  using first_idx_SomeD [OF assms]
    arr_list_remove [of i n a] take_drop_remove1 [of i "arr_list a n" x] by simp

lemma first_idx_arr_list:
  "first_idx (\<lambda>i. a i = x) 0 n = None \<longleftrightarrow> x \<notin> set (arr_list a n)"
  by (auto simp: first_idx_None_iff in_set_arr_list)

lemma distinct_take_drop_remove1:
  assumes "distinct xs" "i < length xs"
  shows "take i xs @ drop (Suc i) xs = remove1 (xs ! i) xs"
  using assms by (intro take_drop_remove1) (auto simp: nth_eq_iff_index_eq)

lemma distinct_remove_nth:
  "distinct xs \<Longrightarrow> i < length xs \<Longrightarrow> set (take i xs @ drop (Suc i) xs) = set xs - {xs ! i}"
  by (simp only: distinct_take_drop_remove1 set_remove1_eq)

lemma distinct_take_drop:
  "distinct xs \<Longrightarrow> i < length xs \<Longrightarrow> distinct (take i xs @ drop (Suc i) xs)"
  by (simp only: distinct_take_drop_remove1 distinct_remove1)


section \<open>Byte blocks\<close>

text \<open>\<^verbatim>\<open>memset(a + off, v, n)\<close> and \<^verbatim>\<open>memcpy(dst + doff, src + soff, n)\<close>.\<close>

definition memset_arr :: "'a carray \<Rightarrow> nat \<Rightarrow> nat \<Rightarrow> 'a \<Rightarrow> 'a carray" where
  "memset_arr a off n v = (\<lambda>j. if off \<le> j \<and> j < off + n then v else a j)"

definition memcpy_arr :: "'a carray \<Rightarrow> nat \<Rightarrow> 'a carray \<Rightarrow> nat \<Rightarrow> nat \<Rightarrow> 'a carray" where
  "memcpy_arr dst doff src soff n =
     (\<lambda>j. if doff \<le> j \<and> j < doff + n then src (soff + (j - doff)) else dst j)"

lemma memset_arr_apply: "memset_arr a off n v j = (if off \<le> j \<and> j < off + n then v else a j)"
  by (simp add: memset_arr_def)

lemma memcpy_arr_apply:
  "memcpy_arr dst doff src soff n j =
     (if doff \<le> j \<and> j < doff + n then src (soff + (j - doff)) else dst j)"
  by (simp add: memcpy_arr_def)


section \<open>Circular buffers\<close>

definition ring_list :: "nat \<Rightarrow> 'a carray \<Rightarrow> nat \<Rightarrow> nat \<Rightarrow> 'a list" where
  "ring_list cap a head len = map (\<lambda>i. a ((head + i) mod cap)) [0..<len]"

lemma length_ring_list [simp]: "length (ring_list cap a head len) = len"
  by (simp add: ring_list_def)

lemma ring_list_0 [simp]: "ring_list cap a head 0 = []"
  by (simp add: ring_list_def)

lemma ring_list_eq_Nil_iff [simp]: "ring_list cap a head len = [] \<longleftrightarrow> len = 0"
  by (simp add: ring_list_def)

lemma in_set_ring_list: "x \<in> set (ring_list cap a head len) \<longleftrightarrow> (\<exists>i < len. a ((head + i) mod cap) = x)"
  by (auto simp: ring_list_def)

lemma ring_index_inj:
  assumes "(head + i) mod cap = (head + j) mod cap" "i < cap" "j < cap"
  shows "i = (j::nat)"
proof -
  have *: "x = y" if "(head + x) mod cap = (head + y) mod cap" "x \<le> y" "y < cap" for x y :: nat
  proof -
    have "cap dvd (head + y) - (head + x)" using that by (metis mod_eq_dvd_iff_nat nat_add_left_cancel_le)
    then have "cap dvd y - x" by simp
    then show ?thesis using that by (metis diff_is_0_eq dvd_imp_le le_antisym less_imp_diff_less
        linorder_not_le zero_less_diff)
  qed
  show ?thesis using * [of i j] * [of j i] assms by (cases "i \<le> j") auto
qed

lemma distinct_ring_list_upd:
  assumes "len < cap"
  shows "ring_list cap (a((head + len) mod cap := x)) head len = ring_list cap a head len"
  using assms by (auto simp: ring_list_def dest!: ring_index_inj)

lemma ring_list_push [array_simps]:
  assumes "len < cap"
  shows "ring_list cap (a((head + len) mod cap := x)) head (Suc len) = ring_list cap a head len @ [x]"
  using distinct_ring_list_upd [OF assms, of a head x] by (simp add: ring_list_def)

lemma ring_list_pop [array_simps]:
  assumes "0 < len"
  shows "ring_list cap a ((head + 1) mod cap) (len - 1) = tl (ring_list cap a head len)"
  by (rule nth_equalityI) (use assms in \<open>auto simp: ring_list_def nth_tl mod_simps\<close>)

lemma ring_list_first [array_simps]:
  "0 < len \<Longrightarrow> hd (ring_list cap a head len) = a (head mod cap)"
  by (simp add: ring_list_def hd_map upt_conv_Cons)


section \<open>Rounding up to a power of two\<close>

lemma unat_and_not_mask:
  fixes x :: "'a::len word"
  shows "unat (x AND NOT (mask k)) = unat x - unat x mod 2 ^ k"
proof -
  have p: "x AND NOT (mask k) = push_bit k (drop_bit k x)"
    by (rule bit_word_eqI) (auto simp: bit_simps)
  have "x AND NOT (mask k) = x - take_bit k x"
    using bits_ident [of k x] unfolding p by (metis add_diff_cancel_right')
  moreover have "unat (take_bit k x) = unat x mod 2 ^ k"
    by (simp only: unsigned_take_bit_eq) (simp add: take_bit_eq_mod)
  moreover from this have "take_bit k x \<le> x" by (simp add: word_le_nat_alt)
  ultimately show ?thesis by (simp add: unat_sub)
qed

lemma unat_align_up:
  fixes x :: "'a::len word"
  assumes "k < LENGTH('a)" "unat x + (2 ^ k - 1) < 2 ^ LENGTH('a)"
  shows "unat ((x + 2 ^ k - 1) AND NOT (2 ^ k - 1)) = (unat x + (2 ^ k - 1)) div 2 ^ k * 2 ^ k"
proof -
  have lt: "(2::nat) ^ k < 2 ^ LENGTH('a)" using assms(1) by simp
  have "unat (of_nat (2 ^ k - 1) :: 'a word) = 2 ^ k - 1"
    by (simp only: unat_of_nat mod_less less_imp_diff_less [OF lt])
  moreover have "of_nat (2 ^ k - 1) = (mask k :: 'a word)"
    by (simp add: mask_eq_exp_minus_1 of_nat_diff)
  ultimately have m: "unat (mask k :: 'a word) = 2 ^ k - 1" by simp
  have x: "x + 2 ^ k - 1 = x + mask k" by (simp add: mask_eq_exp_minus_1)
  have u: "unat (x + mask k) = unat x + (2 ^ k - 1)"
    using unat_add_lem [of x "mask k"] assms(2) m by simp
  have "unat ((x + 2 ^ k - 1) AND NOT (2 ^ k - 1)) = unat ((x + mask k) AND NOT (mask k))"
    by (simp only: x mask_eq_exp_minus_1)
  also have "\<dots> = (unat x + (2 ^ k - 1)) div 2 ^ k * 2 ^ k"
    by (simp only: unat_and_not_mask u minus_mod_eq_div_mult)
  finally show ?thesis .
qed

end
