(* ===== verification/Mosrt_Interfaces.thy ===== *)
theory Mosrt_Interfaces
  imports Mosrt_Prelude
begin

text \<open>
  The contracts that several components of MOSRT share, each stated once as a locale with
  the consequences its clients use. Every locale is interpreted on the model's own
  operations in the theory of the component that provides them:

  \<^item> \<open>slot_table\<close>: a first-fit allocator of numbered slots (the frame table of
    \<^verbatim>\<open>frame.c\<close>, the swap table of \<^verbatim>\<open>swap.c\<close>);
  \<^item> \<open>bounded_fifo\<close>: a circular buffer (the ready queues of \<^verbatim>\<open>sched.c\<close>, the message
    buffer of \<^verbatim>\<open>ipc.c\<close>);
  \<^item> \<open>wait_queue\<close>: a bounded duplicate-free array of waiting process ids, served in
    order of arrival (\<^verbatim>\<open>ipc.c\<close> and \<^verbatim>\<open>sync.c\<close>);
  \<^item> \<open>id_table\<close>: a fixed array of records found by an integer id (the message queues of
    \<^verbatim>\<open>ipc.c\<close>, the semaphores of \<^verbatim>\<open>sync.c\<close>);
  \<^item> \<open>transition_invariant\<close>: a step relation and what its steps preserve (the process table, the
    runtime, and the runtime together with memory).
\<close>

section \<open>First-fit slot allocators\<close>

locale slot_table =
  fixes cap :: nat
    and busy :: "'s \<Rightarrow> nat set"
    and good :: "'s \<Rightarrow> bool"
    and acquire :: "'k \<Rightarrow> 's \<Rightarrow> nat option \<times> 's"
    and release :: "nat \<Rightarrow> 's \<Rightarrow> 's"
  assumes busy_bound: "busy s \<subseteq> {..<cap}"
    and acquire_Some: "\<And>k s i s'. acquire k s = (Some i, s') \<Longrightarrow>
          i < cap \<and> i \<notin> busy s \<and> {..<i} \<subseteq> busy s \<and> busy s' = insert i (busy s)"
    and acquire_None: "\<And>k s s'. acquire k s = (None, s') \<Longrightarrow> s' = s \<and> {..<cap} \<subseteq> busy s"
    and acquire_good: "\<And>k s i s'. good s \<Longrightarrow> acquire k s = (Some i, s') \<Longrightarrow> good s'"
    and release_busy: "\<And>i s. i < cap \<Longrightarrow> busy (release i s) = busy s - {i}"
    and release_good: "\<And>i s. good s \<Longrightarrow> good (release i s)"
begin

lemma finite_busy: "finite (busy s)"
  using busy_bound finite_subset by blast

lemma busy_card: "card (busy s) \<le> cap"
  using card_mono [OF _ busy_bound] by force

lemma full_iff: "card (busy s) = cap \<longleftrightarrow> {..<cap} \<subseteq> busy s"
  by (metis busy_bound card_lessThan card_subset_eq finite_lessThan subset_antisym)

lemma acquire_fails_iff: "fst (acquire k s) = None \<longleftrightarrow> card (busy s) = cap"
proof
  assume "fst (acquire k s) = None"
  then show "card (busy s) = cap" using acquire_None full_iff by (metis prod.collapse)
next
  assume full: "card (busy s) = cap"
  show "fst (acquire k s) = None"
  proof (rule ccontr)
    assume "fst (acquire k s) \<noteq> None"
    then obtain i s' where "acquire k s = (Some i, s')" by (metis option.exhaust prod.collapse)
    then have "i < cap" "i \<notin> busy s" using acquire_Some by blast+
    then show False using full full_iff by blast
  qed
qed

lemma acquire_available:
  assumes "card (busy s) < cap"
  obtains i s' where "acquire k s = (Some i, s')" "i < cap" "i \<notin> busy s" "busy s' = insert i (busy s)"
proof -
  have "fst (acquire k s) \<noteq> None" using assms acquire_fails_iff by (metis less_irrefl)
  then obtain i s' where "acquire k s = (Some i, s')" by (metis option.exhaust prod.collapse)
  then show ?thesis using that acquire_Some by blast
qed

lemma acquire_card:
  assumes "acquire k s = (Some i, s')"
  shows "card (busy s') = Suc (card (busy s))"
  using acquire_Some [OF assms] finite_busy by simp

text \<open>Releasing the slot that was just acquired gives back the set of busy slots.\<close>

lemma release_acquire:
  assumes "acquire k s = (Some i, s')"
  shows "busy (release i s') = busy s"
  using acquire_Some [OF assms] release_busy by auto

text \<open>
  In a full table the released slot is the one the next request gets: the paging code
  frees the victim's frame and relies on the next allocation to return it.
\<close>

lemma reacquire_released:
  assumes "i < cap" "{..<cap} \<subseteq> busy s"
  obtains s' where "acquire k (release i s) = (Some i, s')" "busy s' = {..<cap}"
proof -
  have b: "busy (release i s) = {..<cap} - {i}"
    using assms release_busy busy_bound by blast
  then have "card (busy (release i s)) < cap" using assms(1) by (simp add: card_Diff_singleton)
  then obtain j s' where j: "acquire k (release i s) = (Some j, s')" "j < cap"
      "j \<notin> busy (release i s)" "busy s' = insert j (busy (release i s))"
    by (rule acquire_available)
  then have "j = i" using b by blast
  with j b assms(1) that show ?thesis by (metis insert_Diff lessThan_iff)
qed

end


section \<open>Circular buffers\<close>

locale bounded_fifo =
  fixes cap :: nat
    and view :: "'q \<Rightarrow> 'a list"
    and valid :: "'q \<Rightarrow> bool"
    and put :: "'a \<Rightarrow> 'q \<Rightarrow> 'q"
    and front :: "'q \<Rightarrow> 'a"
    and drop1 :: "'q \<Rightarrow> 'q"
  assumes view_bound: "valid q \<Longrightarrow> length (view q) \<le> cap"
    and view_put: "\<And>x. valid q \<Longrightarrow> length (view q) < cap \<Longrightarrow> view (put x q) = view q @ [x]"
    and valid_put: "\<And>x. valid q \<Longrightarrow> length (view q) < cap \<Longrightarrow> valid (put x q)"
    and front_view: "valid q \<Longrightarrow> view q \<noteq> [] \<Longrightarrow> front q = hd (view q)"
    and view_drop1: "valid q \<Longrightarrow> view q \<noteq> [] \<Longrightarrow> view (drop1 q) = tl (view q)"
    and valid_drop1: "valid q \<Longrightarrow> view q \<noteq> [] \<Longrightarrow> valid (drop1 q)"
begin

lemma valid_puts:
  "valid q \<Longrightarrow> length (view q) + length xs \<le> cap \<Longrightarrow>
     valid (fold put xs q) \<and> view (fold put xs q) = view q @ xs"
proof (induction xs arbitrary: q)
  case Nil
  then show ?case by simp
next
  case (Cons x xs)
  then have "valid (put x q)" "view (put x q) = view q @ [x]"
    by (auto intro: valid_put view_put)
  with Cons.IH [of "put x q"] Cons.prems show ?case by simp
qed

lemma valid_drops:
  "valid q \<Longrightarrow> n \<le> length (view q) \<Longrightarrow>
     valid ((drop1 ^^ n) q) \<and> view ((drop1 ^^ n) q) = drop n (view q)"
proof (induction n)
  case 0
  then show ?case by simp
next
  case (Suc n)
  then have "valid ((drop1 ^^ n) q)" "view ((drop1 ^^ n) q) = drop n (view q)" by auto
  moreover from this Suc.prems have "view ((drop1 ^^ n) q) \<noteq> []" by simp
  ultimately show ?case by (simp add: valid_drop1 view_drop1 drop_Suc tl_drop)
qed

text \<open>First in, first out: the element put at position \<open>n\<close> comes to the front after \<open>n\<close> removals.\<close>

lemma fifo_order:
  assumes "valid q" "length (view q) + length xs \<le> cap" "n < length xs"
  shows "front ((drop1 ^^ (length (view q) + n)) (fold put xs q)) = xs ! n"
proof -
  let ?q = "fold put xs q" and ?k = "length (view q) + n"
  have q: "valid ?q" "view ?q = view q @ xs" using assms valid_puts by blast+
  then have d: "valid ((drop1 ^^ ?k) ?q)" "view ((drop1 ^^ ?k) ?q) = drop n xs"
    using valid_drops [of ?q ?k] assms(3) by auto
  then have "front ((drop1 ^^ ?k) ?q) = hd (drop n xs)"
    using front_view assms(3) by fastforce
  then show ?thesis using assms(3) by (simp add: hd_drop_conv_nth)
qed

end


section \<open>Queues of waiting processes\<close>

locale wait_queue =
  fixes cap :: nat
    and waiting :: "'q \<Rightarrow> int list"
    and ok :: "'q \<Rightarrow> bool"
    and add :: "'q \<Rightarrow> int \<Rightarrow> 'q"
    and pop :: "'q \<Rightarrow> int \<times> 'q"
  assumes ok_bound: "ok q \<Longrightarrow> length (waiting q) \<le> cap"
    and ok_distinct: "ok q \<Longrightarrow> distinct (waiting q)"
    and waiting_add: "\<And>p. ok q \<Longrightarrow> waiting (add q p) =
          (if p \<in> set (waiting q) \<or> cap \<le> length (waiting q) then waiting q else waiting q @ [p])"
    and ok_add: "\<And>p. ok q \<Longrightarrow> ok (add q p)"
    and pop_empty: "ok q \<Longrightarrow> waiting q = [] \<Longrightarrow> pop q = (-1, q)"
    and pop_first: "ok q \<Longrightarrow> waiting q \<noteq> [] \<Longrightarrow> fst (pop q) = hd (waiting q)"
    and waiting_pop: "ok q \<Longrightarrow> waiting (snd (pop q)) = tl (waiting q)"
    and ok_pop: "ok q \<Longrightarrow> ok (snd (pop q))"
begin

lemma add_member:
  "ok q \<Longrightarrow> length (waiting q) < cap \<Longrightarrow> p \<in> set (waiting (add q p))"
  by (auto simp: waiting_add)

text \<open>Adding never reorders or drops the processes that already wait.\<close>

lemma add_prefix: "ok q \<Longrightarrow> \<exists>ps. waiting (add q p) = waiting q @ ps"
  by (auto simp: waiting_add)

text \<open>A process that already waits keeps its place when it is added again.\<close>

lemma add_again: "ok q \<Longrightarrow> p \<in> set (waiting q) \<Longrightarrow> waiting (add q p) = waiting q"
  by (simp add: waiting_add)

lemma waiting_pops: "ok q \<Longrightarrow> ok (((snd \<circ> pop) ^^ n) q) \<and> waiting (((snd \<circ> pop) ^^ n) q) = drop n (waiting q)"
  by (induction n) (auto simp: ok_pop waiting_pop tl_drop drop_Suc)

text \<open>The process at position \<open>n\<close> is served by pop number \<open>n + 1\<close>: no waiter is overtaken.\<close>

lemma served_in_order:
  assumes "ok q" "n < length (waiting q)"
  shows "fst (pop (((snd \<circ> pop) ^^ n) q)) = waiting q ! n"
  using waiting_pops [OF assms(1), of n] assms(2) pop_first by (simp add: hd_drop_conv_nth)

lemma popped_not_waiting:
  assumes "ok q" "waiting q \<noteq> []"
  shows "fst (pop q) \<notin> set (waiting (snd (pop q)))"
  using assms ok_distinct [of q] by (cases "waiting q") (auto simp: pop_first waiting_pop)

end


text \<open>
  The representation both \<^verbatim>\<open>ipc.c\<close> and \<^verbatim>\<open>sync.c\<close> use: an array filled from index 0 with its
  length, the first waiter at index 0. \<open>waitq_ok\<close> is the invariant of such an array of
  capacity 128 that holds process ids.
\<close>

record waitq =
  w_pids :: "int carray"
  w_len :: nat

definition waiters :: "waitq \<Rightarrow> int list" where
  "waiters q = arr_list (w_pids q) (w_len q)"

definition waitq_ok :: "waitq \<Rightarrow> bool" where
  "waitq_ok q \<longleftrightarrow> distinct (waiters q) \<and> w_len q \<le> 128"

lemma length_waiters [simp]: "length (waiters q) = w_len q"
  by (simp add: waiters_def)

lemma waiters_empty_iff: "waiters q = [] \<longleftrightarrow> w_len q = 0"
  by (simp add: waiters_def)

lemma waiters_scan: "first_idx (\<lambda>i. w_pids q i = p) 0 (w_len q) = None \<longleftrightarrow> p \<notin> set (waiters q)"
  by (simp add: waiters_def first_idx_arr_list)

lemma waiters_append:
  "waiters (q\<lparr>w_pids := (w_pids q)(w_len q := p), w_len := Suc (w_len q)\<rparr>) = waiters q @ [p]"
  by (simp add: waiters_def arr_list_push)

lemma waiters_behead:
  "0 < w_len q \<Longrightarrow>
     waiters (q\<lparr>w_pids := memmove_down (w_pids q) 0 (w_len q), w_len := w_len q - Suc 0\<rparr>) = tl (waiters q)"
  using arr_list_remove_first [of "w_len q" "w_pids q"] by (simp add: waiters_def)

lemma waiters_first: "0 < w_len q \<Longrightarrow> w_pids q 0 = hd (waiters q)"
  by (simp add: waiters_def arr_list_first)

lemma waiters_delete:
  "first_idx (\<lambda>i. w_pids q i = p) 0 (w_len q) = Some i \<Longrightarrow>
     waiters (q\<lparr>w_pids := memmove_down (w_pids q) i (w_len q), w_len := w_len q - Suc 0\<rparr>) = remove1 p (waiters q)"
  using arr_list_remove1 [of "w_pids q" p "w_len q" i] by (simp add: waiters_def)

lemmas waiters_simps = waiters_append waiters_behead waiters_delete waiters_scan


section \<open>Arrays of records with an id\<close>

locale id_table =
  fixes cap :: nat
    and used :: "'r \<Rightarrow> bool"
    and ident :: "'r \<Rightarrow> int"
    and lookup :: "int \<Rightarrow> 'r carray \<Rightarrow> nat option"
    and unused :: "'r carray \<Rightarrow> nat option"
  assumes lookup_scan: "lookup k tab = first_idx (\<lambda>i. used (tab i) \<and> ident (tab i) = k) 0 cap"
    and unused_scan: "unused tab = first_idx (\<lambda>i. \<not> used (tab i)) 0 cap"
begin

definition unique_ids :: "'r carray \<Rightarrow> bool" where
  "unique_ids tab \<longleftrightarrow> (\<forall>i < cap. \<forall>j < cap. used (tab i) \<longrightarrow> used (tab j) \<longrightarrow> ident (tab i) = ident (tab j) \<longrightarrow> i = j)"

lemma unique_idsD:
  "unique_ids tab \<Longrightarrow> i < cap \<Longrightarrow> j < cap \<Longrightarrow> used (tab i) \<Longrightarrow> used (tab j) \<Longrightarrow> ident (tab i) = ident (tab j) \<Longrightarrow> i = j"
  by (simp add: unique_ids_def)

lemma lookup_SomeD:
  assumes "lookup k tab = Some i"
  shows "i < cap" "used (tab i)" "ident (tab i) = k"
  using first_idx_SomeD [of _ 0 cap i] assms by (auto simp: lookup_scan)

lemma lookup_None_iff: "lookup k tab = None \<longleftrightarrow> (\<forall>i < cap. used (tab i) \<longrightarrow> ident (tab i) \<noteq> k)"
  by (auto simp: lookup_scan first_idx_None_iff)

lemma lookup_iff:
  assumes "unique_ids tab"
  shows "lookup k tab = Some i \<longleftrightarrow> i < cap \<and> used (tab i) \<and> ident (tab i) = k"
proof
  assume i: "i < cap \<and> used (tab i) \<and> ident (tab i) = k"
  then obtain j where j: "lookup k tab = Some j" using lookup_None_iff [of k tab] by (cases "lookup k tab") auto
  then have "j = i" using lookup_SomeD [OF j] i assms by (intro unique_idsD [of tab j i]) auto
  with j show "lookup k tab = Some i" by simp
qed (use lookup_SomeD in blast)

lemma unused_SomeD: "unused tab = Some i \<Longrightarrow> i < cap \<and> \<not> used (tab i)"
  using first_idx_SomeD [of _ 0 cap i] by (auto simp: unused_scan)

lemma unused_None_iff: "unused tab = None \<longleftrightarrow> (\<forall>i < cap. used (tab i))"
  by (auto simp: unused_scan first_idx_None_iff)

text \<open>Writing the record of id \<open>k\<close> at its own index, or at an unused one when \<open>k\<close> is new.\<close>

lemma write_record:
  assumes u: "unique_ids tab" and r: "used r" "ident r = k"
    and i: "lookup k tab = Some i \<or> lookup k tab = None \<and> unused tab = Some i"
  shows "unique_ids (tab(i := r))" and "lookup q (tab(i := r)) = (if q = k then Some i else lookup q tab)"
proof -
  have lt: "i < cap" using i lookup_SomeD(1) unused_SomeD by blast
  have other: "ident (tab j) \<noteq> k" if "j < cap" "used (tab j)" "j \<noteq> i" for j
  proof (cases "lookup k tab")
    case None
    then show ?thesis using that lookup_None_iff by blast
  next
    case (Some i')
    then have "i' = i" using i by auto
    then show ?thesis using that lookup_SomeD [OF Some] unique_idsD [OF u, of j i] by auto
  qed
  have mine: "ident (tab i) = k \<or> \<not> used (tab i)"
    using i lookup_SomeD(3) unused_SomeD by blast
  show u': "unique_ids (tab(i := r))"
    unfolding unique_ids_def
  proof (intro allI impI)
    fix a b assume ab: "a < cap" "b < cap" "used ((tab(i := r)) a)" "used ((tab(i := r)) b)"
      "ident ((tab(i := r)) a) = ident ((tab(i := r)) b)"
    show "a = b"
      using ab r other [of a] other [of b] unique_idsD [OF u ab(1,2)] by (cases "a = i"; cases "b = i") auto
  qed
  show "lookup q (tab(i := r)) = (if q = k then Some i else lookup q tab)"
  proof (cases "q = k")
    case True
    then show ?thesis using lt r by (simp add: lookup_iff [OF u'])
  next
    case False
    have "lookup q (tab(i := r)) = Some j \<longleftrightarrow> lookup q tab = Some j" for j
      using False mine r by (auto simp: lookup_iff [OF u'] lookup_iff [OF u])
    then show ?thesis using False by (metis not_Some_eq)
  qed
qed

end


section \<open>Transition systems\<close>

locale transition_invariant =
  fixes step :: "'s \<Rightarrow> 's \<Rightarrow> bool" and inv :: "'s \<Rightarrow> bool"
  assumes step_inv: "step s s' \<Longrightarrow> inv s \<Longrightarrow> inv s'"
begin

lemma steps_inv: "step\<^sup>*\<^sup>* s s' \<Longrightarrow> inv s \<Longrightarrow> inv s'"
  by (induction rule: rtranclp_induct) (auto intro: step_inv)

text \<open>A relation that every step from a state of the invariant has, holds from the start to the end of a run.\<close>

lemma steps_rel:
  assumes "step\<^sup>*\<^sup>* s s'" "inv s" "\<And>s. R s s" "\<And>s s' s''. R s s' \<Longrightarrow> inv s' \<Longrightarrow> step s' s'' \<Longrightarrow> R s s''"
  shows "R s s'"
  using assms(1)
proof (induction rule: rtranclp_induct)
  case (step y z)
  then show ?case using assms(4) [OF step.IH steps_inv [OF step.hyps(1) assms(2)] step.hyps(2)] by blast
qed (rule assms(3))

end

end
