(* ===== verification/VM_Types.thy ===== *)
theory VM_Types
  imports Mosrt_Interfaces
begin

text \<open>
  \<^verbatim>\<open>vm_types.h\<close>: the sizes of the simulated memory, the protection bits, and the page
  table, TLB and heap-block structures.
\<close>

section \<open>Constants\<close>

definition VM_PAGE_SIZE :: nat where "VM_PAGE_SIZE = 256"
definition VM_PAGE_SHIFT :: nat where "VM_PAGE_SHIFT = 8"
definition VM_PAGE_MASK :: u16 where "VM_PAGE_MASK = 255"
definition VM_VIRT_ADDR_SPACE_SIZE :: nat where "VM_VIRT_ADDR_SPACE_SIZE = 65536"
definition VM_NUM_PAGES :: nat where "VM_NUM_PAGES = VM_VIRT_ADDR_SPACE_SIZE div VM_PAGE_SIZE"
definition VM_PHYS_MEM_SIZE :: nat where "VM_PHYS_MEM_SIZE = 16384"
definition VM_NUM_FRAMES :: nat where "VM_NUM_FRAMES = VM_PHYS_MEM_SIZE div VM_PAGE_SIZE"
definition VM_SWAP_SIZE :: nat where "VM_SWAP_SIZE = 65536"
definition VM_NUM_SWAP_SLOTS :: nat where "VM_NUM_SWAP_SLOTS = VM_SWAP_SIZE div VM_PAGE_SIZE"
definition VM_TLB_SIZE :: nat where "VM_TLB_SIZE = 16"
definition VM_PAGE_FAULT_LATENCY :: u64 where "VM_PAGE_FAULT_LATENCY = 5"

definition VM_SEG_TEXT_PAGES :: nat where "VM_SEG_TEXT_PAGES = 16"
definition VM_SEG_RODATA_PAGES :: nat where "VM_SEG_RODATA_PAGES = 16"
definition VM_SEG_DATA_PAGES :: nat where "VM_SEG_DATA_PAGES = 16"
definition VM_SEG_BSS_PAGES :: nat where "VM_SEG_BSS_PAGES = 16"
definition VM_SEG_HEAP_START :: u16 where "VM_SEG_HEAP_START = 0x4000"
definition VM_SEG_HEAP_MAX_PAGES :: nat where "VM_SEG_HEAP_MAX_PAGES = 128"
definition VM_SEG_STACK_MAX_PAGES :: nat where "VM_SEG_STACK_MAX_PAGES = 64"

definition VM_PROT_READ :: u8 where "VM_PROT_READ = 1"
definition VM_PROT_WRITE :: u8 where "VM_PROT_WRITE = 2"
definition VM_PROT_EXEC :: u8 where "VM_PROT_EXEC = 4"

lemma vm_sizes [simp]:
  "VM_PAGE_SIZE = 256" "VM_PAGE_SHIFT = 8" "VM_VIRT_ADDR_SPACE_SIZE = 65536" "VM_NUM_PAGES = 256"
  "VM_PHYS_MEM_SIZE = 16384" "VM_NUM_FRAMES = 64" "VM_NUM_SWAP_SLOTS = 256" "VM_TLB_SIZE = 16"
  by (simp_all add: VM_PAGE_SIZE_def VM_PAGE_SHIFT_def VM_VIRT_ADDR_SPACE_SIZE_def VM_NUM_PAGES_def
      VM_PHYS_MEM_SIZE_def VM_NUM_FRAMES_def VM_SWAP_SIZE_def VM_NUM_SWAP_SLOTS_def VM_TLB_SIZE_def)

lemma vm_segments [simp]:
  "VM_SEG_TEXT_PAGES = 16" "VM_SEG_RODATA_PAGES = 16" "VM_SEG_DATA_PAGES = 16" "VM_SEG_BSS_PAGES = 16"
  "VM_SEG_HEAP_MAX_PAGES = 128" "VM_SEG_STACK_MAX_PAGES = 64"
  by (simp_all add: VM_SEG_TEXT_PAGES_def VM_SEG_RODATA_PAGES_def VM_SEG_DATA_PAGES_def
      VM_SEG_BSS_PAGES_def VM_SEG_HEAP_MAX_PAGES_def VM_SEG_STACK_MAX_PAGES_def)

lemmas vm_prots = VM_PROT_READ_def VM_PROT_WRITE_def VM_PROT_EXEC_def


section \<open>Structures\<close>

record pte =
  frame_num :: u8
  permissions :: u8
  present :: bool
  dirty :: bool
  accessed :: bool
  referenced :: bool
  last_accessed_tick :: u32
  in_swap :: bool
  swap_slot :: u16

record tlb_entry =
  te_vpn :: u8
  te_pfn :: u8
  te_permissions :: u8
  te_valid :: bool
  te_dirty :: bool
  te_last_used_tick :: u32

record vm_block_hdr =
  bh_size :: u16
  bh_free :: bool
  bh_next :: u16
  bh_prev :: u16

text \<open>
  The owner record of a frame (\<^verbatim>\<open>frame_meta_t\<close>) and of a swap slot (\<^verbatim>\<open>swap_meta_t\<close>)
  have the same three fields.
\<close>

record slot_meta =
  m_pid :: int
  m_vpn :: u8
  m_allocated :: bool

definition zero_meta :: slot_meta where
  "zero_meta = \<lparr>m_pid = 0, m_vpn = 0, m_allocated = False\<rparr>"

lemma zero_meta_simps [simp]: "m_allocated zero_meta = False" "m_pid zero_meta = 0" "m_vpn zero_meta = 0"
  by (simp_all add: zero_meta_def)

text \<open>The slots in use among the first \<open>n\<close>, and how one update changes their number.\<close>

definition used_slots :: "nat \<Rightarrow> slot_meta carray \<Rightarrow> nat set" where
  "used_slots n meta = {i. i < n \<and> m_allocated (meta i)}"

lemma finite_used_slots [simp]: "finite (used_slots n meta)"
  by (simp add: used_slots_def)

lemma used_slots_bound: "used_slots n meta \<subseteq> {..<n}"
  by (auto simp: used_slots_def)

lemma used_slots_zero [simp]: "used_slots n (\<lambda>_. zero_meta) = {}"
  by (simp add: used_slots_def)

lemma used_slots_acquire:
  "i < n \<Longrightarrow> m_allocated x \<Longrightarrow> used_slots n (meta(i := x)) = insert i (used_slots n meta)"
  by (auto simp: used_slots_def)

lemma used_slots_release:
  "\<not> m_allocated x \<Longrightarrow> used_slots n (meta(i := x)) = used_slots n meta - {i}"
  by (auto simp: used_slots_def)

lemma used_slots_card: "card (used_slots n meta) \<le> n"
  using card_mono [OF finite_lessThan used_slots_bound [of n meta]] by simp

lemma used_slots_card_less: "i < n \<Longrightarrow> \<not> m_allocated (meta i) \<Longrightarrow> card (used_slots n meta) < n"
  using psubset_card_mono [of "{..<n}" "used_slots n meta"] used_slots_bound [of n meta]
  by (auto simp: used_slots_def psubset_eq)

lemma unat_u8_of_nat: "i < 256 \<Longrightarrow> unat (of_nat i :: u8) = i"
  by (simp add: unat_of_nat take_bit_eq_mod)

lemma unat_u16_of_nat: "i < 65536 \<Longrightarrow> unat (of_nat i :: u16) = i"
  by (simp add: unat_of_nat take_bit_eq_mod)

lemma unat_u8_less [simp]: "unat (x :: u8) < 256"
  using unsigned_less [of x] by simp

lemma unat_u16_less [simp]: "unat (x :: u16) < 65536"
  using unsigned_less [of x] by simp

lemma unat_u32_Suc: "unat (c :: u32) < 4294967295 \<Longrightarrow> unat (c + 1) = Suc (unat c)"
  by (simp add: unat_word_ariths)

lemma unat_u32_pred: "0 < unat (c :: u32) \<Longrightarrow> unat (c - 1) = unat c - 1"
  by (metis One_nat_def Suc_leI unat_1 unat_sub word_le_nat_alt)

end
