(* ===== verification/Proc.thy ===== *)
theory Proc
  imports VM_Types
begin

text \<open>
  \<^verbatim>\<open>proc.c\<close>: the process table, the process state machine and the guarded stacks.
  (\<open>proc_destroy\<close> and \<open>proc_table_shutdown\<close> also release a process's virtual memory and
  are modelled after the memory manager, in \<open>Proc_Destroy\<close>.)

  The static \<^verbatim>\<open>g_ptable\<close> is the record \<open>process_table\<close>. Its ghost field \<open>os_maps\<close> is the
  set of stack mappings (base address, size) the process currently holds from the
  operating system: \<^verbatim>\<open>mmap\<close> adds one, \<^verbatim>\<open>munmap\<close> removes one. What the operating system
  answers (page size, mapping address, success of \<^verbatim>\<open>mprotect\<close>) is the parameter \<open>os_env\<close>.
  Pointers are options over addresses; \<^verbatim>\<open>ucontext_t\<close> is not part of the record.
\<close>

definition MOSRT_MAX_PROCS :: nat where "MOSRT_MAX_PROCS = 1024"
definition MOSRT_DEFAULT_STACK_SIZE :: u64 where "MOSRT_DEFAULT_STACK_SIZE = 64 * 1024"
definition MOSRT_MAX_PRIO :: int where "MOSRT_MAX_PRIO = 39"
definition MOSRT_MIN_PRIO :: int where "MOSRT_MIN_PRIO = 0"
definition MOSRT_DEFAULT_PRIO :: int where "MOSRT_DEFAULT_PRIO = 20"

lemma proc_consts [simp]:
  "MOSRT_MAX_PROCS = 1024" "MOSRT_MAX_PRIO = 39" "MOSRT_MIN_PRIO = 0"
  by (simp_all add: MOSRT_MAX_PROCS_def MOSRT_MAX_PRIO_def MOSRT_MIN_PRIO_def)

datatype proc_state = PROC_NEW | PROC_READY | PROC_RUNNING | PROC_BLOCKED | PROC_EXITED

type_synonym vm_ptr = nat

record pcb =
  p_used :: bool
  p_pid :: int
  p_ppid :: int
  p_state :: proc_state
  p_priority :: int
  p_base_priority :: int
  p_nice :: int
  p_mlfq_level :: u32
  p_cpu_time :: u64
  p_wait_time :: u64
  p_response_time :: u64
  p_start_tick :: u64
  p_finish_tick :: u64
  p_last_ready_tick :: u64
  p_wakeup_tick :: u64
  p_stack :: "nat option"
  p_stack_size :: u64
  p_stack_mapping_size :: u64
  p_exit_code :: int
  p_vm :: "vm_ptr option"
  p_vm_last_alloc :: u16

definition zero_pcb :: pcb where
  "zero_pcb = \<lparr>p_used = False, p_pid = 0, p_ppid = 0, p_state = PROC_NEW, p_priority = 0,
     p_base_priority = 0, p_nice = 0, p_mlfq_level = 0, p_cpu_time = 0, p_wait_time = 0,
     p_response_time = 0, p_start_tick = 0, p_finish_tick = 0, p_last_ready_tick = 0,
     p_wakeup_tick = 0, p_stack = None, p_stack_size = 0, p_stack_mapping_size = 0,
     p_exit_code = 0, p_vm = None, p_vm_last_alloc = 0\<rparr>"

definition UINT64_MAX :: u64 where "UINT64_MAX = -1"

record process_table =
  entries :: "pcb carray"
  next_pid :: int
  pid_to_slot :: "int carray"
  os_maps :: "(nat \<times> u64) set"

record os_env =
  os_pagesize :: int
  os_mmap :: "u64 \<Rightarrow> nat option"
  os_mprotect_ok :: bool


section \<open>Stacks\<close>

definition page_size :: "os_env \<Rightarrow> u64" where
  "page_size e = (if 0 < os_pagesize e then of_int (os_pagesize e) else 4096)"

definition round_up :: "u64 \<Rightarrow> u64 \<Rightarrow> u64" where
  "round_up value align =
     (if align = 0 \<or> (-1) - (align - 1) < value then 0
      else (value + align - 1) AND NOT (align - 1))"

definition stack_alloc :: "os_env \<Rightarrow> u64 \<Rightarrow> (nat \<times> u64) set \<Rightarrow> (nat \<times> u64) option \<times> (nat \<times> u64) set" where
  "stack_alloc e usable_size maps =
     (if usable_size = 0 then (None, maps)
      else let guard = page_size e; usable_rounded = round_up usable_size guard
           in if usable_rounded = 0 \<or> (-1) - guard < usable_rounded then (None, maps)
              else let total = usable_rounded + guard
                   in case os_mmap e total of
                        None \<Rightarrow> (None, maps)
                      | Some mapping \<Rightarrow>
                          if \<not> os_mprotect_ok e then (None, insert (mapping, total) maps - {(mapping, total)})
                          else (Some (mapping + unat guard, total), insert (mapping, total) maps))"

definition stack_free :: "os_env \<Rightarrow> nat option \<Rightarrow> u64 \<Rightarrow> (nat \<times> u64) set \<Rightarrow> (nat \<times> u64) set" where
  "stack_free e stack mapped_size maps =
     (case stack of
        None \<Rightarrow> maps
      | Some a \<Rightarrow> if mapped_size = 0 then maps else maps - {(a - unat (page_size e), mapped_size)})"

definition release_stack :: "os_env \<Rightarrow> nat \<Rightarrow> process_table \<Rightarrow> process_table" where
  "release_stack e slot t =
     (let p = entries t slot
      in t\<lparr>entries := (entries t)(slot := p\<lparr>p_stack := None, p_stack_size := 0, p_stack_mapping_size := 0\<rparr>),
           os_maps := stack_free e (p_stack p) (p_stack_mapping_size p) (os_maps t)\<rparr>)"


section \<open>Slots and lookup\<close>

definition find_free_slot :: "process_table \<Rightarrow> nat option" where
  "find_free_slot t = first_idx (\<lambda>i. \<not> p_used (entries t i)) 0 MOSRT_MAX_PROCS"

definition find_slot_by_pid :: "int \<Rightarrow> process_table \<Rightarrow> nat option" where
  "find_slot_by_pid pid t =
     (if 1 \<le> pid \<and> pid < next_pid t \<and> pid \<le> int MOSRT_MAX_PROCS then
        (let slot = pid_to_slot t (nat (pid - 1))
         in if 0 \<le> slot \<and> slot < int MOSRT_MAX_PROCS \<and> p_used (entries t (nat slot)) \<and>
               p_pid (entries t (nat slot)) = pid
            then Some (nat slot) else None)
      else None)"

text \<open>
  \<open>proc_get\<close> and \<open>proc_get_const\<close> return a pointer into the table. The model returns the
  record; \<open>proc_upd\<close> is a write through the pointer.
\<close>

definition proc_get :: "int \<Rightarrow> process_table \<Rightarrow> pcb option" where
  "proc_get pid t = map_option (entries t) (find_slot_by_pid pid t)"

definition proc_get_const :: "int \<Rightarrow> process_table \<Rightarrow> pcb option" where
  "proc_get_const pid t = map_option (entries t) (find_slot_by_pid pid t)"

definition proc_upd :: "int \<Rightarrow> (pcb \<Rightarrow> pcb) \<Rightarrow> process_table \<Rightarrow> process_table" where
  "proc_upd pid f t =
     (case find_slot_by_pid pid t of
        Some i \<Rightarrow> t\<lparr>entries := (entries t)(i := f (entries t i))\<rparr>
      | None \<Rightarrow> t)"

definition clamp_prio :: "int \<Rightarrow> int" where
  "clamp_prio priority =
     (if priority < MOSRT_MIN_PRIO then MOSRT_MIN_PRIO
      else if MOSRT_MAX_PRIO < priority then MOSRT_MAX_PRIO else priority)"

text \<open>The second part of \<open>proc_table_init\<close>, after the shutdown of the old table.\<close>

definition proc_table_clear :: "process_table \<Rightarrow> process_table" where
  "proc_table_clear t =
     t\<lparr>entries := (\<lambda>_. zero_pcb), next_pid := 1, pid_to_slot := (\<lambda>_. -1)\<rparr>"

definition new_pcb :: "int \<Rightarrow> int \<Rightarrow> int \<Rightarrow> u64 \<Rightarrow> nat \<Rightarrow> u64 \<Rightarrow> u64 \<Rightarrow> pcb" where
  "new_pcb pid ppid prio now_tick stack stack_size mapped_size =
     zero_pcb\<lparr>p_used := True, p_pid := pid, p_ppid := ppid, p_state := PROC_NEW,
       p_priority := prio, p_base_priority := prio, p_nice := 0, p_mlfq_level := 0,
       p_start_tick := now_tick, p_last_ready_tick := now_tick, p_finish_tick := 0,
       p_response_time := UINT64_MAX, p_stack := Some stack, p_stack_size := stack_size,
       p_stack_mapping_size := mapped_size, p_exit_code := 0\<rparr>"

definition proc_create :: "os_env \<Rightarrow> int \<Rightarrow> int \<Rightarrow> u64 \<Rightarrow> u64 \<Rightarrow> process_table \<Rightarrow> int \<times> process_table" where
  "proc_create e ppid priority now_tick stack_size t =
     (case find_free_slot t of
        None \<Rightarrow> (-1, t)
      | Some slot \<Rightarrow>
          (let size = (if stack_size = 0 then MOSRT_DEFAULT_STACK_SIZE else stack_size)
           in case stack_alloc e size (os_maps t) of
                (None, maps) \<Rightarrow> (-1, t\<lparr>os_maps := maps\<rparr>)
              | (Some (stack, mapped_size), maps) \<Rightarrow>
                  (let pid = next_pid t
                   in (pid,
                       t\<lparr>entries := (entries t)(slot :=
                           new_pcb pid ppid (clamp_prio priority) now_tick stack size mapped_size),
                         next_pid := pid + 1,
                         pid_to_slot := (if pid \<le> int MOSRT_MAX_PROCS
                           then (pid_to_slot t)(nat (pid - 1) := int slot) else pid_to_slot t),
                         os_maps := maps\<rparr>))))"


section \<open>The process state machine\<close>

definition proc_is_valid_transition :: "proc_state \<Rightarrow> proc_state \<Rightarrow> bool" where
  "proc_is_valid_transition from to \<longleftrightarrow>
     (case from of
        PROC_NEW \<Rightarrow> to = PROC_READY \<or> to = PROC_EXITED
      | PROC_READY \<Rightarrow> to = PROC_RUNNING \<or> to = PROC_EXITED
      | PROC_RUNNING \<Rightarrow> to = PROC_READY \<or> to = PROC_BLOCKED \<or> to = PROC_EXITED
      | PROC_BLOCKED \<Rightarrow> to = PROC_READY \<or> to = PROC_EXITED
      | PROC_EXITED \<Rightarrow> False)"

definition enter_state :: "proc_state \<Rightarrow> u64 \<Rightarrow> pcb \<Rightarrow> pcb" where
  "enter_state new_state now_tick p =
     (let p1 = (if new_state = PROC_RUNNING \<and> p_response_time p = UINT64_MAX
                then p\<lparr>p_response_time := now_tick - p_start_tick p\<rparr> else p);
          p2 = (if new_state = PROC_READY then p1\<lparr>p_last_ready_tick := now_tick\<rparr> else p1);
          p3 = (if new_state = PROC_EXITED then p2\<lparr>p_finish_tick := now_tick\<rparr> else p2)
      in p3\<lparr>p_state := new_state\<rparr>)"

definition proc_set_state :: "int \<Rightarrow> proc_state \<Rightarrow> u64 \<Rightarrow> process_table \<Rightarrow> bool \<times> process_table" where
  "proc_set_state pid new_state now_tick t =
     (case proc_get pid t of
        None \<Rightarrow> (False, t)
      | Some p \<Rightarrow>
          if \<not> proc_is_valid_transition (p_state p) new_state then (False, t)
          else (True, proc_upd pid (enter_state new_state now_tick) t))"

definition proc_mark_exited :: "os_env \<Rightarrow> int \<Rightarrow> int \<Rightarrow> u64 \<Rightarrow> process_table \<Rightarrow> bool \<times> process_table" where
  "proc_mark_exited e pid exit_code now_tick t =
     (case find_slot_by_pid pid t of
        None \<Rightarrow> (False, t)
      | Some slot \<Rightarrow>
          if p_state (entries t slot) = PROC_EXITED then (False, t)
          else if \<not> proc_is_valid_transition (p_state (entries t slot)) PROC_EXITED then (False, t)
          else (True,
            release_stack e slot
              (t\<lparr>entries := (entries t)(slot := (entries t slot)
                 \<lparr>p_exit_code := exit_code, p_finish_tick := now_tick, p_state := PROC_EXITED,
                  p_wakeup_tick := 0\<rparr>)\<rparr>)))"

definition proc_count :: "process_table \<Rightarrow> nat" where
  "proc_count t = length (filter (\<lambda>i. p_used (entries t i)) [0..<MOSRT_MAX_PROCS])"

definition proc_live_count :: "process_table \<Rightarrow> nat" where
  "proc_live_count t =
     length (filter (\<lambda>i. p_used (entries t i) \<and> p_state (entries t i) \<noteq> PROC_EXITED) [0..<MOSRT_MAX_PROCS])"

definition proc_state_to_string :: "proc_state \<Rightarrow> string" where
  "proc_state_to_string s =
     (case s of PROC_NEW \<Rightarrow> ''NEW'' | PROC_READY \<Rightarrow> ''READY'' | PROC_RUNNING \<Rightarrow> ''RUNNING''
      | PROC_BLOCKED \<Rightarrow> ''BLOCKED'' | PROC_EXITED \<Rightarrow> ''EXITED'')"

text \<open>
  \<open>proc_for_each\<close> over a callback that only rewrites the visited record; the callbacks that
  also change the runtime are iterated by \<open>proc_fold\<close>, which hands the slot index on.
\<close>

definition proc_for_each :: "(pcb \<Rightarrow> pcb) \<Rightarrow> process_table \<Rightarrow> process_table" where
  "proc_for_each fn t =
     t\<lparr>entries := (\<lambda>i. if i < MOSRT_MAX_PROCS \<and> p_used (entries t i) then fn (entries t i) else entries t i)\<rparr>"

definition proc_fold :: "('s \<Rightarrow> process_table) \<Rightarrow> (nat \<Rightarrow> 's \<Rightarrow> 's) \<Rightarrow> 's \<Rightarrow> 's" where
  "proc_fold table fn s =
     fold (\<lambda>i s. if p_used (entries (table s) i) then fn i s else s) [0..<MOSRT_MAX_PROCS] s"


section \<open>Well-formed tables\<close>

definition keeps_id :: "(pcb \<Rightarrow> pcb) \<Rightarrow> bool" where
  "keeps_id f \<longleftrightarrow> (\<forall>p. p_pid (f p) = p_pid p \<and> p_used (f p) = p_used p)"

definition prio_ok :: "pcb \<Rightarrow> bool" where
  "prio_ok p \<longleftrightarrow> 0 \<le> p_priority p \<and> p_priority p \<le> 39 \<and> 0 \<le> p_base_priority p \<and> p_base_priority p \<le> 39"

definition slot_ok :: "process_table \<Rightarrow> nat \<Rightarrow> bool" where
  "slot_ok t i \<longleftrightarrow>
     1 \<le> p_pid (entries t i) \<and> p_pid (entries t i) < next_pid t \<and> prio_ok (entries t i) \<and>
     (p_pid (entries t i) \<le> 1024 \<longrightarrow> pid_to_slot t (nat (p_pid (entries t i) - 1)) = int i)"

definition ptable_inv :: "process_table \<Rightarrow> bool" where
  "ptable_inv t \<longleftrightarrow>
     1 \<le> next_pid t \<and>
     (\<forall>i < 1024. p_used (entries t i) \<longrightarrow> slot_ok t i) \<and>
     (\<forall>i < 1024. \<forall>j < 1024. p_used (entries t i) \<longrightarrow> p_used (entries t j) \<longrightarrow>
        p_pid (entries t i) = p_pid (entries t j) \<longrightarrow> i = j)"

lemma ptable_inv_slot: "ptable_inv t \<Longrightarrow> i < 1024 \<Longrightarrow> p_used (entries t i) \<Longrightarrow> slot_ok t i"
  by (simp add: ptable_inv_def)

lemma ptable_inv_unique:
  "ptable_inv t \<Longrightarrow> i < 1024 \<Longrightarrow> j < 1024 \<Longrightarrow> p_used (entries t i) \<Longrightarrow> p_used (entries t j) \<Longrightarrow>
     p_pid (entries t i) = p_pid (entries t j) \<Longrightarrow> i = j"
  by (simp add: ptable_inv_def)

lemma find_slot_SomeD:
  assumes "find_slot_by_pid pid t = Some i"
  shows "i < 1024" "p_used (entries t i)" "p_pid (entries t i) = pid" "1 \<le> pid" "pid < next_pid t" "pid \<le> 1024"
  using assms by (auto simp: find_slot_by_pid_def Let_def split: if_splits)

text \<open>The index array answers exactly like a scan of the table, for the process ids it covers.\<close>

lemma find_slot_iff:
  assumes "ptable_inv t"
  shows "find_slot_by_pid pid t = Some i \<longleftrightarrow>
    i < 1024 \<and> p_used (entries t i) \<and> p_pid (entries t i) = pid \<and> pid \<le> 1024"
proof
  assume "i < 1024 \<and> p_used (entries t i) \<and> p_pid (entries t i) = pid \<and> pid \<le> 1024"
  moreover from this have "1 \<le> pid" "pid < next_pid t" "pid_to_slot t (nat (pid - 1)) = int i"
    using ptable_inv_slot [OF assms, of i] by (auto simp: slot_ok_def)
  ultimately show "find_slot_by_pid pid t = Some i" by (simp add: find_slot_by_pid_def)
qed (use find_slot_SomeD in blast)

lemma find_slot_eq_scan:
  assumes "ptable_inv t"
  shows "find_slot_by_pid pid t =
    (if pid \<le> 1024 then first_idx (\<lambda>i. p_used (entries t i) \<and> p_pid (entries t i) = pid) 0 1024 else None)"
proof (cases "find_slot_by_pid pid t")
  case None
  have "\<not> (p_used (entries t i) \<and> p_pid (entries t i) = pid)" if "i < 1024" "pid \<le> 1024" for i
    using find_slot_iff [OF assms, of pid i] None that by auto
  then have "pid \<le> 1024 \<Longrightarrow> first_idx (\<lambda>i. p_used (entries t i) \<and> p_pid (entries t i) = pid) 0 1024 = None"
    by (auto simp: first_idx_None_iff)
  with None show ?thesis by simp
next
  case (Some i)
  note D = find_slot_SomeD [OF Some]
  have "\<not> (p_used (entries t j) \<and> p_pid (entries t j) = pid)" if "j < i" for j
    using ptable_inv_unique [OF assms, of j i] D that by auto
  then have "first_idx (\<lambda>i. p_used (entries t i) \<and> p_pid (entries t i) = pid) 0 1024 = Some i"
    using D by (intro first_idx_SomeI) auto
  with Some D show ?thesis by simp
qed

lemma proc_get_SomeD:
  assumes "proc_get pid t = Some p"
  shows "p_pid p = pid" "p_used p" "1 \<le> pid" "pid \<le> 1024" "\<exists>i < 1024. find_slot_by_pid pid t = Some i \<and> entries t i = p"
  using assms by (auto simp: proc_get_def dest: find_slot_SomeD)

lemma proc_get_const_eq [simp]: "proc_get_const = proc_get"
  by (simp add: fun_eq_iff proc_get_def proc_get_const_def)


subsection \<open>Writing through a pointer\<close>

lemma find_slot_cong:
  assumes "\<And>i. i < 1024 \<Longrightarrow> p_used (entries t' i) = p_used (entries t i) \<and> p_pid (entries t' i) = p_pid (entries t i)"
    "next_pid t' = next_pid t" "pid_to_slot t' = pid_to_slot t"
  shows "find_slot_by_pid pid t' = find_slot_by_pid pid t"
  using assms by (auto simp: find_slot_by_pid_def Let_def)

lemma proc_upd_fields [simp]:
  "next_pid (proc_upd pid f t) = next_pid t" "pid_to_slot (proc_upd pid f t) = pid_to_slot t"
  "os_maps (proc_upd pid f t) = os_maps t"
  by (simp_all add: proc_upd_def split: option.splits)

lemma find_slot_upd [simp]: "keeps_id f \<Longrightarrow> find_slot_by_pid q (proc_upd pid f t) = find_slot_by_pid q t"
  by (rule find_slot_cong) (auto simp: proc_upd_def keeps_id_def split: option.splits)

lemma proc_get_upd:
  assumes "keeps_id f"
  shows "proc_get q (proc_upd pid f t) = (if q = pid then map_option f (proc_get pid t) else proc_get q t)"
proof (cases "find_slot_by_pid pid t")
  case None
  then show ?thesis by (simp add: proc_upd_def proc_get_def)
next
  case (Some i)
  have "j \<noteq> i" if "find_slot_by_pid q t = Some j" "q \<noteq> pid" for j
    using find_slot_SomeD(3) [OF Some] find_slot_SomeD(3) [OF that(1)] that(2) by auto
  moreover have "entries (proc_upd pid f t) j = (if j = i then f (entries t i) else entries t j)" for j
    using Some by (simp add: proc_upd_def)
  ultimately show ?thesis using assms Some
    by (cases "find_slot_by_pid q t") (auto simp: proc_get_def)
qed

lemma proc_get_os_maps [simp]: "proc_get q (t\<lparr>os_maps := m\<rparr>) = proc_get q t"
  by (simp add: proc_get_def find_slot_by_pid_def)

lemma keeps_id_simps [simp]:
  "keeps_id (p_state_update g)" "keeps_id (p_priority_update h)" "keeps_id (p_base_priority_update h)"
  "keeps_id (p_mlfq_level_update l)" "keeps_id (p_cpu_time_update c)" "keeps_id (p_wait_time_update c)"
  "keeps_id (p_wakeup_tick_update c)" "keeps_id (p_vm_update v)" "keeps_id (p_vm_last_alloc_update a)"
  "keeps_id (p_nice_update h)"
  by (simp_all add: keeps_id_def)

lemma keeps_id_comp: "keeps_id f \<Longrightarrow> keeps_id g \<Longrightarrow> keeps_id (\<lambda>p. f (g p))"
  by (simp add: keeps_id_def)

lemma enter_state_fields [simp]:
  "p_pid (enter_state n t p) = p_pid p" "p_used (enter_state n t p) = p_used p"
  "p_state (enter_state n t p) = n" "p_priority (enter_state n t p) = p_priority p"
  "p_base_priority (enter_state n t p) = p_base_priority p" "p_vm (enter_state n t p) = p_vm p"
  "p_mlfq_level (enter_state n t p) = p_mlfq_level p" "p_wakeup_tick (enter_state n t p) = p_wakeup_tick p"
  "p_cpu_time (enter_state n t p) = p_cpu_time p" "p_wait_time (enter_state n t p) = p_wait_time p"
  "p_start_tick (enter_state n t p) = p_start_tick p"
  by (simp_all add: enter_state_def Let_def)

lemma keeps_id_enter_state [simp]: "keeps_id (enter_state n t)"
  by (simp add: keeps_id_def)

text \<open>Records whose priorities stay in range keep the table well formed.\<close>

lemma ptable_inv_entries:
  assumes "ptable_inv t" "next_pid t' = next_pid t" "pid_to_slot t' = pid_to_slot t"
    and same: "\<And>i. i < 1024 \<Longrightarrow> p_used (entries t' i) = p_used (entries t i) \<and> p_pid (entries t' i) = p_pid (entries t i)"
    and prio: "\<And>i. i < 1024 \<Longrightarrow> p_used (entries t i) \<Longrightarrow> prio_ok (entries t i) \<Longrightarrow> prio_ok (entries t' i)"
  shows "ptable_inv t'"
  unfolding ptable_inv_def
proof (intro conjI allI impI)
  show "1 \<le> next_pid t'" using assms(1,2) by (simp add: ptable_inv_def)
  show "slot_ok t' i" if "i < 1024" "p_used (entries t' i)" for i
    using ptable_inv_slot [OF assms(1), of i] same [of i] prio [of i] assms(2,3) that by (simp add: slot_ok_def)
  show "i = j" if "i < 1024" "j < 1024" "p_used (entries t' i)" "p_used (entries t' j)"
    "p_pid (entries t' i) = p_pid (entries t' j)" for i j
    using ptable_inv_unique [OF assms(1), of i j] same [of i] same [of j] that by simp
qed

lemma ptable_inv_upd:
  assumes "ptable_inv t" "keeps_id f" "\<And>p. prio_ok p \<Longrightarrow> prio_ok (f p)"
  shows "ptable_inv (proc_upd pid f t)"
  by (rule ptable_inv_entries [OF assms(1)])
     (use assms(2,3) in \<open>auto simp: proc_upd_def keeps_id_def split: option.splits\<close>)

lemma ptable_inv_for_each:
  assumes "ptable_inv t" "keeps_id f" "\<And>p. prio_ok p \<Longrightarrow> prio_ok (f p)"
  shows "ptable_inv (proc_for_each f t)"
  by (rule ptable_inv_entries [OF assms(1)])
     (use assms(2,3) in \<open>auto simp: proc_for_each_def keeps_id_def\<close>)

lemma find_slot_for_each [simp]:
  "keeps_id f \<Longrightarrow> find_slot_by_pid pid (proc_for_each f t) = find_slot_by_pid pid t"
  by (rule find_slot_cong) (auto simp: proc_for_each_def keeps_id_def)

lemma proc_get_for_each:
  assumes "keeps_id f"
  shows "proc_get pid (proc_for_each f t) = map_option f (proc_get pid t)"
proof (cases "find_slot_by_pid pid t")
  case None
  then show ?thesis using assms by (simp add: proc_get_def)
next
  case (Some i)
  then show ?thesis using assms find_slot_SomeD(1,2) [OF Some] by (simp add: proc_get_def) (simp add: proc_for_each_def)
qed


section \<open>Creation\<close>

lemma ptable_inv_clear [inv_intros]: "ptable_inv (proc_table_clear t)"
  by (simp add: ptable_inv_def proc_table_clear_def zero_pcb_def)

lemma clamp_prio_range: "0 \<le> clamp_prio x" "clamp_prio x \<le> 39" "0 \<le> x \<Longrightarrow> x \<le> 39 \<Longrightarrow> clamp_prio x = x"
  by (simp_all add: clamp_prio_def)

lemma find_free_slotD:
  "find_free_slot t = Some i \<Longrightarrow> i < 1024 \<and> \<not> p_used (entries t i)"
  by (auto simp: find_free_slot_def first_idx_Some_iff)

lemma new_pcb_fields [simp]:
  "p_used (new_pcb pid ppid prio now st sz ms)" "p_pid (new_pcb pid ppid prio now st sz ms) = pid"
  "p_ppid (new_pcb pid ppid prio now st sz ms) = ppid" "p_state (new_pcb pid ppid prio now st sz ms) = PROC_NEW"
  "p_priority (new_pcb pid ppid prio now st sz ms) = prio" "p_base_priority (new_pcb pid ppid prio now st sz ms) = prio"
  "p_mlfq_level (new_pcb pid ppid prio now st sz ms) = 0" "p_start_tick (new_pcb pid ppid prio now st sz ms) = now"
  "p_vm (new_pcb pid ppid prio now st sz ms) = None" "p_response_time (new_pcb pid ppid prio now st sz ms) = UINT64_MAX"
  "p_stack (new_pcb pid ppid prio now st sz ms) = Some st" "p_wakeup_tick (new_pcb pid ppid prio now st sz ms) = 0"
  "p_last_ready_tick (new_pcb pid ppid prio now st sz ms) = now"
  by (simp_all add: new_pcb_def zero_pcb_def)

text \<open>The table after a successful creation in slot \<open>i\<close>.\<close>

definition table_with :: "process_table \<Rightarrow> nat \<Rightarrow> pcb \<Rightarrow> (nat \<times> u64) set \<Rightarrow> process_table" where
  "table_with t i p maps =
     t\<lparr>entries := (entries t)(i := p), next_pid := next_pid t + 1,
       pid_to_slot := (if next_pid t \<le> 1024 then (pid_to_slot t)(nat (next_pid t - 1) := int i) else pid_to_slot t),
       os_maps := maps\<rparr>"

lemma proc_create_cases:
  assumes "proc_create e ppid prio now ssize t = (r, t')"
  obtains (fail) maps where "r = -1" "t' = t\<lparr>os_maps := maps\<rparr>"
  | (made) i st sz ms maps where "find_free_slot t = Some i" "r = next_pid t"
      "t' = table_with t i (new_pcb (next_pid t) ppid (clamp_prio prio) now st sz ms) maps"
proof (cases "find_free_slot t")
  case None
  then have "r = -1" "t' = t\<lparr>os_maps := os_maps t\<rparr>" using assms by (simp_all add: proc_create_def)
  then show ?thesis by (rule fail)
next
  case (Some i)
  then show ?thesis using assms fail made
    by (auto simp: proc_create_def table_with_def Let_def split: option.splits prod.splits)
qed

lemma ptable_inv_table_with:
  assumes inv: "ptable_inv t" and i: "i < 1024" "\<not> p_used (entries t i)"
    and p: "p_pid p = next_pid t" "prio_ok p"
  shows "ptable_inv (table_with t i p maps)"
  unfolding ptable_inv_def
proof (intro conjI allI impI)
  let ?t = "table_with t i p maps"
  have n: "1 \<le> next_pid t" using inv by (simp add: ptable_inv_def)
  show "1 \<le> next_pid ?t" using n by (simp add: table_with_def)
  have old: "1 \<le> p_pid (entries t j) \<and> p_pid (entries t j) < next_pid t" if "j < 1024" "p_used (entries t j)" for j
    using ptable_inv_slot [OF inv that] by (simp add: slot_ok_def)
  show "slot_ok ?t j" if "j < 1024" "p_used (entries ?t j)" for j
  proof (cases "j = i")
    case True
    then show ?thesis using n p by (simp add: slot_ok_def table_with_def)
  next
    case False
    then have u: "p_used (entries t j)" using that by (simp add: table_with_def)
    then have "nat (p_pid (entries t j) - 1) \<noteq> nat (next_pid t - 1)" using old [of j] that(1) by auto
    then show ?thesis using False ptable_inv_slot [OF inv that(1) u] by (auto simp: slot_ok_def table_with_def)
  qed
  show "j = k" if "j < 1024" "k < 1024" "p_used (entries ?t j)" "p_used (entries ?t k)"
    "p_pid (entries ?t j) = p_pid (entries ?t k)" for j k
  proof -
    have e: "entries ?t l = (if l = i then p else entries t l)" for l by (simp add: table_with_def)
    consider "j = i" "k = i" | "j = i" "k \<noteq> i" | "j \<noteq> i" "k = i" | "j \<noteq> i" "k \<noteq> i" by blast
    then show ?thesis
    proof cases
      case 2
      then show ?thesis using old [of k] that p(1) by (simp add: e)
    next
      case 3
      then show ?thesis using old [of j] that p(1) by (simp add: e)
    next
      case 4
      then show ?thesis using ptable_inv_unique [OF inv that(1,2)] that by (simp add: e)
    qed simp
  qed
qed

lemma proc_create_inv [inv_intros]:
  assumes "ptable_inv t" "proc_create e ppid prio now ssize t = (r, t')"
  shows "ptable_inv t'"
  using assms(2)
proof (cases rule: proc_create_cases)
  case (fail maps)
  then show ?thesis using assms(1) by (simp add: ptable_inv_def slot_ok_def)
next
  case (made i st sz ms maps)
  then show ?thesis using assms(1) find_free_slotD [OF made(1)] clamp_prio_range(1,2)
    by (simp add: ptable_inv_table_with prio_ok_def)
qed

text \<open>
  What a successful creation does to lookups: the new process is found under its id while
  the id fits the index array, and every other process is found as before.
\<close>

lemma proc_get_table_with:
  assumes inv: "ptable_inv t" and i: "i < 1024" "\<not> p_used (entries t i)"
    and p: "p_pid p = next_pid t" "p_used p" "prio_ok p"
  shows "proc_get q (table_with t i p maps) =
    (if q = next_pid t then (if q \<le> 1024 then Some p else None) else proc_get q t)"
proof -
  let ?t = "table_with t i p maps"
  have inv': "ptable_inv ?t" using inv i p by (intro ptable_inv_table_with) auto
  have e: "entries ?t j = (if j = i then p else entries t j)" for j by (simp add: table_with_def)
  have old: "p_pid (entries t j) \<noteq> next_pid t" if "j < 1024" "p_used (entries t j)" for j
    using ptable_inv_slot [OF inv that] by (simp add: slot_ok_def)
  have slot: "find_slot_by_pid q ?t = Some j \<longleftrightarrow>
      (if q = next_pid t then j = i \<and> q \<le> 1024 else find_slot_by_pid q t = Some j)" for j
    unfolding find_slot_iff [OF inv'] find_slot_iff [OF inv] e using i p old by auto
  show ?thesis
  proof (cases "find_slot_by_pid q ?t")
    case None
    have "\<not> q \<le> 1024" if "q = next_pid t" using slot [of i] None that by auto
    moreover have "find_slot_by_pid q t = None" if "q \<noteq> next_pid t"
      using slot None that by (cases "find_slot_by_pid q t") auto
    ultimately show ?thesis using None by (auto simp: proc_get_def)
  next
    case (Some j)
    then have *: "if q = next_pid t then j = i \<and> q \<le> 1024 else find_slot_by_pid q t = Some j" using slot by simp
    have "j \<noteq> i" if "q \<noteq> next_pid t" using * that i(2) find_slot_SomeD(2) by auto
    then show ?thesis using Some * e by (auto simp: proc_get_def split: if_splits)
  qed
qed


section \<open>State changes\<close>

lemma proc_set_state_cases:
  "proc_set_state pid s now t =
     (case proc_get pid t of
        None \<Rightarrow> (False, t)
      | Some p \<Rightarrow> if proc_is_valid_transition (p_state p) s then (True, proc_upd pid (enter_state s now) t) else (False, t))"
  by (simp add: proc_set_state_def split: option.splits)

lemma proc_set_state_inv [inv_intros]:
  "ptable_inv t \<Longrightarrow> ptable_inv (snd (proc_set_state pid s now t))"
  by (auto simp: proc_set_state_cases prio_ok_def split: option.splits intro!: ptable_inv_upd)

lemma proc_get_set_state:
  "proc_get q (snd (proc_set_state pid s now t)) =
     (if q = pid \<and> fst (proc_set_state pid s now t) then map_option (enter_state s now) (proc_get pid t) else proc_get q t)"
  by (auto simp: proc_set_state_cases proc_get_upd split: option.splits)

lemma proc_mark_exited_eq:
  "proc_mark_exited e pid code now t =
     (case find_slot_by_pid pid t of
        None \<Rightarrow> (False, t)
      | Some i \<Rightarrow>
          if p_state (entries t i) = PROC_EXITED then (False, t)
          else (True, t\<lparr>entries := (entries t)(i := (entries t i)
             \<lparr>p_exit_code := code, p_finish_tick := now, p_state := PROC_EXITED, p_wakeup_tick := 0,
              p_stack := None, p_stack_size := 0, p_stack_mapping_size := 0\<rparr>),
             os_maps := stack_free e (p_stack (entries t i)) (p_stack_mapping_size (entries t i)) (os_maps t)\<rparr>))"
  by (auto simp: proc_mark_exited_def release_stack_def Let_def proc_is_valid_transition_def
      split: option.splits proc_state.splits)

lemma proc_mark_exited_get:
  "proc_get q (snd (proc_mark_exited e pid code now t)) =
     (if q = pid \<and> fst (proc_mark_exited e pid code now t)
      then map_option (\<lambda>p. p\<lparr>p_exit_code := code, p_finish_tick := now, p_state := PROC_EXITED, p_wakeup_tick := 0,
              p_stack := None, p_stack_size := 0, p_stack_mapping_size := 0\<rparr>) (proc_get pid t)
      else proc_get q t)"
proof (cases "fst (proc_mark_exited e pid code now t)")
  case True
  let ?f = "\<lambda>p. p\<lparr>p_exit_code := code, p_finish_tick := now, p_state := PROC_EXITED, p_wakeup_tick := 0,
              p_stack := None, p_stack_size := 0, p_stack_mapping_size := 0\<rparr>"
  have k: "keeps_id ?f" by (simp add: keeps_id_def)
  obtain m where "snd (proc_mark_exited e pid code now t) = (proc_upd pid ?f t)\<lparr>os_maps := m\<rparr>"
    using True by (auto simp: proc_mark_exited_eq proc_upd_def split: option.splits if_splits)
  then show ?thesis using True by (simp add: proc_get_upd [OF k])
next
  case False
  then show ?thesis by (auto simp: proc_mark_exited_eq split: option.splits if_splits)
qed

lemma proc_mark_exited_inv [inv_intros]:
  "ptable_inv t \<Longrightarrow> ptable_inv (snd (proc_mark_exited e pid code now t))"
  by (auto simp: proc_mark_exited_eq prio_ok_def split: option.splits if_splits intro!: ptable_inv_entries [of t])


section \<open>Properties\<close>

text \<open>C36. Creating a process in a well-formed table keeps the table well formed and either returns
  -1 and leaves every lookup as it was, or returns the next process id, which is then used
  up; the new process starts in state NEW with its priority clamped into 0..39, every other
  process is found exactly as before, and the new one is found under its id exactly when the
  id is at most 1024 (the size of the index array).\<close>

theorem proc_create_correct:
  assumes "ptable_inv t" "proc_create e ppid prio now ssize t = (r, t')"
  shows "ptable_inv t' \<and>
    (r = -1 \<and> (\<forall>q. proc_get q t' = proc_get q t) \<or>
     r = next_pid t \<and> next_pid t' = r + 1 \<and>
     (\<exists>p. p_pid p = r \<and> p_ppid p = ppid \<and> p_state p = PROC_NEW \<and> p_priority p = clamp_prio prio \<and>
        0 \<le> p_priority p \<and> p_priority p \<le> 39 \<and> p_start_tick p = now \<and>
        (\<forall>q. proc_get q t' = (if q = r then (if r \<le> 1024 then Some p else None) else proc_get q t))))"
proof
  show "ptable_inv t'" using assms by (rule proc_create_inv)
  show "r = -1 \<and> (\<forall>q. proc_get q t' = proc_get q t) \<or>
     r = next_pid t \<and> next_pid t' = r + 1 \<and>
     (\<exists>p. p_pid p = r \<and> p_ppid p = ppid \<and> p_state p = PROC_NEW \<and> p_priority p = clamp_prio prio \<and>
        0 \<le> p_priority p \<and> p_priority p \<le> 39 \<and> p_start_tick p = now \<and>
        (\<forall>q. proc_get q t' = (if q = r then (if r \<le> 1024 then Some p else None) else proc_get q t)))"
    using assms(2)
  proof (cases rule: proc_create_cases)
    case (fail maps)
    then show ?thesis by simp
  next
    case (made i st sz ms maps)
    let ?p = "new_pcb (next_pid t) ppid (clamp_prio prio) now st sz ms"
    have "proc_get q t' = (if q = r then (if r \<le> 1024 then Some ?p else None) else proc_get q t)" for q
      using proc_get_table_with [OF assms(1), of i ?p q maps] find_free_slotD [OF made(1)] made(2,3)
        clamp_prio_range(1,2) by (simp add: prio_ok_def)
    moreover have "next_pid t' = r + 1" using made(2,3) by (simp add: table_with_def)
    ultimately show ?thesis using made(2) clamp_prio_range(1,2) by (intro disjI2 conjI exI [of _ ?p]) auto
  qed
qed

definition sample_os :: os_env where
  "sample_os = \<lparr>os_pagesize = 4096, os_mmap = (\<lambda>_. Some 65536), os_mprotect_ok = True\<rparr>"

definition zero_table :: process_table where
  "zero_table = \<lparr>entries = (\<lambda>_. zero_pcb), next_pid = 0, pid_to_slot = (\<lambda>_. 0), os_maps = {}\<rparr>"

theorem proc_create_correct_witness:
  "\<exists>t' p. proc_create sample_os 0 55 3 0 (proc_table_clear zero_table) = (1, t') \<and>
     proc_get 1 t' = Some p \<and> p_priority p = 39 \<and> p_state p = PROC_NEW"
proof -
  obtain t' where c: "proc_create sample_os 0 55 3 0 (proc_table_clear zero_table) = (1, t')"
    by (simp add: proc_create_def proc_table_clear_def zero_table_def find_free_slot_def first_idx.simps
        zero_pcb_def stack_alloc_def sample_os_def page_size_def round_up_def MOSRT_DEFAULT_STACK_SIZE_def)
  then show ?thesis
    using proc_create_correct [OF ptable_inv_clear c] by (auto simp: clamp_prio_def)
qed

lemma round_up_bounds:
  fixes u P :: nat
  assumes "0 < P"
  shows "u \<le> (u + (P - 1)) div P * P" "(u + (P - 1)) div P * P \<le> u + (P - 1)"
proof -
  have "(u + (P - 1)) div P * P + (u + (P - 1)) mod P = u + (P - 1)" by (rule div_mult_mod_eq)
  moreover have "(u + (P - 1)) mod P \<le> P - 1" using mod_less_divisor [OF assms, of "u + (P - 1)"] by linarith
  ultimately show "u \<le> (u + (P - 1)) div P * P" "(u + (P - 1)) div P * P \<le> u + (P - 1)" by linarith+
qed

lemma unat_max_minus: "unat ((-1) - x :: u64) = 2 ^ 64 - 1 - unat x"
  by (subst unat_sub) (simp_all add: unsigned_minus_1_eq_mask mask_eq_exp_minus_1)

lemma unat_pow2_u64: "k < 64 \<Longrightarrow> unat (2 ^ k :: u64) = 2 ^ k"
  using unat_of_nat [of "2 ^ k", where 'a = 64] power_strict_increasing [of k 64 "2::nat"] by simp

lemma round_up_value:
  assumes "k < 64" "unat x + 2 ^ k \<le> 2 ^ 64"
  shows "unat (round_up x (2 ^ k)) = (unat x + (2 ^ k - 1)) div 2 ^ k * 2 ^ k"
proof -
  note g = unat_pow2_u64 [OF assms(1)]
  have p: "(0::nat) < 2 ^ k" by simp
  then have nz: "(2 ^ k :: u64) \<noteq> 0" using g by force
  then have m: "unat (2 ^ k - 1 :: u64) = 2 ^ k - 1" using g by (simp add: unat_minus_one)
  have "\<not> (-1) - (2 ^ k - 1) < x"
    unfolding word_less_nat_alt unat_max_minus m using assms(2) p by simp
  then show ?thesis using nz unat_align_up [of k x] assms p by (simp add: round_up_def)
qed

text \<open>C37. Stack allocation: with a page size of 2^k, a request of at least one byte that does not
  overflow is rounded up to the next page multiple; one guard page is added below, and the
  stack returned starts right above the guard page. The mapping recorded for it is the one
  \<open>stack_free\<close> later releases, so a stack that is allocated and freed leaves no mapping behind.\<close>

theorem stack_alloc_correct:
  assumes "page_size e = 2 ^ k" "k < 64" "usable \<noteq> 0"
    and "unat usable + 2 * 2 ^ k \<le> 2 ^ 64" "os_mmap e = (\<lambda>n. Some (base n))" "os_mprotect_ok e"
    and "\<forall>n. (base n, n) \<notin> maps"
  shows "\<exists>total. stack_alloc e usable maps = (Some (base total + 2 ^ k, total), insert (base total, total) maps) \<and>
      unat total = (unat usable + (2 ^ k - 1)) div 2 ^ k * 2 ^ k + 2 ^ k \<and>
      unat usable + 2 ^ k \<le> unat total \<and>
      stack_free e (Some (base total + 2 ^ k)) total (insert (base total, total) maps) = maps"
proof -
  let ?r = "round_up usable (2 ^ k)"
  note g = unat_pow2_u64 [OF assms(2)]
  have p: "(0::nat) < 2 ^ k" by simp
  have u: "unat ?r = (unat usable + (2 ^ k - 1)) div 2 ^ k * 2 ^ k"
    using assms(2,4) by (intro round_up_value) auto
  note b = round_up_bounds [OF p, of "unat usable", folded u]
  have "0 < unat usable" using assms(3) by (simp add: unat_gt_0)
  then have nz: "?r \<noteq> 0" using b(1) by force
  have ge: "\<not> (-1) - 2 ^ k < ?r"
    unfolding word_less_nat_alt unat_max_minus g using b(2) assms(4) p by simp
  have t: "unat (?r + 2 ^ k) = unat ?r + 2 ^ k"
    using b(2) assms(4) p g by (subst unat_add_lem [THEN iffD1]) auto
  then have "?r + 2 ^ k \<noteq> 0" using p by force
  then have "stack_free e (Some (base (?r + 2 ^ k) + 2 ^ k)) (?r + 2 ^ k)
      (insert (base (?r + 2 ^ k), ?r + 2 ^ k) maps) = maps"
    using assms(1,7) g by (simp add: stack_free_def)
  moreover have "stack_alloc e usable maps =
      (Some (base (?r + 2 ^ k) + 2 ^ k, ?r + 2 ^ k), insert (base (?r + 2 ^ k), ?r + 2 ^ k) maps)"
    using assms(1,3,5,6) nz ge g by (simp add: stack_alloc_def Let_def)
  ultimately show ?thesis using u t b(1) by (intro exI [of _ "?r + 2 ^ k"]) simp
qed

theorem stack_alloc_correct_witness:
  "\<exists>total. fst (stack_alloc sample_os 5000 {}) = Some (65536 + 4096, total) \<and> unat total = 3 * 4096"
  using stack_alloc_correct [of sample_os 12 5000 "\<lambda>_. 65536" "{}"]
  by (auto simp: sample_os_def page_size_def)

end
