(* ===== verification/Sched.thy ===== *)
theory Sched
  imports Proc "HOL-Library.Product_Lexorder"
begin

text \<open>
  \<^verbatim>\<open>sched.c\<close>: the FCFS, round-robin, priority and multi-level feedback queue policies.

  A ready queue is the three values \<^verbatim>\<open>(array, head, len)\<close> the C functions take by pointer,
  here the record \<open>ring\<close>. The priority heap is the array and length of \<^verbatim>\<open>struct scheduler\<close>;
  its sift loops take the comparison as an argument, which the code instantiates with
  \<open>prio_less\<close>. The functions that consult the process table take it as an argument.
  A null scheduler pointer is never passed by the runtime and is not modelled.
\<close>

definition MOSRT_MLFQ_LEVELS :: nat where "MOSRT_MLFQ_LEVELS = 4"
definition AGING_INTERVAL :: u64 where "AGING_INTERVAL = 5"

lemma sched_consts [simp]: "MOSRT_MLFQ_LEVELS = 4"
  by (simp add: MOSRT_MLFQ_LEVELS_def)

datatype sched_algo = SCHED_FCFS | SCHED_RR | SCHED_PRIO | SCHED_MLFQ

record ring =
  r_items :: "int carray"
  r_head :: nat
  r_len :: nat

record scheduler =
  s_algo :: sched_algo
  s_quantum_ticks :: u32
  s_consumed_ticks :: u32
  s_current_pid :: int
  s_rr :: ring
  s_heap :: "int carray"
  s_heap_len :: nat
  s_mlfq :: "nat \<Rightarrow> ring"
  s_last_boost_tick :: u64

definition zero_ring :: ring where
  "zero_ring = \<lparr>r_items = (\<lambda>_. 0), r_head = 0, r_len = 0\<rparr>"


section \<open>Ready queues\<close>

definition queue_contains :: "ring \<Rightarrow> int \<Rightarrow> bool" where
  "queue_contains r pid \<longleftrightarrow>
     first_idx (\<lambda>i. r_items r ((r_head r + i) mod MOSRT_MAX_PROCS) = pid) 0 (r_len r) \<noteq> None"

definition ring_put :: "int \<Rightarrow> ring \<Rightarrow> ring" where
  "ring_put pid r =
     r\<lparr>r_items := (r_items r)((r_head r + r_len r) mod MOSRT_MAX_PROCS := pid), r_len := r_len r + 1\<rparr>"

definition ring_drop :: "ring \<Rightarrow> ring" where
  "ring_drop r = r\<lparr>r_head := (r_head r + 1) mod MOSRT_MAX_PROCS, r_len := r_len r - 1\<rparr>"

definition queue_push :: "ring \<Rightarrow> int \<Rightarrow> bool \<times> ring" where
  "queue_push r pid =
     (if MOSRT_MAX_PROCS \<le> r_len r \<or> queue_contains r pid then (False, r) else (True, ring_put pid r))"

definition is_ready :: "process_table \<Rightarrow> int \<Rightarrow> bool" where
  "is_ready t pid = (case proc_get_const pid t of Some p \<Rightarrow> p_state p = PROC_READY | None \<Rightarrow> False)"

function queue_pop :: "process_table \<Rightarrow> ring \<Rightarrow> int \<times> ring" where
  "queue_pop t r =
     (if 0 < r_len r then
        (let pid = r_items r (r_head r); r' = ring_drop r
         in if is_ready t pid then (pid, r') else queue_pop t r')
      else (-1, r))"
  by pat_completeness auto
termination
  by (relation "measure (\<lambda>(t, r). r_len r)") (auto simp: ring_drop_def)

declare queue_pop.simps [simp del]


section \<open>The priority heap\<close>

definition prio_less :: "process_table \<Rightarrow> int \<Rightarrow> int \<Rightarrow> bool" where
  "prio_less t left_pid right_pid =
     (case proc_get_const left_pid t of
        None \<Rightarrow> False
      | Some a \<Rightarrow>
          (case proc_get_const right_pid t of
             None \<Rightarrow> True
           | Some b \<Rightarrow>
               if p_priority a \<noteq> p_priority b then p_priority a < p_priority b
               else p_last_ready_tick a < p_last_ready_tick b))"

definition heap_contains :: "scheduler \<Rightarrow> int \<Rightarrow> bool" where
  "heap_contains s pid \<longleftrightarrow> first_idx (\<lambda>i. s_heap s i = pid) 0 (s_heap_len s) \<noteq> None"

definition swap_cells :: "'a carray \<Rightarrow> nat \<Rightarrow> nat \<Rightarrow> 'a carray" where
  "swap_cells h i j = h(i := h j, j := h i)"

text \<open>The loop of \<open>heap_push\<close>.\<close>

function sift_up :: "('a \<Rightarrow> 'a \<Rightarrow> bool) \<Rightarrow> 'a carray \<Rightarrow> nat \<Rightarrow> 'a carray" where
  "sift_up lt h i =
     (if 0 < i then
        (let parent = (i - 1) div 2
         in if \<not> lt (h i) (h parent) then h else sift_up lt (swap_cells h i parent) parent)
      else h)"
  by pat_completeness auto
termination
  by (relation "measure (\<lambda>(lt, h, i). i)") auto

declare sift_up.simps [simp del]

text \<open>The child (or the node itself) that the inner loop of \<open>heap_pop\<close> moves up.\<close>

definition best_child :: "('a \<Rightarrow> 'a \<Rightarrow> bool) \<Rightarrow> 'a carray \<Rightarrow> nat \<Rightarrow> nat \<Rightarrow> nat" where
  "best_child lt h n i =
     (let l = i * 2 + 1; r = l + 1;
          best = (if l < n \<and> lt (h l) (h i) then l else i)
      in if r < n \<and> lt (h r) (h best) then r else best)"

lemma best_child_cases:
  "best_child lt h n i = i \<or> i < best_child lt h n i \<and> best_child lt h n i < n"
  by (auto simp: best_child_def Let_def)

text \<open>The inner loop of \<open>heap_pop\<close>.\<close>

function sift_down :: "('a \<Rightarrow> 'a \<Rightarrow> bool) \<Rightarrow> 'a carray \<Rightarrow> nat \<Rightarrow> nat \<Rightarrow> 'a carray" where
  "sift_down lt h n i =
     (let best = best_child lt h n i
      in if best = i then h else sift_down lt (swap_cells h i best) n best)"
  by pat_completeness auto
termination
proof (relation "measure (\<lambda>(lt, h, n, i). n - i)", goal_cases)
  case 1
  then show ?case by simp
next
  case (2 lt h n i x)
  then show ?case using best_child_cases [of lt h n i] by auto
qed

declare sift_down.simps [simp del]

definition heap_push :: "process_table \<Rightarrow> scheduler \<Rightarrow> int \<Rightarrow> bool \<times> scheduler" where
  "heap_push t s pid =
     (if MOSRT_MAX_PROCS \<le> s_heap_len s \<or> heap_contains s pid then (False, s)
      else (let i = s_heap_len s
            in (True, s\<lparr>s_heap_len := i + 1, s_heap := sift_up (prio_less t) ((s_heap s)(i := pid)) i\<rparr>)))"

definition heap_remove_top :: "process_table \<Rightarrow> scheduler \<Rightarrow> scheduler" where
  "heap_remove_top t s =
     (let n = s_heap_len s - 1
      in s\<lparr>s_heap_len := n, s_heap := sift_down (prio_less t) ((s_heap s)(0 := s_heap s n)) n 0\<rparr>)"

function heap_pop :: "process_table \<Rightarrow> scheduler \<Rightarrow> int \<times> scheduler" where
  "heap_pop t s =
     (if 0 < s_heap_len s then
        (let top = s_heap s 0; s' = heap_remove_top t s
         in if is_ready t top then (top, s') else heap_pop t s')
      else (-1, s))"
  by pat_completeness auto
termination
  by (relation "measure (\<lambda>(t, s). s_heap_len s)") (auto simp: heap_remove_top_def Let_def)

declare heap_pop.simps [simp del]


section \<open>Scheduler operations\<close>

definition sched_init :: "sched_algo \<Rightarrow> u32 \<Rightarrow> scheduler" where
  "sched_init algo quantum_ticks =
     \<lparr>s_algo = algo, s_quantum_ticks = (if quantum_ticks = 0 then 1 else quantum_ticks),
      s_consumed_ticks = 0, s_current_pid = -1, s_rr = zero_ring, s_heap = (\<lambda>_. 0), s_heap_len = 0,
      s_mlfq = (\<lambda>_. zero_ring), s_last_boost_tick = 0\<rparr>"

definition sched_clear :: "scheduler \<Rightarrow> scheduler" where
  "sched_clear s = sched_init (s_algo s) (s_quantum_ticks s)"

definition sched_set_algo :: "scheduler \<Rightarrow> sched_algo \<Rightarrow> scheduler" where
  "sched_set_algo s algo = sched_init algo (s_quantum_ticks s)"

definition sched_set_quantum :: "scheduler \<Rightarrow> u32 \<Rightarrow> scheduler" where
  "sched_set_quantum s quantum_ticks =
     s\<lparr>s_quantum_ticks := (if quantum_ticks = 0 then 1 else quantum_ticks)\<rparr>"

definition sched_algo :: "scheduler \<Rightarrow> sched_algo" where
  "sched_algo s = s_algo s"

definition sched_algo_name :: "sched_algo \<Rightarrow> string" where
  "sched_algo_name algo =
     (case algo of SCHED_FCFS \<Rightarrow> ''fcfs'' | SCHED_RR \<Rightarrow> ''rr'' | SCHED_PRIO \<Rightarrow> ''prio'' | SCHED_MLFQ \<Rightarrow> ''mlfq'')"

definition sched_parse_algo :: "string \<Rightarrow> sched_algo option" where
  "sched_parse_algo name =
     (if name = ''fcfs'' then Some SCHED_FCFS
      else if name = ''rr'' then Some SCHED_RR
      else if name = ''prio'' then Some SCHED_PRIO
      else if name = ''mlfq'' then Some SCHED_MLFQ
      else None)"

definition mlfq_level_of :: "pcb \<Rightarrow> nat" where
  "mlfq_level_of p =
     (if MOSRT_MLFQ_LEVELS \<le> unat (p_mlfq_level p) then MOSRT_MLFQ_LEVELS - 1 else unat (p_mlfq_level p))"

definition sched_enqueue :: "process_table \<Rightarrow> scheduler \<Rightarrow> int \<Rightarrow> bool \<times> scheduler" where
  "sched_enqueue t s pid =
     (case proc_get_const pid t of
        None \<Rightarrow> (False, s)
      | Some p \<Rightarrow>
          if s_algo s = SCHED_PRIO then heap_push t s pid
          else if s_algo s = SCHED_MLFQ then
            (let level = mlfq_level_of p; (ok, r) = queue_push (s_mlfq s level) pid
             in (ok, s\<lparr>s_mlfq := (s_mlfq s)(level := r)\<rparr>))
          else (let (ok, r) = queue_push (s_rr s) pid in (ok, s\<lparr>s_rr := r\<rparr>)))"

function mlfq_pick :: "process_table \<Rightarrow> nat \<Rightarrow> scheduler \<Rightarrow> int \<times> scheduler" where
  "mlfq_pick t q s =
     (if q < MOSRT_MLFQ_LEVELS then
        (let (pid, r) = queue_pop t (s_mlfq s q); s' = s\<lparr>s_mlfq := (s_mlfq s)(q := r)\<rparr>
         in if 0 \<le> pid then (pid, s') else mlfq_pick t (Suc q) s')
      else (-1, s))"
  by pat_completeness auto
termination
  by (relation "measure (\<lambda>(t, q, s). MOSRT_MLFQ_LEVELS - q)") auto

declare mlfq_pick.simps [simp del]

definition sched_pick_next :: "process_table \<Rightarrow> scheduler \<Rightarrow> int \<times> scheduler" where
  "sched_pick_next t s =
     (let (pid, s') =
        (if s_algo s = SCHED_PRIO then heap_pop t s
         else if s_algo s = SCHED_MLFQ then mlfq_pick t 0 s
         else (let (pid, r) = queue_pop t (s_rr s) in (pid, s\<lparr>s_rr := r\<rparr>)))
      in (pid, s'\<lparr>s_current_pid := pid, s_consumed_ticks := 0\<rparr>))"

definition sched_on_tick :: "scheduler \<Rightarrow> int \<Rightarrow> scheduler" where
  "sched_on_tick s pid =
     (if s_current_pid s = pid then s\<lparr>s_consumed_ticks := s_consumed_ticks s + 1\<rparr> else s)"

definition sched_should_preempt :: "process_table \<Rightarrow> scheduler \<Rightarrow> int \<Rightarrow> bool" where
  "sched_should_preempt t s current_pid =
     (if current_pid < 0 then False
      else if s_algo s = SCHED_FCFS then False
      else if s_algo s = SCHED_PRIO \<and>
              first_idx (\<lambda>i. prio_less t (s_heap s i) current_pid) 0 (s_heap_len s) \<noteq> None then True
      else s_quantum_ticks s \<le> s_consumed_ticks s)"

definition age_one :: "u64 \<Rightarrow> pcb \<Rightarrow> pcb" where
  "age_one now_tick p =
     (if p_state p = PROC_READY \<and> MOSRT_MIN_PRIO < p_priority p \<and> p_last_ready_tick p < now_tick \<and>
         (now_tick - p_last_ready_tick p) mod AGING_INTERVAL = 0
      then p\<lparr>p_priority := p_priority p - 1\<rparr> else p)"

definition sched_age_ready :: "scheduler \<Rightarrow> u64 \<Rightarrow> process_table \<Rightarrow> process_table" where
  "sched_age_ready s now_tick t =
     (if s_algo s = SCHED_PRIO then proc_for_each (age_one now_tick) t else t)"

definition sched_demote_after_quantum :: "scheduler \<Rightarrow> int \<Rightarrow> process_table \<Rightarrow> process_table" where
  "sched_demote_after_quantum s pid t =
     (if s_algo s \<noteq> SCHED_MLFQ then t
      else proc_upd pid
        (\<lambda>p. if p_mlfq_level p + 1 < of_nat MOSRT_MLFQ_LEVELS then p\<lparr>p_mlfq_level := p_mlfq_level p + 1\<rparr> else p) t)"

definition boost_one :: "pcb \<Rightarrow> pcb" where
  "boost_one p = (if p_state p \<noteq> PROC_EXITED then p\<lparr>p_mlfq_level := 0\<rparr> else p)"

definition sched_priority_boost :: "scheduler \<Rightarrow> process_table \<Rightarrow> process_table" where
  "sched_priority_boost s t = (if s_algo s = SCHED_MLFQ then proc_for_each boost_one t else t)"


section \<open>Ready queues are bounded FIFO buffers without duplicates\<close>

definition ring_view :: "ring \<Rightarrow> int list" where
  "ring_view r = ring_list 1024 (r_items r) (r_head r) (r_len r)"

definition ring_ok :: "ring \<Rightarrow> bool" where
  "ring_ok r \<longleftrightarrow> r_head r < 1024 \<and> r_len r \<le> 1024"

interpretation ready_ring: bounded_fifo 1024 ring_view ring_ok ring_put "\<lambda>r. r_items r (r_head r)" ring_drop
proof unfold_locales
  fix q x
  assume "ring_ok q" "length (ring_view q) < 1024"
  then show "ring_view (ring_put x q) = ring_view q @ [x]" "ring_ok (ring_put x q)"
    by (simp_all add: ring_view_def ring_put_def ring_ok_def ring_list_push)
next
  fix q
  assume "ring_ok q" "ring_view q \<noteq> []"
  then show "r_items q (r_head q) = hd (ring_view q)" "ring_view (ring_drop q) = tl (ring_view q)" "ring_ok (ring_drop q)"
    using ring_list_pop [of "r_len q" 1024 "r_items q" "r_head q"]
    by (auto simp: ring_view_def ring_ok_def ring_drop_def ring_list_first)
qed (simp add: ring_view_def ring_ok_def)

lemma length_ring_view [simp]: "length (ring_view r) = r_len r"
  by (simp add: ring_view_def)

lemma queue_contains_iff: "queue_contains r pid \<longleftrightarrow> pid \<in> set (ring_view r)"
  by (auto simp: queue_contains_def first_idx_None_iff ring_view_def in_set_ring_list)

lemma queue_push_view:
  assumes "ring_ok r"
  shows "ring_view (snd (queue_push r pid)) =
      (if fst (queue_push r pid) then ring_view r @ [pid] else ring_view r)"
    and "fst (queue_push r pid) \<longleftrightarrow> r_len r < 1024 \<and> pid \<notin> set (ring_view r)"
    and "ring_ok (snd (queue_push r pid))"
  using assms ready_ring.view_put [of r pid] ready_ring.valid_put [of r pid]
  by (auto simp: queue_push_def queue_contains_iff)

text \<open>A pop returns the first ready process and throws away what was queued before it.\<close>

lemma queue_pop_view:
  "ring_ok r \<Longrightarrow>
     (case dropWhile (\<lambda>p. \<not> is_ready t p) (ring_view r) of
        [] \<Rightarrow> fst (queue_pop t r) = -1 \<and> ring_view (snd (queue_pop t r)) = []
      | p # ps \<Rightarrow> fst (queue_pop t r) = p \<and> ring_view (snd (queue_pop t r)) = ps) \<and>
     ring_ok (snd (queue_pop t r))"
proof (induction t r rule: queue_pop.induct)
  case (1 t r)
  show ?case
  proof (cases "0 < r_len r")
    case False
    then show ?thesis using 1(2) by (simp add: queue_pop.simps [of t r] ring_view_def)
  next
    case True
    then have ne: "ring_view r \<noteq> []" by (simp add: ring_view_def)
    then obtain x xs where v: "ring_view r = x # xs" by (cases "ring_view r") auto
    then have x: "r_items r (r_head r) = x" and d: "ring_view (ring_drop r) = xs" "ring_ok (ring_drop r)"
      using ready_ring.front_view [OF 1(2) ne] ready_ring.view_drop1 [OF 1(2) ne] ready_ring.valid_drop1 [OF 1(2) ne]
      by simp_all
    show ?thesis
    proof (cases "is_ready t x")
      case True
      then show ?thesis using \<open>0 < r_len r\<close> x v d by (simp add: queue_pop.simps [of t r] Let_def)
    next
      case False
      then have eq: "queue_pop t r = queue_pop t (ring_drop r)"
        using \<open>0 < r_len r\<close> x by (simp add: queue_pop.simps [of t r] Let_def)
      have "\<not> is_ready t (r_items r (r_head r))" using False x by simp
      then show ?thesis using 1(1) [OF \<open>0 < r_len r\<close> refl refl] False v d unfolding eq by simp
    qed
  qed
qed


section \<open>Binary heaps in an array\<close>

text \<open>
  The sift loops are correct for every comparison that compares keys of a linear order. The
  scheduler's comparison is such a one, with null process pointers last.
\<close>

definition heap_but :: "('a \<Rightarrow> 'k::linorder) \<Rightarrow> nat set \<Rightarrow> 'a carray \<Rightarrow> nat \<Rightarrow> bool" where
  "heap_but key X h n \<longleftrightarrow> (\<forall>j. 0 < j \<longrightarrow> j < n \<longrightarrow> j \<notin> X \<longrightarrow> key (h ((j - 1) div 2)) \<le> key (h j))"

abbreviation heap_ord :: "('a \<Rightarrow> 'k::linorder) \<Rightarrow> 'a carray \<Rightarrow> nat \<Rightarrow> bool" where
  "heap_ord key \<equiv> heap_but key {}"

text \<open>The children of \<open>i\<close> are not below the parent of \<open>i\<close>.\<close>

definition bridged :: "('a \<Rightarrow> 'k::linorder) \<Rightarrow> 'a carray \<Rightarrow> nat \<Rightarrow> nat \<Rightarrow> bool" where
  "bridged key h n i \<longleftrightarrow> (\<forall>j. 0 < i \<longrightarrow> 0 < j \<longrightarrow> j < n \<longrightarrow> (j - 1) div 2 = i \<longrightarrow> key (h ((i - 1) div 2)) \<le> key (h j))"

lemma parent_cases: "0 < j \<Longrightarrow> (j - 1) div 2 = i \<longleftrightarrow> j = 2 * i + 1 \<or> j = 2 * i + 2" for i j :: nat
  by auto

lemma parent_less: "0 < j \<Longrightarrow> (j - 1) div 2 < j" for j :: nat
  by auto

lemma swap_cells_apply:
  "swap_cells h i j k = (if k = j then h i else if k = i then h j else h k)"
  by (simp add: swap_cells_def)

lemma mset_swap_cells:
  assumes "i < n" "j < n"
  shows "mset (arr_list (swap_cells h i j) n) = mset (arr_list h n)"
proof -
  have "arr_list (swap_cells h i j) n = (arr_list h n)[j := arr_list h n ! i, i := arr_list h n ! j]"
    using assms by (intro nth_equalityI) (auto simp: swap_cells_apply nth_list_update)
  then show ?thesis using assms mset_swap [of i "arr_list h n" j] assms by (simp add: list_update_swap)
qed

locale keyed_less =
  fixes lt :: "'a \<Rightarrow> 'a \<Rightarrow> bool"
    and key :: "'a \<Rightarrow> 'k::linorder"
  assumes lt_key: "lt x y \<longleftrightarrow> key x < key y"
begin

lemma sift_up_mset: "i < n \<Longrightarrow> mset (arr_list (sift_up lt h i) n) = mset (arr_list h n)"
proof (induction lt h i rule: sift_up.induct)
  case (1 lt h i)
  then show ?case
    using parent_less [of i] by (subst sift_up.simps) (auto simp: Let_def mset_swap_cells)
qed

lemma swap_up_heap:
  assumes "i < n" "0 < i" "heap_but key {i} h n" "bridged key h n i" "key (h i) < key (h ((i - 1) div 2))"
  shows "heap_but key {(i - 1) div 2} (swap_cells h i ((i - 1) div 2)) n" "bridged key (swap_cells h i ((i - 1) div 2)) n ((i - 1) div 2)"
proof -
  let ?p = "(i - 1) div 2" and ?h = "swap_cells h i ((i - 1) div 2)"
  have p: "?p < i" using assms(2) by auto
  have H: "key (h ((j - 1) div 2)) \<le> key (h j)" if "0 < j" "j < n" "j \<noteq> i" for j
    using assms(3) that by (auto simp: heap_but_def)
  have B: "key (h ?p) \<le> key (h j)" if "0 < j" "j < n" "(j - 1) div 2 = i" for j
    using assms(2,4) that by (auto simp: bridged_def)
  show "heap_but key {?p} ?h n"
    unfolding heap_but_def
  proof (intro allI impI)
    fix j assume j: "0 < j" "j < n" "j \<notin> {?p}"
    let ?q = "(j - 1) div 2"
    consider "j = i" | "j \<noteq> i" "?q = i" | "j \<noteq> i" "?q = ?p" | "j \<noteq> i" "?q \<noteq> i" "?q \<noteq> ?p" by blast
    then show "key (?h ?q) \<le> key (?h j)"
      using H [of j] B [of j] j p assms(5) by cases (simp_all add: swap_cells_apply)
  qed
  show "bridged key ?h n ?p"
    unfolding bridged_def
  proof (intro allI impI)
    fix j assume j: "0 < ?p" "0 < j" "j < n" "(j - 1) div 2 = ?p"
    let ?g = "(?p - 1) div 2"
    have g: "?g < ?p" using j(1) by (rule parent_less)
    have "key (h ?g) \<le> key (h ?p)" using H [of ?p] j(1) p assms(1) by simp
    moreover have "key (h ?p) \<le> key (h j)" if "j \<noteq> i" using H [of j] j that by simp
    ultimately show "key (?h ?g) \<le> key (?h j)"
      using g p j parent_less [of j] by (cases "j = i") (auto simp: swap_cells_apply)
  qed
qed

lemma sift_up_heap:
  "i < n \<Longrightarrow> heap_but key {i} h n \<Longrightarrow> bridged key h n i \<Longrightarrow> heap_ord key (sift_up lt h i) n"
proof (induction i arbitrary: h rule: less_induct)
  case (less i)
  let ?p = "(i - 1) div 2"
  show ?case
  proof (cases "0 < i \<and> lt (h i) (h ?p)")
    case False
    then have eq: "sift_up lt h i = h" by (subst sift_up.simps) (auto simp: Let_def)
    show ?thesis unfolding eq using False less.prems(2) by (auto simp: heap_but_def lt_key not_less)
  next
    case True
    then have p: "?p < i" "key (h i) < key (h ?p)" by (auto simp: lt_key)
    have "sift_up lt h i = sift_up lt (swap_cells h i ?p) ?p"
      using True by (subst sift_up.simps) (simp add: Let_def)
    then show ?thesis
      using less.IH [OF p(1) _ swap_up_heap [OF less.prems(1) _ less.prems(2,3) p(2)]] True p(1) less.prems(1) by simp
  qed
qed

lemma best_child_facts:
  obtains (stay) "best_child lt h n i = i" "\<And>c. c \<in> {2 * i + 1, 2 * i + 2} \<Longrightarrow> c < n \<Longrightarrow> key (h i) \<le> key (h c)"
  | (down) b where "best_child lt h n i = b" "b \<in> {2 * i + 1, 2 * i + 2}" "b < n" "key (h b) < key (h i)"
      "\<And>c. c \<in> {2 * i + 1, 2 * i + 2} \<Longrightarrow> c < n \<Longrightarrow> key (h b) \<le> key (h c)"
proof -
  let ?l = "2 * i + 1" and ?r = "2 * i + 2"
  have b: "best_child lt h n i =
      (let best = (if ?l < n \<and> key (h ?l) < key (h i) then ?l else i)
       in if ?r < n \<and> key (h ?r) < key (h best) then ?r else best)"
    by (simp add: best_child_def lt_key Let_def mult.commute)
  show thesis
  proof (cases "?l < n \<and> key (h ?l) < key (h i)")
    case L: True
    show thesis
    proof (cases "?r < n \<and> key (h ?r) < key (h ?l)")
      case True
      then have "key (h ?r) < key (h i)" using L by (blast intro: less_trans)
      then show thesis by (intro down [of ?r]) (use b L True in \<open>auto simp: less_imp_le\<close>)
    next
      case False
      then show thesis by (intro down [of ?l]) (use b L False in \<open>auto simp: not_less\<close>)
    qed
  next
    case L: False
    show thesis
    proof (cases "?r < n \<and> key (h ?r) < key (h i)")
      case True
      then have "key (h ?r) \<le> key (h ?l)" if "?l < n" using L that by (meson not_less less_imp_le le_less_trans)
      then show thesis by (intro down [of ?r]) (use b L True in auto)
    next
      case False
      then have "best_child lt h n i = i" unfolding b using L by simp
      then show thesis by (intro stay) (use L False in \<open>auto simp: not_less\<close>)
    qed
  qed
qed

lemma sift_down_mset: "i < n \<Longrightarrow> mset (arr_list (sift_down lt h n i) n) = mset (arr_list h n)"
proof (induction lt h n i rule: sift_down.induct)
  case (1 lt h n i)
  show ?case
  proof (cases "best_child lt h n i = i")
    case True
    then show ?thesis by (subst sift_down.simps) simp
  next
    case False
    then have "best_child lt h n i < n" using best_child_cases [of lt h n i] by simp
    then show ?thesis using False 1 by (subst sift_down.simps) (simp add: Let_def mset_swap_cells)
  qed
qed

lemma swap_down_heap:
  assumes "heap_but key {2 * i + 1, 2 * i + 2} h n" "bridged key h n i" "b \<in> {2 * i + 1, 2 * i + 2}" "b < n" "key (h b) < key (h i)"
    and least: "\<And>j. 0 < j \<Longrightarrow> j < n \<Longrightarrow> (j - 1) div 2 = i \<Longrightarrow> key (h b) \<le> key (h j)"
  shows "heap_but key {2 * b + 1, 2 * b + 2} (swap_cells h i b) n" "bridged key (swap_cells h i b) n b"
proof -
  let ?h = "swap_cells h i b"
  have ib: "i < b" and pb: "(b - 1) div 2 = i" using assms(3) by auto
  have H: "key (h ((j - 1) div 2)) \<le> key (h j)" if "0 < j" "j < n" "(j - 1) div 2 \<noteq> i" for j
    using assms(1) that parent_cases [of j i] by (auto simp: heap_but_def)
  show "heap_but key {2 * b + 1, 2 * b + 2} ?h n"
    unfolding heap_but_def
  proof (intro allI impI)
    fix j assume j: "0 < j" "j < n" "j \<notin> {2 * b + 1, 2 * b + 2}"
    let ?q = "(j - 1) div 2"
    have qb: "?q \<noteq> b" using j parent_cases [of j b] by auto
    have up: "key (h ((i - 1) div 2)) \<le> key (h b)" if "j = i"
      using assms(2,4) that j(1) pb ib by (simp add: bridged_def)
    consider "j = b" | "j \<noteq> b" "?q = i" | "j = i" | "j \<noteq> b" "?q \<noteq> i" "j \<noteq> i" by blast
    then show "key (?h ?q) \<le> key (?h j)"
      using pb ib assms(5) qb least [of j] up H [OF j(1,2)] j(1,2) parent_less [OF j(1)] by cases (simp_all add: swap_cells_apply)
  qed
  show "bridged key ?h n b"
    unfolding bridged_def
  proof (intro allI impI)
    fix j assume j: "0 < b" "0 < j" "j < n" "(j - 1) div 2 = b"
    then have "key (h b) \<le> key (h j)" using H [OF j(2,3)] ib by simp
    then show "key (?h ((b - 1) div 2)) \<le> key (?h j)"
      using pb ib j parent_less [OF j(2)] by (simp add: swap_cells_apply)
  qed
qed

lemma sift_down_heap:
  "heap_but key {2 * i + 1, 2 * i + 2} h n \<Longrightarrow> bridged key h n i \<Longrightarrow> heap_ord key (sift_down lt h n i) n"
proof (induction "n - i" arbitrary: h i rule: less_induct)
  case less
  show ?case
  proof (cases rule: best_child_facts [of h n i])
    case stay
    then have eq: "sift_down lt h n i = h" by (subst sift_down.simps) simp
    have "key (h ((j - 1) div 2)) \<le> key (h j)" if "0 < j" "j < n" for j
      using less.prems(1) stay(2) [of j] that parent_cases [of j i] by (auto simp: heap_but_def)
    then show ?thesis unfolding eq by (simp add: heap_but_def)
  next
    case (down b)
    have ib: "i < b" using down(2) by auto
    have "key (h b) \<le> key (h j)" if "0 < j" "j < n" "(j - 1) div 2 = i" for j
      using down(5) [of j] that parent_cases [of j i] by auto
    note S = swap_down_heap [OF less.prems down(2,3,4) this]
    have "sift_down lt h n i = sift_down lt (swap_cells h i b) n b"
      using down(1) ib by (subst sift_down.simps) (simp add: Let_def)
    then show ?thesis using less.hyps [OF _ S] ib down(3) by simp
  qed
qed

lemma heap_root_least:
  assumes "heap_ord key h n" "j < n"
  shows "key (h 0) \<le> key (h j)"
  using assms(2)
proof (induction j rule: less_induct)
  case (less j)
  show ?case
  proof (cases "j = 0")
    case False
    then have "key (h 0) \<le> key (h ((j - 1) div 2))" using less parent_less [of j] by simp
    also have "\<dots> \<le> key (h j)" using assms(1) False less.prems by (simp add: heap_but_def)
    finally show ?thesis .
  qed simp
qed

end


text \<open>The scheduler's comparison: priority, then time of becoming ready; unknown processes last.\<close>

definition prio_rank :: "process_table \<Rightarrow> int \<Rightarrow> nat \<times> int \<times> u64" where
  "prio_rank t pid =
     (case proc_get pid t of None \<Rightarrow> (1, 0, 0) | Some p \<Rightarrow> (0, p_priority p, p_last_ready_tick p))"

interpretation prio: keyed_less "prio_less t" "prio_rank t" for t
  by unfold_locales (auto simp: prio_less_def prio_rank_def split: option.splits)

definition heap_view :: "scheduler \<Rightarrow> int list" where
  "heap_view s = arr_list (s_heap s) (s_heap_len s)"

abbreviation prio_heap :: "process_table \<Rightarrow> scheduler \<Rightarrow> bool" where
  "prio_heap t s \<equiv> heap_ord (prio_rank t) (s_heap s) (s_heap_len s)"

lemma length_heap_view [simp]: "length (heap_view s) = s_heap_len s"
  by (simp add: heap_view_def)

lemma heap_contains_iff: "heap_contains s pid \<longleftrightarrow> pid \<in> set (heap_view s)"
  by (auto simp: heap_contains_def first_idx_None_iff heap_view_def set_arr_list)

lemma heap_push_ok: "fst (heap_push t s pid) \<longleftrightarrow> s_heap_len s < 1024 \<and> pid \<notin> set (heap_view s)"
  by (auto simp: heap_push_def heap_contains_iff Let_def)

lemma heap_push_fails: "\<not> fst (heap_push t s pid) \<Longrightarrow> snd (heap_push t s pid) = s"
  by (auto simp: heap_push_def Let_def split: if_splits)

lemma heap_push_facts:
  assumes "fst (heap_push t s pid)"
  shows "mset (heap_view (snd (heap_push t s pid))) = add_mset pid (mset (heap_view s))"
    and "prio_heap t s \<Longrightarrow> prio_heap t (snd (heap_push t s pid))"
    and "s_heap_len (snd (heap_push t s pid)) = Suc (s_heap_len s)"
    and "\<exists>h. snd (heap_push t s pid) = s\<lparr>s_heap_len := Suc (s_heap_len s), s_heap := h\<rparr>"
proof -
  let ?n = "s_heap_len s" and ?h = "(s_heap s)(s_heap_len s := pid)"
  have eq: "snd (heap_push t s pid) = s\<lparr>s_heap_len := Suc ?n, s_heap := sift_up (prio_less t) ?h ?n\<rparr>"
    using assms by (auto simp: heap_push_def Let_def split: if_splits)
  then show "\<exists>h. snd (heap_push t s pid) = s\<lparr>s_heap_len := Suc ?n, s_heap := h\<rparr>" by blast
  show "s_heap_len (snd (heap_push t s pid)) = Suc ?n" by (simp add: eq)
  show "mset (heap_view (snd (heap_push t s pid))) = add_mset pid (mset (heap_view s))"
    by (simp add: eq heap_view_def prio.sift_up_mset arr_list_push [simplified])
  assume "prio_heap t s"
  then have "heap_but (prio_rank t) {?n} ?h (Suc ?n)"
    by (auto simp: heap_but_def)
  moreover have "bridged (prio_rank t) ?h (Suc ?n) ?n" by (auto simp: bridged_def)
  ultimately show "prio_heap t (snd (heap_push t s pid))" by (simp add: eq prio.sift_up_heap)
qed

lemma heap_remove_top_facts:
  assumes "0 < s_heap_len s"
  shows "mset (heap_view s) = add_mset (s_heap s 0) (mset (heap_view (heap_remove_top t s)))"
    and "prio_heap t s \<Longrightarrow> prio_heap t (heap_remove_top t s)"
    and "s_heap_len (heap_remove_top t s) = s_heap_len s - 1"
    and "\<exists>h. heap_remove_top t s = s\<lparr>s_heap_len := s_heap_len s - 1, s_heap := h\<rparr>"
proof -
  obtain n where n: "s_heap_len s = Suc n" using assms by (cases "s_heap_len s") auto
  let ?h = "(s_heap s)(0 := s_heap s n)"
  have eq: "heap_remove_top t s = s\<lparr>s_heap_len := n, s_heap := sift_down (prio_less t) ?h n 0\<rparr>"
    by (simp add: heap_remove_top_def n)
  then show "s_heap_len (heap_remove_top t s) = s_heap_len s - 1"
    "\<exists>h. heap_remove_top t s = s\<lparr>s_heap_len := s_heap_len s - 1, s_heap := h\<rparr>" by (auto simp: n)
  have "mset (arr_list (s_heap s) (Suc n)) = add_mset (s_heap s 0) (mset (arr_list ?h n))"
  proof (cases n)
    case 0
    then show ?thesis by (simp add: arr_list_def)
  next
    case (Suc m)
    have "arr_list ?h n = s_heap s n # map (s_heap s) [1..<n]"
      unfolding arr_list_def Suc by (subst upt_conv_Cons) auto
    moreover have "arr_list (s_heap s) (Suc n) = s_heap s 0 # map (s_heap s) [1..<n] @ [s_heap s n]"
      unfolding arr_list_def Suc by (subst upt_conv_Cons) auto
    ultimately show ?thesis by simp
  qed
  moreover have "mset (arr_list (sift_down (prio_less t) ?h n 0) n) = mset (arr_list ?h n)"
    by (cases n) (simp_all add: arr_list_def [of _ 0] prio.sift_down_mset)
  ultimately show "mset (heap_view s) = add_mset (s_heap s 0) (mset (heap_view (heap_remove_top t s)))"
    by (simp add: eq heap_view_def n)
  assume "prio_heap t s"
  then have "heap_but (prio_rank t) {2 * 0 + 1, 2 * 0 + 2} ?h n"
    by (auto simp: heap_but_def n)
  moreover have "bridged (prio_rank t) ?h n 0" by (simp add: bridged_def)
  ultimately have "heap_ord (prio_rank t) (sift_down (prio_less t) ?h n 0) n"
    by (rule prio.sift_down_heap)
  then show "prio_heap t (heap_remove_top t s)" by (simp add: eq)
qed


section \<open>What a pick returns\<close>

lemma is_ready_pos: "is_ready t pid \<Longrightarrow> 1 \<le> pid"
  using proc_get_SomeD(3) [of pid t] by (auto simp: is_ready_def split: option.splits)

text \<open>
  The pool is the multiset of queued process ids. A pick takes one ready process out of it
  and may discard processes that are no longer ready, but never a ready one.
\<close>

definition picks :: "process_table \<Rightarrow> int multiset \<Rightarrow> int \<Rightarrow> int multiset \<Rightarrow> bool" where
  "picks t P pid P' \<longleftrightarrow>
     (if pid = -1 then filter_mset (is_ready t) P = {#} \<and> P' \<subseteq># P
      else is_ready t pid \<and> add_mset pid P' \<subseteq># P \<and>
        filter_mset (is_ready t) P = add_mset pid (filter_mset (is_ready t) P'))"

lemma picks_discard:
  assumes "picks t P pid P'" "\<not> is_ready t x"
  shows "picks t (add_mset x P) pid P'"
proof -
  have "P \<subseteq># add_mset x P" by simp
  then have "M \<subseteq># P \<Longrightarrow> M \<subseteq># add_mset x P" for M by (rule subset_mset.order_trans [rotated])
  then show ?thesis using assms by (simp add: picks_def split: if_splits)
qed

lemma picks_frame:
  assumes "picks t P pid P'" "pid \<noteq> -1"
  shows "picks t (P + Q) pid (P' + Q)"
  using assms by (auto simp: picks_def union_mset_add_mset_left [symmetric] simp del: union_mset_add_mset_left)

lemma picks_after_none:
  assumes "picks t P (-1) P'" "picks t Q pid Q'"
  shows "picks t (P + Q) pid (P' + Q')"
proof (cases "pid = -1")
  case True
  then show ?thesis using assms by (auto simp: picks_def intro: subset_mset.add_mono)
next
  case False
  have P: "filter_mset (is_ready t) P = {#}" "P' \<subseteq># P" using assms(1) by (auto simp: picks_def)
  then have P': "filter_mset (is_ready t) P' = {#}"
    by (metis multiset_filter_mono subset_mset.le_zero_eq)
  have Q: "is_ready t pid" "add_mset pid Q' \<subseteq># Q"
    "filter_mset (is_ready t) Q = add_mset pid (filter_mset (is_ready t) Q')"
    using assms(2) False by (simp_all add: picks_def)
  have "filter_mset (is_ready t) (P + Q) = add_mset pid (filter_mset (is_ready t) (P' + Q'))"
    by (simp only: filter_union_mset P(1) P' Q(3) add_0)
  moreover have "add_mset pid (P' + Q') \<subseteq># P + Q"
    using subset_mset.add_mono [OF P(2) Q(2)] by simp
  ultimately show ?thesis using Q(1) False by (simp only: picks_def if_False)
qed

lemma queue_pop_picks:
  "ring_ok r \<Longrightarrow> picks t (mset (ring_view r)) (fst (queue_pop t r)) (mset (ring_view (snd (queue_pop t r))))"
proof (induction t r rule: queue_pop.induct)
  case (1 t r)
  show ?case
  proof (cases "0 < r_len r")
    case False
    then show ?thesis by (simp add: queue_pop.simps [of t r] ring_view_def picks_def)
  next
    case True
    then have ne: "ring_view r \<noteq> []" by (simp add: ring_view_def)
    let ?x = "r_items r (r_head r)"
    have v: "mset (ring_view r) = add_mset ?x (mset (ring_view (ring_drop r)))"
      using ready_ring.front_view [OF 1(2) ne] ready_ring.view_drop1 [OF 1(2) ne] ne
      by (cases "ring_view r") auto
    show ?thesis
    proof (cases "is_ready t ?x")
      case ready: True
      then have "queue_pop t r = (?x, ring_drop r)" using True by (simp add: queue_pop.simps [of t r] Let_def)
      then show ?thesis using ready v is_ready_pos [OF ready] by (auto simp: picks_def)
    next
      case False
      then have eq: "queue_pop t r = queue_pop t (ring_drop r)"
        using True by (simp add: queue_pop.simps [of t r] Let_def)
      have "ring_ok (ring_drop r)" using 1(2) ne by (rule ready_ring.valid_drop1)
      then show ?thesis using 1(1) [OF True refl refl False] False
        unfolding v eq by (intro picks_discard) auto
    qed
  qed
qed

lemma heap_pop_picks:
  "picks t (mset (heap_view s)) (fst (heap_pop t s)) (mset (heap_view (snd (heap_pop t s)))) \<and>
   (prio_heap t s \<longrightarrow> prio_heap t (snd (heap_pop t s)) \<and>
      (\<forall>q \<in> set (heap_view s). is_ready t q \<longrightarrow> prio_rank t (fst (heap_pop t s)) \<le> prio_rank t q)) \<and>
   s_heap_len (snd (heap_pop t s)) \<le> s_heap_len s \<and>
   (\<exists>h n. snd (heap_pop t s) = s\<lparr>s_heap_len := n, s_heap := h\<rparr>)"
proof (induction t s rule: heap_pop.induct)
  case (1 t s)
  show ?case
  proof (cases "0 < s_heap_len s")
    case False
    moreover have "\<exists>h n. s = s\<lparr>s_heap_len := n, s_heap := h\<rparr>"
      by (intro exI [of _ "s_heap s"] exI [of _ "s_heap_len s"]) simp
    ultimately show ?thesis
      by (simp add: heap_pop.simps [of t s] heap_view_def arr_list_def picks_def)
  next
    case True
    let ?x = "s_heap s 0" and ?s = "heap_remove_top t s"
    note R = heap_remove_top_facts [OF True, where t = t]
    have least: "prio_rank t ?x \<le> prio_rank t q" if "prio_heap t s" "q \<in> set (heap_view s)" for q
      using that prio.heap_root_least by (auto simp: heap_view_def set_arr_list)
    show ?thesis
    proof (cases "is_ready t ?x")
      case ready: True
      then have "heap_pop t s = (?x, ?s)" using True by (simp add: heap_pop.simps [of t s] Let_def)
      then show ?thesis using ready R least is_ready_pos [OF ready] by (auto simp: picks_def)
    next
      case False
      then have eq: "heap_pop t s = heap_pop t ?s" using True by (simp add: heap_pop.simps [of t s] Let_def)
      note IH = 1 [OF True refl refl False]
      have q: "q \<in> set (heap_view ?s)" if "q \<in> set (heap_view s)" "is_ready t q" for q
      proof -
        have "q \<in># add_mset ?x (mset (heap_view ?s))" using that(1) R(1) by (metis set_mset_mset)
        then show ?thesis using that(2) False by auto
      qed
      show ?thesis unfolding eq R(1)
      proof (intro conjI impI ballI)
        show "picks t (add_mset ?x (mset (heap_view ?s))) (fst (heap_pop t ?s)) (mset (heap_view (snd (heap_pop t ?s))))"
          using IH False by (intro picks_discard) auto
        show "s_heap_len (snd (heap_pop t ?s)) \<le> s_heap_len s" using IH R(3) by auto
        show "\<exists>h n. snd (heap_pop t ?s) = s\<lparr>s_heap_len := n, s_heap := h\<rparr>"
        proof -
          obtain h n h' n' where "snd (heap_pop t ?s) = ?s\<lparr>s_heap_len := n, s_heap := h\<rparr>"
            "?s = s\<lparr>s_heap_len := n', s_heap := h'\<rparr>" using IH R(4) by blast
          then have "snd (heap_pop t ?s) = s\<lparr>s_heap_len := n, s_heap := h\<rparr>" by simp
          then show ?thesis by blast
        qed
      qed (use IH R(2) q in auto)
    qed
  qed
qed


section \<open>The scheduler as a pool of processes\<close>

definition pool :: "scheduler \<Rightarrow> int multiset" where
  "pool s =
     (if s_algo s = SCHED_PRIO then mset (heap_view s)
      else if s_algo s = SCHED_MLFQ then (\<Sum>q<4. mset (ring_view (s_mlfq s q)))
      else mset (ring_view (s_rr s)))"

definition sched_inv :: "scheduler \<Rightarrow> bool" where
  "sched_inv s \<longleftrightarrow> ring_ok (s_rr s) \<and> (\<forall>q. ring_ok (s_mlfq s q)) \<and> s_heap_len s \<le> 1024 \<and> s_quantum_ticks s \<noteq> 0"

lemma sched_inv_init [inv_intros]: "sched_inv (sched_init algo q)"
  by (simp add: sched_inv_def sched_init_def ring_ok_def zero_ring_def)

lemma pool_init [simp]: "pool (sched_init algo q) = {#}"
  by (simp add: pool_def sched_init_def heap_view_def ring_view_def zero_ring_def ring_list_def arr_list_def)

text \<open>Scanning the levels: the levels below the one that answers hold no ready process.\<close>

definition mlfq_scanned :: "process_table \<Rightarrow> nat \<Rightarrow> scheduler \<Rightarrow> int \<Rightarrow> scheduler \<Rightarrow> bool" where
  "mlfq_scanned t q s pid s' \<longleftrightarrow>
     picks t (\<Sum>i = q..<4. mset (ring_view (s_mlfq s i))) pid (\<Sum>i = q..<4. mset (ring_view (s_mlfq s' i))) \<and>
     (\<forall>i. ring_ok (s_mlfq s' i)) \<and> (\<exists>m. s' = s\<lparr>s_mlfq := m\<rparr>) \<and> (\<forall>i < q. s_mlfq s' i = s_mlfq s i) \<and>
     (pid \<noteq> -1 \<longrightarrow> (\<exists>l. q \<le> l \<and> l < 4 \<and> pid \<in> set (ring_view (s_mlfq s l)) \<and>
        (\<forall>i. q \<le> i \<longrightarrow> i < l \<longrightarrow> (\<forall>x \<in> set (ring_view (s_mlfq s i)). \<not> is_ready t x))))"

lemma mlfq_levels_split:
  fixes f :: "nat \<Rightarrow> int multiset"
  assumes "q < 4"
  shows "(\<Sum>i = q..<4. f i) = f q + (\<Sum>i = Suc q..<4. f i)"
  using assms by (simp add: sum.atLeast_Suc_lessThan)

lemma mlfq_other_levels:
  "(\<Sum>i = Suc q..<4. mset (ring_view (((s_mlfq s)(q := r)) i))) = (\<Sum>i = Suc q..<4. mset (ring_view (s_mlfq s i)))"
  by (intro sum.cong) auto

lemma mlfq_scanned_here:
  assumes "q < 4" "\<And>i. ring_ok (s_mlfq s i)" "ring_ok r" "0 \<le> p" "picks t (mset (ring_view (s_mlfq s q))) p (mset (ring_view r))"
  shows "mlfq_scanned t q s p (s\<lparr>s_mlfq := (s_mlfq s)(q := r)\<rparr>)"
proof -
  have "picks t (\<Sum>i = q..<4. mset (ring_view (s_mlfq s i))) p (\<Sum>i = q..<4. mset (ring_view (((s_mlfq s)(q := r)) i)))"
    unfolding mlfq_levels_split [OF assms(1)] mlfq_other_levels using picks_frame [OF assms(5)] assms(4) by simp
  moreover have "p \<in> set (ring_view (s_mlfq s q))"
    using assms(4,5) mset_subset_eqD [of "add_mset p (mset (ring_view r))" "mset (ring_view (s_mlfq s q))" p]
    by (auto simp: picks_def split: if_splits)
  ultimately show ?thesis unfolding mlfq_scanned_def using assms(1-3) by (intro conjI impI) (auto intro!: exI [of _ q])
qed

lemma mlfq_scanned_next:
  assumes "q < 4" and none: "picks t (mset (ring_view (s_mlfq s q))) (-1) (mset (ring_view r))"
    and scan: "mlfq_scanned t (Suc q) (s\<lparr>s_mlfq := (s_mlfq s)(q := r)\<rparr>) pid s'" (is "mlfq_scanned t _ ?s _ _")
  shows "mlfq_scanned t q s pid s'"
proof -
  have N: "picks t (\<Sum>i = Suc q..<4. mset (ring_view (s_mlfq s i))) pid (\<Sum>i = Suc q..<4. mset (ring_view (s_mlfq s' i)))"
    "\<forall>i. ring_ok (s_mlfq s' i)" "\<exists>m. s' = ?s\<lparr>s_mlfq := m\<rparr>" "\<forall>i < Suc q. s_mlfq s' i = s_mlfq ?s i"
    "pid \<noteq> -1 \<longrightarrow> (\<exists>l. Suc q \<le> l \<and> l < 4 \<and> pid \<in> set (ring_view (s_mlfq ?s l)) \<and>
       (\<forall>i. Suc q \<le> i \<longrightarrow> i < l \<longrightarrow> (\<forall>x \<in> set (ring_view (s_mlfq ?s i)). \<not> is_ready t x)))"
    using scan mlfq_other_levels [of s q r] unfolding mlfq_scanned_def by simp_all
  have idle: "\<forall>x \<in> set (ring_view (s_mlfq s q)). \<not> is_ready t x" using none by (auto simp: picks_def)
  show ?thesis unfolding mlfq_scanned_def
  proof (intro conjI impI)
    show "picks t (\<Sum>i = q..<4. mset (ring_view (s_mlfq s i))) pid (\<Sum>i = q..<4. mset (ring_view (s_mlfq s' i)))"
      unfolding mlfq_levels_split [OF assms(1)] using picks_after_none [OF none N(1)] N(4) by simp
    show "\<exists>m. s' = s\<lparr>s_mlfq := m\<rparr>" using N(3) by auto
    assume "pid \<noteq> -1"
    then obtain l where l: "Suc q \<le> l" "l < 4" "pid \<in> set (ring_view (s_mlfq s l))"
      "\<And>i. Suc q \<le> i \<Longrightarrow> i < l \<Longrightarrow> \<forall>x \<in> set (ring_view (s_mlfq s i)). \<not> is_ready t x"
      using N(5) by force
    show "\<exists>l. q \<le> l \<and> l < 4 \<and> pid \<in> set (ring_view (s_mlfq s l)) \<and>
       (\<forall>i. q \<le> i \<longrightarrow> i < l \<longrightarrow> (\<forall>x \<in> set (ring_view (s_mlfq s i)). \<not> is_ready t x))"
      using l idle by (intro exI [of _ l]) (metis Suc_leI Suc_leD order_le_less)
  qed (use N in auto)
qed

lemma mlfq_pick_scanned:
  assumes "\<And>i. ring_ok (s_mlfq s i)" "q \<le> 4" "mlfq_pick t q s = (pid, s')"
  shows "mlfq_scanned t q s pid s'"
  using assms
proof (induction t q s arbitrary: pid s' rule: mlfq_pick.induct)
  case (1 t q s)
  show ?case
  proof (cases "q < 4")
    case False
    then have "pid = -1" "s' = s" using 1(4) by (simp_all add: mlfq_pick.simps [of t q s])
    moreover have "\<exists>m. s = s\<lparr>s_mlfq := m\<rparr>" by (intro exI [of _ "s_mlfq s"]) simp
    ultimately show ?thesis using False 1(2) by (simp add: mlfq_scanned_def picks_def)
  next
    case True
    obtain p r where pop: "queue_pop t (s_mlfq s q) = (p, r)" by fastforce
    let ?s = "s\<lparr>s_mlfq := (s_mlfq s)(q := r)\<rparr>"
    have P: "picks t (mset (ring_view (s_mlfq s q))) p (mset (ring_view r))" "ring_ok r"
      using queue_pop_picks [OF 1(2) [of q], of t] queue_pop_view [OF 1(2) [of q], of t] pop by simp_all
    have ok: "ring_ok (s_mlfq ?s i)" for i using 1(2) P(2) by simp
    show ?thesis
    proof (cases "0 \<le> p")
      case pos: True
      then have e: "pid = p" "s' = ?s" using 1(4) True pop by (simp_all add: mlfq_pick.simps [of t q s])
      show ?thesis unfolding e by (rule mlfq_scanned_here [OF True 1(2) P(2) pos P(1)])
    next
      case False
      then have p: "p = -1" using P(1) is_ready_pos [of t p] by (auto simp: picks_def split: if_splits)
      have e: "mlfq_pick t (Suc q) ?s = (pid, s')" using 1(4) True pop False by (simp add: mlfq_pick.simps [of t q s])
      have "mlfq_scanned t (Suc q) ?s pid s'" using 1(1) [OF _ refl pop [symmetric] refl False ok _ e] True by simp
      then show ?thesis by (rule mlfq_scanned_next [OF True P(1) [unfolded p]])
    qed
  qed
qed

lemmas mlfq_pick_picks = mlfq_pick_scanned [unfolded mlfq_scanned_def, THEN conjunct1]
  mlfq_pick_scanned [unfolded mlfq_scanned_def, THEN conjunct2, THEN conjunct1]
  mlfq_pick_scanned [unfolded mlfq_scanned_def, THEN conjunct2, THEN conjunct2, THEN conjunct1]
  mlfq_pick_scanned [unfolded mlfq_scanned_def, THEN conjunct2, THEN conjunct2, THEN conjunct2, THEN conjunct1]
  mlfq_pick_scanned [unfolded mlfq_scanned_def, THEN conjunct2, THEN conjunct2, THEN conjunct2, THEN conjunct2, THEN mp]


subsection \<open>The contract the runtime relies on\<close>

locale ready_pool =
  fixes wf :: "'s \<Rightarrow> bool"
    and content :: "'s \<Rightarrow> int multiset"
    and ready :: "'t \<Rightarrow> int \<Rightarrow> bool"
    and enqueue :: "'t \<Rightarrow> 's \<Rightarrow> int \<Rightarrow> bool \<times> 's"
    and pick :: "'t \<Rightarrow> 's \<Rightarrow> int \<times> 's"
  assumes ready_nonneg: "\<And>t p. ready t p \<Longrightarrow> 0 \<le> p"
    and enqueue_content: "\<And>t s p. wf s \<Longrightarrow>
          content (snd (enqueue t s p)) = (if fst (enqueue t s p) then add_mset p (content s) else content s)"
    and enqueue_accepts: "\<And>t s p. wf s \<Longrightarrow> ready t p \<Longrightarrow> p \<notin># content s \<Longrightarrow> size (content s) < 1024 \<Longrightarrow>
          fst (enqueue t s p)"
    and enqueue_wf: "\<And>t s p. wf s \<Longrightarrow> wf (snd (enqueue t s p))"
    and pick_wf: "\<And>t s. wf s \<Longrightarrow> wf (snd (pick t s))"
    and pick_none: "\<And>t s. wf s \<Longrightarrow> fst (pick t s) = -1 \<Longrightarrow>
          filter_mset (ready t) (content s) = {#} \<and> content (snd (pick t s)) \<subseteq># content s"
    and pick_some: "\<And>t s. wf s \<Longrightarrow> fst (pick t s) \<noteq> -1 \<Longrightarrow>
          ready t (fst (pick t s)) \<and> add_mset (fst (pick t s)) (content (snd (pick t s))) \<subseteq># content s \<and>
          filter_mset (ready t) (content s) =
            add_mset (fst (pick t s)) (filter_mset (ready t) (content (snd (pick t s))))"
begin

text \<open>The processor is left idle only when no queued process is ready.\<close>

lemma pick_idle_iff: "wf s \<Longrightarrow> fst (pick t s) = -1 \<longleftrightarrow> (\<forall>p \<in># content s. \<not> ready t p)"
  using pick_none [of s t] pick_some [of s t]
  by (cases "fst (pick t s) = -1") (auto dest: mset_subset_eqD)

lemma pick_ready: "wf s \<Longrightarrow> fst (pick t s) \<noteq> -1 \<Longrightarrow> ready t (fst (pick t s)) \<and> fst (pick t s) \<in># content s"
  using pick_some [of s t] by (auto dest: mset_subset_eqD)

text \<open>No ready process is lost by picking another one.\<close>

lemma pick_keeps:
  assumes "wf s" "q \<in># content s" "ready t q" "q \<noteq> fst (pick t s)"
  shows "q \<in># content (snd (pick t s))"
proof -
  have q: "q \<in># filter_mset (ready t) (content s)" using assms(2,3) by simp
  then have n: "fst (pick t s) \<noteq> -1" using pick_none [OF assms(1), of t] by auto
  show ?thesis using q pick_some [OF assms(1) n] assms(4) by auto
qed

lemma enqueue_then_member:
  "wf s \<Longrightarrow> ready t p \<Longrightarrow> size (content s) < 1024 \<Longrightarrow> p \<in># content (snd (enqueue t s p))"
  using enqueue_content [of s t p] enqueue_accepts [of s t p] by (cases "p \<in># content s") auto

end

text \<open>\<open>picked n t s\<close>: the answers of the first \<open>n\<close> calls of \<open>sched_pick_next\<close>, up to the first \<open>-1\<close>.\<close>

primrec picked :: "nat \<Rightarrow> process_table \<Rightarrow> scheduler \<Rightarrow> int list" where
  "picked 0 t s = []"
| "picked (Suc n) t s =
     (let (pid, s') = sched_pick_next t s in if pid = -1 then [] else pid # picked n t s')"

lemma pool_upd [simp]:
  "pool (s\<lparr>s_current_pid := p\<rparr>) = pool s" "pool (s\<lparr>s_consumed_ticks := c\<rparr>) = pool s"
  "pool (s\<lparr>s_last_boost_tick := b\<rparr>) = pool s" "pool (s\<lparr>s_quantum_ticks := c\<rparr>) = pool s"
  by (simp_all add: pool_def heap_view_def)

lemma sched_inv_upd [simp]:
  "sched_inv (s\<lparr>s_current_pid := p\<rparr>) = sched_inv s" "sched_inv (s\<lparr>s_consumed_ticks := c\<rparr>) = sched_inv s"
  "sched_inv (s\<lparr>s_last_boost_tick := b\<rparr>) = sched_inv s"
  by (simp_all add: sched_inv_def)

lemma sum_lessThan_four: "(\<Sum>q<4. f q) = (\<Sum>i = 0..<4. f i)" for f :: "nat \<Rightarrow> int multiset"
  by (simp add: atLeast0LessThan)

lemma sched_pick_next_facts:
  assumes "sched_inv s"
  shows "picks t (pool s) (fst (sched_pick_next t s)) (pool (snd (sched_pick_next t s)))"
    and "sched_inv (snd (sched_pick_next t s))"
    and "s_algo (snd (sched_pick_next t s)) = s_algo s"
proof -
  have inv: "ring_ok (s_rr s)" "\<And>q. ring_ok (s_mlfq s q)" "s_heap_len s \<le> 1024" "s_quantum_ticks s \<noteq> 0"
    using assms by (simp_all add: sched_inv_def)
  have "picks t (pool s) (fst (sched_pick_next t s)) (pool (snd (sched_pick_next t s))) \<and>
    sched_inv (snd (sched_pick_next t s)) \<and> s_algo (snd (sched_pick_next t s)) = s_algo s"
  proof (cases "s_algo s = SCHED_PRIO \<or> s_algo s = SCHED_MLFQ")
    case False
    then show ?thesis
      using queue_pop_picks [OF inv(1), of t] queue_pop_view [OF inv(1), of t] inv
      by (simp add: sched_pick_next_def split_beta pool_def sched_inv_def Let_def)
  next
    case True
    show ?thesis
    proof (cases "s_algo s = SCHED_PRIO")
      case True
      obtain h n where "snd (heap_pop t s) = s\<lparr>s_heap_len := n, s_heap := h\<rparr>"
        "n \<le> s_heap_len s" "picks t (mset (heap_view s)) (fst (heap_pop t s)) (mset (heap_view (snd (heap_pop t s))))"
        using heap_pop_picks [of t s] by auto
      then show ?thesis using True inv
        by (simp add: sched_pick_next_def split_beta pool_def sched_inv_def heap_view_def)
    next
      case False
      then have a: "s_algo s = SCHED_MLFQ" using True by simp
      obtain pid s' where m: "mlfq_pick t 0 s = (pid, s')" by fastforce
      note M = mlfq_pick_picks(1,2,3) [OF inv(2) le0 m]
      then obtain f where "s' = s\<lparr>s_mlfq := f\<rparr>" by blast
      then show ?thesis using a m M(1,2) inv
        by (simp add: sched_pick_next_def pool_def sched_inv_def sum_lessThan_four)
    qed
  qed
  then show "picks t (pool s) (fst (sched_pick_next t s)) (pool (snd (sched_pick_next t s)))"
    and "sched_inv (snd (sched_pick_next t s))"
    and "s_algo (snd (sched_pick_next t s)) = s_algo s" by blast+
qed

lemma mset_subset_eq_sum:
  fixes f :: "'b \<Rightarrow> 'c multiset"
  assumes "finite A" "a \<in> A"
  shows "f a \<subseteq># (\<Sum>x\<in>A. f x)"
  using assms by (simp add: sum.remove)

lemma pool_mlfq_upd:
  assumes "l < 4" "mset (ring_view r) = add_mset p (mset (ring_view (s_mlfq s l)))"
  shows "(\<Sum>q<4. mset (ring_view (((s_mlfq s)(l := r)) q))) = add_mset p (\<Sum>q<4. mset (ring_view (s_mlfq s q)))"
  using assms by (auto simp: numeral_eq_Suc less_Suc_eq)

lemma mlfq_level_of_less [simp]: "mlfq_level_of p < 4"
  by (simp add: mlfq_level_of_def)

text \<open>The effect of an insertion with result \<open>r\<close>; a process is refused only if it is queued already or the queue is full.\<close>

definition enqueued :: "scheduler \<Rightarrow> int \<Rightarrow> bool \<times> scheduler \<Rightarrow> bool" where
  "enqueued s p r \<longleftrightarrow> pool (snd r) = (if fst r then add_mset p (pool s) else pool s) \<and> sched_inv (snd r) \<and> s_algo (snd r) = s_algo s \<and>
     (p \<notin># pool s \<longrightarrow> size (pool s) < 1024 \<longrightarrow> fst r)"

lemma enqueued_heap:
  assumes "sched_inv s" "s_algo s = SCHED_PRIO"
  shows "enqueued s p (heap_push t s p)"
proof (cases "fst (heap_push t s p)")
  case True
  obtain h where "snd (heap_push t s p) = s\<lparr>s_heap_len := Suc (s_heap_len s), s_heap := h\<rparr>"
    using heap_push_facts(4) [OF True] by blast
  then show ?thesis
    using True assms heap_push_facts(1) [OF True] heap_push_ok [of t s p] by (simp add: enqueued_def pool_def sched_inv_def)
next
  case False
  then show ?thesis using assms heap_push_fails [OF False] heap_push_ok [of t s p] by (simp add: enqueued_def pool_def)
qed

lemma enqueued_mlfq:
  assumes "sched_inv s" "s_algo s = SCHED_MLFQ" "l < 4"
  shows "enqueued s p (fst (queue_push (s_mlfq s l) p), s\<lparr>s_mlfq := (s_mlfq s)(l := snd (queue_push (s_mlfq s l) p))\<rparr>)"
proof -
  let ?q = "queue_push (s_mlfq s l) p"
  have inv: "\<And>i. ring_ok (s_mlfq s i)" using assms(1) by (simp add: sched_inv_def)
  note Q = queue_push_view [OF inv [of l], of p]
  have sub: "mset (ring_view (s_mlfq s l)) \<subseteq># (\<Sum>i<4. mset (ring_view (s_mlfq s i)))"
    using assms(3) by (intro mset_subset_eq_sum) simp_all
  show ?thesis
  proof (cases "fst ?q")
    case True
    then show ?thesis using assms Q pool_mlfq_upd [of l "snd ?q" p s] by (simp add: enqueued_def pool_def sched_inv_def)
  next
    case False
    then have "snd ?q = s_mlfq s l" by (auto simp: queue_push_def split: if_splits)
    moreover have "p \<in># (\<Sum>i<4. mset (ring_view (s_mlfq s i))) \<or> 1024 \<le> size (\<Sum>i<4. mset (ring_view (s_mlfq s i)))"
      using False Q(2) mset_subset_eqD [OF sub, of p] size_mset_mono [OF sub] by auto
    ultimately show ?thesis using assms False by (auto simp: enqueued_def pool_def)
  qed
qed

lemma enqueued_ring:
  assumes "sched_inv s" "s_algo s \<noteq> SCHED_PRIO" "s_algo s \<noteq> SCHED_MLFQ"
  shows "enqueued s p (fst (queue_push (s_rr s) p), s\<lparr>s_rr := snd (queue_push (s_rr s) p)\<rparr>)"
  using assms queue_push_view [of "s_rr s" p] by (simp add: enqueued_def pool_def sched_inv_def)

lemma sched_enqueue_facts:
  assumes "sched_inv s"
  shows "pool (snd (sched_enqueue t s p)) =
      (if fst (sched_enqueue t s p) then add_mset p (pool s) else pool s)"
    and "sched_inv (snd (sched_enqueue t s p))"
    and "s_algo (snd (sched_enqueue t s p)) = s_algo s"
    and "is_ready t p \<Longrightarrow> p \<notin># pool s \<Longrightarrow> size (pool s) < 1024 \<Longrightarrow> fst (sched_enqueue t s p)"
proof -
  let ?e = "sched_enqueue t s p"
  have "enqueued s p ?e" if "proc_get p t = Some c" for c
    using that enqueued_heap [OF assms, of p t] enqueued_mlfq [OF assms, of "mlfq_level_of c" p] enqueued_ring [OF assms, of p]
    by (simp add: sched_enqueue_def Let_def split_beta)
  moreover have "?e = (False, s)" "\<not> is_ready t p" if "proc_get p t = None" using that by (simp_all add: sched_enqueue_def is_ready_def)
  ultimately have "pool (snd ?e) = (if fst ?e then add_mset p (pool s) else pool s) \<and> sched_inv (snd ?e) \<and> s_algo (snd ?e) = s_algo s \<and>
    (is_ready t p \<longrightarrow> p \<notin># pool s \<longrightarrow> size (pool s) < 1024 \<longrightarrow> fst ?e)"
    using assms by (cases "proc_get p t") (auto simp: enqueued_def)
  then show "pool (snd ?e) = (if fst ?e then add_mset p (pool s) else pool s)" "sched_inv (snd ?e)"
    "s_algo (snd ?e) = s_algo s"
    "is_ready t p \<Longrightarrow> p \<notin># pool s \<Longrightarrow> size (pool s) < 1024 \<Longrightarrow> fst ?e" by blast+
qed

interpretation sched: ready_pool sched_inv pool is_ready sched_enqueue sched_pick_next
proof unfold_locales
  fix t s assume inv: "sched_inv s"
  note P = sched_pick_next_facts [OF inv, of t]
  show "sched_inv (snd (sched_pick_next t s))" by (rule P(2))
  show "filter_mset (is_ready t) (pool s) = {#} \<and> pool (snd (sched_pick_next t s)) \<subseteq># pool s"
    if "fst (sched_pick_next t s) = -1" using P(1) that by (simp add: picks_def)
  show "is_ready t (fst (sched_pick_next t s)) \<and>
      add_mset (fst (sched_pick_next t s)) (pool (snd (sched_pick_next t s))) \<subseteq># pool s \<and>
      filter_mset (is_ready t) (pool s) =
        add_mset (fst (sched_pick_next t s)) (filter_mset (is_ready t) (pool (snd (sched_pick_next t s))))"
    if "fst (sched_pick_next t s) \<noteq> -1" using P(1) that by (simp add: picks_def)
next
  fix t p assume "is_ready t p"
  then show "0 \<le> p" using is_ready_pos by fastforce
next
  fix t s p assume inv: "sched_inv s"
  note E = sched_enqueue_facts [OF inv, of t p]
  show "pool (snd (sched_enqueue t s p)) = (if fst (sched_enqueue t s p) then add_mset p (pool s) else pool s)"
    by (rule E(1))
  show "sched_inv (snd (sched_enqueue t s p))" by (rule E(2))
  show "fst (sched_enqueue t s p)" if "is_ready t p" "p \<notin># pool s" "size (pool s) < 1024"
    using that by (rule E(4))
qed


section \<open>Properties\<close>

lemma picked_mset:
  "sched_inv s \<Longrightarrow> size (filter_mset (is_ready t) (pool s)) \<le> n \<Longrightarrow>
     mset (picked n t s) = filter_mset (is_ready t) (pool s)"
proof (induction n arbitrary: s)
  case 0
  then show ?case by simp
next
  case (Suc n)
  obtain p s' where e: "sched_pick_next t s = (p, s')" by fastforce
  have inv: "sched_inv s'" using sched.pick_wf [OF Suc.prems(1), of t] e by simp
  show ?case
  proof (cases "p = -1")
    case True
    then show ?thesis using sched.pick_none [OF Suc.prems(1), of t] e by simp
  next
    case False
    then have f: "filter_mset (is_ready t) (pool s) = add_mset p (filter_mset (is_ready t) (pool s'))"
      using sched.pick_some [OF Suc.prems(1), of t] e by simp
    then have "size (filter_mset (is_ready t) (pool s')) \<le> n" using Suc.prems(2) by simp
    then show ?thesis using Suc.IH [OF inv] e False f by simp
  qed
qed

definition enqueue_all :: "process_table \<Rightarrow> int list \<Rightarrow> scheduler \<Rightarrow> scheduler" where
  "enqueue_all t pids s = fold (\<lambda>p s. snd (sched_enqueue t s p)) pids s"

lemma sched_inv_enqueue_all: "sched_inv s \<Longrightarrow> sched_inv (enqueue_all t pids s)"
  by (induction pids arbitrary: s) (simp_all add: enqueue_all_def sched.enqueue_wf)

lemma pool_enqueue_all:
  "sched_inv s \<Longrightarrow> \<forall>p \<in> set pids. is_ready t p \<Longrightarrow> distinct pids \<Longrightarrow> set pids \<inter> set_mset (pool s) = {} \<Longrightarrow>
     size (pool s) + length pids \<le> 1024 \<Longrightarrow> pool (enqueue_all t pids s) = pool s + mset pids"
proof (induction pids arbitrary: s)
  case Nil
  then show ?case by (simp add: enqueue_all_def)
next
  case (Cons p pids)
  let ?s = "snd (sched_enqueue t s p)"
  have "fst (sched_enqueue t s p)" using Cons.prems by (intro sched.enqueue_accepts) auto
  then have pool: "pool ?s = add_mset p (pool s)" using sched.enqueue_content [OF Cons.prems(1), of t p] by simp
  have "pool (enqueue_all t pids ?s) = pool ?s + mset pids"
    using Cons.prems pool by (intro Cons.IH) (auto simp: sched.enqueue_wf)
  then show ?case by (simp add: enqueue_all_def pool)
qed

text \<open>C25. No process starves in a ready queue and none is invented: under every policy, once a set of
  at most 1024 distinct ready processes has been queued in a cleared scheduler, the next calls
  of \<open>sched_pick_next\<close> return each of them exactly once before the first \<^verbatim>\<open>-1\<close>.\<close>

theorem sched_pick_each_once:
  assumes "\<forall>p \<in> set pids. is_ready t p" "distinct pids" "length pids \<le> 1024" "length pids \<le> n"
  shows "mset (picked n t (enqueue_all t pids (sched_clear s))) = mset pids"
proof -
  let ?c = "sched_clear s" and ?s = "enqueue_all t pids (sched_clear s)"
  have c: "sched_inv ?c" "pool ?c = {#}" by (simp_all add: sched_clear_def sched_inv_init)
  have p: "pool ?s = mset pids" using pool_enqueue_all [OF c(1)] assms c(2) by simp
  have "filter_mset (is_ready t) (mset pids) = mset pids"
    using assms(1) by (metis mset_filter filter_True)
  then show ?thesis using picked_mset [of ?s t n] sched_inv_enqueue_all [OF c(1)] assms(4) p by simp
qed

text \<open>C26. Order of service. Whatever process is picked is queued and ready. FCFS and round robin return the
  first ready process in order of arrival and keep everything queued behind it; the multi-level
  feedback queue returns a process of the lowest-numbered level that holds a ready one; the
  priority scheduler, whenever its array is a heap, returns a ready process of least (priority,
  ready tick) and leaves a heap. The scheduler's queues are assumed to be well-formed.\<close>

theorem sched_pick_order:
  assumes "sched_inv s" "sched_pick_next t s = (pid, s')" "pid \<noteq> -1"
  shows "is_ready t pid \<and> pid \<in># pool s \<and> (case s_algo s of
      SCHED_PRIO \<Rightarrow> prio_heap t s \<longrightarrow>
        prio_heap t s' \<and> (\<forall>q \<in># pool s. is_ready t q \<longrightarrow> prio_rank t pid \<le> prio_rank t q)
    | SCHED_MLFQ \<Rightarrow> \<exists>l < 4. pid \<in> set (ring_view (s_mlfq s l)) \<and>
        (\<forall>i < l. \<forall>q \<in> set (ring_view (s_mlfq s i)). \<not> is_ready t q)
    | _ \<Rightarrow> \<exists>xs. ring_view (s_rr s) = xs @ pid # ring_view (s_rr s') \<and> (\<forall>q \<in> set xs. \<not> is_ready t q))"
proof -
  have inv: "ring_ok (s_rr s)" "\<And>q. ring_ok (s_mlfq s q)" using assms(1) by (simp_all add: sched_inv_def)
  have fifo: "\<exists>xs. ring_view (s_rr s) = xs @ pid # ring_view (s_rr s') \<and> (\<forall>q \<in> set xs. \<not> is_ready t q)"
    if a: "s_algo s \<noteq> SCHED_PRIO" "s_algo s \<noteq> SCHED_MLFQ"
  proof -
    let ?v = "ring_view (s_rr s)"
    have q: "fst (queue_pop t (s_rr s)) = pid" "snd (queue_pop t (s_rr s)) = s_rr s'"
      using a assms(2) by (auto simp: sched_pick_next_def Let_def split: prod.splits)
    then have "dropWhile (\<lambda>p. \<not> is_ready t p) ?v = pid # ring_view (s_rr s')"
      using queue_pop_view [OF inv(1), of t] assms(3)
      by (cases "dropWhile (\<lambda>p. \<not> is_ready t p) ?v") auto
    then have "?v = takeWhile (\<lambda>p. \<not> is_ready t p) ?v @ pid # ring_view (s_rr s')"
      by (metis takeWhile_dropWhile_id)
    then show ?thesis by (metis set_takeWhileD)
  qed
  have heap: "prio_heap t s' \<and> (\<forall>q \<in># pool s. is_ready t q \<longrightarrow> prio_rank t pid \<le> prio_rank t q)"
    if a: "s_algo s = SCHED_PRIO" "prio_heap t s"
  proof -
    obtain s1 where "heap_pop t s = (pid, s1)" "s_heap s' = s_heap s1" "s_heap_len s' = s_heap_len s1"
      using a(1) assms(2) by (cases "heap_pop t s") (auto simp: sched_pick_next_def)
    then show ?thesis using heap_pop_picks [of t s] a by (simp add: pool_def)
  qed
  have mlfq: "\<exists>l < 4. pid \<in> set (ring_view (s_mlfq s l)) \<and>
      (\<forall>i < l. \<forall>q \<in> set (ring_view (s_mlfq s i)). \<not> is_ready t q)" if a: "s_algo s = SCHED_MLFQ"
  proof -
    obtain s1 where "mlfq_pick t 0 s = (pid, s1)"
      using a assms(2) by (cases "mlfq_pick t 0 s") (auto simp: sched_pick_next_def)
    then show ?thesis using mlfq_pick_picks(5) [OF inv(2) le0 _ assms(3), of t s1] by simp
  qed
  have ready: "is_ready t pid" "pid \<in># pool s" using sched.pick_ready [OF assms(1), of t] assms(2,3) by simp_all
  show ?thesis using ready fifo heap mlfq by (cases "s_algo s") auto
qed


text \<open>A table with two ready processes, of priorities 5 and 3.\<close>

definition two_ready :: process_table where
  "two_ready = \<lparr>
     entries = (\<lambda>_. zero_pcb)
       (0 := zero_pcb\<lparr>p_used := True, p_pid := 1, p_state := PROC_READY, p_priority := 5\<rparr>,
        1 := zero_pcb\<lparr>p_used := True, p_pid := 2, p_state := PROC_READY, p_priority := 3\<rparr>),
     next_pid = 3, pid_to_slot = (\<lambda>_. -1)(0 := 0, 1 := 1), os_maps = {}\<rparr>"

lemma proc_get_two_ready:
  "proc_get 1 two_ready = Some (zero_pcb\<lparr>p_used := True, p_pid := 1, p_state := PROC_READY, p_priority := 5\<rparr>)"
  "proc_get 2 two_ready = Some (zero_pcb\<lparr>p_used := True, p_pid := 2, p_state := PROC_READY, p_priority := 3\<rparr>)"
  by (simp_all add: proc_get_def find_slot_by_pid_def two_ready_def)

lemma two_ready_ready: "is_ready two_ready 1" "is_ready two_ready 2"
  by (simp_all add: is_ready_def proc_get_two_ready)

theorem sched_pick_each_once_witness:
  "mset (picked 5 two_ready (enqueue_all two_ready [1, 2] (sched_clear (sched_init SCHED_MLFQ 3)))) = {#1, 2#}"
  using sched_pick_each_once [of "[1, 2]" two_ready 5 "sched_init SCHED_MLFQ 3"] two_ready_ready by simp

text \<open>The first process has been blocked since it was queued: the second is picked.\<close>

definition first_blocked :: process_table where
  "first_blocked = two_ready\<lparr>entries := (entries two_ready)(0 := (entries two_ready 0)\<lparr>p_state := PROC_BLOCKED\<rparr>)\<rparr>"

lemma first_blocked_ready: "\<not> is_ready first_blocked 1" "is_ready first_blocked 2"
  by (simp_all add: is_ready_def proc_get_def find_slot_by_pid_def first_blocked_def two_ready_def)

theorem sched_pick_order_witness:
  "\<exists>s' xs. sched_pick_next first_blocked (enqueue_all two_ready [1, 2] (sched_init SCHED_RR 3)) = (2, s') \<and>
     ring_view (s_rr (enqueue_all two_ready [1, 2] (sched_init SCHED_RR 3))) = xs @ 2 # ring_view (s_rr s')"
proof -
  let ?s = "enqueue_all two_ready [1, 2] (sched_init SCHED_RR 3)"
  have inv: "sched_inv ?s" by (intro sched_inv_enqueue_all sched_inv_init)
  have pool: "pool ?s = {#1, 2#}"
    using pool_enqueue_all [OF sched_inv_init, of "[1, 2]" two_ready SCHED_RR 3] two_ready_ready by simp
  then have "fst (sched_pick_next first_blocked ?s) \<noteq> -1"
    using sched.pick_idle_iff [OF inv, of first_blocked] first_blocked_ready by auto
  moreover obtain pid s' where e: "sched_pick_next first_blocked ?s = (pid, s')" by fastforce
  ultimately have p: "pid \<noteq> -1" by simp
  have "s_algo ?s = SCHED_RR"
    by (simp add: enqueue_all_def sched_enqueue_facts(3) sched_inv_init sched.enqueue_wf) (simp add: sched_init_def)
  then obtain xs where o: "is_ready first_blocked pid" "pid \<in># pool ?s" "ring_view (s_rr ?s) = xs @ pid # ring_view (s_rr s')"
    using sched_pick_order [OF inv e p] by auto
  have "pid = 2" using o(1,2) pool first_blocked_ready(1) by auto
  then show ?thesis using e o(3) by blast
qed

lemma prio_heap_enqueue_all:
  "s_algo s = SCHED_PRIO \<Longrightarrow> sched_inv s \<Longrightarrow> prio_heap t s \<Longrightarrow>
     prio_heap t (enqueue_all t pids s) \<and> s_algo (enqueue_all t pids s) = SCHED_PRIO"
proof (induction pids arbitrary: s)
  case Nil
  then show ?case by (simp add: enqueue_all_def)
next
  case (Cons p pids)
  let ?s = "snd (sched_enqueue t s p)"
  have "?s = s \<or> ?s = snd (heap_push t s p)"
    using Cons.prems(1) by (auto simp: sched_enqueue_def split: option.splits)
  then have "prio_heap t ?s"
    using Cons.prems(3) heap_push_facts(2) [of t s p] heap_push_fails [of t s p] by (cases "fst (heap_push t s p)") auto
  moreover have "sched_inv ?s" "s_algo ?s = SCHED_PRIO"
    using Cons.prems by (simp_all add: sched.enqueue_wf sched_enqueue_facts(3))
  ultimately show ?case using Cons.IH [of ?s] by (simp add: enqueue_all_def)
qed

lemma picked_sorted:
  "s_algo s = SCHED_PRIO \<Longrightarrow> sched_inv s \<Longrightarrow> prio_heap t s \<Longrightarrow>
     sorted (map (prio_rank t) (picked n t s)) \<and> set (picked n t s) \<subseteq> {q. q \<in># pool s \<and> is_ready t q}"
proof (induction n arbitrary: s)
  case 0
  then show ?case by simp
next
  case (Suc n)
  obtain p s' where e: "sched_pick_next t s = (p, s')" by fastforce
  show ?case
  proof (cases "p = -1")
    case True
    then show ?thesis using e by simp
  next
    case False
    note P = sched.pick_some [OF Suc.prems(2), of t, unfolded e, simplified]
    obtain s1 where s1: "heap_pop t s = (p, s1)" "s_heap s' = s_heap s1" "s_heap_len s' = s_heap_len s1"
      using Suc.prems(1) e by (cases "heap_pop t s") (auto simp: sched_pick_next_def)
    have h: "prio_heap t s'" "\<forall>q \<in># pool s. is_ready t q \<longrightarrow> prio_rank t p \<le> prio_rank t q"
      using heap_pop_picks [of t s] s1 Suc.prems(1,3) by (simp_all add: pool_def)
    have "sched_inv s'" "s_algo s' = SCHED_PRIO"
      using sched_pick_next_facts(2,3) [OF Suc.prems(2), of t] e Suc.prems(1) by simp_all
    then have IH: "sorted (map (prio_rank t) (picked n t s'))"
      "set (picked n t s') \<subseteq> {q. q \<in># pool s' \<and> is_ready t q}" using Suc.IH [of s'] h(1) by blast+
    have "set_mset (pool s') \<subseteq> set_mset (pool s)" "p \<in># pool s"
      using P False by (auto dest: mset_subset_eqD mset_subset_eq_insertD)
    then show ?thesis using e False IH h(2) P by auto
  qed
qed

text \<open>C27. The priority queue sorts: whatever processes are queued in a cleared priority scheduler, and
  in whatever order, successive picks return them in ascending order of priority, and among
  equal priorities in the order in which they became ready.\<close>

theorem prio_picks_sorted:
  assumes "s_algo s = SCHED_PRIO"
  shows "sorted (map (prio_rank t) (picked n t (enqueue_all t pids (sched_clear s))))"
proof -
  have "s_algo (sched_clear s) = SCHED_PRIO" "sched_inv (sched_clear s)" "prio_heap t (sched_clear s)"
    using assms by (simp_all add: sched_clear_def sched_inv_init) (simp_all add: sched_init_def heap_but_def)
  then show ?thesis
    using prio_heap_enqueue_all sched_inv_enqueue_all picked_sorted by blast
qed

theorem prio_picks_sorted_witness:
  "sorted (map (prio_rank two_ready)
     (picked 2 two_ready (enqueue_all two_ready [1, 2] (sched_clear (sched_init SCHED_PRIO 3)))))"
  using prio_picks_sorted [of "sched_init SCHED_PRIO 3"] by (simp add: sched_init_def)

end
