(* ===== verification/IPC.thy ===== *)
theory IPC
  imports Mosrt_Interfaces
begin

text \<open>
  \<^verbatim>\<open>ipc.c\<close>: 16 bounded message queues with direct handoff to waiting receivers.

  The static array \<^verbatim>\<open>g_queues\<close> is the state \<open>ipc_state\<close>; a pointer to one of its elements
  is its index, \<^verbatim>\<open>NULL\<close> is \<open>None\<close>. The waiting arrays are the records \<open>waitq\<close>. A receive
  returns the message through its result instead of an output parameter.
\<close>

definition MOSRT_MAX_MSG_QUEUES :: nat where "MOSRT_MAX_MSG_QUEUES = 16"
definition MOSRT_MSG_CAPACITY :: nat where "MOSRT_MSG_CAPACITY = 16"
definition MOSRT_WAITQ_CAPACITY :: nat where "MOSRT_WAITQ_CAPACITY = 128"

lemma ipc_consts [simp]:
  "MOSRT_MAX_MSG_QUEUES = 16" "MOSRT_MSG_CAPACITY = 16" "MOSRT_WAITQ_CAPACITY = 128"
  by (simp_all add: MOSRT_MAX_MSG_QUEUES_def MOSRT_MSG_CAPACITY_def MOSRT_WAITQ_CAPACITY_def)

datatype ipc_result = IPC_OK | IPC_WOULD_BLOCK | IPC_ERROR

record ipc_message =
  im_sender_pid :: int
  im_value :: int

record ipc_queue =
  q_used :: bool
  q_id :: int
  q_items :: "ipc_message carray"
  q_grants :: "ipc_message carray"
  q_grant_pids :: "int carray"
  q_grants_len :: nat
  q_head :: nat
  q_len :: nat
  q_send_waiters :: waitq
  q_recv_waiters :: waitq

type_synonym ipc_state = "ipc_queue carray"

definition zero_msg :: ipc_message where "zero_msg = \<lparr>im_sender_pid = 0, im_value = 0\<rparr>"
definition zero_waitq :: waitq where "zero_waitq = \<lparr>w_pids = (\<lambda>_. 0), w_len = 0\<rparr>"

definition zero_queue :: ipc_queue where
  "zero_queue = \<lparr>q_used = False, q_id = 0, q_items = (\<lambda>_. zero_msg), q_grants = (\<lambda>_. zero_msg),
     q_grant_pids = (\<lambda>_. 0), q_grants_len = 0, q_head = 0, q_len = 0,
     q_send_waiters = zero_waitq, q_recv_waiters = zero_waitq\<rparr>"


section \<open>Operations\<close>

definition find_queue :: "int \<Rightarrow> ipc_state \<Rightarrow> nat option" where
  "find_queue qid g = first_idx (\<lambda>i. q_used (g i) \<and> q_id (g i) = qid) 0 MOSRT_MAX_MSG_QUEUES"

definition waitq_add :: "waitq \<Rightarrow> int \<Rightarrow> waitq" where
  "waitq_add q pid =
     (if first_idx (\<lambda>i. w_pids q i = pid) 0 (w_len q) \<noteq> None then q
      else if w_len q < MOSRT_WAITQ_CAPACITY
      then q\<lparr>w_pids := (w_pids q)(w_len q := pid), w_len := w_len q + 1\<rparr> else q)"

definition waitq_pop :: "waitq \<Rightarrow> int \<times> waitq" where
  "waitq_pop q =
     (if w_len q = 0 then (-1, q)
      else (w_pids q 0, q\<lparr>w_pids := memmove_down (w_pids q) 0 (w_len q), w_len := w_len q - 1\<rparr>))"

definition waitq_peek :: "waitq \<Rightarrow> int" where
  "waitq_peek q = (if w_len q = 0 then -1 else w_pids q 0)"

definition waitq_remove :: "waitq \<Rightarrow> int \<Rightarrow> waitq" where
  "waitq_remove q pid =
     (case first_idx (\<lambda>i. w_pids q i = pid) 0 (w_len q) of
        Some i \<Rightarrow> q\<lparr>w_pids := memmove_down (w_pids q) i (w_len q), w_len := w_len q - 1\<rparr>
      | None \<Rightarrow> q)"

definition grant_add :: "int \<Rightarrow> ipc_message \<Rightarrow> ipc_queue \<Rightarrow> bool \<times> ipc_queue" where
  "grant_add pid msg q =
     (if MOSRT_WAITQ_CAPACITY \<le> q_grants_len q then (False, q)
      else (True, q\<lparr>q_grant_pids := (q_grant_pids q)(q_grants_len q := pid),
                    q_grants := (q_grants q)(q_grants_len q := msg),
                    q_grants_len := q_grants_len q + 1\<rparr>))"

definition grant_take :: "int \<Rightarrow> ipc_queue \<Rightarrow> ipc_message option \<times> ipc_queue" where
  "grant_take pid q =
     (case first_idx (\<lambda>i. q_grant_pids q i = pid) 0 (q_grants_len q) of
        Some i \<Rightarrow>
          (Some (q_grants q i),
           q\<lparr>q_grant_pids := memmove_down (q_grant_pids q) i (q_grants_len q),
             q_grants := memmove_down (q_grants q) i (q_grants_len q),
             q_grants_len := q_grants_len q - 1\<rparr>)
      | None \<Rightarrow> (None, q))"

definition ipc_init :: "ipc_state \<Rightarrow> ipc_state" where
  "ipc_init g = (\<lambda>_. zero_queue)"

definition ipc_create_queue :: "int \<Rightarrow> ipc_state \<Rightarrow> bool \<times> ipc_state" where
  "ipc_create_queue qid g =
     (case find_queue qid g of
        Some i \<Rightarrow> (True, g(i := zero_queue\<lparr>q_used := True, q_id := qid\<rparr>))
      | None \<Rightarrow>
          (case first_idx (\<lambda>i. \<not> q_used (g i)) 0 MOSRT_MAX_MSG_QUEUES of
             Some i \<Rightarrow> (True, g(i := zero_queue\<lparr>q_used := True, q_id := qid\<rparr>))
           | None \<Rightarrow> (False, g)))"

text \<open>The first statements of the operations on an id: find the queue, creating it when it is missing.\<close>

definition find_or_create :: "int \<Rightarrow> ipc_state \<Rightarrow> nat option \<times> ipc_state" where
  "find_or_create qid g =
     (let g' = (if find_queue qid g = None then snd (ipc_create_queue qid g) else g)
      in (find_queue qid g', g'))"

definition ipc_send :: "int \<Rightarrow> int \<Rightarrow> int \<Rightarrow> ipc_state \<Rightarrow> ipc_result \<times> ipc_state" where
  "ipc_send qid sender_pid val g0 =
     (case find_or_create qid g0 of
        (None, g) \<Rightarrow> (IPC_ERROR, g)
      | (Some i, g) \<Rightarrow>
          (let q = g i; receiver = waitq_peek (q_recv_waiters q);
               msg = \<lparr>im_sender_pid = sender_pid, im_value = val\<rparr>
           in if 0 \<le> receiver then
                (let (ok, q') = grant_add receiver msg q in (if ok then IPC_OK else IPC_ERROR, g(i := q')))
              else if MOSRT_MSG_CAPACITY \<le> q_len q then (IPC_WOULD_BLOCK, g)
              else (let idx = (q_head q + q_len q) mod MOSRT_MSG_CAPACITY
                    in (IPC_OK, g(i := q\<lparr>q_items := (q_items q)(idx := msg), q_len := q_len q + 1\<rparr>)))))"

definition ipc_recv :: "int \<Rightarrow> int \<Rightarrow> ipc_state \<Rightarrow> ipc_result \<times> ipc_message option \<times> ipc_state" where
  "ipc_recv qid receiver_pid g0 =
     (case find_or_create qid g0 of
        (None, g) \<Rightarrow> (IPC_ERROR, None, g)
      | (Some i, g) \<Rightarrow>
          (let q = g i
           in case grant_take receiver_pid q of
                (Some msg, q') \<Rightarrow>
                  (IPC_OK, Some msg,
                   g(i := q'\<lparr>q_recv_waiters := waitq_remove (q_recv_waiters q') receiver_pid\<rparr>))
              | (None, _) \<Rightarrow>
                  (let first_waiter = waitq_peek (q_recv_waiters q)
                   in if 0 \<le> first_waiter \<and> first_waiter \<noteq> receiver_pid then (IPC_WOULD_BLOCK, None, g)
                      else if q_len q = 0 then (IPC_WOULD_BLOCK, None, g)
                      else (IPC_OK, Some (q_items q (q_head q)),
                            g(i := q\<lparr>q_head := (q_head q + 1) mod MOSRT_MSG_CAPACITY, q_len := q_len q - 1\<rparr>)))))"

definition ipc_wait_sender :: "int \<Rightarrow> int \<Rightarrow> ipc_state \<Rightarrow> ipc_state" where
  "ipc_wait_sender qid pid g0 =
     (case find_or_create qid g0 of
        (None, g) \<Rightarrow> g
      | (Some i, g) \<Rightarrow> g(i := (g i)\<lparr>q_send_waiters := waitq_add (q_send_waiters (g i)) pid\<rparr>))"

definition ipc_wait_receiver :: "int \<Rightarrow> int \<Rightarrow> ipc_state \<Rightarrow> ipc_state" where
  "ipc_wait_receiver qid pid g0 =
     (case find_or_create qid g0 of
        (None, g) \<Rightarrow> g
      | (Some i, g) \<Rightarrow> g(i := (g i)\<lparr>q_recv_waiters := waitq_add (q_recv_waiters (g i)) pid\<rparr>))"

definition ipc_pop_sender_waiter :: "int \<Rightarrow> ipc_state \<Rightarrow> int \<times> ipc_state" where
  "ipc_pop_sender_waiter qid g =
     (case find_queue qid g of
        None \<Rightarrow> (-1, g)
      | Some i \<Rightarrow> (let (pid, w) = waitq_pop (q_send_waiters (g i)) in (pid, g(i := (g i)\<lparr>q_send_waiters := w\<rparr>))))"

definition ipc_pop_receiver_waiter :: "int \<Rightarrow> ipc_state \<Rightarrow> int \<times> ipc_state" where
  "ipc_pop_receiver_waiter qid g =
     (case find_queue qid g of
        None \<Rightarrow> (-1, g)
      | Some i \<Rightarrow> (let (pid, w) = waitq_pop (q_recv_waiters (g i)) in (pid, g(i := (g i)\<lparr>q_recv_waiters := w\<rparr>))))"

definition ipc_has_receiver_grant :: "int \<Rightarrow> int \<Rightarrow> ipc_state \<Rightarrow> bool" where
  "ipc_has_receiver_grant qid pid g =
     (case find_queue qid g of
        None \<Rightarrow> False
      | Some i \<Rightarrow> first_idx (\<lambda>k. q_grant_pids (g i) k = pid) 0 (q_grants_len (g i)) \<noteq> None)"


section \<open>Interfaces\<close>

lemma waiters_add:
  "waiters (waitq_add q p) = (if p \<in> set (waiters q) \<or> 128 \<le> w_len q then waiters q else waiters q @ [p])"
  by (auto simp: waitq_add_def waiters_simps)

lemma waiters_pop:
  "fst (waitq_pop q) = (if waiters q = [] then -1 else hd (waiters q))"
  "waiters (snd (waitq_pop q)) = tl (waiters q)"
  by (auto simp: waitq_pop_def waiters_simps waiters_first waiters_empty_iff) (metis list.sel(2) waiters_empty_iff)

lemma waiters_remove: "waiters (waitq_remove q p) = remove1 p (waiters q)"
  by (auto simp: waitq_remove_def waiters_simps remove1_idem split: option.splits)

lemma waitq_peek_eq: "waitq_peek q = (if waiters q = [] then -1 else hd (waiters q))"
  by (simp add: waitq_peek_def waiters_first waiters_empty_iff)

lemma waitq_ok_iff: "waitq_ok q \<longleftrightarrow> distinct (waiters q) \<and> length (waiters q) \<le> 128"
  by (simp add: waitq_ok_def)

interpretation ipc_waiters: wait_queue 128 waiters waitq_ok waitq_add waitq_pop
  by unfold_locales
     (auto simp: waitq_ok_iff waiters_add waiters_pop distinct_tl simp del: length_waiters,
      auto simp: waitq_pop_def waiters_empty_iff)

interpretation queues: id_table 16 q_used q_id find_queue "\<lambda>g. first_idx (\<lambda>i. \<not> q_used (g i)) 0 16"
  by unfold_locales (simp_all add: find_queue_def)

text \<open>The message buffer is a circular buffer.\<close>

definition buf_view :: "ipc_queue \<Rightarrow> ipc_message list" where
  "buf_view q = ring_list 16 (q_items q) (q_head q) (q_len q)"

definition buf_put :: "ipc_message \<Rightarrow> ipc_queue \<Rightarrow> ipc_queue" where
  "buf_put m q = q\<lparr>q_items := (q_items q)((q_head q + q_len q) mod 16 := m), q_len := q_len q + 1\<rparr>"

definition buf_drop :: "ipc_queue \<Rightarrow> ipc_queue" where
  "buf_drop q = q\<lparr>q_head := (q_head q + 1) mod 16, q_len := q_len q - 1\<rparr>"

interpretation msg_buffer: bounded_fifo 16 buf_view "\<lambda>q. q_head q < 16 \<and> q_len q \<le> 16" buf_put
  "\<lambda>q. q_items q (q_head q)" buf_drop
proof unfold_locales
  fix q x
  assume "q_head q < 16 \<and> q_len q \<le> 16" "length (buf_view q) < 16"
  then show "buf_view (buf_put x q) = buf_view q @ [x]" "q_head (buf_put x q) < 16 \<and> q_len (buf_put x q) \<le> 16"
    by (simp_all add: buf_view_def buf_put_def ring_list_push)
next
  fix q
  assume "q_head q < 16 \<and> q_len q \<le> 16" "buf_view q \<noteq> []"
  then show "q_items q (q_head q) = hd (buf_view q)" "buf_view (buf_drop q) = tl (buf_view q)"
    "q_head (buf_drop q) < 16 \<and> q_len (buf_drop q) \<le> 16"
    using ring_list_pop [of "q_len q" 16 "q_items q" "q_head q"]
    by (auto simp: buf_view_def buf_drop_def ring_list_first)
qed (simp add: buf_view_def)


section \<open>Abstract channels\<close>

text \<open>
  What a message queue promises, without arrays: the buffered messages, oldest first, the
  messages handed to a particular receiver, and the processes that wait.
\<close>

record channel =
  c_buffer :: "ipc_message list"
  c_granted :: "(int \<times> ipc_message) list"
  c_senders :: "int list"
  c_receivers :: "int list"

definition empty_channel :: channel where
  "empty_channel = \<lparr>c_buffer = [], c_granted = [], c_senders = [], c_receivers = []\<rparr>"

definition chan_send :: "ipc_message \<Rightarrow> channel \<Rightarrow> ipc_result \<times> channel" where
  "chan_send m c =
     (case c_receivers c of
        r # _ \<Rightarrow> if length (c_granted c) < 128 then (IPC_OK, c\<lparr>c_granted := c_granted c @ [(r, m)]\<rparr>) else (IPC_ERROR, c)
      | [] \<Rightarrow> if length (c_buffer c) < 16 then (IPC_OK, c\<lparr>c_buffer := c_buffer c @ [m]\<rparr>) else (IPC_WOULD_BLOCK, c))"

text \<open>The first grant for a process, and the grants without it.\<close>

fun take_first :: "int \<Rightarrow> (int \<times> 'm) list \<Rightarrow> ('m \<times> (int \<times> 'm) list) option" where
  "take_first p [] = None"
| "take_first p ((q, m) # gs) =
     (if q = p then Some (m, gs) else map_option (\<lambda>(m', gs'). (m', (q, m) # gs')) (take_first p gs))"

definition chan_recv :: "int \<Rightarrow> channel \<Rightarrow> ipc_result \<times> ipc_message option \<times> channel" where
  "chan_recv p c =
     (case take_first p (c_granted c) of
        Some (m, gs) \<Rightarrow> (IPC_OK, Some m, c\<lparr>c_granted := gs, c_receivers := remove1 p (c_receivers c)\<rparr>)
      | None \<Rightarrow>
          if c_receivers c \<noteq> [] \<and> hd (c_receivers c) \<noteq> p then (IPC_WOULD_BLOCK, None, c)
          else (case c_buffer c of
                  [] \<Rightarrow> (IPC_WOULD_BLOCK, None, c)
                | m # ms \<Rightarrow> (IPC_OK, Some m, c\<lparr>c_buffer := ms\<rparr>)))"

text \<open>The abstraction of one queue.\<close>

definition grants_view :: "ipc_queue \<Rightarrow> (int \<times> ipc_message) list" where
  "grants_view q = arr_list (\<lambda>i. (q_grant_pids q i, q_grants q i)) (q_grants_len q)"

definition chan_of :: "ipc_queue \<Rightarrow> channel" where
  "chan_of q = \<lparr>c_buffer = buf_view q, c_granted = grants_view q,
     c_senders = waiters (q_send_waiters q), c_receivers = waiters (q_recv_waiters q)\<rparr>"

definition queue_inv :: "ipc_queue \<Rightarrow> bool" where
  "queue_inv q \<longleftrightarrow> q_head q < 16 \<and> q_len q \<le> 16 \<and> q_grants_len q \<le> 128 \<and>
     waitq_ok (q_send_waiters q) \<and> waitq_ok (q_recv_waiters q) \<and> (\<forall>p \<in> set (waiters (q_recv_waiters q)). 0 \<le> p)"

lemma take_first_None_iff: "take_first p gs = None \<longleftrightarrow> p \<notin> fst ` set gs"
  by (induction p gs rule: take_first.induct) auto

lemma take_first_SomeI:
  "i < length gs \<Longrightarrow> fst (gs ! i) = p \<Longrightarrow> (\<And>j. j < i \<Longrightarrow> fst (gs ! j) \<noteq> p) \<Longrightarrow>
     take_first p gs = Some (snd (gs ! i), take i gs @ drop (Suc i) gs)"
proof (induction p gs arbitrary: i rule: take_first.induct)
  case (1 p)
  then show ?case by simp
next
  case (2 p q m gs)
  show ?case
  proof (cases i)
    case 0
    then show ?thesis using 2 by simp
  next
    case (Suc k)
    then have "q \<noteq> p" using 2(4) [of 0] by simp
    moreover have "take_first p gs = Some (snd (gs ! k), take k gs @ drop (Suc k) gs)"
      using 2(1) [OF \<open>q \<noteq> p\<close>, of k] 2(2,3) 2(4) [of "Suc _"] Suc by simp
    ultimately show ?thesis using Suc by simp
  qed
qed

lemma take_first_arr:
  "take_first p (arr_list (\<lambda>i. (a i, b i)) n) =
     (case first_idx (\<lambda>i. a i = p) 0 n of
        None \<Rightarrow> None
      | Some i \<Rightarrow> Some (b i, arr_list (\<lambda>k. (memmove_down a i n k, memmove_down b i n k)) (n - 1)))"
proof (cases "first_idx (\<lambda>i. a i = p) 0 n")
  case None
  then have "take_first p (arr_list (\<lambda>i. (a i, b i)) n) = None"
    by (auto simp: take_first_None_iff in_set_arr_list first_idx_None_iff)
  with None show ?thesis by simp
next
  case (Some i)
  note D = first_idx_SomeD [OF Some]
  have "(\<lambda>k. (memmove_down a i n k, memmove_down b i n k)) = memmove_down (\<lambda>k. (a k, b k)) i n"
    by (auto simp: memmove_down_def fun_eq_iff)
  then show ?thesis
    using Some D take_first_SomeI [of i "arr_list (\<lambda>i. (a i, b i)) n" p] arr_list_remove [OF D(2), of "\<lambda>k. (a k, b k)"]
    by simp
qed

lemma grant_take_view:
  "case grant_take p q of
     (Some m, q') \<Rightarrow> take_first p (grants_view q) = Some (m, grants_view q') \<and>
        (\<exists>g h. q' = q\<lparr>q_grant_pids := g, q_grants := h, q_grants_len := q_grants_len q - 1\<rparr>)
   | (None, q') \<Rightarrow> take_first p (grants_view q) = None \<and> q' = q"
  by (auto simp: grant_take_def grants_view_def take_first_arr split: option.splits)

lemma length_grants_view [simp]: "length (grants_view q) = q_grants_len q"
  by (simp add: grants_view_def)

text \<open>The work of \<open>ipc_send\<close> and \<open>ipc_recv\<close> once the queue is found.\<close>

definition queue_send :: "ipc_message \<Rightarrow> ipc_queue \<Rightarrow> ipc_result \<times> ipc_queue" where
  "queue_send msg q =
     (let receiver = waitq_peek (q_recv_waiters q)
      in if 0 \<le> receiver then (let (ok, q') = grant_add receiver msg q in (if ok then IPC_OK else IPC_ERROR, q'))
         else if 16 \<le> q_len q then (IPC_WOULD_BLOCK, q) else (IPC_OK, buf_put msg q))"

definition queue_recv :: "int \<Rightarrow> ipc_queue \<Rightarrow> ipc_result \<times> ipc_message option \<times> ipc_queue" where
  "queue_recv p q =
     (case grant_take p q of
        (Some msg, q') \<Rightarrow> (IPC_OK, Some msg, q'\<lparr>q_recv_waiters := waitq_remove (q_recv_waiters q') p\<rparr>)
      | (None, _) \<Rightarrow>
          (let first_waiter = waitq_peek (q_recv_waiters q)
           in if 0 \<le> first_waiter \<and> first_waiter \<noteq> p \<or> q_len q = 0 then (IPC_WOULD_BLOCK, None, q)
              else (IPC_OK, Some (q_items q (q_head q)), buf_drop q)))"

lemma grants_view_add:
  "grants_view (q\<lparr>q_grant_pids := (q_grant_pids q)(q_grants_len q := p), q_grants := (q_grants q)(q_grants_len q := m),
     q_grants_len := Suc (q_grants_len q)\<rparr>) = grants_view q @ [(p, m)]"
  by (auto simp: grants_view_def intro!: nth_equalityI simp: nth_append less_Suc_eq)

lemma buf_ops_chan:
  "q_head q < 16 \<Longrightarrow> q_len q < 16 \<Longrightarrow> chan_of (buf_put m q) = (chan_of q)\<lparr>c_buffer := buf_view q @ [m]\<rparr>"
  "q_head q < 16 \<Longrightarrow> q_len q \<le> 16 \<Longrightarrow> q_len q \<noteq> 0 \<Longrightarrow> chan_of (buf_drop q) = (chan_of q)\<lparr>c_buffer := tl (buf_view q)\<rparr>"
  using msg_buffer.view_put [of q m] msg_buffer.view_drop1 [of q]
  by (auto simp: chan_of_def buf_view_def) (auto simp: buf_put_def buf_drop_def grants_view_def)

lemma buf_ops_inv:
  "queue_inv q \<Longrightarrow> q_len q < 16 \<Longrightarrow> queue_inv (buf_put m q)"
  "queue_inv q \<Longrightarrow> queue_inv (buf_drop q)"
  by (auto simp: queue_inv_def buf_put_def buf_drop_def)

lemma buf_ops_id [simp]:
  "q_used (buf_put m q) = q_used q" "q_id (buf_put m q) = q_id q"
  "q_used (buf_drop q) = q_used q" "q_id (buf_drop q) = q_id q"
  by (simp_all add: buf_put_def buf_drop_def)

lemma receiver_waits_iff:
  assumes "queue_inv q"
  shows "0 \<le> waitq_peek (q_recv_waiters q) \<longleftrightarrow> waiters (q_recv_waiters q) \<noteq> []"
  using assms by (auto simp: queue_inv_def waitq_peek_eq)

lemma queue_send_refines:
  assumes "queue_inv q" "queue_send m q = (r, q')"
  shows "chan_send m (chan_of q) = (r, chan_of q') \<and> queue_inv q' \<and> q_used q' = q_used q \<and> q_id q' = q_id q"
proof (cases "waiters (q_recv_waiters q)")
  case Nil
  then have "\<not> 0 \<le> waitq_peek (q_recv_waiters q)" using receiver_waits_iff [OF assms(1)] by simp
  then have e: "(r, q') = (if 16 \<le> q_len q then (IPC_WOULD_BLOCK, q) else (IPC_OK, buf_put m q))"
    using assms(2) by (simp add: queue_send_def Let_def)
  have "c_receivers (chan_of q) = []" "length (c_buffer (chan_of q)) = q_len q" "c_buffer (chan_of q) = buf_view q"
    using Nil by (simp_all add: chan_of_def buf_view_def)
  then show ?thesis using e assms(1) buf_ops_chan(1) [of q m] buf_ops_inv(1) [of q m]
    by (auto simp: chan_send_def queue_inv_def split: if_splits)
next
  case (Cons w ws)
  then have w: "0 \<le> waitq_peek (q_recv_waiters q)" "waitq_peek (q_recv_waiters q) = w"
    using receiver_waits_iff [OF assms(1)] by (simp_all add: waitq_peek_eq)
  have c: "c_receivers (chan_of q) = w # ws" "c_granted (chan_of q) = grants_view q" using Cons by (simp_all add: chan_of_def)
  show ?thesis
  proof (cases "q_grants_len q < 128")
    case True
    let ?q = "q\<lparr>q_grant_pids := (q_grant_pids q)(q_grants_len q := w), q_grants := (q_grants q)(q_grants_len q := m),
      q_grants_len := Suc (q_grants_len q)\<rparr>"
    have "(r, q') = (IPC_OK, ?q)" using assms(2) w True by (simp add: queue_send_def grant_add_def)
    moreover have "chan_of ?q = (chan_of q)\<lparr>c_granted := grants_view q @ [(w, m)]\<rparr>"
      unfolding chan_of_def grants_view_add by (simp add: buf_view_def)
    ultimately show ?thesis using c True assms(1) by (simp add: chan_send_def queue_inv_def)
  next
    case False
    then show ?thesis using assms w c by (simp add: queue_send_def grant_add_def chan_send_def)
  qed
qed

lemma queue_recv_refines:
  assumes "queue_inv q" "queue_recv p q = (r, m, q')"
  shows "chan_recv p (chan_of q) = (r, m, chan_of q') \<and> queue_inv q' \<and> q_used q' = q_used q \<and> q_id q' = q_id q"
proof (cases "grant_take p q")
  case (Pair g q1)
  show ?thesis
  proof (cases g)
    case (Some m1)
    then have t: "take_first p (grants_view q) = Some (m1, grants_view q1)"
      and "\<exists>g h. q1 = q\<lparr>q_grant_pids := g, q_grants := h, q_grants_len := q_grants_len q - 1\<rparr>"
      using grant_take_view [of p q] Pair by simp_all
    then obtain ga gh where q1: "q1 = q\<lparr>q_grant_pids := ga, q_grants := gh, q_grants_len := q_grants_len q - 1\<rparr>" by blast
    let ?q = "q1\<lparr>q_recv_waiters := waitq_remove (q_recv_waiters q1) p\<rparr>"
    have e: "r = IPC_OK" "m = Some m1" "q' = ?q" using assms(2) Pair Some by (simp_all add: queue_recv_def)
    have "chan_of ?q = (chan_of q)\<lparr>c_granted := grants_view q1, c_receivers := remove1 p (waiters (q_recv_waiters q))\<rparr>"
      by (simp add: chan_of_def q1 buf_view_def grants_view_def waiters_remove)
    moreover have "queue_inv ?q"
      using assms(1) set_remove1_subset [of p "waiters (q_recv_waiters q)"]
      by (auto simp: queue_inv_def q1 waitq_ok_iff waiters_remove length_remove1 simp del: length_waiters)
    ultimately show ?thesis using e t q1 by (simp add: chan_recv_def chan_of_def)
  next
    case None
    then have t: "take_first p (grants_view q) = None" using grant_take_view [of p q] Pair by simp
    let ?w = "waitq_peek (q_recv_waiters q)"
    have e: "(r, m, q') = (if 0 \<le> ?w \<and> ?w \<noteq> p \<or> q_len q = 0 then (IPC_WOULD_BLOCK, None, q)
        else (IPC_OK, Some (q_items q (q_head q)), buf_drop q))"
      using assms(2) Pair None by (simp add: queue_recv_def Let_def)
    have w: "0 \<le> ?w \<and> ?w \<noteq> p \<longleftrightarrow> c_receivers (chan_of q) \<noteq> [] \<and> hd (c_receivers (chan_of q)) \<noteq> p"
      using receiver_waits_iff [OF assms(1)] by (auto simp: chan_of_def waitq_peek_eq)
    have i: "q_head q < 16" "q_len q \<le> 16" using assms(1) by (simp_all add: queue_inv_def)
    show ?thesis
    proof (cases "buf_view q")
      case Nil
      then have "q_len q = 0" by (simp add: buf_view_def)
      then show ?thesis using e t Nil assms(1) by (simp add: chan_recv_def chan_of_def)
    next
      case (Cons x xs)
      then have n: "q_len q \<noteq> 0" by (metis buf_view_def list.distinct(1) ring_list_0)
      have "q_items q (q_head q) = x" using msg_buffer.front_view [of q] i Cons by simp
      then show ?thesis using e w t n Cons i assms(1) buf_ops_chan(2) [of q] buf_ops_inv(2) [of q]
        by (simp add: chan_recv_def split: if_splits) (auto simp: chan_of_def)
    qed
  qed
qed


section \<open>The table of queues\<close>

definition ipc_inv :: "ipc_state \<Rightarrow> bool" where
  "ipc_inv g \<longleftrightarrow> queues.unique_ids g \<and> (\<forall>i < 16. q_used (g i) \<longrightarrow> queue_inv (g i))"

definition ipc_abs :: "ipc_state \<Rightarrow> int \<Rightarrow> channel option" where
  "ipc_abs g qid = map_option (\<lambda>i. chan_of (g i)) (find_queue qid g)"

definition chan_at :: "ipc_state \<Rightarrow> int \<Rightarrow> channel" where
  "chan_at g qid = (case ipc_abs g qid of Some c \<Rightarrow> c | None \<Rightarrow> empty_channel)"

definition no_room :: "ipc_state \<Rightarrow> int \<Rightarrow> bool" where
  "no_room g qid \<longleftrightarrow> find_queue qid g = None \<and> (\<forall>i < 16. q_used (g i))"

lemma ipc_inv_init [inv_intros]: "ipc_inv (ipc_init g)"
  by (simp add: ipc_inv_def ipc_init_def queues.unique_ids_def zero_queue_def)

lemma ipc_abs_init: "ipc_abs (ipc_init g) = Map.empty"
  by (simp add: fun_eq_iff ipc_abs_def find_queue_def ipc_init_def zero_queue_def first_idx_None_iff)

lemma room_init: "\<not> no_room (ipc_init g) k"
proof -
  have "\<not> q_used (ipc_init g 0)" by (simp add: ipc_init_def zero_queue_def)
  then show ?thesis unfolding no_room_def by (metis zero_less_numeral)
qed

lemma chan_of_fresh: "chan_of (zero_queue\<lparr>q_used := True, q_id := k\<rparr>) = empty_channel"
  by (simp add: chan_of_def zero_queue_def empty_channel_def buf_view_def grants_view_def waiters_def zero_waitq_def)

lemma queue_inv_fresh: "queue_inv (zero_queue\<lparr>q_used := True, q_id := k\<rparr>)"
  by (simp add: queue_inv_def zero_queue_def zero_waitq_def waitq_ok_def waiters_def)

text \<open>Writing back the queue that was found.\<close>

lemma write_queue:
  assumes "ipc_inv g" "q_used q" "q_id q = k" "queue_inv q"
    and "find_queue k g = Some i \<or> find_queue k g = None \<and> first_idx (\<lambda>i. \<not> q_used (g i)) 0 16 = Some i"
  shows "ipc_inv (g(i := q))" "find_queue k (g(i := q)) = Some i" "ipc_abs (g(i := q)) = (ipc_abs g)(k \<mapsto> chan_of q)"
proof -
  have u: "queues.unique_ids g" using assms(1) by (simp add: ipc_inv_def)
  note W = queues.write_record [OF u assms(2,3,5)]
  show "ipc_inv (g(i := q))" using assms(1,4) W(1) by (simp add: ipc_inv_def)
  show f: "find_queue k (g(i := q)) = Some i" by (simp add: W(2))
  show "ipc_abs (g(i := q)) = (ipc_abs g)(k \<mapsto> chan_of q)"
  proof
    fix x
    show "ipc_abs (g(i := q)) x = ((ipc_abs g)(k \<mapsto> chan_of q)) x"
    proof (cases "x = k")
      case True
      then show ?thesis using f by (simp add: ipc_abs_def)
    next
      case False
      have "j \<noteq> i" if "find_queue x g = Some j" for j
      proof
        assume "j = i"
        then have "q_used (g i)" "q_id (g i) = x" using queues.lookup_SomeD(2,3) [OF that] by simp_all
        then show False using assms(5) False queues.lookup_SomeD(3) [of k g i] queues.unused_SomeD [of g i] by auto
      qed
      then show ?thesis using False by (cases "find_queue x g") (auto simp: ipc_abs_def W(2))
    qed
  qed
qed

lemma find_or_create_full: "no_room g k \<Longrightarrow> find_or_create k g = (None, g)"
proof -
  assume "no_room g k"
  then have n: "find_queue k g = None" and "first_idx (\<lambda>i. \<not> q_used (g i)) 0 16 = None"
    by (simp_all add: no_room_def first_idx_None_iff)
  then show ?thesis by (simp add: find_or_create_def ipc_create_queue_def)
qed

lemma find_or_create_room:
  assumes "ipc_inv g" "\<not> no_room g k"
  obtains i g' where "find_or_create k g = (Some i, g')" "ipc_inv g'" "find_queue k g' = Some i"
    "ipc_abs g' = (ipc_abs g)(k \<mapsto> chan_at g k)" "queue_inv (g' i)" "chan_of (g' i) = chan_at g k"
    "q_used (g' i)" "q_id (g' i) = k"
proof (cases "find_queue k g")
  case (Some i)
  note D = queues.lookup_SomeD [OF Some]
  have a: "ipc_abs g k = Some (chan_of (g i))" using Some by (simp add: ipc_abs_def)
  then have "ipc_abs g = (ipc_abs g)(k \<mapsto> chan_at g k)" by (auto simp: chan_at_def fun_eq_iff)
  then show thesis using Some a D assms(1) by (intro that [of i g]) (auto simp: find_or_create_def chan_at_def ipc_inv_def)
next
  case None
  then obtain i where i: "first_idx (\<lambda>i. \<not> q_used (g i)) 0 16 = Some i"
    using assms(2) queues.unused_None_iff [of g] by (auto simp: no_room_def)
  let ?q = "zero_queue\<lparr>q_used := True, q_id := k\<rparr>"
  have c: "ipc_create_queue k g = (True, g(i := ?q))" using None i by (simp add: ipc_create_queue_def)
  have W: "ipc_inv (g(i := ?q))" "find_queue k (g(i := ?q)) = Some i" "ipc_abs (g(i := ?q)) = (ipc_abs g)(k \<mapsto> chan_of ?q)"
    using write_queue [OF assms(1), of ?q k i] None i queue_inv_fresh by auto
  have "chan_at g k = empty_channel" using None by (simp add: chan_at_def ipc_abs_def)
  then show thesis using c W None chan_of_fresh queue_inv_fresh
    by (intro that [of i "g(i := ?q)"]) (auto simp: find_or_create_def)
qed

lemma ipc_send_eq:
  "ipc_send k p v g =
     (case find_or_create k g of
        (None, g') \<Rightarrow> (IPC_ERROR, g')
      | (Some i, g') \<Rightarrow>
          (let (r, q) = queue_send \<lparr>im_sender_pid = p, im_value = v\<rparr> (g' i) in (r, g'(i := q))))"
  by (auto simp: ipc_send_def queue_send_def buf_put_def Let_def split: option.splits prod.splits)

lemma ipc_recv_eq:
  "ipc_recv k p g =
     (case find_or_create k g of
        (None, g') \<Rightarrow> (IPC_ERROR, None, g')
      | (Some i, g') \<Rightarrow> (let (r, m, q) = queue_recv p (g' i) in (r, m, g'(i := q))))"
  by (auto simp: ipc_recv_def queue_recv_def buf_drop_def Let_def split: option.splits prod.splits)

lemma ipc_send_abs:
  assumes inv: "ipc_inv g" and s: "ipc_send k p v g = (r, g')"
  shows "ipc_inv g' \<and>
    (if no_room g k then r = IPC_ERROR \<and> g' = g
     else \<exists>c. chan_send \<lparr>im_sender_pid = p, im_value = v\<rparr> (chan_at g k) = (r, c) \<and> ipc_abs g' = (ipc_abs g)(k \<mapsto> c))"
proof (cases "no_room g k")
  case True
  then show ?thesis using s inv by (simp add: ipc_send_eq find_or_create_full)
next
  case False
  obtain i h where h: "find_or_create k g = (Some i, h)" "ipc_inv h" "find_queue k h = Some i"
    "ipc_abs h = (ipc_abs g)(k \<mapsto> chan_at g k)" "queue_inv (h i)" "chan_of (h i) = chan_at g k" "q_used (h i)" "q_id (h i) = k"
    by (rule find_or_create_room [OF inv False])
  let ?m = "\<lparr>im_sender_pid = p, im_value = v\<rparr>"
  obtain q where q: "queue_send ?m (h i) = (r, q)" "g' = h(i := q)"
    using s h(1) by (auto simp: ipc_send_eq split: prod.splits)
  note Q = queue_send_refines [OF h(5) q(1)]
  have "ipc_inv g'" "ipc_abs g' = (ipc_abs h)(k \<mapsto> chan_of q)"
    using write_queue [OF h(2), of q k i] Q h(3,7,8) q(2) by auto
  then show ?thesis using False Q h(4,6) by auto
qed

lemma ipc_recv_abs:
  assumes inv: "ipc_inv g" and s: "ipc_recv k p g = (r, m, g')"
  shows "ipc_inv g' \<and>
    (if no_room g k then r = IPC_ERROR \<and> m = None \<and> g' = g
     else \<exists>c. chan_recv p (chan_at g k) = (r, m, c) \<and> ipc_abs g' = (ipc_abs g)(k \<mapsto> c))"
proof (cases "no_room g k")
  case True
  then show ?thesis using s inv by (simp add: ipc_recv_eq find_or_create_full)
next
  case False
  obtain i h where h: "find_or_create k g = (Some i, h)" "ipc_inv h" "find_queue k h = Some i"
    "ipc_abs h = (ipc_abs g)(k \<mapsto> chan_at g k)" "queue_inv (h i)" "chan_of (h i) = chan_at g k" "q_used (h i)" "q_id (h i) = k"
    by (rule find_or_create_room [OF inv False])
  obtain q where q: "queue_recv p (h i) = (r, m, q)" "g' = h(i := q)"
    using s h(1) by (auto simp: ipc_recv_eq split: prod.splits)
  note Q = queue_recv_refines [OF h(5) q(1)]
  have "ipc_inv g'" "ipc_abs g' = (ipc_abs h)(k \<mapsto> chan_of q)"
    using write_queue [OF h(2), of q k i] Q h(3,7,8) q(2) by auto
  then show ?thesis using False Q h(4,6) by auto
qed


lemma ipc_wait_receiver_abs:
  assumes inv: "ipc_inv g" and p: "0 \<le> p"
  shows "ipc_inv (ipc_wait_receiver k p g) \<and>
    (if no_room g k then ipc_wait_receiver k p g = g
     else ipc_abs (ipc_wait_receiver k p g) = (ipc_abs g)(k \<mapsto> (chan_at g k)\<lparr>c_receivers :=
       (if p \<in> set (c_receivers (chan_at g k)) \<or> 128 \<le> length (c_receivers (chan_at g k)) then c_receivers (chan_at g k)
        else c_receivers (chan_at g k) @ [p])\<rparr>))"
proof (cases "no_room g k")
  case True
  then show ?thesis using inv by (simp add: ipc_wait_receiver_def find_or_create_full)
next
  case False
  obtain i h where h: "find_or_create k g = (Some i, h)" "ipc_inv h" "find_queue k h = Some i"
    "ipc_abs h = (ipc_abs g)(k \<mapsto> chan_at g k)" "queue_inv (h i)" "chan_of (h i) = chan_at g k" "q_used (h i)" "q_id (h i) = k"
    by (rule find_or_create_room [OF inv False])
  let ?q = "(h i)\<lparr>q_recv_waiters := waitq_add (q_recv_waiters (h i)) p\<rparr>"
  have e: "ipc_wait_receiver k p g = h(i := ?q)" using h(1) by (simp add: ipc_wait_receiver_def)
  have "queue_inv ?q" using h(5) p ipc_waiters.ok_add by (auto simp: queue_inv_def waiters_add split: if_splits)
  moreover have "chan_of ?q = (chan_at g k)\<lparr>c_receivers := waiters (waitq_add (q_recv_waiters (h i)) p)\<rparr>"
    using h(6) [symmetric] by (simp add: chan_of_def buf_view_def grants_view_def)
  moreover have "c_receivers (chan_at g k) = waiters (q_recv_waiters (h i))" using h(6) [symmetric] by (simp add: chan_of_def)
  ultimately show ?thesis
    using write_queue [OF h(2), of ?q k i] h(3,4,7,8) False e by (simp add: waiters_add)
qed

lemma ipc_wait_sender_abs:
  assumes inv: "ipc_inv g"
  shows "ipc_inv (ipc_wait_sender k p g) \<and>
    (if no_room g k then ipc_wait_sender k p g = g
     else ipc_abs (ipc_wait_sender k p g) = (ipc_abs g)(k \<mapsto> (chan_at g k)\<lparr>c_senders :=
       (if p \<in> set (c_senders (chan_at g k)) \<or> 128 \<le> length (c_senders (chan_at g k)) then c_senders (chan_at g k)
        else c_senders (chan_at g k) @ [p])\<rparr>))"
proof (cases "no_room g k")
  case True
  then show ?thesis using inv by (simp add: ipc_wait_sender_def find_or_create_full)
next
  case False
  obtain i h where h: "find_or_create k g = (Some i, h)" "ipc_inv h" "find_queue k h = Some i"
    "ipc_abs h = (ipc_abs g)(k \<mapsto> chan_at g k)" "queue_inv (h i)" "chan_of (h i) = chan_at g k" "q_used (h i)" "q_id (h i) = k"
    by (rule find_or_create_room [OF inv False])
  let ?q = "(h i)\<lparr>q_send_waiters := waitq_add (q_send_waiters (h i)) p\<rparr>"
  have e: "ipc_wait_sender k p g = h(i := ?q)" using h(1) by (simp add: ipc_wait_sender_def)
  have "queue_inv ?q" using h(5) ipc_waiters.ok_add by (auto simp: queue_inv_def)
  moreover have "chan_of ?q = (chan_at g k)\<lparr>c_senders := waiters (waitq_add (q_send_waiters (h i)) p)\<rparr>"
    using h(6) [symmetric] by (simp add: chan_of_def buf_view_def grants_view_def)
  moreover have "c_senders (chan_at g k) = waiters (q_send_waiters (h i))" using h(6) [symmetric] by (simp add: chan_of_def)
  ultimately show ?thesis
    using write_queue [OF h(2), of ?q k i] h(3,4,7,8) False e by (simp add: waiters_add)
qed

lemma ipc_pop_waiter_abs:
  assumes inv: "ipc_inv g"
  shows "ipc_pop_receiver_waiter k g = (p, g') \<Longrightarrow> ipc_inv g' \<and>
      (case ipc_abs g k of None \<Rightarrow> p = -1 \<and> g' = g
       | Some c \<Rightarrow> p = (case c_receivers c of [] \<Rightarrow> -1 | w # _ \<Rightarrow> w) \<and>
           ipc_abs g' = (ipc_abs g)(k \<mapsto> c\<lparr>c_receivers := tl (c_receivers c)\<rparr>))"
    and "ipc_pop_sender_waiter k g = (p, g') \<Longrightarrow> ipc_inv g' \<and>
      (case ipc_abs g k of None \<Rightarrow> p = -1 \<and> g' = g
       | Some c \<Rightarrow> p = (case c_senders c of [] \<Rightarrow> -1 | w # _ \<Rightarrow> w) \<and>
           ipc_abs g' = (ipc_abs g)(k \<mapsto> c\<lparr>c_senders := tl (c_senders c)\<rparr>))"
proof -
  have hd: "fst (waitq_pop w) = (case waiters w of [] \<Rightarrow> -1 | x # _ \<Rightarrow> x)" for w
    by (simp add: waiters_pop(1) split: list.splits)
  have inv_i: "queue_inv (g i)" if "find_queue k g = Some i" for i
    using inv queues.lookup_SomeD [OF that] by (simp add: ipc_inv_def)
  show "ipc_inv g' \<and> (case ipc_abs g k of None \<Rightarrow> p = -1 \<and> g' = g
       | Some c \<Rightarrow> p = (case c_receivers c of [] \<Rightarrow> -1 | w # _ \<Rightarrow> w) \<and>
           ipc_abs g' = (ipc_abs g)(k \<mapsto> c\<lparr>c_receivers := tl (c_receivers c)\<rparr>))"
    if pop: "ipc_pop_receiver_waiter k g = (p, g')"
  proof (cases "find_queue k g")
    case None
    then show ?thesis using pop inv by (simp add: ipc_pop_receiver_waiter_def ipc_abs_def)
  next
    case (Some i)
    let ?w = "q_recv_waiters (g i)" and ?q = "(g i)\<lparr>q_recv_waiters := snd (waitq_pop (q_recv_waiters (g i)))\<rparr>"
    have e: "p = fst (waitq_pop ?w)" "g' = g(i := ?q)" using pop Some by (auto simp: ipc_pop_receiver_waiter_def split_beta)
    have "queue_inv ?q" using inv_i [OF Some] ipc_waiters.ok_pop list.set_sel(2) [of "waiters ?w"]
      by (auto simp: queue_inv_def waiters_pop(2)) (metis list.sel(2) list.set_sel(2))
    moreover have "chan_of ?q = (chan_of (g i))\<lparr>c_receivers := tl (waiters ?w)\<rparr>"
      by (simp add: chan_of_def buf_view_def grants_view_def waiters_pop(2))
    ultimately show ?thesis
      using write_queue [OF inv, of ?q k i] Some queues.lookup_SomeD(2,3) [OF Some] e hd [of ?w]
      by (simp add: ipc_abs_def) (simp add: chan_of_def)
  qed
  show "ipc_inv g' \<and> (case ipc_abs g k of None \<Rightarrow> p = -1 \<and> g' = g
       | Some c \<Rightarrow> p = (case c_senders c of [] \<Rightarrow> -1 | w # _ \<Rightarrow> w) \<and>
           ipc_abs g' = (ipc_abs g)(k \<mapsto> c\<lparr>c_senders := tl (c_senders c)\<rparr>))"
    if pop: "ipc_pop_sender_waiter k g = (p, g')"
  proof (cases "find_queue k g")
    case None
    then show ?thesis using pop inv by (simp add: ipc_pop_sender_waiter_def ipc_abs_def)
  next
    case (Some i)
    let ?w = "q_send_waiters (g i)" and ?q = "(g i)\<lparr>q_send_waiters := snd (waitq_pop (q_send_waiters (g i)))\<rparr>"
    have e: "p = fst (waitq_pop ?w)" "g' = g(i := ?q)" using pop Some by (auto simp: ipc_pop_sender_waiter_def split_beta)
    have "queue_inv ?q" using inv_i [OF Some] ipc_waiters.ok_pop by (auto simp: queue_inv_def)
    moreover have "chan_of ?q = (chan_of (g i))\<lparr>c_senders := tl (waiters ?w)\<rparr>"
      by (simp add: chan_of_def buf_view_def grants_view_def waiters_pop(2))
    ultimately show ?thesis
      using write_queue [OF inv, of ?q k i] Some queues.lookup_SomeD(2,3) [OF Some] e hd [of ?w]
      by (simp add: ipc_abs_def) (simp add: chan_of_def)
  qed
qed


section \<open>Sequences of operations\<close>

text \<open>
  The calls the runtime makes, in any order. An execution returns the messages that sends
  reported as accepted and the messages that receives returned, each with its queue.
\<close>

datatype ipc_op =
    Send int int int
  | Recv int int
  | WaitSend int int
  | WaitRecv int int
  | PopSend int
  | PopRecv int

fun exec_op :: "ipc_op \<Rightarrow> ipc_state \<Rightarrow> (int \<times> ipc_message) list \<times> (int \<times> ipc_message) list \<times> ipc_state" where
  "exec_op (Send k p v) g =
     (let (r, g') = ipc_send k p v g
      in (if r = IPC_OK then [(k, \<lparr>im_sender_pid = p, im_value = v\<rparr>)] else [], [], g'))"
| "exec_op (Recv k p) g =
     (let (r, m, g') = ipc_recv k p g in ([], (case m of Some x \<Rightarrow> [(k, x)] | None \<Rightarrow> []), g'))"
| "exec_op (WaitSend k p) g = ([], [], ipc_wait_sender k p g)"
| "exec_op (WaitRecv k p) g = ([], [], ipc_wait_receiver k p g)"
| "exec_op (PopSend k) g = ([], [], snd (ipc_pop_sender_waiter k g))"
| "exec_op (PopRecv k) g = ([], [], snd (ipc_pop_receiver_waiter k g))"

fun exec_ops :: "ipc_op list \<Rightarrow> ipc_state \<Rightarrow> (int \<times> ipc_message) list \<times> (int \<times> ipc_message) list \<times> ipc_state" where
  "exec_ops [] g = ([], [], g)"
| "exec_ops (x # xs) g =
     (let (acc, del, g1) = exec_op x g; (acc', del', g2) = exec_ops xs g1 in (acc @ acc', del @ del', g2))"

fun op_ok :: "ipc_op \<Rightarrow> bool" where
  "op_ok (WaitRecv k p) = (0 \<le> p)"
| "op_ok _ = True"

text \<open>The messages a channel still holds.\<close>

definition stored :: "channel \<Rightarrow> ipc_message multiset" where
  "stored c = mset (c_buffer c) + image_mset snd (mset (c_granted c))"

definition on_queue :: "int \<Rightarrow> (int \<times> ipc_message) list \<Rightarrow> ipc_message multiset" where
  "on_queue k ms = mset (map snd (filter (\<lambda>x. fst x = k) ms))"

lemma stored_empty [simp]: "stored empty_channel = {#}"
  by (simp add: stored_def empty_channel_def)

lemma on_queue_simps [simp]:
  "on_queue k [] = {#}" "on_queue k (xs @ ys) = on_queue k xs + on_queue k ys"
  "on_queue k [(j, m)] = (if j = k then {#m#} else {#})"
  by (simp_all add: on_queue_def)

lemma stored_send:
  "chan_send m c = (r, c') \<Longrightarrow> stored c' = (if r = IPC_OK then add_mset m (stored c) else stored c)"
  by (auto simp: chan_send_def stored_def split: list.splits if_splits)

lemma take_first_mset:
  "take_first p gs = Some (m, gs') \<Longrightarrow> \<exists>q. mset gs = add_mset (q, m) (mset gs')"
  by (induction p gs arbitrary: gs' rule: take_first.induct) (auto split: if_splits)

lemma stored_recv:
  assumes "chan_recv p c = (r, m, c')"
  shows "stored c = (case m of Some x \<Rightarrow> add_mset x (stored c') | None \<Rightarrow> stored c')"
proof (cases "take_first p (c_granted c)")
  case None
  then show ?thesis using assms by (auto simp: chan_recv_def stored_def split: if_splits list.splits)
next
  case (Some x)
  then obtain y gs where x: "take_first p (c_granted c) = Some (y, gs)" by (cases x) auto
  obtain q where "mset (c_granted c) = add_mset (q, y) (mset gs)" using take_first_mset [OF x] by blast
  then show ?thesis using assms x by (auto simp: chan_recv_def stored_def)
qed

lemma chan_at_upd: "ipc_abs g' = (ipc_abs g)(k \<mapsto> c) \<Longrightarrow> chan_at g' j = (if j = k then c else chan_at g j)"
  by (simp add: chan_at_def)

lemma exec_op_conserves:
  assumes inv: "ipc_inv g" and ok: "op_ok x" and e: "exec_op x g = (acc, del, g')"
  shows "ipc_inv g' \<and> stored (chan_at g' k) + on_queue k del = stored (chan_at g k) + on_queue k acc"
proof (cases x)
  case (Send j p v)
  obtain r where r: "ipc_send j p v g = (r, g')" and acc: "acc = (if r = IPC_OK then [(j, \<lparr>im_sender_pid = p, im_value = v\<rparr>)] else [])"
    "del = []" using e Send by (auto split: prod.splits)
  note A = ipc_send_abs [OF inv r]
  show ?thesis
  proof (cases "no_room g j")
    case True
    then show ?thesis using A acc by auto
  next
    case False
    then obtain c where "chan_send \<lparr>im_sender_pid = p, im_value = v\<rparr> (chan_at g j) = (r, c)"
      "ipc_abs g' = (ipc_abs g)(j \<mapsto> c)" using A by auto
    then show ?thesis using A acc stored_send chan_at_upd [of g' g j c k] by auto
  qed
next
  case (Recv j p)
  obtain r m where r: "ipc_recv j p g = (r, m, g')" and del: "del = (case m of Some x \<Rightarrow> [(j, x)] | None \<Rightarrow> [])" "acc = []"
    using e Recv by (auto split: prod.splits)
  note A = ipc_recv_abs [OF inv r]
  show ?thesis
  proof (cases "no_room g j")
    case True
    then show ?thesis using A del by auto
  next
    case False
    then obtain c where "chan_recv p (chan_at g j) = (r, m, c)" "ipc_abs g' = (ipc_abs g)(j \<mapsto> c)" using A by auto
    then show ?thesis using A del stored_recv [of p "chan_at g j" r m c] chan_at_upd [of g' g j c k]
      by (auto split: option.splits)
  qed
next
  case (WaitSend j p)
  then show ?thesis using e ipc_wait_sender_abs [OF inv, of j p] chan_at_upd [of g' g j _ k]
    by (auto simp: stored_def split: if_splits)
next
  case (WaitRecv j p)
  then show ?thesis using e ok ipc_wait_receiver_abs [OF inv, of p j] chan_at_upd [of g' g j _ k]
    by (auto simp: stored_def split: if_splits)
next
  case (PopSend j)
  obtain q where "ipc_pop_sender_waiter j g = (q, g')" using e PopSend by (metis exec_op.simps(5) prod.collapse prod.inject)
  note A = ipc_pop_waiter_abs(2) [OF inv this]
  show ?thesis using e PopSend A chan_at_upd [of g' g j _ k]
    by (cases "ipc_abs g j") (auto simp: stored_def chan_at_def)
next
  case (PopRecv j)
  obtain q where "ipc_pop_receiver_waiter j g = (q, g')" using e PopRecv by (metis exec_op.simps(6) prod.collapse prod.inject)
  note A = ipc_pop_waiter_abs(1) [OF inv this]
  show ?thesis using e PopRecv A chan_at_upd [of g' g j _ k]
    by (cases "ipc_abs g j") (auto simp: stored_def chan_at_def)
qed

lemma exec_ops_conserves:
  "ipc_inv g \<Longrightarrow> list_all op_ok xs \<Longrightarrow> exec_ops xs g = (acc, del, g') \<Longrightarrow>
     ipc_inv g' \<and> stored (chan_at g' k) + on_queue k del = stored (chan_at g k) + on_queue k acc"
proof (induction xs arbitrary: g acc del)
  case Nil
  then show ?case by simp
next
  case (Cons x xs)
  obtain a d g1 where x: "exec_op x g = (a, d, g1)" by (metis prod_cases3)
  obtain a' d' g2 where xs: "exec_ops xs g1 = (a', d', g2)" by (metis prod_cases3)
  have e: "acc = a @ a'" "del = d @ d'" "g' = g2" using Cons.prems(3) x xs by auto
  note X = exec_op_conserves [OF Cons.prems(1) _ x, of k]
  have "ipc_inv g' \<and> stored (chan_at g' k) + on_queue k d' = stored (chan_at g1 k) + on_queue k a'"
    using X xs Cons.prems(2) e(3) by (intro Cons.IH) auto
  then show ?case using X Cons.prems(2) e by (simp add: ac_simps) (metis add.assoc add.commute)
qed

text \<open>C18. No message is lost, duplicated or delivered on another queue: after any sequence of sends,
  receives, waits and wake-ups on freshly initialised queues, the messages accepted on a queue
  are exactly those received from it together with those it still holds (in its buffer or
  handed to a waiting receiver).\<close>

theorem ipc_messages_conserved:
  assumes "list_all op_ok xs" "exec_ops xs (ipc_init g) = (accepted, delivered, g')"
  shows "on_queue k accepted = on_queue k delivered + stored (chan_at g' k)"
  using exec_ops_conserves [OF ipc_inv_init assms, of k]
  by (simp add: chan_at_def ipc_abs_init add.commute)

theorem ipc_messages_conserved_witness:
  "\<exists>acc del g'. exec_ops [WaitRecv 1 7, Send 1 5 42] (ipc_init (\<lambda>_. zero_queue)) = (acc, del, g') \<and>
     on_queue 1 acc = on_queue 1 del + stored (chan_at g' 1)"
proof -
  let ?xs = "[WaitRecv 1 7, Send 1 5 42]"
  obtain acc del g' where e: "exec_ops ?xs (ipc_init (\<lambda>_. zero_queue)) = (acc, del, g')"
    by (metis prod_cases3)
  then show ?thesis using ipc_messages_conserved [of ?xs "\<lambda>_. zero_queue" acc del g' 1] by auto
qed


text \<open>C19. The array implementation refines the channel specification: on a queue that exists or can be
  created, a send and a receive return exactly what the abstract channel returns and change the
  abstract channel of that queue, and no other, in the same way; when the queue is missing and
  all 16 slots are taken both fail and change nothing. The invariant is kept in every case.\<close>

theorem ipc_refines_channels:
  assumes "ipc_inv g"
  shows "(let (r, g') = ipc_send k p v g
          in ipc_inv g' \<and>
             (if no_room g k then r = IPC_ERROR \<and> g' = g
              else \<exists>c. chan_send \<lparr>im_sender_pid = p, im_value = v\<rparr> (chan_at g k) = (r, c) \<and> ipc_abs g' = (ipc_abs g)(k \<mapsto> c))) \<and>
    (let (r, m, g') = ipc_recv k p g
     in ipc_inv g' \<and>
        (if no_room g k then r = IPC_ERROR \<and> m = None \<and> g' = g
         else \<exists>c. chan_recv p (chan_at g k) = (r, m, c) \<and> ipc_abs g' = (ipc_abs g)(k \<mapsto> c)))"
proof -
  obtain r g1 where s: "ipc_send k p v g = (r, g1)" by fastforce
  obtain r' m g2 where c: "ipc_recv k p g = (r', m, g2)" by (metis prod_cases3)
  show ?thesis unfolding s c Let_def prod.case
    by (intro conjI ipc_send_abs [OF assms s] ipc_recv_abs [OF assms c])
qed

theorem ipc_refines_channels_witness:
  "fst (ipc_recv 3 9 (ipc_init (\<lambda>_. zero_queue))) = IPC_WOULD_BLOCK"
proof -
  have "\<not> no_room (ipc_init (\<lambda>_. zero_queue)) 3" by (rule room_init)
  moreover have "chan_at (ipc_init (\<lambda>_. zero_queue)) 3 = empty_channel" by (simp add: chan_at_def ipc_abs_init)
  ultimately show ?thesis
    using ipc_refines_channels [OF ipc_inv_init, of 3 9 0 "\<lambda>_. zero_queue"]
    by (auto simp: chan_recv_def empty_channel_def split: prod.splits)
qed

lemma take_first_append_new:
  "p \<notin> fst ` set gs \<Longrightarrow> take_first p (gs @ [(p, m)]) = Some (m, gs)"
  by (induction p gs rule: take_first.induct) auto

text \<open>C29. Direct handoff: a message sent while a receiver waits is reserved for the first waiter. No
  other process without a message of its own can take it, or anything else from that queue:
  its receive reports that it would block and leaves the queue as it is. The waiter's own
  receive returns the message.\<close>

theorem ipc_handoff_not_stolen:
  assumes "ipc_inv g" "ipc_abs g k = Some c" "c_receivers c = w # ws" "w \<notin> fst ` set (c_granted c)"
    and "length (c_granted c) < 128" "ipc_send k s v g = (r, g1)"
  shows "r = IPC_OK \<and>
    (\<forall>p. p \<noteq> w \<longrightarrow> p \<notin> fst ` set (c_granted c) \<longrightarrow>
       fst (ipc_recv k p g1) = IPC_WOULD_BLOCK \<and> ipc_abs (snd (snd (ipc_recv k p g1))) k = ipc_abs g1 k) \<and>
    fst (ipc_recv k w g1) = IPC_OK \<and>
    fst (snd (ipc_recv k w g1)) = Some \<lparr>im_sender_pid = s, im_value = v\<rparr>"
proof -
  let ?m = "\<lparr>im_sender_pid = s, im_value = v\<rparr>" and ?c = "c\<lparr>c_granted := c_granted c @ [(w, \<lparr>im_sender_pid = s, im_value = v\<rparr>)]\<rparr>"
  have c: "chan_at g k = c" and room: "\<not> no_room g k" using assms(2) by (auto simp: chan_at_def no_room_def ipc_abs_def)
  have r: "r = IPC_OK" and g1: "ipc_inv g1" "ipc_abs g1 = (ipc_abs g)(k \<mapsto> ?c)"
    using ipc_send_abs [OF assms(1,6)] room c assms(3,5) by (auto simp: chan_send_def)
  have c1: "chan_at g1 k = ?c" and room1: "\<not> no_room g1 k"
    using g1(2) by (auto simp: chan_at_def no_room_def ipc_abs_def fun_eq_iff split: if_splits)
  have "fst (ipc_recv k p g1) = IPC_WOULD_BLOCK \<and> ipc_abs (snd (snd (ipc_recv k p g1))) k = ipc_abs g1 k"
    if "p \<noteq> w" "p \<notin> fst ` set (c_granted c)" for p
  proof -
    obtain r' m' g2 where e: "ipc_recv k p g1 = (r', m', g2)" by (metis prod_cases3)
    have "take_first p (c_granted ?c) = None" using that by (auto simp: take_first_None_iff)
    then have "chan_recv p ?c = (IPC_WOULD_BLOCK, None, ?c)" using assms(3) that by (simp add: chan_recv_def)
    then show ?thesis using ipc_recv_abs [OF g1(1) e] room1 c1 e g1(2) by auto
  qed
  moreover have "fst (ipc_recv k w g1) = IPC_OK \<and> fst (snd (ipc_recv k w g1)) = Some ?m"
  proof -
    obtain r' m' g2 where e: "ipc_recv k w g1 = (r', m', g2)" by (metis prod_cases3)
    have "take_first w (c_granted ?c) = Some (?m, c_granted c)" using assms(4) by (simp add: take_first_append_new)
    then show ?thesis using ipc_recv_abs [OF g1(1) e] room1 c1 e by (auto simp: chan_recv_def)
  qed
  ultimately show ?thesis using r by blast
qed

theorem ipc_handoff_not_stolen_witness:
  "\<exists>g1 r. ipc_send 1 5 42 (ipc_wait_receiver 1 7 (ipc_init (\<lambda>_. zero_queue))) = (r, g1) \<and>
     fst (ipc_recv 1 8 g1) = IPC_WOULD_BLOCK \<and> fst (snd (ipc_recv 1 7 g1)) = Some \<lparr>im_sender_pid = 5, im_value = 42\<rparr>"
proof -
  let ?i = "ipc_init (\<lambda>_. zero_queue)" and ?g = "ipc_wait_receiver 1 7 (ipc_init (\<lambda>_. zero_queue))"
  obtain r g1 where e: "ipc_send 1 5 42 ?g = (r, g1)" by fastforce
  have room: "\<not> no_room ?i 1" by (rule room_init)
  have "chan_at ?i 1 = empty_channel" by (simp add: chan_at_def ipc_abs_init)
  then have g: "ipc_inv ?g" "ipc_abs ?g 1 = Some (empty_channel\<lparr>c_receivers := [7]\<rparr>)"
    using ipc_wait_receiver_abs [OF ipc_inv_init, of 7 1 "\<lambda>_. zero_queue"] room by (simp_all add: empty_channel_def)
  show ?thesis
    using ipc_handoff_not_stolen [OF g _ _ _ e, of 7 "[]"] e by (auto simp: empty_channel_def)
qed

end
