(* ===== verification/Sync.thy ===== *)
theory Sync
  imports Mosrt_Interfaces
begin

text \<open>
  \<^verbatim>\<open>sync.c\<close>: counting semaphores and mutexes, in one table of 32 records.

  The static array \<^verbatim>\<open>g_sems\<close> is the state \<open>sync_state\<close>; a pointer to an element is its index.
  The output parameter \<^verbatim>\<open>woken_pid\<close> is part of the result of a post. The counter is an
  unbounded \<open>int\<close>: reaching the C limit takes more posts than ticks that can be counted.
\<close>

definition MOSRT_MAX_SEMAPHORES :: nat where "MOSRT_MAX_SEMAPHORES = 32"
definition MOSRT_SYNC_WAITERS :: nat where "MOSRT_SYNC_WAITERS = 128"

lemma sync_consts [simp]: "MOSRT_MAX_SEMAPHORES = 32" "MOSRT_SYNC_WAITERS = 128"
  by (simp_all add: MOSRT_MAX_SEMAPHORES_def MOSRT_SYNC_WAITERS_def)

datatype sync_result = SYNC_OK | SYNC_WOULD_BLOCK | SYNC_ERROR

record mosrt_sem =
  sm_waiters :: waitq
  sm_grants :: waitq
  sm_id :: int
  sm_count :: int
  sm_owner_pid :: int
  sm_used :: bool
  sm_mutex :: bool

type_synonym sync_state = "mosrt_sem carray"

definition zero_sem :: mosrt_sem where
  "zero_sem = \<lparr>sm_waiters = \<lparr>w_pids = (\<lambda>_. 0), w_len = 0\<rparr>, sm_grants = \<lparr>w_pids = (\<lambda>_. 0), w_len = 0\<rparr>,
     sm_id = 0, sm_count = 0, sm_owner_pid = 0, sm_used = False, sm_mutex = False\<rparr>"


section \<open>Operations\<close>

definition find_sem :: "int \<Rightarrow> sync_state \<Rightarrow> nat option" where
  "find_sem k g = first_idx (\<lambda>i. sm_used (g i) \<and> sm_id (g i) = k) 0 MOSRT_MAX_SEMAPHORES"

definition create_common :: "int \<Rightarrow> int \<Rightarrow> bool \<Rightarrow> sync_state \<Rightarrow> bool \<times> sync_state" where
  "create_common k initial mutex g =
     (let s = (case find_sem k g of
                 Some i \<Rightarrow> Some i
               | None \<Rightarrow> first_idx (\<lambda>i. \<not> sm_used (g i)) 0 MOSRT_MAX_SEMAPHORES)
      in case s of
           None \<Rightarrow> (False, g)
         | Some i \<Rightarrow>
             (True, g(i := zero_sem\<lparr>sm_used := True, sm_id := k, sm_count := initial,
                                    sm_owner_pid := -1, sm_mutex := mutex\<rparr>)))"

definition ensure_common :: "int \<Rightarrow> int \<Rightarrow> bool \<Rightarrow> sync_state \<Rightarrow> bool \<times> sync_state" where
  "ensure_common k initial mutex g =
     (case find_sem k g of
        Some i \<Rightarrow> (sm_mutex (g i) = mutex, g)
      | None \<Rightarrow> create_common k initial mutex g)"

definition add_waiter :: "waitq \<Rightarrow> int \<Rightarrow> bool \<times> waitq" where
  "add_waiter q pid =
     (if first_idx (\<lambda>i. w_pids q i = pid) 0 (w_len q) \<noteq> None then (True, q)
      else if w_len q < MOSRT_SYNC_WAITERS
      then (True, q\<lparr>w_pids := (w_pids q)(w_len q := pid), w_len := w_len q + 1\<rparr>)
      else (False, q))"

definition pop_waiter :: "waitq \<Rightarrow> int \<times> waitq" where
  "pop_waiter q =
     (if w_len q = 0 then (-1, q)
      else (w_pids q 0, q\<lparr>w_pids := memmove_down (w_pids q) 0 (w_len q), w_len := w_len q - 1\<rparr>))"

definition add_grant :: "waitq \<Rightarrow> int \<Rightarrow> waitq" where
  "add_grant q pid =
     (if first_idx (\<lambda>i. w_pids q i = pid) 0 (w_len q) \<noteq> None then q
      else if w_len q < MOSRT_SYNC_WAITERS
      then q\<lparr>w_pids := (w_pids q)(w_len q := pid), w_len := w_len q + 1\<rparr> else q)"

definition take_grant :: "waitq \<Rightarrow> int \<Rightarrow> bool \<times> waitq" where
  "take_grant q pid =
     (case first_idx (\<lambda>i. w_pids q i = pid) 0 (w_len q) of
        Some i \<Rightarrow> (True, q\<lparr>w_pids := memmove_down (w_pids q) i (w_len q), w_len := w_len q - 1\<rparr>)
      | None \<Rightarrow> (False, q))"

definition sync_init :: "sync_state \<Rightarrow> sync_state" where
  "sync_init g = (\<lambda>_. zero_sem)"

definition sync_create_sem :: "int \<Rightarrow> int \<Rightarrow> sync_state \<Rightarrow> bool \<times> sync_state" where
  "sync_create_sem k initial g = create_common k initial False g"

definition sync_create_mutex :: "int \<Rightarrow> sync_state \<Rightarrow> bool \<times> sync_state" where
  "sync_create_mutex k g = create_common k 1 True g"

text \<open>The part of \<open>sync_wait\<close> after the record is found.\<close>

definition sem_wait :: "int \<Rightarrow> mosrt_sem \<Rightarrow> sync_result \<times> mosrt_sem" where
  "sem_wait pid s =
     (let (granted, gs) = take_grant (sm_grants s) pid
      in if granted then (SYNC_OK, s\<lparr>sm_grants := gs\<rparr>)
         else if sm_mutex s \<and> sm_owner_pid s = pid then (SYNC_ERROR, s)
         else if sm_count s \<le> 0 then
           (let (ok, ws) = add_waiter (sm_waiters s) pid
            in (if ok then SYNC_WOULD_BLOCK else SYNC_ERROR, s\<lparr>sm_waiters := ws\<rparr>))
         else (SYNC_OK,
               s\<lparr>sm_count := sm_count s - 1, sm_owner_pid := (if sm_mutex s then pid else sm_owner_pid s)\<rparr>))"

definition sync_wait :: "int \<Rightarrow> int \<Rightarrow> sync_state \<Rightarrow> sync_result \<times> sync_state" where
  "sync_wait k pid g =
     (let (ok, g1) = (case find_sem k g of Some _ \<Rightarrow> (True, g) | None \<Rightarrow> sync_create_sem k 1 g)
      in if \<not> ok then (SYNC_ERROR, g1)
         else case find_sem k g1 of
                None \<Rightarrow> (SYNC_ERROR, g1)
              | Some i \<Rightarrow> (let (r, s) = sem_wait pid (g1 i) in (r, g1(i := s))))"

definition sync_mutex_lock :: "int \<Rightarrow> int \<Rightarrow> sync_state \<Rightarrow> sync_result \<times> sync_state" where
  "sync_mutex_lock k pid g =
     (let (ok, g1) = ensure_common k 1 True g in if \<not> ok then (SYNC_ERROR, g1) else sync_wait k pid g1)"

text \<open>The part of \<open>sync_post\<close> after the record is found; the result includes \<^verbatim>\<open>*woken_pid\<close>.\<close>

definition sem_post :: "int \<Rightarrow> mosrt_sem \<Rightarrow> sync_result \<times> int \<times> mosrt_sem" where
  "sem_post pid s =
     (if sm_mutex s \<and> sm_owner_pid s \<noteq> pid then (SYNC_ERROR, -1, s)
      else
        (let (wake, ws) = pop_waiter (sm_waiters s); s1 = s\<lparr>sm_waiters := ws\<rparr>
         in if 0 \<le> wake then
              (SYNC_OK, wake,
               if sm_mutex s then s1\<lparr>sm_owner_pid := wake, sm_count := 0\<rparr>
               else s1\<lparr>sm_grants := add_grant (sm_grants s) wake\<rparr>)
            else
              (SYNC_OK, -1,
               if sm_mutex s
               then s1\<lparr>sm_owner_pid := -1, sm_count := (if 1 < sm_count s + 1 then 1 else sm_count s + 1)\<rparr>
               else s1\<lparr>sm_count := sm_count s + 1\<rparr>)))"

definition sync_post :: "int \<Rightarrow> int \<Rightarrow> sync_state \<Rightarrow> sync_result \<times> int \<times> sync_state" where
  "sync_post k pid g =
     (case find_sem k g of
        None \<Rightarrow> (SYNC_ERROR, -1, g)
      | Some i \<Rightarrow> (let (r, wake, s) = sem_post pid (g i) in (r, wake, g(i := s))))"

definition sync_mutex_unlock :: "int \<Rightarrow> int \<Rightarrow> sync_state \<Rightarrow> sync_result \<times> int \<times> sync_state" where
  "sync_mutex_unlock k pid g = sync_post k pid g"


section \<open>Interfaces\<close>

lemma waiters_add_waiter:
  "waiters (snd (add_waiter q p)) = (if p \<in> set (waiters q) \<or> 128 \<le> w_len q then waiters q else waiters q @ [p])"
  "fst (add_waiter q p) \<longleftrightarrow> p \<in> set (waiters q) \<or> w_len q < 128"
  by (auto simp: add_waiter_def waiters_simps)

lemma waiters_pop_waiter:
  "fst (pop_waiter q) = (if waiters q = [] then -1 else hd (waiters q))"
  "waiters (snd (pop_waiter q)) = tl (waiters q)"
  by (auto simp: pop_waiter_def waiters_simps waiters_first waiters_empty_iff) (metis list.sel(2) waiters_empty_iff)

lemma waiters_add_grant:
  "waiters (add_grant q p) = (if p \<in> set (waiters q) \<or> 128 \<le> w_len q then waiters q else waiters q @ [p])"
  by (auto simp: add_grant_def waiters_simps)

lemma waiters_take_grant:
  "fst (take_grant q p) \<longleftrightarrow> p \<in> set (waiters q)" "waiters (snd (take_grant q p)) = remove1 p (waiters q)"
  using waiters_scan [of q p]
  by (auto simp: take_grant_def waiters_delete remove1_idem split: option.splits)

lemma waitq_ok_length: "waitq_ok q \<longleftrightarrow> distinct (waiters q) \<and> length (waiters q) \<le> 128"
  by (simp add: waitq_ok_def)

lemma waitq_ok_add_grant: "waitq_ok q \<Longrightarrow> waitq_ok (add_grant q p)"
  by (auto simp: waitq_ok_length waiters_add_grant)

interpretation sem_waiters: wait_queue 128 waiters waitq_ok "\<lambda>q p. snd (add_waiter q p)" pop_waiter
  by unfold_locales
     (auto simp: waitq_ok_length waiters_add_waiter waiters_pop_waiter distinct_tl simp del: length_waiters,
      auto simp: pop_waiter_def waiters_empty_iff)

interpretation sems: id_table 32 sm_used sm_id find_sem "\<lambda>g. first_idx (\<lambda>i. \<not> sm_used (g i)) 0 32"
  by unfold_locales (simp_all add: find_sem_def)


section \<open>Invariants\<close>

definition sem_inv :: "mosrt_sem \<Rightarrow> bool" where
  "sem_inv s \<longleftrightarrow> waitq_ok (sm_waiters s) \<and> waitq_ok (sm_grants s) \<and> (\<forall>p \<in> set (waiters (sm_waiters s)). 0 \<le> p) \<and>
     set (waiters (sm_waiters s)) \<inter> set (waiters (sm_grants s)) = {} \<and>
     (0 < sm_count s \<longrightarrow> waiters (sm_waiters s) = []) \<and>
     (sm_mutex s \<longrightarrow> waiters (sm_grants s) = [] \<and>
        (if sm_owner_pid s = -1 then sm_count s = 1
         else 0 \<le> sm_owner_pid s \<and> sm_count s = 0 \<and> sm_owner_pid s \<notin> set (waiters (sm_waiters s))))"

definition fresh_sem :: "int \<Rightarrow> int \<Rightarrow> bool \<Rightarrow> mosrt_sem" where
  "fresh_sem k initial mutex =
     zero_sem\<lparr>sm_used := True, sm_id := k, sm_count := initial, sm_owner_pid := -1, sm_mutex := mutex\<rparr>"

lemma fresh_sem_inv: "(mutex \<Longrightarrow> initial = 1) \<Longrightarrow> sem_inv (fresh_sem k initial mutex)"
  by (simp add: sem_inv_def fresh_sem_def zero_sem_def waitq_ok_def waiters_def)

lemma fresh_sem_fields [simp]:
  "sm_used (fresh_sem k n m)" "sm_id (fresh_sem k n m) = k" "sm_mutex (fresh_sem k n m) = m"
  "sm_count (fresh_sem k n m) = n" "sm_owner_pid (fresh_sem k n m) = -1" "waiters (sm_grants (fresh_sem k n m)) = []"
  by (simp_all add: fresh_sem_def zero_sem_def waiters_def)

text \<open>A wait, branch by branch.\<close>

lemma sem_wait_cases:
  assumes "sem_wait p s = (r, s')"
  obtains
    (granted) "p \<in> set (waiters (sm_grants s))" "r = SYNC_OK"
      "s' = s\<lparr>sm_grants := snd (take_grant (sm_grants s) p)\<rparr>"
  | (owned) "p \<notin> set (waiters (sm_grants s))" "sm_mutex s" "sm_owner_pid s = p" "r = SYNC_ERROR" "s' = s"
  | (busy) "p \<notin> set (waiters (sm_grants s))" "\<not> (sm_mutex s \<and> sm_owner_pid s = p)" "sm_count s \<le> 0"
      "r = (if p \<in> set (waiters (sm_waiters s)) \<or> w_len (sm_waiters s) < 128 then SYNC_WOULD_BLOCK else SYNC_ERROR)"
      "s' = s\<lparr>sm_waiters := snd (add_waiter (sm_waiters s) p)\<rparr>"
  | (free) "p \<notin> set (waiters (sm_grants s))" "\<not> (sm_mutex s \<and> sm_owner_pid s = p)" "0 < sm_count s" "r = SYNC_OK"
      "s' = s\<lparr>sm_count := sm_count s - 1, sm_owner_pid := (if sm_mutex s then p else sm_owner_pid s)\<rparr>"
proof (cases "p \<in> set (waiters (sm_grants s))")
  case True
  then show ?thesis by (intro granted) (use assms in \<open>simp_all add: sem_wait_def split_beta waiters_take_grant(1)\<close>)
next
  case False
  then have f: "\<not> fst (take_grant (sm_grants s) p)" by (simp add: waiters_take_grant(1))
  consider "sm_mutex s \<and> sm_owner_pid s = p" | "\<not> (sm_mutex s \<and> sm_owner_pid s = p)" "sm_count s \<le> 0"
    | "\<not> (sm_mutex s \<and> sm_owner_pid s = p)" "0 < sm_count s" by linarith
  then show ?thesis
  proof cases
    case 1
    then show ?thesis by (intro owned) (use assms False f in \<open>simp_all add: sem_wait_def split_beta\<close>)
  next
    case 2
    then have "(r, s') = (if fst (add_waiter (sm_waiters s) p) then SYNC_WOULD_BLOCK else SYNC_ERROR,
        s\<lparr>sm_waiters := snd (add_waiter (sm_waiters s) p)\<rparr>)"
      using assms f by (auto simp: sem_wait_def split_beta)
    then show ?thesis by (intro busy [OF False 2]) (simp_all add: waiters_add_waiter(2))
  next
    case 3
    then show ?thesis by (intro free [OF False 3]) (use assms f in \<open>auto simp: sem_wait_def split_beta\<close>)
  qed
qed

lemma sem_wait_inv:
  assumes "sem_inv s" "0 \<le> p" "sem_wait p s = (r, s')"
  shows "sem_inv s' \<and> sm_used s' = sm_used s \<and> sm_id s' = sm_id s \<and> sm_mutex s' = sm_mutex s"
  using assms(3)
proof (cases rule: sem_wait_cases)
  case granted
  have "waitq_ok (snd (take_grant (sm_grants s) p))"
    using assms(1) by (auto simp: sem_inv_def waitq_ok_length waiters_take_grant(2) length_remove1 simp del: length_waiters)
  then show ?thesis using assms(1) granted set_remove1_subset [of p "waiters (sm_grants s)"]
    by (auto simp: sem_inv_def waiters_take_grant(2))
next
  case owned
  then show ?thesis using assms(1) by simp
next
  case busy
  have "waitq_ok (snd (add_waiter (sm_waiters s) p))" using assms(1) sem_waiters.ok_add by (simp add: sem_inv_def)
  then show ?thesis using assms(1,2) busy
    by (auto simp: sem_inv_def waiters_add_waiter(1) split: if_splits)
next
  case free
  then show ?thesis using assms(1,2) by (auto simp: sem_inv_def split: if_splits)
qed

text \<open>A post, branch by branch.\<close>

lemma sem_post_cases:
  assumes "sem_inv s" "sem_post p s = (r, w, s')"
  obtains
    (foreign) "sm_mutex s" "sm_owner_pid s \<noteq> p" "r = SYNC_ERROR" "w = -1" "s' = s"
  | (handoff) "sm_mutex s" "sm_owner_pid s = p" "r = SYNC_OK" "waiters (sm_waiters s) = w # waiters (sm_waiters s')" "0 \<le> w"
      "s' = s\<lparr>sm_waiters := snd (pop_waiter (sm_waiters s)), sm_owner_pid := w, sm_count := 0\<rparr>"
  | (release) "sm_mutex s" "sm_owner_pid s = p" "r = SYNC_OK" "waiters (sm_waiters s) = []" "w = -1"
      "s' = s\<lparr>sm_owner_pid := -1, sm_count := (if 1 < sm_count s + 1 then 1 else sm_count s + 1)\<rparr>"
  | (grant) "\<not> sm_mutex s" "r = SYNC_OK" "waiters (sm_waiters s) = w # waiters (sm_waiters s')" "0 \<le> w"
      "s' = s\<lparr>sm_waiters := snd (pop_waiter (sm_waiters s)), sm_grants := add_grant (sm_grants s) w\<rparr>"
  | (count) "\<not> sm_mutex s" "r = SYNC_OK" "waiters (sm_waiters s) = []" "w = -1" "s' = s\<lparr>sm_count := sm_count s + 1\<rparr>"
proof (cases "sm_mutex s \<and> sm_owner_pid s \<noteq> p")
  case True
  then show ?thesis by (intro foreign) (use assms(2) in \<open>auto simp: sem_post_def\<close>)
next
  case own: False
  show ?thesis
  proof (cases "waiters (sm_waiters s)")
    case Nil
    then have "pop_waiter (sm_waiters s) = (-1, sm_waiters s)" by (simp add: pop_waiter_def waiters_empty_iff)
    then have e: "(r, w, s') = (SYNC_OK, -1, if sm_mutex s
        then s\<lparr>sm_owner_pid := -1, sm_count := (if 1 < sm_count s + 1 then 1 else sm_count s + 1)\<rparr>
        else s\<lparr>sm_count := sm_count s + 1\<rparr>)"
      using assms(2) own by (auto simp: sem_post_def)
    show ?thesis
    proof (cases "sm_mutex s")
      case True
      then show ?thesis by (intro release) (use own Nil e in auto)
    next
      case False
      then show ?thesis by (intro count) (use Nil e in auto)
    qed
  next
    case (Cons x xs)
    then have x: "fst (pop_waiter (sm_waiters s)) = x" "waiters (snd (pop_waiter (sm_waiters s))) = xs"
      by (simp_all add: waiters_pop_waiter)
    have x0: "0 \<le> x" using assms(1) Cons by (simp add: sem_inv_def)
    then have e: "(r, w, s') = (SYNC_OK, x, if sm_mutex s
        then s\<lparr>sm_waiters := snd (pop_waiter (sm_waiters s)), sm_owner_pid := x, sm_count := 0\<rparr>
        else s\<lparr>sm_waiters := snd (pop_waiter (sm_waiters s)), sm_grants := add_grant (sm_grants s) x\<rparr>)"
      using assms(2) own x by (auto simp: sem_post_def split_beta)
    show ?thesis
    proof (cases "sm_mutex s")
      case True
      then show ?thesis by (intro handoff) (use own Cons x x0 e in auto)
    next
      case False
      then show ?thesis by (intro grant) (use Cons x x0 e in auto)
    qed
  qed
qed

lemma sem_post_inv:
  assumes "sem_inv s" "sem_post p s = (r, w, s')"
  shows "sem_inv s' \<and> sm_used s' = sm_used s \<and> sm_id s' = sm_id s \<and> sm_mutex s' = sm_mutex s"
  using assms
proof (cases rule: sem_post_cases)
  case handoff
  have "waitq_ok (snd (pop_waiter (sm_waiters s)))" using assms(1) sem_waiters.ok_pop by (simp add: sem_inv_def)
  moreover have "w \<notin> set (waiters (sm_waiters s'))" "set (waiters (sm_waiters s')) \<subseteq> set (waiters (sm_waiters s))"
    using assms(1) handoff(4) by (auto simp: sem_inv_def waitq_ok_length)
  ultimately show ?thesis using assms(1) handoff by (auto simp: sem_inv_def)
next
  case grant
  have "waitq_ok (snd (pop_waiter (sm_waiters s)))" using assms(1) sem_waiters.ok_pop by (simp add: sem_inv_def)
  moreover have "waitq_ok (add_grant (sm_grants s) w)"
    using assms(1) by (simp add: sem_inv_def waitq_ok_add_grant)
  moreover have "w \<notin> set (waiters (sm_waiters s'))" "set (waiters (sm_waiters s')) \<subseteq> set (waiters (sm_waiters s))"
    using assms(1) grant(3) by (auto simp: sem_inv_def waitq_ok_length)
  ultimately show ?thesis using assms(1) grant
    by (auto simp: sem_inv_def waiters_add_grant split: if_splits)
qed (use assms(1) in \<open>auto simp: sem_inv_def split: if_splits\<close>)


section \<open>The table\<close>

definition sync_inv :: "sync_state \<Rightarrow> bool" where
  "sync_inv g \<longleftrightarrow> sems.unique_ids g \<and> (\<forall>i < 32. sm_used (g i) \<longrightarrow> sem_inv (g i))"

definition sem_at :: "sync_state \<Rightarrow> int \<Rightarrow> mosrt_sem option" where
  "sem_at g k = map_option g (find_sem k g)"

lemma sync_inv_init [inv_intros]: "sync_inv (sync_init g)"
  by (simp add: sync_inv_def sync_init_def sems.unique_ids_def zero_sem_def)

lemma sem_at_init: "sem_at (sync_init g) k = None"
  by (simp add: sem_at_def find_sem_def sync_init_def zero_sem_def first_idx_None_iff)

lemma sem_at_SomeD:
  assumes "sync_inv g" "sem_at g k = Some s"
  shows "sem_inv s" "sm_used s" "sm_id s = k" "\<exists>i. find_sem k g = Some i \<and> g i = s"
proof -
  obtain i where i: "find_sem k g = Some i" "s = g i" using assms(2) by (auto simp: sem_at_def)
  note D = sems.lookup_SomeD [OF i(1)]
  show "sem_inv s" "sm_used s" "sm_id s = k" using assms(1) D i(2) by (simp_all add: sync_inv_def)
  show "\<exists>i. find_sem k g = Some i \<and> g i = s" using i by blast
qed

lemma write_sem:
  assumes "sync_inv g" "sm_used s" "sm_id s = k" "sem_inv s"
    and "find_sem k g = Some i \<or> find_sem k g = None \<and> first_idx (\<lambda>i. \<not> sm_used (g i)) 0 32 = Some i"
  shows "sync_inv (g(i := s))" "find_sem k (g(i := s)) = Some i" "sem_at (g(i := s)) = (sem_at g)(k \<mapsto> s)"
proof -
  have u: "sems.unique_ids g" using assms(1) by (simp add: sync_inv_def)
  note W = sems.write_record [OF u assms(2,3,5)]
  show "sync_inv (g(i := s))" using assms(1,4) W(1) by (simp add: sync_inv_def)
  show f: "find_sem k (g(i := s)) = Some i" by (simp add: W(2))
  show "sem_at (g(i := s)) = (sem_at g)(k \<mapsto> s)"
  proof
    fix x
    have "j \<noteq> i" if "find_sem x g = Some j" "x \<noteq> k" for j
      using assms(5) that sems.lookup_SomeD(2,3) [OF that(1)] sems.lookup_SomeD(3) [of k g i] sems.unused_SomeD [of g i] by auto
    then show "sem_at (g(i := s)) x = ((sem_at g)(k \<mapsto> s)) x"
      by (cases "find_sem x g") (auto simp: sem_at_def W(2))
  qed
qed

text \<open>A missing semaphore is created by the first wait (count 1), a missing mutex by the first lock.\<close>

lemma create_common_new:
  assumes "sync_inv g" "find_sem k g = None" "mutex \<Longrightarrow> initial = 1" "create_common k initial mutex g = (ok, g')"
  shows "if ok then sync_inv g' \<and> sem_at g' = (sem_at g)(k \<mapsto> fresh_sem k initial mutex) else g' = g"
proof (cases "first_idx (\<lambda>i. \<not> sm_used (g i)) 0 32")
  case None
  then show ?thesis using assms by (simp add: create_common_def)
next
  case (Some i)
  then have "ok" "g' = g(i := fresh_sem k initial mutex)"
    using assms(2,4) by (auto simp: create_common_def fresh_sem_def)
  then show ?thesis using write_sem [OF assms(1), of "fresh_sem k initial mutex" k i] Some assms(2,3) fresh_sem_inv by auto
qed

lemma sync_wait_present:
  assumes inv: "sync_inv g" and p: "0 \<le> p" and s: "sem_at g k = Some s" and w: "sync_wait k p g = (r, g')"
  shows "\<exists>s'. sem_wait p s = (r, s') \<and> sync_inv g' \<and> sem_at g' = (sem_at g)(k \<mapsto> s')"
proof -
  note S = sem_at_SomeD [OF inv s]
  obtain i where i: "find_sem k g = Some i" "g i = s" using S(4) by blast
  obtain s' where s': "sem_wait p s = (r, s')" "g' = g(i := s')" using w i by (auto simp: sync_wait_def split: prod.splits)
  then show ?thesis using sem_wait_inv [OF S(1) p s'(1)] S(2,3) write_sem [OF inv, of s' k i] i(1) by auto
qed

lemma sync_wait_absent:
  assumes inv: "sync_inv g" and p: "0 \<le> p" and s: "sem_at g k = None" and w: "sync_wait k p g = (r, g')"
  shows "(r = SYNC_ERROR \<and> g' = g) \<or>
    (\<exists>s'. sem_wait p (fresh_sem k 1 False) = (r, s') \<and> sync_inv g' \<and> sem_at g' = (sem_at g)(k \<mapsto> s'))"
proof -
  have n: "find_sem k g = None" using s by (simp add: sem_at_def)
  obtain ok g1 where c: "sync_create_sem k 1 g = (ok, g1)" by fastforce
  show ?thesis
  proof (cases ok)
    case False
    then have "g1 = g" using create_common_new [OF inv n, of False 1] c by (simp add: sync_create_sem_def)
    then show ?thesis using w n c False by (simp add: sync_wait_def)
  next
    case True
    then have g1: "sync_inv g1" "sem_at g1 = (sem_at g)(k \<mapsto> fresh_sem k 1 False)"
      using create_common_new [OF inv n, of False 1] c by (simp_all add: sync_create_sem_def)
    obtain i where i: "find_sem k g1 = Some i" using g1(2) by (auto simp: sem_at_def fun_eq_iff split: if_splits)
    have "sync_wait k p g = sync_wait k p g1" using n c True i by (simp add: sync_wait_def)
    then show ?thesis using sync_wait_present [OF g1(1) p, of k "fresh_sem k 1 False" r g'] g1(2) w by auto
  qed
qed

lemma sync_post_present:
  assumes inv: "sync_inv g" and s: "sem_at g k = Some s" and w: "sync_post k p g = (r, wk, g')"
  shows "\<exists>s'. sem_post p s = (r, wk, s') \<and> sync_inv g' \<and> sem_at g' = (sem_at g)(k \<mapsto> s')"
proof -
  note S = sem_at_SomeD [OF inv s]
  obtain i where i: "find_sem k g = Some i" "g i = s" using S(4) by blast
  obtain s' where s': "sem_post p s = (r, wk, s')" "g' = g(i := s')" using w i by (auto simp: sync_post_def split: prod.splits)
  then show ?thesis using sem_post_inv [OF S(1) s'(1)] S(2,3) write_sem [OF inv, of s' k i] i(1) by auto
qed

lemma sync_post_absent: "sem_at g k = None \<Longrightarrow> sync_post k p g = (SYNC_ERROR, -1, g)"
  by (simp add: sem_at_def sync_post_def)

lemma sync_lock_present:
  assumes inv: "sync_inv g" and p: "0 \<le> p" and s: "sem_at g k = Some s" and w: "sync_mutex_lock k p g = (r, g')"
  shows "if sm_mutex s then \<exists>s'. sem_wait p s = (r, s') \<and> sync_inv g' \<and> sem_at g' = (sem_at g)(k \<mapsto> s')
    else r = SYNC_ERROR \<and> g' = g"
proof -
  obtain i where "find_sem k g = Some i" "g i = s" using sem_at_SomeD(4) [OF inv s] by blast
  then have "ensure_common k 1 True g = (sm_mutex s, g)" by (simp add: ensure_common_def)
  then show ?thesis using w sync_wait_present [OF inv p s] by (auto simp: sync_mutex_lock_def)
qed

lemma sync_lock_absent:
  assumes inv: "sync_inv g" and p: "0 \<le> p" and s: "sem_at g k = None" and w: "sync_mutex_lock k p g = (r, g')"
  shows "(r = SYNC_ERROR \<and> g' = g) \<or>
    (\<exists>s'. sem_wait p (fresh_sem k 1 True) = (r, s') \<and> sync_inv g' \<and> sem_at g' = (sem_at g)(k \<mapsto> s'))"
proof -
  have n: "find_sem k g = None" using s by (simp add: sem_at_def)
  obtain ok g1 where c: "create_common k 1 True g = (ok, g1)" by fastforce
  show ?thesis
  proof (cases ok)
    case False
    then have "g1 = g" using create_common_new [OF inv n, of True 1] c by simp
    then show ?thesis using w n c False by (simp add: sync_mutex_lock_def ensure_common_def)
  next
    case True
    then have g1: "sync_inv g1" "sem_at g1 = (sem_at g)(k \<mapsto> fresh_sem k 1 True)"
      using create_common_new [OF inv n, of True 1] c by simp_all
    have "sync_wait k p g1 = (r, g')" using w n c True by (simp add: sync_mutex_lock_def ensure_common_def)
    then show ?thesis using sync_wait_present [OF g1(1) p, of k "fresh_sem k 1 True" r g'] g1(2) by auto
  qed
qed


section \<open>Histories\<close>

datatype sync_op = Wait int int | Post int int | Lock int int | Unlock int int

fun op_key :: "sync_op \<Rightarrow> int" where
  "op_key (Wait k p) = k" | "op_key (Post k p) = k" | "op_key (Lock k p) = k" | "op_key (Unlock k p) = k"

fun op_pid :: "sync_op \<Rightarrow> int" where
  "op_pid (Wait k p) = p" | "op_pid (Post k p) = p" | "op_pid (Lock k p) = p" | "op_pid (Unlock k p) = p"

fun acquires :: "sync_op \<Rightarrow> bool" where
  "acquires (Wait k p) = True" | "acquires (Lock k p) = True" | "acquires _ = False"

fun exec_sync :: "sync_op \<Rightarrow> sync_state \<Rightarrow> sync_result \<times> int \<times> sync_state" where
  "exec_sync (Wait k p) g = (let (r, g') = sync_wait k p g in (r, -1, g'))"
| "exec_sync (Lock k p) g = (let (r, g') = sync_mutex_lock k p g in (r, -1, g'))"
| "exec_sync (Post k p) g = sync_post k p g"
| "exec_sync (Unlock k p) g = sync_mutex_unlock k p g"

type_synonym sync_event = "sync_op \<times> sync_result \<times> int"

fun exec_syncs :: "sync_op list \<Rightarrow> sync_state \<Rightarrow> sync_event list \<times> sync_state" where
  "exec_syncs [] g = ([], g)"
| "exec_syncs (x # xs) g =
     (let (r, w, g1) = exec_sync x g; (es, g2) = exec_syncs xs g1 in ((x, r, w) # es, g2))"

text \<open>
  A legal history of one mutex, from its observable results alone: it is acquired only when
  nobody holds it, released only by its holder, and passes to the process the release wakes.
\<close>

fun mutex_history :: "int \<Rightarrow> int option \<Rightarrow> sync_event list \<Rightarrow> bool" where
  "mutex_history k h [] = True"
| "mutex_history k h ((x, r, w) # es) =
     (if op_key x \<noteq> k \<or> r \<noteq> SYNC_OK then mutex_history k h es
      else if acquires x then h = None \<and> mutex_history k (Some (op_pid x)) es
      else h = Some (op_pid x) \<and> mutex_history k (if 0 \<le> w then Some w else None) es)"

definition holder :: "mosrt_sem \<Rightarrow> int option" where
  "holder s = (if sm_owner_pid s = -1 then None else Some (sm_owner_pid s))"

text \<open>The effect of one call on the record it names, and on the others.\<close>

lemma exec_sync_other:
  assumes "sync_inv g" "0 \<le> op_pid x" "exec_sync x g = (r, w, g')"
  shows "sync_inv g' \<and> (\<forall>k. k \<noteq> op_key x \<longrightarrow> sem_at g' k = sem_at g k)"
proof (cases x)
  case (Wait j p)
  obtain r' where l: "sync_wait j p g = (r', g')" using assms(3) Wait by (auto split: prod.splits)
  show ?thesis
    using sync_wait_present [OF assms(1) _ _ l] sync_wait_absent [OF assms(1) _ _ l] assms(1,2) Wait
    by (cases "sem_at g j") auto
next
  case (Lock j p)
  obtain r' where l: "sync_mutex_lock j p g = (r', g')" using assms(3) Lock by (auto split: prod.splits)
  show ?thesis
  proof (cases "sem_at g j")
    case None
    then show ?thesis using sync_lock_absent [OF assms(1) _ None l] assms(1,2) Lock by auto
  next
    case (Some s)
    then show ?thesis using sync_lock_present [OF assms(1) _ Some l] assms(1,2) Lock by (cases "sm_mutex s") auto
  qed
next
  case (Post j p)
  then show ?thesis using sync_post_present [of g j _ p r w g'] sync_post_absent [of g j p] assms
    by (cases "sem_at g j") auto
next
  case (Unlock j p)
  then show ?thesis using sync_post_present [of g j _ p r w g'] sync_post_absent [of g j p] assms
    by (cases "sem_at g j") (auto simp: sync_mutex_unlock_def)
qed

lemma exec_sync_same:
  assumes "sync_inv g" "0 \<le> op_pid x" "exec_sync x g = (r, w, g')" "sem_at g (op_key x) = Some s"
  shows "\<exists>s'. sem_at g' (op_key x) = Some s' \<and>
    (if acquires x then (sem_wait (op_pid x) s = (r, s') \<or> r = SYNC_ERROR \<and> s' = s)
     else sem_post (op_pid x) s = (r, w, s'))"
proof (cases x)
  case (Wait j p)
  obtain r' where l: "sync_wait j p g = (r', g')" using assms(3) Wait by (auto split: prod.splits)
  show ?thesis using sync_wait_present [OF assms(1) _ _ l] l assms Wait by auto
next
  case (Lock j p)
  obtain r' where l: "sync_mutex_lock j p g = (r', g')" using assms(3) Lock by (auto split: prod.splits)
  then show ?thesis using sync_lock_present [OF assms(1) _ _ l, of s] assms Lock by (cases "sm_mutex s") auto
next
  case (Post j p)
  then show ?thesis using sync_post_present [of g j s p r w g'] assms by auto
next
  case (Unlock j p)
  then show ?thesis using sync_post_present [of g j s p r w g'] assms by (auto simp: sync_mutex_unlock_def)
qed

lemma sem_wait_mutex:
  assumes "sem_inv s" "sm_mutex s" "sem_wait p s = (r, s')"
  shows "if r = SYNC_OK then holder s = None \<and> (p \<noteq> -1 \<longrightarrow> holder s' = Some p) else holder s' = holder s"
  using assms(3) by (cases rule: sem_wait_cases) (use assms(1,2) in \<open>auto simp: sem_inv_def holder_def split: if_splits\<close>)

lemma sem_post_mutex:
  assumes "sem_inv s" "sm_mutex s" "0 \<le> p" "sem_post p s = (r, w, s')"
  shows "if r = SYNC_OK then holder s = Some p \<and> holder s' = (if 0 \<le> w then Some w else None) else holder s' = holder s"
  using assms(1,4) by (cases rule: sem_post_cases) (use assms(1-3) in \<open>auto simp: holder_def\<close>)

lemma exec_syncs_mutex:
  "sync_inv g \<Longrightarrow> \<forall>x \<in> set xs. 0 \<le> op_pid x \<Longrightarrow> sem_at g k = Some s \<Longrightarrow> sm_mutex s \<Longrightarrow>
     mutex_history k (holder s) (fst (exec_syncs xs g))"
proof (induction xs arbitrary: g s)
  case Nil
  then show ?case by simp
next
  case (Cons x xs)
  obtain r w g1 where x: "exec_sync x g = (r, w, g1)" by (metis prod_cases3)
  have p: "0 \<le> op_pid x" using Cons.prems(2) by simp
  note O = exec_sync_other [OF Cons.prems(1) p x]
  have e: "fst (exec_syncs (x # xs) g) = (x, r, w) # fst (exec_syncs xs g1)" using x by (simp add: split_beta)
  show ?case
  proof (cases "op_key x = k")
    case False
    then show ?thesis using O Cons e by simp
  next
    case True
    note S = sem_at_SomeD(1) [OF Cons.prems(1,3)]
    obtain s' where s': "sem_at g1 k = Some s'"
      "if acquires x then (sem_wait (op_pid x) s = (r, s') \<or> r = SYNC_ERROR \<and> s' = s) else sem_post (op_pid x) s = (r, w, s')"
      using exec_sync_same [OF Cons.prems(1) p x, of s] True Cons.prems(3) by auto
    have m: "sm_mutex s'"
      using s'(2) sem_wait_inv [OF S p] sem_post_inv [OF S] Cons.prems(4) by (auto split: if_splits)
    have IH: "mutex_history k (holder s') (fst (exec_syncs xs g1))"
      using O Cons.prems(2) s'(1) m by (intro Cons.IH) auto
    show ?thesis
      using IH e True s'(2) p sem_wait_mutex [OF S Cons.prems(4), of "op_pid x" r s']
        sem_post_mutex [OF S Cons.prems(4) p, of r w s']
      by (auto split: if_splits)
  qed
qed

text \<open>C17. Mutual exclusion: after a mutex has been created by a lock, every sequence of lock, unlock,
  wait and post calls of any processes on any ids has a legal history for that mutex. A call
  acquires it only when nobody holds it, only the holder's release succeeds, and a release that
  wakes a waiter makes that waiter the holder.\<close>

theorem mutex_mutual_exclusion:
  assumes "\<forall>x \<in> set (Lock k p # xs). 0 \<le> op_pid x"
  shows "mutex_history k None (fst (exec_syncs (Lock k p # xs) (sync_init g)))"
proof -
  let ?g = "sync_init g"
  obtain r g1 where l: "sync_mutex_lock k p ?g = (r, g1)" by fastforce
  have p: "0 \<le> p" using assms by simp
  have e: "fst (exec_syncs (Lock k p # xs) ?g) = (Lock k p, r, -1) # fst (exec_syncs xs g1)" using l by (simp add: split_beta)
  have "first_idx (\<lambda>i. \<not> sm_used (?g i)) 0 32 = Some 0"
    by (intro first_idx_SomeI) (simp_all add: sync_init_def zero_sem_def)
  then have "create_common k 1 True ?g = (True, ?g(0 := fresh_sem k 1 True))"
    using sem_at_init [of g k] by (simp add: create_common_def sem_at_def fresh_sem_def)
  moreover have n: "find_sem k ?g = None" using sem_at_init [of g k] by (simp add: sem_at_def)
  ultimately have l1: "sync_wait k p (?g(0 := fresh_sem k 1 True)) = (r, g1)"
    and g0: "sync_inv (?g(0 := fresh_sem k 1 True))" "sem_at (?g(0 := fresh_sem k 1 True)) k = Some (fresh_sem k 1 True)"
    using l create_common_new [OF sync_inv_init n, of True 1] by (auto simp: sync_mutex_lock_def ensure_common_def)
  obtain s' where s': "sem_wait p (fresh_sem k 1 True) = (r, s')" "sync_inv g1" "sem_at g1 k = Some s'"
    using sync_wait_present [OF g0(1) p g0(2) l1] by auto
  have "holder (fresh_sem k 1 True) = None" by (simp add: holder_def)
  then have m: "sm_mutex s'" "if r = SYNC_OK then holder s' = Some p else holder s' = None"
    using sem_wait_inv [OF _ p s'(1)] sem_wait_mutex [OF _ _ s'(1)] fresh_sem_inv [of True 1 k] p by auto
  have "mutex_history k (holder s') (fst (exec_syncs xs g1))"
    using s'(2,3) m(1) assms by (intro exec_syncs_mutex) auto
  then show ?thesis using e m(2) by (auto split: if_splits)
qed

theorem mutex_mutual_exclusion_witness:
  "mutex_history 4 None (fst (exec_syncs [Lock 4 1, Lock 4 2, Unlock 4 2, Unlock 4 1] (sync_init (\<lambda>_. zero_sem))))"
  using mutex_mutual_exclusion [of 4 1 "[Lock 4 2, Unlock 4 2, Unlock 4 1]"] by simp


subsection \<open>Semaphores\<close>

text \<open>The units a semaphore can still give out: its count and the grants not yet collected.\<close>

definition units :: "mosrt_sem \<Rightarrow> int" where
  "units s = sm_count s + int (w_len (sm_grants s))"

definition passed :: "int \<Rightarrow> sync_event list \<Rightarrow> nat" where
  "passed k es = length (filter (\<lambda>(x, r, w). op_key x = k \<and> acquires x \<and> r = SYNC_OK) es)"

definition posted :: "int \<Rightarrow> sync_event list \<Rightarrow> nat" where
  "posted k es = length (filter (\<lambda>(x, r, w). op_key x = k \<and> \<not> acquires x \<and> r = SYNC_OK) es)"

lemma sem_wait_units:
  assumes "sem_inv s" "\<not> sm_mutex s" "0 \<le> sm_count s" "sem_wait p s = (r, s')"
  shows "units s' = (if r = SYNC_OK then units s - 1 else units s)" "0 \<le> sm_count s'"
proof -
  have g: "w_len (snd (take_grant (sm_grants s) p)) = w_len (sm_grants s) - 1 \<and> 0 < w_len (sm_grants s)"
    if "p \<in> set (waiters (sm_grants s))"
    using that waiters_take_grant(2) [of "sm_grants s" p] length_waiters length_remove1 [of p "waiters (sm_grants s)"]
    by (metis (no_types, lifting) length_pos_if_in_set)
  have "units s' = (if r = SYNC_OK then units s - 1 else units s) \<and> 0 \<le> sm_count s'"
    using assms(4) by (cases rule: sem_wait_cases) (use assms(1-3) g in \<open>auto simp: units_def\<close>)
  then show "units s' = (if r = SYNC_OK then units s - 1 else units s)" "0 \<le> sm_count s'" by blast+
qed

lemma sem_post_units:
  assumes "sem_inv s" "\<not> sm_mutex s" "0 \<le> sm_count s" "sem_post p s = (r, w, s')"
  shows "r = SYNC_OK" "units s' \<le> units s + 1" "0 \<le> sm_count s'"
    and "w_len (sm_grants s) < 128 \<Longrightarrow> units s' = units s + 1"
proof -
  have g: "w_len (add_grant q v) \<le> w_len q + 1" for q v by (auto simp: add_grant_def)
  have "r = SYNC_OK \<and> units s' \<le> units s + 1 \<and> 0 \<le> sm_count s' \<and> (w_len (sm_grants s) < 128 \<longrightarrow> units s' = units s + 1)"
    using assms(1,4)
  proof (cases rule: sem_post_cases)
    case grant
    then have "w \<notin> set (waiters (sm_grants s))" using assms(1) by (auto simp: sem_inv_def)
    then have "w_len (sm_grants s) < 128 \<longrightarrow> w_len (add_grant (sm_grants s) w) = w_len (sm_grants s) + 1"
      using waiters_add_grant [of "sm_grants s" w] length_waiters by (metis length_append_singleton not_less Suc_eq_plus1)
    then show ?thesis using grant assms(3) g [of "sm_grants s" w] by (auto simp: units_def)
  qed (use assms(2,3) in \<open>auto simp: units_def\<close>)
  then show "r = SYNC_OK" "units s' \<le> units s + 1" "0 \<le> sm_count s'"
    "w_len (sm_grants s) < 128 \<Longrightarrow> units s' = units s + 1" by blast+
qed

lemma passed_posted_Cons [simp]:
  "passed k ((x, r, w) # es) = (if op_key x = k \<and> acquires x \<and> r = SYNC_OK then 1 else 0) + passed k es"
  "posted k ((x, r, w) # es) = (if op_key x = k \<and> \<not> acquires x \<and> r = SYNC_OK then 1 else 0) + posted k es"
  by (simp_all add: passed_def posted_def)

lemma exec_syncs_units:
  "sync_inv g \<Longrightarrow> \<forall>x \<in> set xs. 0 \<le> op_pid x \<Longrightarrow> sem_at g k = Some s \<Longrightarrow> \<not> sm_mutex s \<Longrightarrow> 0 \<le> sm_count s \<Longrightarrow>
     int (passed k (fst (exec_syncs xs g))) \<le> units s + int (posted k (fst (exec_syncs xs g)))"
proof (induction xs arbitrary: g s)
  case Nil
  then show ?case by (simp add: passed_def posted_def units_def)
next
  case (Cons x xs)
  obtain r w g1 where x: "exec_sync x g = (r, w, g1)" by (metis prod_cases3)
  have p: "0 \<le> op_pid x" using Cons.prems(2) by simp
  note O = exec_sync_other [OF Cons.prems(1) p x]
  have e: "fst (exec_syncs (x # xs) g) = (x, r, w) # fst (exec_syncs xs g1)" using x by (simp add: split_beta)
  show ?case
  proof (cases "op_key x = k")
    case False
    then show ?thesis using O Cons e by simp
  next
    case True
    note S = sem_at_SomeD(1) [OF Cons.prems(1,3)]
    obtain s' where s': "sem_at g1 k = Some s'"
      "if acquires x then (sem_wait (op_pid x) s = (r, s') \<or> r = SYNC_ERROR \<and> s' = s) else sem_post (op_pid x) s = (r, w, s')"
      using exec_sync_same [OF Cons.prems(1) p x, of s] True Cons.prems(3) by auto
    have m: "\<not> sm_mutex s'"
      using s'(2) sem_wait_inv [OF S p] sem_post_inv [OF S] Cons.prems(4) by (auto split: if_splits)
    have u: "0 \<le> sm_count s'"
      "units s' \<le> units s + (if \<not> acquires x \<and> r = SYNC_OK then 1 else 0) - (if acquires x \<and> r = SYNC_OK then 1 else 0)"
      using s'(2) sem_wait_units [OF S Cons.prems(4,5), of "op_pid x" r s'] sem_post_units [OF S Cons.prems(4,5), of "op_pid x" r w s']
        Cons.prems(5) by (auto split: if_splits)
    have "int (passed k (fst (exec_syncs xs g1))) \<le> units s' + int (posted k (fst (exec_syncs xs g1)))"
      using O Cons.prems(2) s'(1) m u(1) by (intro Cons.IH) auto
    then show ?thesis using e True u(2) by (auto split: if_splits)
  qed
qed

text \<open>C28. A counting semaphore never admits more processes than it has units: in every sequence of
  calls by any processes, from a semaphore with a non-negative count, the number of waits that
  return success is at most the initial units plus the number of successful posts.\<close>

theorem semaphore_bounds_admissions:
  assumes "sync_inv g" "\<forall>x \<in> set xs. 0 \<le> op_pid x" "sem_at g k = Some s" "\<not> sm_mutex s" "0 \<le> sm_count s"
  shows "int (passed k (fst (exec_syncs xs g))) \<le> units s + int (posted k (fst (exec_syncs xs g)))"
  using assms by (rule exec_syncs_units)

lemma one_sem:
  "sync_inv ((sync_init g)(0 := fresh_sem k 1 m))" "sem_at ((sync_init g)(0 := fresh_sem k 1 m)) k = Some (fresh_sem k 1 m)"
proof -
  have "first_idx (\<lambda>i. \<not> sm_used (sync_init g i)) 0 32 = Some 0"
    by (intro first_idx_SomeI) (simp_all add: sync_init_def zero_sem_def)
  moreover have "find_sem k (sync_init g) = None" using sem_at_init [of g k] by (simp add: sem_at_def)
  ultimately show "sync_inv ((sync_init g)(0 := fresh_sem k 1 m))"
    "sem_at ((sync_init g)(0 := fresh_sem k 1 m)) k = Some (fresh_sem k 1 m)"
    using write_sem [OF sync_inv_init, of "fresh_sem k 1 m" k g 0] fresh_sem_inv [of m 1 k] by auto
qed

theorem semaphore_bounds_admissions_witness:
  "int (passed 3 (fst (exec_syncs [Wait 3 1, Wait 3 2, Post 3 1] ((sync_init (\<lambda>_. zero_sem))(0 := fresh_sem 3 1 False)))))
     \<le> 1 + int (posted 3 (fst (exec_syncs [Wait 3 1, Wait 3 2, Post 3 1] ((sync_init (\<lambda>_. zero_sem))(0 := fresh_sem 3 1 False)))))"
proof -
  let ?xs = "[Wait 3 1, Wait 3 2, Post 3 1]" and ?g = "(sync_init (\<lambda>_. zero_sem))(0 := fresh_sem 3 1 False)"
  have "units (fresh_sem 3 1 False) = 1" by (simp add: units_def fresh_sem_def zero_sem_def)
  moreover have "\<forall>x \<in> set ?xs. 0 \<le> op_pid x" by simp
  ultimately show ?thesis
    using semaphore_bounds_admissions [OF one_sem(1) _ one_sem(2), of ?xs 3 False "\<lambda>_. zero_sem"]
    by (simp del: exec_syncs.simps)
qed


subsection \<open>The retry after a handoff\<close>

text \<open>C30. When an unlock hands the mutex to a waiting process, that process cannot use it: its retried
  lock, which is what the runtime executes after the wake-up, reports an error because it is
  already the owner. The mutex stays owned by it, so every other process that locks it blocks
  or fails, and no other process can unlock it.\<close>

theorem mutex_handoff_retry_fails:
  assumes "sync_inv g" "sem_at g k = Some s" "sm_mutex s" "sm_owner_pid s = p" "waiters (sm_waiters s) = w # ws"
  shows "\<exists>g1. sync_mutex_unlock k p g = (SYNC_OK, w, g1) \<and> sync_mutex_lock k w g1 = (SYNC_ERROR, g1) \<and>
    (\<forall>q. 0 \<le> q \<longrightarrow> q \<noteq> w \<longrightarrow> fst (sync_mutex_lock k q g1) \<noteq> SYNC_OK \<and> fst (sync_mutex_unlock k q g1) = SYNC_ERROR)"
proof -
  note S = sem_at_SomeD [OF assms(1,2)]
  obtain r wk g1 where u: "sync_post k p g = (r, wk, g1)" by (metis prod_cases3)
  then obtain s' where s': "sem_post p s = (r, wk, s')" "sync_inv g1" "sem_at g1 k = Some s'"
    using sync_post_present [OF assms(1,2) u] by auto
  have h: "r = SYNC_OK \<and> wk = w \<and> 0 \<le> w \<and> sm_owner_pid s' = w \<and> sm_mutex s' \<and> sm_count s' = 0 \<and> waiters (sm_grants s') = []"
    using S(1) s'(1)
  proof (cases rule: sem_post_cases)
    case handoff
    then show ?thesis using assms(3,5) S(1) by (simp add: sem_inv_def)
  qed (use assms(3-5) in auto)
  obtain i where i: "find_sem k g1 = Some i" "g1 i = s'" using sem_at_SomeD(4) [OF s'(2,3)] by blast
  have "sem_wait w s' = (SYNC_ERROR, s')" using h by (simp add: sem_wait_def split_beta waiters_take_grant(1))
  then have "sync_mutex_lock k w g1 = (SYNC_ERROR, g1)"
    using i h by (auto simp: sync_mutex_lock_def ensure_common_def sync_wait_def)
  moreover have "fst (sync_mutex_lock k q g1) \<noteq> SYNC_OK \<and> fst (sync_mutex_unlock k q g1) = SYNC_ERROR"
    if "0 \<le> q" "q \<noteq> w" for q
  proof -
    have "fst (sem_wait q s') \<noteq> SYNC_OK" using h that by (simp add: sem_wait_def split_beta waiters_take_grant(1))
    moreover have "fst (sem_post q s') = SYNC_ERROR" using h that by (simp add: sem_post_def)
    ultimately show ?thesis using i h
      by (auto simp: sync_mutex_lock_def ensure_common_def sync_wait_def sync_mutex_unlock_def sync_post_def split_beta)
  qed
  ultimately show ?thesis using u h by (auto simp: sync_mutex_unlock_def)
qed

theorem mutex_handoff_retry_fails_witness:
  "\<exists>g1. sync_mutex_unlock 4 1 (snd (sync_mutex_lock 4 2 (snd (sync_mutex_lock 4 1 (sync_init (\<lambda>_. zero_sem)))))) = (SYNC_OK, 2, g1) \<and>
     sync_mutex_lock 4 2 g1 = (SYNC_ERROR, g1)"
proof -
  let ?g = "snd (sync_mutex_lock 4 2 (snd (sync_mutex_lock 4 1 (sync_init (\<lambda>_. zero_sem)))))"
  let ?s = "fresh_sem 4 0 True\<lparr>sm_owner_pid := 1, sm_waiters := \<lparr>w_pids = (\<lambda>_. 0)(0 := 2), w_len = 1\<rparr>\<rparr>"
  have g: "?g = (\<lambda>_. zero_sem)(0 := ?s)"
    by (simp add: sync_mutex_lock_def ensure_common_def create_common_def find_sem_def sync_init_def zero_sem_def
        first_idx.simps sync_wait_def sem_wait_def take_grant_def add_waiter_def fresh_sem_def)
  have inv: "sync_inv ?g" unfolding g
    by (auto simp: sync_inv_def sems.unique_ids_def zero_sem_def sem_inv_def fresh_sem_def waitq_ok_def waiters_def arr_list_def)
  have "sem_at ?g 4 = Some ?s" unfolding g
    by (simp add: sem_at_def find_sem_def zero_sem_def fresh_sem_def first_idx.simps)
  then show ?thesis using mutex_handoff_retry_fails [OF inv, of 4 ?s 1 2 "[]"]
    by (auto simp: fresh_sem_def zero_sem_def waiters_def arr_list_def)
qed

end
