(* ===== verification/Frame.thy ===== *)
theory Frame
  imports VM_Types
begin

text \<open>
  \<^verbatim>\<open>frame.c\<close>: the simulated physical memory, its 64 frames of 256 bytes and the owner
  table. The file's static variables are the fields of \<open>frame_state\<close>; a returned
  \<^verbatim>\<open>-1\<close> is \<open>None\<close>; the destination of a block read is passed in and returned.
\<close>

record frame_state =
  g_ram :: "u8 carray"
  g_frames :: "slot_meta carray"
  g_allocated_count :: u32

record frame_stats =
  fs_allocated :: u32
  fs_free :: u32

text \<open>Static storage before any call.\<close>

definition zero_frame_state :: frame_state where
  "zero_frame_state = \<lparr>g_ram = (\<lambda>_. 0), g_frames = (\<lambda>_. zero_meta), g_allocated_count = 0\<rparr>"

definition frame_init :: "frame_state \<Rightarrow> frame_state" where
  "frame_init s = \<lparr>g_ram = (\<lambda>_. 0), g_frames = (\<lambda>_. zero_meta), g_allocated_count = 0\<rparr>"

definition frame_shutdown :: "frame_state \<Rightarrow> frame_state" where
  "frame_shutdown s = \<lparr>g_ram = (\<lambda>_. 0), g_frames = (\<lambda>_. zero_meta), g_allocated_count = 0\<rparr>"

definition frame_alloc :: "int \<Rightarrow> u8 \<Rightarrow> frame_state \<Rightarrow> nat option \<times> frame_state" where
  "frame_alloc pid vpn s =
     (case first_idx (\<lambda>i. \<not> m_allocated (g_frames s i)) 0 VM_NUM_FRAMES of
        Some i \<Rightarrow>
          (Some i,
           s\<lparr>g_frames := (g_frames s)(i := \<lparr>m_pid = pid, m_vpn = vpn, m_allocated = True\<rparr>),
             g_allocated_count := g_allocated_count s + 1,
             g_ram := memset_arr (g_ram s) (i * VM_PAGE_SIZE) VM_PAGE_SIZE 0\<rparr>)
      | None \<Rightarrow> (None, s))"

definition frame_free :: "u8 \<Rightarrow> frame_state \<Rightarrow> frame_state" where
  "frame_free pfn s =
     (if unat pfn < VM_NUM_FRAMES then
        if m_allocated (g_frames s (unat pfn)) then
          s\<lparr>g_frames := (g_frames s)(unat pfn := \<lparr>m_pid = 0, m_vpn = 0, m_allocated = False\<rparr>),
            g_allocated_count := g_allocated_count s - 1\<rparr>
        else s
      else s)"

definition frame_read_byte :: "u32 \<Rightarrow> frame_state \<Rightarrow> u8" where
  "frame_read_byte phys_addr s =
     (if unat phys_addr < VM_PHYS_MEM_SIZE then g_ram s (unat phys_addr) else 0)"

definition frame_write_byte :: "u32 \<Rightarrow> u8 \<Rightarrow> frame_state \<Rightarrow> frame_state" where
  "frame_write_byte phys_addr val s =
     (if unat phys_addr < VM_PHYS_MEM_SIZE
      then s\<lparr>g_ram := (g_ram s)(unat phys_addr := val)\<rparr> else s)"

definition frame_read_block :: "u8 \<Rightarrow> u8 carray \<Rightarrow> frame_state \<Rightarrow> u8 carray" where
  "frame_read_block pfn dest s =
     (if unat pfn < VM_NUM_FRAMES
      then memcpy_arr dest 0 (g_ram s) (unat pfn * VM_PAGE_SIZE) VM_PAGE_SIZE else dest)"

definition frame_write_block :: "u8 \<Rightarrow> u8 carray \<Rightarrow> frame_state \<Rightarrow> frame_state" where
  "frame_write_block pfn src s =
     (if unat pfn < VM_NUM_FRAMES
      then s\<lparr>g_ram := memcpy_arr (g_ram s) (unat pfn * VM_PAGE_SIZE) src 0 VM_PAGE_SIZE\<rparr> else s)"

definition frame_get_stats :: "frame_state \<Rightarrow> frame_stats" where
  "frame_get_stats s =
     \<lparr>fs_allocated = g_allocated_count s,
      fs_free = of_nat VM_NUM_FRAMES - g_allocated_count s\<rparr>"

definition frame_get_owner :: "u8 \<Rightarrow> frame_state \<Rightarrow> (int \<times> u8) option" where
  "frame_get_owner pfn s =
     (if unat pfn < VM_NUM_FRAMES then
        if m_allocated (g_frames s (unat pfn))
        then Some (m_pid (g_frames s (unat pfn)), m_vpn (g_frames s (unat pfn))) else None
      else None)"


section \<open>The allocator keeps its table and its counter consistent\<close>

abbreviation busy_frames :: "frame_state \<Rightarrow> nat set" where
  "busy_frames s \<equiv> used_slots 64 (g_frames s)"

definition frame_inv :: "frame_state \<Rightarrow> bool" where
  "frame_inv s \<longleftrightarrow> unat (g_allocated_count s) = card (busy_frames s)"

lemma frame_inv_init [inv_intros]: "frame_inv (frame_init s)"
  by (simp add: frame_inv_def frame_init_def)

lemma frame_alloc_SomeD:
  assumes "frame_alloc pid vpn s = (Some i, s')"
  shows "i < 64" "\<not> m_allocated (g_frames s i)" "{..<i} \<subseteq> busy_frames s"
    "busy_frames s' = insert i (busy_frames s)"
    "g_frames s' = (g_frames s)(i := \<lparr>m_pid = pid, m_vpn = vpn, m_allocated = True\<rparr>)"
    "g_ram s' = memset_arr (g_ram s) (i * 256) 256 0"
    "g_allocated_count s' = g_allocated_count s + 1"
  using assms
  by (auto simp: frame_alloc_def used_slots_def first_idx_Some_iff split: option.splits)

lemma frame_alloc_NoneD:
  assumes "frame_alloc pid vpn s = (None, s')"
  shows "s' = s" "{..<64} \<subseteq> busy_frames s"
  using assms by (auto simp: frame_alloc_def used_slots_def first_idx_None_iff split: option.splits)

lemma busy_frames_free:
  "i < 64 \<Longrightarrow> busy_frames (frame_free (of_nat i) s) = busy_frames s - {i}"
  by (auto simp: frame_free_def unat_u8_of_nat used_slots_def)

lemma frame_inv_alloc [inv_intros]:
  assumes "frame_inv s" "frame_alloc pid vpn s = (Some i, s')"
  shows "frame_inv s'"
proof -
  note D = frame_alloc_SomeD [OF assms(2)]
  have "card (busy_frames s) < 64" using D(1,2) used_slots_card_less by simp
  moreover have "card (busy_frames s') = Suc (card (busy_frames s))"
    using D(2,4) by (simp add: used_slots_def)
  ultimately show ?thesis using assms(1) D(7) by (simp add: frame_inv_def unat_u32_Suc)
qed

lemma frame_inv_free [inv_intros]:
  assumes "frame_inv s"
  shows "frame_inv (frame_free pfn s)"
proof (cases "unat pfn < 64 \<and> m_allocated (g_frames s (unat pfn))")
  case True
  then have m: "unat pfn \<in> busy_frames s" by (simp add: used_slots_def)
  then have "0 < card (busy_frames s)" by (auto simp: card_gt_0_iff)
  moreover have "busy_frames (frame_free pfn s) = busy_frames s - {unat pfn}"
    using busy_frames_free [of "unat pfn" s] True by simp
  moreover have "g_allocated_count (frame_free pfn s) = g_allocated_count s - 1"
    using True by (simp add: frame_free_def)
  ultimately show ?thesis using assms m by (simp add: frame_inv_def unat_u32_pred)
next
  case False
  then show ?thesis using assms by (auto simp: frame_free_def)
qed

lemma frame_inv_write_block [inv_intros]: "frame_inv s \<Longrightarrow> frame_inv (frame_write_block pfn src s)"
  by (simp add: frame_inv_def frame_write_block_def)

lemma frame_inv_write_byte [inv_intros]: "frame_inv s \<Longrightarrow> frame_inv (frame_write_byte a v s)"
  by (simp add: frame_inv_def frame_write_byte_def)

interpretation frames: slot_table VM_NUM_FRAMES busy_frames frame_inv
  "\<lambda>(pid, vpn). frame_alloc pid vpn" "\<lambda>i. frame_free (of_nat i)"
proof unfold_locales
  fix k s i s' assume "(case k of (pid, vpn) \<Rightarrow> frame_alloc pid vpn) s = (Some i, s')"
  then show "i < VM_NUM_FRAMES \<and> i \<notin> busy_frames s \<and> {..<i} \<subseteq> busy_frames s \<and>
      busy_frames s' = insert i (busy_frames s)"
    using frame_alloc_SomeD [of "fst k" "snd k" s i s'] by (auto simp: split_beta used_slots_def)
next
  fix k s s' assume "(case k of (pid, vpn) \<Rightarrow> frame_alloc pid vpn) s = (None, s')"
  then show "s' = s \<and> {..<VM_NUM_FRAMES} \<subseteq> busy_frames s"
    using frame_alloc_NoneD [of "fst k" "snd k" s s'] by (auto simp: split_beta)
qed (auto simp: busy_frames_free used_slots_bound split_beta intro: inv_intros)


section \<open>Contents\<close>

text \<open>The bytes of one frame.\<close>

definition frame_bytes :: "frame_state \<Rightarrow> nat \<Rightarrow> u8 list" where
  "frame_bytes s i = map (\<lambda>k. g_ram s (i * 256 + k)) [0..<256]"

lemma frame_bytes_cong:
  "(\<And>k. k < 256 \<Longrightarrow> g_ram s (i * 256 + k) = g_ram t (j * 256 + k)) \<Longrightarrow> frame_bytes s i = frame_bytes t j"
  by (simp add: frame_bytes_def)

lemma other_block: "i \<noteq> j \<Longrightarrow> k < 256 \<Longrightarrow> \<not> (j * 256 \<le> i * 256 + k \<and> i * 256 + k < j * 256 + (256::nat))"
  by arith

lemma frame_bytes_alloc:
  assumes "frame_alloc pid vpn s = (Some i, s')"
  shows "frame_bytes s' j = (if j = i then replicate 256 0 else frame_bytes s j)"
proof (cases "j = i")
  case True
  then show ?thesis using frame_alloc_SomeD(6) [OF assms]
    by (auto simp: frame_bytes_def memset_arr_apply intro!: nth_equalityI)
next
  case False
  then show ?thesis using frame_alloc_SomeD(6) [OF assms] other_block [OF False]
    by (auto intro!: frame_bytes_cong simp: memset_arr_apply)
qed

lemma frame_bytes_write_block:
  assumes "unat pfn < 64"
  shows "frame_bytes (frame_write_block pfn src s) j =
    (if j = unat pfn then map src [0..<256] else frame_bytes s j)"
proof (cases "j = unat pfn")
  case True
  then show ?thesis using assms by (simp add: frame_bytes_def frame_write_block_def memcpy_arr_apply)
next
  case False
  then show ?thesis using assms other_block [OF False]
    by (auto intro!: frame_bytes_cong simp: frame_write_block_def memcpy_arr_apply)
qed

lemma frame_read_block_bytes:
  assumes "unat pfn < 64"
  shows "map (frame_read_block pfn dest s) [0..<256] = frame_bytes s (unat pfn)"
  using assms by (simp add: frame_read_block_def frame_bytes_def memcpy_arr_apply)

lemma frame_bytes_free [simp]: "frame_bytes (frame_free pfn s) = frame_bytes s"
  by (simp add: fun_eq_iff frame_bytes_def frame_free_def)

lemma frame_byte_read_write:
  "frame_read_byte a (frame_write_byte b v s) =
     (if a = b \<and> unat a < 16384 then v else frame_read_byte a s)"
  by (auto simp: frame_read_byte_def frame_write_byte_def dest: word_unat_eq_iff [THEN iffD2])


section \<open>Properties\<close>

lemma frame_owner_of_nat:
  "i < 64 \<Longrightarrow> frame_get_owner (of_nat i) s =
     (if i \<in> busy_frames s then Some (m_pid (g_frames s i), m_vpn (g_frames s i)) else None)"
  by (simp add: frame_get_owner_def unat_u8_of_nat used_slots_def)

lemma frame_free_count:
  assumes "frame_inv s"
  shows "unat (fs_free (frame_get_stats s)) = 64 - card (busy_frames s)"
proof -
  have "card (busy_frames s) \<le> 64" by (rule used_slots_card)
  then have "g_allocated_count s \<le> 64" using assms by (simp add: frame_inv_def word_le_nat_alt)
  then show ?thesis using assms by (simp add: frame_get_stats_def frame_inv_def unat_sub)
qed

text \<open>C31. Physical frame allocation: a request fails, without effect, exactly when the statistics
  report no free frame; otherwise it returns the lowest unowned frame, makes the requester
  its owner, zero-fills it, keeps the owner and the bytes of every other frame, and the free
  count drops by one.\<close>

theorem frame_alloc_correct:
  assumes "frame_inv s"
  shows "case frame_alloc pid vpn s of
      (None, s') \<Rightarrow> s' = s \<and> unat (fs_free (frame_get_stats s)) = 0
    | (Some i, s') \<Rightarrow> i < 64 \<and> frame_get_owner (of_nat i) s = None \<and>
        (\<forall>j. j < i \<longrightarrow> frame_get_owner (of_nat j) s \<noteq> None) \<and>
        frame_get_owner (of_nat i) s' = Some (pid, vpn) \<and> frame_bytes s' i = replicate 256 0 \<and>
        (\<forall>j. j < 64 \<longrightarrow> j \<noteq> i \<longrightarrow>
           frame_get_owner (of_nat j) s' = frame_get_owner (of_nat j) s \<and> frame_bytes s' j = frame_bytes s j) \<and>
        unat (fs_free (frame_get_stats s)) = Suc (unat (fs_free (frame_get_stats s'))) \<and> frame_inv s'"
proof (cases "frame_alloc pid vpn s")
  case (Pair r s')
  show ?thesis
  proof (cases r)
    case None
    then have "fst (frame_alloc pid vpn s) = None" using Pair by simp
    then have "card (busy_frames s) = 64" using frames.acquire_fails_iff [of "(pid, vpn)" s] by simp
    then show ?thesis using frame_alloc_NoneD(1) [of pid vpn s s'] Pair None frame_free_count [OF assms] by simp
  next
    case (Some i)
    note a = Pair [unfolded Some]
    note D = frame_alloc_SomeD [OF a]
    have inv': "frame_inv s'" using assms a by (rule frame_inv_alloc)
    have "card (busy_frames s') = Suc (card (busy_frames s))" "card (busy_frames s') \<le> 64"
      using frames.acquire_card [of "(pid, vpn)" s i s'] frames.busy_card [of s'] a by simp_all
    then have "unat (fs_free (frame_get_stats s)) = Suc (unat (fs_free (frame_get_stats s')))"
      using frame_free_count [OF assms] frame_free_count [OF inv'] by simp
    moreover have "i \<notin> busy_frames s" using D(2) by (simp add: used_slots_def)
    moreover have "frame_get_owner (of_nat j) s \<noteq> None" if "j < i" for j
      using D(1,3) that by (subst frame_owner_of_nat) auto
    ultimately show ?thesis unfolding a
      using D(1,4,5) inv' frame_bytes_alloc [OF a] by (simp add: frame_owner_of_nat)
  qed
qed

theorem frame_alloc_correct_witness:
  "frame_get_owner (of_nat 0) (snd (frame_alloc 7 65 (frame_init zero_frame_state))) = Some (7, 65) \<and>
   unat (fs_free (frame_get_stats (frame_init zero_frame_state))) =
     Suc (unat (fs_free (frame_get_stats (snd (frame_alloc 7 65 (frame_init zero_frame_state))))))"
proof -
  have "fst (frame_alloc 7 65 (frame_init zero_frame_state)) = Some 0"
    by (simp add: frame_alloc_def frame_init_def zero_meta_def first_idx.simps)
  then show ?thesis
    using frame_alloc_correct [OF frame_inv_init, of zero_frame_state 7 65]
    by (cases "frame_alloc 7 65 (frame_init zero_frame_state)") simp
qed

end
