(* ===== verification/Swap.thy ===== *)
theory Swap
  imports Frame
begin

text \<open>
  \<^verbatim>\<open>swap.c\<close>: 256 swap slots of one page each. A returned \<^verbatim>\<open>-1\<close> is \<open>None\<close>. \<open>swap_out\<close>
  reads the frame store, \<open>swap_in\<close> writes it.
\<close>

record swap_stats =
  ss_allocated_slots :: u32
  ss_free_slots :: u32
  ss_swap_ins :: u32
  ss_swap_outs :: u32

record swap_state =
  g_swap_mem :: "nat \<Rightarrow> u8 carray"
  g_swap_meta :: "slot_meta carray"
  g_swap_stats :: swap_stats

definition zero_swap_stats :: swap_stats where
  "zero_swap_stats = \<lparr>ss_allocated_slots = 0, ss_free_slots = 0, ss_swap_ins = 0, ss_swap_outs = 0\<rparr>"

definition zero_swap_state :: swap_state where
  "zero_swap_state =
     \<lparr>g_swap_mem = (\<lambda>_ _. 0), g_swap_meta = (\<lambda>_. zero_meta), g_swap_stats = zero_swap_stats\<rparr>"

definition swap_init :: "swap_state \<Rightarrow> swap_state" where
  "swap_init s =
     \<lparr>g_swap_mem = (\<lambda>_ _. 0), g_swap_meta = (\<lambda>_. zero_meta),
      g_swap_stats = zero_swap_stats\<lparr>ss_free_slots := of_nat VM_NUM_SWAP_SLOTS\<rparr>\<rparr>"

definition swap_shutdown :: "swap_state \<Rightarrow> swap_state" where
  "swap_shutdown s =
     \<lparr>g_swap_mem = (\<lambda>_ _. 0), g_swap_meta = (\<lambda>_. zero_meta), g_swap_stats = zero_swap_stats\<rparr>"

definition swap_alloc :: "int \<Rightarrow> u8 \<Rightarrow> swap_state \<Rightarrow> nat option \<times> swap_state" where
  "swap_alloc pid vpn s =
     (case first_idx (\<lambda>i. \<not> m_allocated (g_swap_meta s i)) 0 VM_NUM_SWAP_SLOTS of
        Some i \<Rightarrow>
          (Some i,
           s\<lparr>g_swap_meta := (g_swap_meta s)(i := \<lparr>m_pid = pid, m_vpn = vpn, m_allocated = True\<rparr>),
             g_swap_stats := (g_swap_stats s)
               \<lparr>ss_allocated_slots := ss_allocated_slots (g_swap_stats s) + 1,
                ss_free_slots := ss_free_slots (g_swap_stats s) - 1\<rparr>\<rparr>)
      | None \<Rightarrow> (None, s))"

definition swap_free :: "u16 \<Rightarrow> swap_state \<Rightarrow> swap_state" where
  "swap_free slot s =
     (if unat slot < VM_NUM_SWAP_SLOTS then
        if m_allocated (g_swap_meta s (unat slot)) then
          s\<lparr>g_swap_meta := (g_swap_meta s)(unat slot := \<lparr>m_pid = 0, m_vpn = 0, m_allocated = False\<rparr>),
            g_swap_stats := (g_swap_stats s)
              \<lparr>ss_allocated_slots := ss_allocated_slots (g_swap_stats s) - 1,
               ss_free_slots := ss_free_slots (g_swap_stats s) + 1\<rparr>\<rparr>
        else s
      else s)"

definition swap_out :: "u8 \<Rightarrow> u16 \<Rightarrow> frame_state \<Rightarrow> swap_state \<Rightarrow> swap_state" where
  "swap_out pfn slot f s =
     (if unat slot < VM_NUM_SWAP_SLOTS then
        s\<lparr>g_swap_mem := (g_swap_mem s)(unat slot := frame_read_block pfn (g_swap_mem s (unat slot)) f),
          g_swap_stats := (g_swap_stats s)\<lparr>ss_swap_outs := ss_swap_outs (g_swap_stats s) + 1\<rparr>\<rparr>
      else s)"

definition swap_in :: "u16 \<Rightarrow> u8 \<Rightarrow> frame_state \<Rightarrow> swap_state \<Rightarrow> frame_state \<times> swap_state" where
  "swap_in slot pfn f s =
     (if unat slot < VM_NUM_SWAP_SLOTS then
        (frame_write_block pfn (g_swap_mem s (unat slot)) f,
         s\<lparr>g_swap_stats := (g_swap_stats s)\<lparr>ss_swap_ins := ss_swap_ins (g_swap_stats s) + 1\<rparr>\<rparr>)
      else (f, s))"

definition swap_get_stats :: "swap_state \<Rightarrow> swap_stats" where
  "swap_get_stats s = g_swap_stats s"

definition swap_reset_stats :: "swap_state \<Rightarrow> swap_state" where
  "swap_reset_stats s = s\<lparr>g_swap_stats := (g_swap_stats s)\<lparr>ss_swap_ins := 0, ss_swap_outs := 0\<rparr>\<rparr>"


section \<open>The slot allocator\<close>

abbreviation busy_slots :: "swap_state \<Rightarrow> nat set" where
  "busy_slots s \<equiv> used_slots 256 (g_swap_meta s)"

definition swap_inv :: "swap_state \<Rightarrow> bool" where
  "swap_inv s \<longleftrightarrow>
     unat (ss_allocated_slots (g_swap_stats s)) = card (busy_slots s) \<and>
     unat (ss_free_slots (g_swap_stats s)) = 256 - card (busy_slots s)"

lemma swap_inv_init [inv_intros]: "swap_inv (swap_init s)"
  by (simp add: swap_inv_def swap_init_def zero_swap_stats_def)

lemma swap_alloc_SomeD:
  assumes "swap_alloc pid vpn s = (Some i, s')"
  shows "i < 256" "\<not> m_allocated (g_swap_meta s i)" "{..<i} \<subseteq> busy_slots s"
    "busy_slots s' = insert i (busy_slots s)"
    "g_swap_meta s' = (g_swap_meta s)(i := \<lparr>m_pid = pid, m_vpn = vpn, m_allocated = True\<rparr>)"
    "g_swap_mem s' = g_swap_mem s"
    "ss_allocated_slots (g_swap_stats s') = ss_allocated_slots (g_swap_stats s) + 1"
    "ss_free_slots (g_swap_stats s') = ss_free_slots (g_swap_stats s) - 1"
  using assms
  by (auto simp: swap_alloc_def used_slots_def first_idx_Some_iff split: option.splits)

lemma swap_alloc_NoneD:
  assumes "swap_alloc pid vpn s = (None, s')"
  shows "s' = s" "{..<256} \<subseteq> busy_slots s"
  using assms by (auto simp: swap_alloc_def used_slots_def first_idx_None_iff split: option.splits)

lemma busy_slots_free:
  "i < 256 \<Longrightarrow> busy_slots (swap_free (of_nat i) s) = busy_slots s - {i}"
  by (auto simp: swap_free_def unat_u16_of_nat used_slots_def)

lemma swap_inv_alloc [inv_intros]:
  assumes "swap_inv s" "swap_alloc pid vpn s = (Some i, s')"
  shows "swap_inv s'"
proof -
  note D = swap_alloc_SomeD [OF assms(2)]
  have "card (busy_slots s) < 256" using D(1,2) used_slots_card_less by simp
  moreover have "card (busy_slots s') = Suc (card (busy_slots s))"
    using D(2,4) by (simp add: used_slots_def)
  ultimately show ?thesis using assms(1) D(7,8) by (simp add: swap_inv_def unat_u32_Suc unat_u32_pred)
qed

lemma swap_inv_free [inv_intros]:
  assumes "swap_inv s"
  shows "swap_inv (swap_free slot s)"
proof (cases "unat slot < 256 \<and> m_allocated (g_swap_meta s (unat slot))")
  case True
  then have m: "unat slot \<in> busy_slots s" by (simp add: used_slots_def)
  then have "0 < card (busy_slots s)" by (auto simp: card_gt_0_iff)
  moreover have "card (busy_slots s) \<le> 256" by (rule used_slots_card)
  moreover have "busy_slots (swap_free slot s) = busy_slots s - {unat slot}"
    using busy_slots_free [of "unat slot" s] True by simp
  moreover have "ss_allocated_slots (g_swap_stats (swap_free slot s)) = ss_allocated_slots (g_swap_stats s) - 1"
    "ss_free_slots (g_swap_stats (swap_free slot s)) = ss_free_slots (g_swap_stats s) + 1"
    using True by (simp_all add: swap_free_def)
  ultimately show ?thesis using assms m by (simp add: swap_inv_def unat_u32_pred unat_u32_Suc)
next
  case False
  then show ?thesis using assms by (auto simp: swap_free_def)
qed

lemma swap_inv_out [inv_intros]: "swap_inv s \<Longrightarrow> swap_inv (swap_out pfn slot f s)"
  by (simp add: swap_inv_def swap_out_def)

lemma swap_inv_in [inv_intros]: "swap_inv s \<Longrightarrow> swap_inv (snd (swap_in slot pfn f s))"
  by (simp add: swap_inv_def swap_in_def)

interpretation swaps: slot_table VM_NUM_SWAP_SLOTS busy_slots swap_inv
  "\<lambda>(pid, vpn). swap_alloc pid vpn" "\<lambda>i. swap_free (of_nat i)"
proof unfold_locales
  fix k s i s' assume "(case k of (pid, vpn) \<Rightarrow> swap_alloc pid vpn) s = (Some i, s')"
  then show "i < VM_NUM_SWAP_SLOTS \<and> i \<notin> busy_slots s \<and> {..<i} \<subseteq> busy_slots s \<and>
      busy_slots s' = insert i (busy_slots s)"
    using swap_alloc_SomeD [of "fst k" "snd k" s i s'] by (auto simp: split_beta used_slots_def)
next
  fix k s s' assume "(case k of (pid, vpn) \<Rightarrow> swap_alloc pid vpn) s = (None, s')"
  then show "s' = s \<and> {..<VM_NUM_SWAP_SLOTS} \<subseteq> busy_slots s"
    using swap_alloc_NoneD [of "fst k" "snd k" s s'] by (auto simp: split_beta)
qed (auto simp: busy_slots_free used_slots_bound split_beta intro: inv_intros)


section \<open>Page contents survive a trip through swap\<close>

lemma swap_out_mem:
  assumes "unat slot < 256" "unat pfn < 64"
  shows "map (g_swap_mem (swap_out pfn slot f s) (unat slot)) [0..<256] = frame_bytes f (unat pfn)"
  using assms frame_read_block_bytes [of pfn "g_swap_mem s (unat slot)" f] by (simp add: swap_out_def)

lemma swap_out_other:
  "k \<noteq> unat slot \<Longrightarrow> g_swap_mem (swap_out pfn slot f s) k = g_swap_mem s k"
  by (simp add: swap_out_def)

lemma swap_free_mem [simp]: "g_swap_mem (swap_free slot s) = g_swap_mem s"
  by (simp add: swap_free_def)

lemma swap_in_bytes:
  assumes "unat slot < 256" "unat pfn < 64"
  shows "frame_bytes (fst (swap_in slot pfn f s)) j =
    (if j = unat pfn then map (g_swap_mem s (unat slot)) [0..<256] else frame_bytes f j)"
  using assms frame_bytes_write_block [of pfn] by (simp add: swap_in_def)


section \<open>Properties\<close>

text \<open>C32. A page written to a swap slot and later read back, into any frame and whatever the frame
  store holds by then, has its original 256 bytes, and reading it back changes no other frame;
  releasing the slot in between does not change what is read.\<close>

theorem swap_round_trip:
  assumes "unat slot < 256" "unat pfn < 64" "unat pfn' < 64"
  shows "frame_bytes (fst (swap_in slot pfn' f' (swap_out pfn slot f s))) j =
      (if j = unat pfn' then frame_bytes f (unat pfn) else frame_bytes f' j) \<and>
    fst (swap_in slot pfn' f' (swap_free slot' s')) = fst (swap_in slot pfn' f' s')"
  using assms swap_out_mem [of slot pfn f s] swap_in_bytes [of slot pfn']
  by (simp_all add: swap_in_def)

theorem swap_round_trip_witness:
  "frame_bytes (fst (swap_in 3 1 (frame_init zero_frame_state)
     (swap_out 0 3 (frame_write_byte 5 42 (frame_init zero_frame_state)) (swap_init zero_swap_state)))) 1 =
   frame_bytes (frame_write_byte 5 42 (frame_init zero_frame_state)) 0 \<and>
   fst (swap_in 3 1 (frame_init zero_frame_state) (swap_free 3 (swap_init zero_swap_state))) =
     fst (swap_in 3 1 (frame_init zero_frame_state) (swap_init zero_swap_state))"
  using swap_round_trip [of 3 0 1 "frame_init zero_frame_state"] by simp

end
