(* ===== verification/TLB.thy ===== *)
theory TLB
  imports VM_Types
begin

text \<open>
  \<^verbatim>\<open>tlb.c\<close>: a fully associative cache of 16 translations with least-recently-used
  replacement. A lookup returns \<open>None\<close> for \<^verbatim>\<open>-1\<close>, otherwise the frame number with the two
  output parameters (dirty bit and permissions). The 64-bit tick is truncated to 32 bits
  when it is stored.
\<close>

record tlb_stats =
  ts_hits :: u32
  ts_misses :: u32

record tlb_state =
  g_tlb :: "tlb_entry carray"
  g_tlb_stats :: tlb_stats

definition zero_tlb_entry :: tlb_entry where
  "zero_tlb_entry = \<lparr>te_vpn = 0, te_pfn = 0, te_permissions = 0, te_valid = False, te_dirty = False,
     te_last_used_tick = 0\<rparr>"

definition zero_tlb_state :: tlb_state where
  "zero_tlb_state = \<lparr>g_tlb = (\<lambda>_. zero_tlb_entry), g_tlb_stats = \<lparr>ts_hits = 0, ts_misses = 0\<rparr>\<rparr>"

definition tlb_flush :: "tlb_state \<Rightarrow> tlb_state" where
  "tlb_flush s = s\<lparr>g_tlb := (\<lambda>i. if i < VM_TLB_SIZE then zero_tlb_entry else g_tlb s i)\<rparr>"

definition tlb_reset_stats :: "tlb_state \<Rightarrow> tlb_state" where
  "tlb_reset_stats s = s\<lparr>g_tlb_stats := \<lparr>ts_hits = 0, ts_misses = 0\<rparr>\<rparr>"

definition tlb_init :: "tlb_state \<Rightarrow> tlb_state" where
  "tlb_init s = tlb_reset_stats (tlb_flush s)"

definition tlb_matches :: "tlb_state \<Rightarrow> u8 \<Rightarrow> nat \<Rightarrow> bool" where
  "tlb_matches s vpn i \<longleftrightarrow> te_valid (g_tlb s i) \<and> te_vpn (g_tlb s i) = vpn"

definition tlb_lookup :: "u8 \<Rightarrow> u64 \<Rightarrow> tlb_state \<Rightarrow> (u8 \<times> bool \<times> u8) option \<times> tlb_state" where
  "tlb_lookup vpn tick s =
     (case first_idx (tlb_matches s vpn) 0 VM_TLB_SIZE of
        Some i \<Rightarrow>
          (Some (te_pfn (g_tlb s i), te_dirty (g_tlb s i), te_permissions (g_tlb s i)),
           s\<lparr>g_tlb := (g_tlb s)(i := (g_tlb s i)\<lparr>te_last_used_tick := ucast tick\<rparr>),
             g_tlb_stats := (g_tlb_stats s)\<lparr>ts_hits := ts_hits (g_tlb_stats s) + 1\<rparr>\<rparr>)
      | None \<Rightarrow>
          (None, s\<lparr>g_tlb_stats := (g_tlb_stats s)\<lparr>ts_misses := ts_misses (g_tlb_stats s) + 1\<rparr>\<rparr>))"

definition tlb_lru_index :: "tlb_state \<Rightarrow> nat" where
  "tlb_lru_index s = argmin_idx (\<lambda>i. te_last_used_tick (g_tlb s i)) 0 1 VM_TLB_SIZE"

definition tlb_insert :: "u8 \<Rightarrow> u8 \<Rightarrow> bool \<Rightarrow> u8 \<Rightarrow> u64 \<Rightarrow> tlb_state \<Rightarrow> tlb_state" where
  "tlb_insert vpn pfn d perms tick s =
     (case first_idx (tlb_matches s vpn) 0 VM_TLB_SIZE of
        Some i \<Rightarrow>
          s\<lparr>g_tlb := (g_tlb s)(i := (g_tlb s i)\<lparr>te_pfn := pfn, te_dirty := d, te_permissions := perms,
                                       te_last_used_tick := ucast tick\<rparr>)\<rparr>
      | None \<Rightarrow>
          (let new = \<lparr>te_vpn = vpn, te_pfn = pfn, te_permissions = perms, te_valid = True,
                      te_dirty = d, te_last_used_tick = ucast tick\<rparr>
           in case first_idx (\<lambda>i. \<not> te_valid (g_tlb s i)) 0 VM_TLB_SIZE of
                Some i \<Rightarrow> s\<lparr>g_tlb := (g_tlb s)(i := new)\<rparr>
              | None \<Rightarrow> s\<lparr>g_tlb := (g_tlb s)(tlb_lru_index s := new)\<rparr>))"

definition tlb_flush_entry :: "u8 \<Rightarrow> tlb_state \<Rightarrow> tlb_state" where
  "tlb_flush_entry vpn s =
     s\<lparr>g_tlb := (\<lambda>i. if i < VM_TLB_SIZE \<and> tlb_matches s vpn i
                      then (g_tlb s i)\<lparr>te_valid := False\<rparr> else g_tlb s i)\<rparr>"

definition tlb_get_stats :: "tlb_state \<Rightarrow> tlb_stats" where
  "tlb_get_stats s = g_tlb_stats s"


section \<open>The contract of a translation cache\<close>

text \<open>
  What the pager and the memory accessors rely on: \<open>find\<close> is the cached translation of a
  page (frame, dirty bit, permissions), and the cache may forget translations but never
  invents one.
\<close>

locale translation_cache =
  fixes find :: "'s \<Rightarrow> u8 \<Rightarrow> (u8 \<times> bool \<times> u8) option"
    and wf :: "'s \<Rightarrow> bool"
    and lookup :: "u8 \<Rightarrow> u64 \<Rightarrow> 's \<Rightarrow> (u8 \<times> bool \<times> u8) option \<times> 's"
    and insert_entry :: "u8 \<Rightarrow> u8 \<Rightarrow> bool \<Rightarrow> u8 \<Rightarrow> u64 \<Rightarrow> 's \<Rightarrow> 's"
    and flush_entry :: "u8 \<Rightarrow> 's \<Rightarrow> 's"
    and flush :: "'s \<Rightarrow> 's"
  assumes lookup_result: "\<And>v t s. wf s \<Longrightarrow> fst (lookup v t s) = find s v"
    and lookup_keeps: "\<And>v t s w. wf s \<Longrightarrow> find (snd (lookup v t s)) w = find s w"
    and lookup_wf: "\<And>v t s. wf s \<Longrightarrow> wf (snd (lookup v t s))"
    and insert_same: "\<And>v p d q t s. wf s \<Longrightarrow> find (insert_entry v p d q t s) v = Some (p, d, q)"
    and insert_other: "\<And>v p d q t s w. wf s \<Longrightarrow> w \<noteq> v \<Longrightarrow>
          find (insert_entry v p d q t s) w \<in> {find s w, None}"
    and insert_wf: "\<And>v p d q t s. wf s \<Longrightarrow> wf (insert_entry v p d q t s)"
    and flush_entry_find: "\<And>v s w. wf s \<Longrightarrow> find (flush_entry v s) w = (if w = v then None else find s w)"
    and flush_entry_wf: "\<And>v s. wf s \<Longrightarrow> wf (flush_entry v s)"
    and flush_find: "\<And>s w. find (flush s) w = None"
    and flush_wf: "\<And>s. wf (flush s)"
begin

definition coherent :: "(u8 \<Rightarrow> u8 \<times> bool \<times> u8 \<Rightarrow> bool) \<Rightarrow> 's \<Rightarrow> bool" where
  "coherent R s \<longleftrightarrow> wf s \<and> (\<forall>v e. find s v = Some e \<longrightarrow> R v e)"

lemma coherent_flush: "coherent R (flush s)"
  by (simp add: coherent_def flush_find flush_wf)

lemma coherent_lookup: "coherent R s \<Longrightarrow> coherent R (snd (lookup v t s))"
  by (simp add: coherent_def lookup_keeps lookup_wf)

lemma coherent_insert:
  assumes "coherent R s" "R v (p, d, q)"
  shows "coherent R (insert_entry v p d q t s)"
  unfolding coherent_def
proof (intro conjI allI impI)
  show "wf (insert_entry v p d q t s)" using assms(1) by (simp add: coherent_def insert_wf)
  fix w e assume f: "find (insert_entry v p d q t s) w = Some e"
  show "R w e"
  proof (cases "w = v")
    case True
    then show ?thesis using f assms insert_same by (simp add: coherent_def)
  next
    case False
    then have "find s w = Some e"
      using insert_other [of s w v p d q t] f assms(1) by (auto simp: coherent_def)
    then show ?thesis using assms(1) unfolding coherent_def by blast
  qed
qed

text \<open>Dropping a page's entry restores coherence after that page alone was remapped.\<close>

lemma coherent_flush_entry:
  assumes "coherent R s" "\<And>w e. w \<noteq> v \<Longrightarrow> R w e \<Longrightarrow> R' w e"
  shows "coherent R' (flush_entry v s)"
  using assms by (auto simp: coherent_def flush_entry_find flush_entry_wf split: if_splits)

lemma coherent_mono: "coherent R s \<Longrightarrow> (\<And>v e. R v e \<Longrightarrow> R' v e) \<Longrightarrow> coherent R' s"
  by (auto simp: coherent_def)

lemma coherent_hit: "coherent R s \<Longrightarrow> fst (lookup v t s) = Some e \<Longrightarrow> R v e"
  unfolding coherent_def using lookup_result by metis

end


section \<open>The TLB is such a cache\<close>

definition tlb_inv :: "tlb_state \<Rightarrow> bool" where
  "tlb_inv s \<longleftrightarrow> (\<forall>i j v. i < 16 \<longrightarrow> j < 16 \<longrightarrow> tlb_matches s v i \<longrightarrow> tlb_matches s v j \<longrightarrow> i = j)"

definition tlb_find :: "tlb_state \<Rightarrow> u8 \<Rightarrow> (u8 \<times> bool \<times> u8) option" where
  "tlb_find s v =
     map_option (\<lambda>i. (te_pfn (g_tlb s i), te_dirty (g_tlb s i), te_permissions (g_tlb s i)))
       (first_idx (tlb_matches s v) 0 16)"

lemma tlb_first_iff:
  "tlb_inv s \<Longrightarrow> first_idx (tlb_matches s v) 0 16 = Some i \<longleftrightarrow> i < 16 \<and> tlb_matches s v i"
  by (auto simp: first_idx_Some_iff tlb_inv_def) (metis less_irrefl less_trans)

lemma tlb_find_Some_iff:
  "tlb_inv s \<Longrightarrow> tlb_find s v = Some e \<longleftrightarrow>
     (\<exists>i < 16. tlb_matches s v i \<and> e = (te_pfn (g_tlb s i), te_dirty (g_tlb s i), te_permissions (g_tlb s i)))"
  by (auto simp: tlb_find_def tlb_first_iff)

lemma tlb_find_None_iff: "tlb_find s v = None \<longleftrightarrow> (\<forall>i < 16. \<not> tlb_matches s v i)"
  by (auto simp: tlb_find_def first_idx_None_iff)

text \<open>Writing a valid entry for \<open>v\<close> at index \<open>k\<close>, when no other index holds \<open>v\<close>.\<close>

lemma tlb_write_matches:
  assumes "te_valid e" "te_vpn e = v"
  shows "tlb_matches (s\<lparr>g_tlb := (g_tlb s)(k := e)\<rparr>) w i \<longleftrightarrow> (if i = k then w = v else tlb_matches s w i)"
  using assms by (auto simp: tlb_matches_def)

lemma tlb_write:
  assumes inv: "tlb_inv s" and k: "k < 16" and e: "te_valid e" "te_vpn e = v"
    and own: "\<And>i. i < 16 \<Longrightarrow> tlb_matches s v i \<Longrightarrow> i = k"
  shows "tlb_inv (s\<lparr>g_tlb := (g_tlb s)(k := e)\<rparr>)"
    and "tlb_find (s\<lparr>g_tlb := (g_tlb s)(k := e)\<rparr>) v = Some (te_pfn e, te_dirty e, te_permissions e)"
    and "w \<noteq> v \<Longrightarrow> tlb_find (s\<lparr>g_tlb := (g_tlb s)(k := e)\<rparr>) w = (if tlb_matches s w k then None else tlb_find s w)"
proof -
  let ?s = "s\<lparr>g_tlb := (g_tlb s)(k := e)\<rparr>"
  note m = tlb_write_matches [OF e, of s k]
  show inv': "tlb_inv ?s" using inv own unfolding tlb_inv_def m by (metis)
  show "tlb_find ?s v = Some (te_pfn e, te_dirty e, te_permissions e)"
    using k by (auto simp: tlb_find_Some_iff [OF inv'] m intro!: exI [of _ k])
  show "tlb_find ?s w = (if tlb_matches s w k then None else tlb_find s w)" if w: "w \<noteq> v"
  proof (cases "tlb_matches s w k")
    case True
    then show ?thesis using inv k w by (auto simp: tlb_find_None_iff m tlb_inv_def)
  next
    case False
    have "first_idx (tlb_matches ?s w) 0 16 = first_idx (tlb_matches s w) 0 16"
      by (rule first_idx_cong) (use False w m in auto)
    moreover have "i \<noteq> k" if "first_idx (tlb_matches s w) 0 16 = Some i" for i
      using that False by (auto simp: first_idx_Some_iff)
    ultimately show ?thesis using False by (auto simp: tlb_find_def option.map_sel intro!: option.map_cong)
  qed
qed

lemma tlb_lru_index_less [simp]: "tlb_lru_index s < 16"
  by (simp add: tlb_lru_index_def argmin_idx_lt)

text \<open>Where \<open>tlb_insert\<close> writes: the matching entry, else the first invalid one, else the least recently used.\<close>

definition tlb_target :: "tlb_state \<Rightarrow> u8 \<Rightarrow> nat" where
  "tlb_target s v =
     (case first_idx (tlb_matches s v) 0 16 of Some i \<Rightarrow> i
      | None \<Rightarrow> (case first_idx (\<lambda>i. \<not> te_valid (g_tlb s i)) 0 16 of Some i \<Rightarrow> i | None \<Rightarrow> tlb_lru_index s))"

lemma tlb_insert_write:
  "tlb_insert v p d q t s =
     s\<lparr>g_tlb := (g_tlb s)(tlb_target s v :=
        \<lparr>te_vpn = v, te_pfn = p, te_permissions = q, te_valid = True, te_dirty = d, te_last_used_tick = ucast t\<rparr>)\<rparr>"
  by (auto simp: tlb_insert_def tlb_target_def tlb_matches_def Let_def fun_eq_iff
      split: option.splits dest!: first_idx_SomeD(3))

lemma tlb_target_less: "tlb_target s v < 16"
  by (auto simp: tlb_target_def split: option.splits dest: first_idx_SomeD(2))

lemma tlb_target_own:
  assumes "tlb_inv s" "i < 16" "tlb_matches s v i"
  shows "i = tlb_target s v"
proof -
  have "first_idx (tlb_matches s v) 0 16 = Some i" using assms by (simp add: tlb_first_iff)
  then show ?thesis by (simp add: tlb_target_def)
qed

lemma tlb_insert_facts:
  assumes "tlb_inv s"
  shows "tlb_inv (tlb_insert v p d q t s)"
    and "tlb_find (tlb_insert v p d q t s) v = Some (p, d, q)"
    and "w \<noteq> v \<Longrightarrow> tlb_find (tlb_insert v p d q t s) w =
           (if tlb_matches s w (tlb_target s v) then None else tlb_find s w)"
  unfolding tlb_insert_write
  using tlb_write [OF assms tlb_target_less _ _ tlb_target_own [OF assms]] by simp_all

lemma tlb_lookup_matches: "tlb_matches (snd (tlb_lookup v t s)) w i = tlb_matches s w i"
  by (auto simp: tlb_lookup_def tlb_matches_def split: option.splits)

lemma tlb_lookup_facts:
  shows "fst (tlb_lookup v t s) = tlb_find s v"
    and "tlb_find (snd (tlb_lookup v t s)) w = tlb_find s w"
    and "tlb_inv (snd (tlb_lookup v t s)) = tlb_inv s"
proof -
  show "fst (tlb_lookup v t s) = tlb_find s v"
    by (auto simp: tlb_lookup_def tlb_find_def split: option.splits)
  have m: "tlb_matches (snd (tlb_lookup v t s)) w = tlb_matches s w"
    by (simp add: fun_eq_iff tlb_lookup_matches)
  show "tlb_find (snd (tlb_lookup v t s)) w = tlb_find s w"
    unfolding tlb_find_def m
    by (rule option.map_cong0) (auto simp: tlb_lookup_def split: option.splits)
  show "tlb_inv (snd (tlb_lookup v t s)) = tlb_inv s"
    by (simp add: tlb_inv_def tlb_lookup_matches)
qed

lemma tlb_flush_entry_matches:
  "i < 16 \<Longrightarrow> tlb_matches (tlb_flush_entry v s) w i \<longleftrightarrow> w \<noteq> v \<and> tlb_matches s w i"
  by (auto simp: tlb_flush_entry_def tlb_matches_def)

lemma tlb_flush_entry_facts:
  shows "tlb_find (tlb_flush_entry v s) w = (if w = v then None else tlb_find s w)"
    and "tlb_inv s \<Longrightarrow> tlb_inv (tlb_flush_entry v s)"
proof -
  show "tlb_find (tlb_flush_entry v s) w = (if w = v then None else tlb_find s w)"
  proof (cases "w = v")
    case True
    then show ?thesis by (simp add: tlb_find_None_iff tlb_flush_entry_matches)
  next
    case False
    then have "first_idx (tlb_matches (tlb_flush_entry v s) w) 0 16 = first_idx (tlb_matches s w) 0 16"
      by (intro first_idx_cong) (simp add: tlb_flush_entry_matches)
    moreover have "g_tlb (tlb_flush_entry v s) i = g_tlb s i" if "tlb_matches s w i" for i
      using that False by (auto simp: tlb_flush_entry_def tlb_matches_def)
    ultimately show ?thesis using False
      by (cases "first_idx (tlb_matches s w) 0 16") (auto simp: tlb_find_def dest!: first_idx_SomeD(3))
  qed
  show "tlb_inv s \<Longrightarrow> tlb_inv (tlb_flush_entry v s)"
    by (auto simp: tlb_inv_def tlb_flush_entry_matches)
qed

lemma tlb_flush_matches: "i < 16 \<Longrightarrow> \<not> tlb_matches (tlb_flush s) w i"
  by (simp add: tlb_flush_def tlb_matches_def zero_tlb_entry_def)

lemma tlb_flush_facts: "tlb_find (tlb_flush s) w = None" "tlb_inv (tlb_flush s)"
  by (auto simp: tlb_find_None_iff tlb_inv_def tlb_flush_matches)

interpretation tlb: translation_cache tlb_find tlb_inv tlb_lookup tlb_insert tlb_flush_entry tlb_flush
  by unfold_locales (auto simp: tlb_insert_facts tlb_lookup_facts tlb_flush_entry_facts tlb_flush_facts)

text \<open>The entry an insertion displaces, if it displaces a valid one, is a least recently used one.\<close>

lemma tlb_displaced_is_lru:
  assumes "tlb_inv s" "tlb_find s v = None" "tlb_matches s w (tlb_target s v)"
  shows "\<forall>i < 16. te_valid (g_tlb s i) \<and> te_last_used_tick (g_tlb s (tlb_target s v)) \<le> te_last_used_tick (g_tlb s i)"
proof -
  have none: "first_idx (tlb_matches s v) 0 16 = None"
    using assms(2) by (simp add: tlb_find_def)
  have full: "first_idx (\<lambda>i. \<not> te_valid (g_tlb s i)) 0 16 = None"
  proof (rule ccontr)
    assume "first_idx (\<lambda>i. \<not> te_valid (g_tlb s i)) 0 16 \<noteq> None"
    then obtain k where k: "first_idx (\<lambda>i. \<not> te_valid (g_tlb s i)) 0 16 = Some k" by blast
    then have "tlb_target s v = k" using none by (simp add: tlb_target_def)
    then show False using first_idx_SomeD(3) [OF k] assms(3) by (simp add: tlb_matches_def)
  qed
  then have "tlb_target s v = tlb_lru_index s" using none by (simp add: tlb_target_def)
  moreover have "te_last_used_tick (g_tlb s (tlb_lru_index s)) \<le> te_last_used_tick (g_tlb s i)" if "i < 16" for i
    using argmin_idx_le [of "\<lambda>i. te_last_used_tick (g_tlb s i)" 0 1 16] that
    by (cases "i = 0") (auto simp: tlb_lru_index_def)
  ultimately show ?thesis using full by (auto simp: first_idx_None_iff)
qed


section \<open>Properties\<close>

text \<open>C33. After a translation is inserted, a lookup of its page returns it; a lookup of any other
  page returns what it returned before, or misses; and a valid translation is displaced only
  when all 16 entries are valid and it is one with the least last-used tick.\<close>

theorem tlb_lookup_after_insert:
  assumes "tlb_inv s"
  shows "fst (tlb_lookup w t' (tlb_insert v p d q t s)) =
      (if w = v then Some (p, d, q)
       else if tlb_matches s w (tlb_target s v) then None else fst (tlb_lookup w t' s)) \<and>
    (w \<noteq> v \<longrightarrow> tlb_matches s w (tlb_target s v) \<longrightarrow>
       (\<forall>i < 16. te_valid (g_tlb s i) \<and>
          te_last_used_tick (g_tlb s (tlb_target s v)) \<le> te_last_used_tick (g_tlb s i)))"
proof (intro conjI impI)
  show "fst (tlb_lookup w t' (tlb_insert v p d q t s)) =
      (if w = v then Some (p, d, q)
       else if tlb_matches s w (tlb_target s v) then None else fst (tlb_lookup w t' s))"
    using tlb_insert_facts(2,3) [OF assms] by (simp add: tlb_lookup_facts(1))
  assume w: "w \<noteq> v" and m: "tlb_matches s w (tlb_target s v)"
  have "tlb_find s v = None"
  proof (rule ccontr)
    assume "tlb_find s v \<noteq> None"
    then obtain i where "i < 16" "tlb_matches s v i" by (auto simp: tlb_find_None_iff)
    moreover from this have "i = tlb_target s v" using assms by (intro tlb_target_own)
    ultimately show False using w m by (simp add: tlb_matches_def)
  qed
  then show "\<forall>i < 16. te_valid (g_tlb s i) \<and>
      te_last_used_tick (g_tlb s (tlb_target s v)) \<le> te_last_used_tick (g_tlb s i)"
    using assms m by (intro tlb_displaced_is_lru)
qed

theorem tlb_lookup_after_insert_witness:
  "fst (tlb_lookup 9 2 (tlb_insert 9 4 True 3 1 (tlb_init zero_tlb_state))) = Some (4, True, 3)"
  using tlb_lookup_after_insert [of "tlb_init zero_tlb_state" 9 2 9 4 True 3 1] tlb_flush_facts(2)
  by (simp add: tlb_init_def tlb_reset_stats_def tlb_inv_def tlb_matches_def)

end
