(* ===== verification/Page_Table.thy ===== *)
theory Page_Table
  imports VM_Types
begin

text \<open>
  \<^verbatim>\<open>page_table.c\<close>. The 256 entries are indexed by an 8-bit page number, so the array is a
  total function on \<open>u8\<close> and no index is out of range. A \<^verbatim>\<open>NULL\<close> page table is handled
  by the callers' model (\<^verbatim>\<open>pager.c\<close>, \<^verbatim>\<open>vm.c\<close>), where the pointer is an option.
\<close>

type_synonym page_table = "u8 \<Rightarrow> pte"

definition zero_pte :: pte where
  "zero_pte = \<lparr>frame_num = 0, permissions = 0, present = False, dirty = False, accessed = False,
     referenced = False, last_accessed_tick = 0, in_swap = False, swap_slot = 0\<rparr>"

definition page_table_get_segment_name :: "u8 \<Rightarrow> string" where
  "page_table_get_segment_name vpn =
     (let v = unat vpn;
          heap_start_vpn = VM_SEG_TEXT_PAGES + VM_SEG_RODATA_PAGES + VM_SEG_DATA_PAGES + VM_SEG_BSS_PAGES
      in if v < VM_SEG_TEXT_PAGES then ''TEXT''
         else if v < VM_SEG_TEXT_PAGES + VM_SEG_RODATA_PAGES then ''RODATA''
         else if v < VM_SEG_TEXT_PAGES + VM_SEG_RODATA_PAGES + VM_SEG_DATA_PAGES then ''DATA''
         else if v < VM_SEG_TEXT_PAGES + VM_SEG_RODATA_PAGES + VM_SEG_DATA_PAGES + VM_SEG_BSS_PAGES then ''BSS''
         else if heap_start_vpn \<le> v \<and> v < heap_start_vpn + VM_SEG_HEAP_MAX_PAGES then ''HEAP''
         else if VM_NUM_PAGES - VM_SEG_STACK_MAX_PAGES \<le> v then ''STACK''
         else ''UNKNOWN'')"

definition page_table_get_segment_default_permissions :: "u8 \<Rightarrow> u8" where
  "page_table_get_segment_default_permissions vpn =
     (let seg = page_table_get_segment_name vpn
      in if seg = ''TEXT'' then VM_PROT_READ OR VM_PROT_EXEC
         else if seg = ''RODATA'' then VM_PROT_READ
         else if seg = ''DATA'' \<or> seg = ''BSS'' \<or> seg = ''HEAP'' \<or> seg = ''STACK''
         then VM_PROT_READ OR VM_PROT_WRITE
         else 0)"

text \<open>The \<^verbatim>\<open>memset\<close> clears every entry, the loop then sets three fields of every entry once.\<close>

definition page_table_init :: "page_table \<Rightarrow> page_table" where
  "page_table_init pt =
     (\<lambda>vpn. zero_pte\<lparr>permissions := page_table_get_segment_default_permissions vpn,
                      present := False, in_swap := False\<rparr>)"

definition page_table_map :: "page_table \<Rightarrow> u8 \<Rightarrow> u8 \<Rightarrow> u8 \<Rightarrow> page_table" where
  "page_table_map pt vpn pfn perms =
     pt(vpn := (pt vpn)\<lparr>frame_num := pfn, permissions := perms, present := True, in_swap := False\<rparr>)"

definition page_table_unmap :: "page_table \<Rightarrow> u8 \<Rightarrow> page_table" where
  "page_table_unmap pt vpn = pt(vpn := (pt vpn)\<lparr>present := False, frame_num := 0\<rparr>)"

definition page_table_lookup :: "page_table \<Rightarrow> u8 \<Rightarrow> pte" where
  "page_table_lookup pt vpn = pt vpn"

definition page_table_lookup_const :: "page_table \<Rightarrow> u8 \<Rightarrow> pte" where
  "page_table_lookup_const pt vpn = pt vpn"

definition page_table_validate_permissions :: "page_table \<Rightarrow> u8 \<Rightarrow> u8 \<Rightarrow> bool" where
  "page_table_validate_permissions pt vpn access_type \<longleftrightarrow>
     permissions (pt vpn) AND access_type = access_type"


section \<open>Segments\<close>

lemma segment_known: "page_table_get_segment_name vpn \<noteq> ''UNKNOWN''"
  by (simp add: page_table_get_segment_name_def Let_def)

lemma segment_cases:
  "page_table_get_segment_name vpn =
     (if unat vpn < 16 then ''TEXT'' else if unat vpn < 32 then ''RODATA''
      else if unat vpn < 48 then ''DATA'' else if unat vpn < 64 then ''BSS''
      else if unat vpn < 192 then ''HEAP'' else ''STACK'')"
  by (simp add: page_table_get_segment_name_def Let_def)

lemma default_permissions_cases:
  "page_table_get_segment_default_permissions vpn =
     (if unat vpn < 16 then 5 else if unat vpn < 32 then 1 else 3)"
  by (simp add: page_table_get_segment_default_permissions_def segment_cases Let_def vm_prots)

text \<open>Which accesses a freshly initialised page admits.\<close>

lemma init_validates:
  "page_table_validate_permissions (page_table_init pt) vpn VM_PROT_READ"
  "page_table_validate_permissions (page_table_init pt) vpn VM_PROT_WRITE \<longleftrightarrow> 32 \<le> unat vpn"
  "page_table_validate_permissions (page_table_init pt) vpn VM_PROT_EXEC \<longleftrightarrow> unat vpn < 16"
  by (simp_all add: page_table_validate_permissions_def page_table_init_def default_permissions_cases vm_prots)

lemma page_table_map_lookup:
  "page_table_lookup (page_table_map pt vpn pfn perms) v =
     (if v = vpn then (pt vpn)\<lparr>frame_num := pfn, permissions := perms, present := True, in_swap := False\<rparr>
      else page_table_lookup pt v)"
  by (simp add: page_table_lookup_def page_table_map_def)

lemma page_table_unmap_lookup:
  "page_table_lookup (page_table_unmap pt vpn) v =
     (if v = vpn then (pt vpn)\<lparr>present := False, frame_num := 0\<rparr> else page_table_lookup pt v)"
  by (simp add: page_table_lookup_def page_table_unmap_def)


end
