(* ===== verification/Replacement.thy ===== *)
theory Replacement
  imports Page_Table
begin

text \<open>
  The page replacement policies \<^verbatim>\<open>replacement_fifo.c\<close>, \<^verbatim>\<open>replacement_lru.c\<close> and
  \<^verbatim>\<open>replacement_clock.c\<close>, and the contract of the operation table
  \<^verbatim>\<open>replacement_ops_t\<close> (\<^verbatim>\<open>replacement.h\<close>) as a locale that all three satisfy.

  The tracked numbers are bytes; \<open>evict\<close> returns \<open>None\<close> for \<^verbatim>\<open>-1\<close> and takes and returns
  the page table, because the clock policy clears \<open>referenced\<close> bits. The null-state checks
  are made by the pager's model, where the state is an option. The \<^verbatim>\<open>int\<close> counters never
  go below zero and are natural numbers.
\<close>

section \<open>FIFO\<close>

definition MAX_QUEUE_SIZE :: nat where "MAX_QUEUE_SIZE = 256"

record fifo_state =
  fifo_queue :: "u8 carray"
  fifo_size :: nat

definition fifo_init :: fifo_state where
  "fifo_init = \<lparr>fifo_queue = (\<lambda>_. 0), fifo_size = 0\<rparr>"

definition fifo_update :: "u8 \<Rightarrow> u64 \<Rightarrow> bool \<Rightarrow> fifo_state \<Rightarrow> fifo_state" where
  "fifo_update vpn tick write s = s"

definition fifo_insert :: "u8 \<Rightarrow> u64 \<Rightarrow> fifo_state \<Rightarrow> fifo_state" where
  "fifo_insert vpn tick s =
     (if first_idx (\<lambda>i. fifo_queue s i = vpn) 0 (fifo_size s) \<noteq> None then s
      else if fifo_size s < MAX_QUEUE_SIZE
      then s\<lparr>fifo_queue := (fifo_queue s)(fifo_size s := vpn), fifo_size := fifo_size s + 1\<rparr>
      else s)"

definition fifo_remove :: "u8 \<Rightarrow> fifo_state \<Rightarrow> fifo_state" where
  "fifo_remove vpn s =
     (case first_idx (\<lambda>i. fifo_queue s i = vpn) 0 (fifo_size s) of
        Some i \<Rightarrow> s\<lparr>fifo_queue := shift_loop (fifo_queue s) i (fifo_size s), fifo_size := fifo_size s - 1\<rparr>
      | None \<Rightarrow> s)"

definition fifo_evict :: "fifo_state \<Rightarrow> page_table \<Rightarrow> u8 option \<times> fifo_state \<times> page_table" where
  "fifo_evict s pt =
     (if fifo_size s = 0 then (None, s, pt)
      else (Some (fifo_queue s 0),
            s\<lparr>fifo_queue := shift_loop (fifo_queue s) 0 (fifo_size s), fifo_size := fifo_size s - 1\<rparr>,
            pt))"


section \<open>LRU\<close>

definition MAX_LRU_PAGES :: nat where "MAX_LRU_PAGES = 256"

record lru_entry =
  le_vpn :: u8
  le_last_tick :: u32

record lru_state =
  lru_pages :: "lru_entry carray"
  lru_count :: nat

definition lru_init :: lru_state where
  "lru_init = \<lparr>lru_pages = (\<lambda>_. \<lparr>le_vpn = 0, le_last_tick = 0\<rparr>), lru_count = 0\<rparr>"

definition lru_update :: "u8 \<Rightarrow> u64 \<Rightarrow> bool \<Rightarrow> lru_state \<Rightarrow> lru_state" where
  "lru_update vpn tick write s =
     (case first_idx (\<lambda>i. le_vpn (lru_pages s i) = vpn) 0 (lru_count s) of
        Some i \<Rightarrow> s\<lparr>lru_pages := (lru_pages s)(i := (lru_pages s i)\<lparr>le_last_tick := ucast tick\<rparr>)\<rparr>
      | None \<Rightarrow>
          if lru_count s < MAX_LRU_PAGES
          then s\<lparr>lru_pages := (lru_pages s)(lru_count s := \<lparr>le_vpn = vpn, le_last_tick = ucast tick\<rparr>),
                 lru_count := lru_count s + 1\<rparr>
          else s)"

definition lru_insert :: "u8 \<Rightarrow> u64 \<Rightarrow> lru_state \<Rightarrow> lru_state" where
  "lru_insert vpn tick s = lru_update vpn tick False s"

definition lru_remove :: "u8 \<Rightarrow> lru_state \<Rightarrow> lru_state" where
  "lru_remove vpn s =
     (case first_idx (\<lambda>i. le_vpn (lru_pages s i) = vpn) 0 (lru_count s) of
        Some i \<Rightarrow> s\<lparr>lru_pages := shift_loop (lru_pages s) i (lru_count s), lru_count := lru_count s - 1\<rparr>
      | None \<Rightarrow> s)"

definition lru_evict :: "lru_state \<Rightarrow> page_table \<Rightarrow> u8 option \<times> lru_state \<times> page_table" where
  "lru_evict s pt =
     (if lru_count s = 0 then (None, s, pt)
      else let lru_idx = argmin_idx (\<lambda>i. le_last_tick (lru_pages s i)) 0 1 (lru_count s)
           in (Some (le_vpn (lru_pages s lru_idx)),
               s\<lparr>lru_pages := shift_loop (lru_pages s) lru_idx (lru_count s), lru_count := lru_count s - 1\<rparr>,
               pt))"


section \<open>Clock\<close>

record clock_state =
  ck_pages :: "u8 carray"
  ck_count :: nat
  ck_hand :: nat

definition clock_init :: clock_state where
  "clock_init = \<lparr>ck_pages = (\<lambda>_. 0), ck_count = 0, ck_hand = 0\<rparr>"

definition clock_update :: "u8 \<Rightarrow> u64 \<Rightarrow> bool \<Rightarrow> clock_state \<Rightarrow> clock_state" where
  "clock_update vpn tick write s = s"

definition clock_insert :: "u8 \<Rightarrow> u64 \<Rightarrow> clock_state \<Rightarrow> clock_state" where
  "clock_insert vpn tick s =
     (if first_idx (\<lambda>i. ck_pages s i = vpn) 0 (ck_count s) \<noteq> None then s
      else if ck_count s < VM_NUM_FRAMES
      then s\<lparr>ck_pages := (ck_pages s)(ck_count s := vpn), ck_count := ck_count s + 1\<rparr>
      else s)"

definition clock_remove :: "u8 \<Rightarrow> clock_state \<Rightarrow> clock_state" where
  "clock_remove vpn s =
     (case first_idx (\<lambda>i. ck_pages s i = vpn) 0 (ck_count s) of
        Some i \<Rightarrow>
          (let n = ck_count s - 1
           in s\<lparr>ck_pages := shift_loop (ck_pages s) i (ck_count s), ck_count := n,
                ck_hand := (if n \<le> ck_hand s then 0 else ck_hand s)\<rparr>)
      | None \<Rightarrow> s)"

text \<open>
  The branch of the loop that takes a page out, the scan itself (at most twice around the
  clock face), and the fallback after the loop.
\<close>

definition clock_take :: "clock_state \<Rightarrow> clock_state" where
  "clock_take s =
     (let next_hand = (ck_hand s + 1) mod ck_count s; n = ck_count s - 1
      in s\<lparr>ck_pages := shift_loop (ck_pages s) (ck_hand s) (ck_count s), ck_count := n,
           ck_hand := (if 0 < n then (if n \<le> next_hand mod n then 0 else next_hand mod n) else 0)\<rparr>)"

function clock_scan :: "nat \<Rightarrow> clock_state \<Rightarrow> page_table \<Rightarrow> u8 option \<times> clock_state \<times> page_table" where
  "clock_scan attempts s pt =
     (if attempts < 2 * ck_count s then
        (let vpn = ck_pages s (ck_hand s)
         in if referenced (page_table_lookup_const pt vpn)
            then clock_scan (Suc attempts) (s\<lparr>ck_hand := (ck_hand s + 1) mod ck_count s\<rparr>)
                   (pt(vpn := (pt vpn)\<lparr>referenced := False\<rparr>))
            else (Some vpn, clock_take s, pt))
      else
        (Some (ck_pages s 0),
         s\<lparr>ck_pages := shift_loop (ck_pages s) 0 (ck_count s), ck_count := ck_count s - 1, ck_hand := 0\<rparr>,
         pt))"
  by pat_completeness auto
termination
  by (relation "measure (\<lambda>(attempts, s, pt). 2 * ck_count s - attempts)") auto

declare clock_scan.simps [simp del]

definition clock_evict :: "clock_state \<Rightarrow> page_table \<Rightarrow> u8 option \<times> clock_state \<times> page_table" where
  "clock_evict s pt = (if ck_count s = 0 then (None, s, pt) else clock_scan 0 s pt)"


section \<open>The contract of a replacement policy\<close>

text \<open>Two page tables that differ in \<open>referenced\<close> bits only.\<close>

definition same_mapping :: "page_table \<Rightarrow> page_table \<Rightarrow> bool" where
  "same_mapping pt pt' \<longleftrightarrow> (\<forall>v. (pt' v)\<lparr>referenced := False\<rparr> = (pt v)\<lparr>referenced := False\<rparr>)"

lemma same_mapping_refl [simp]: "same_mapping pt pt"
  by (simp add: same_mapping_def)

lemma same_mapping_trans: "same_mapping a b \<Longrightarrow> same_mapping b c \<Longrightarrow> same_mapping a c"
  by (simp add: same_mapping_def)

lemma same_mapping_clear: "same_mapping pt (pt(v := (pt v)\<lparr>referenced := False\<rparr>))"
  by (simp add: same_mapping_def)

text \<open>The victims of up to \<open>n\<close> evictions in a row.\<close>

primrec evict_all ::
  "('s \<Rightarrow> page_table \<Rightarrow> u8 option \<times> 's \<times> page_table) \<Rightarrow> nat \<Rightarrow> 's \<Rightarrow> page_table \<Rightarrow> u8 list" where
  "evict_all evict 0 s pt = []"
| "evict_all evict (Suc n) s pt =
     (case evict s pt of (None, s', pt') \<Rightarrow> [] | (Some v, s', pt') \<Rightarrow> v # evict_all evict n s' pt')"

locale replacement_policy =
  fixes cap :: nat
    and tracked :: "'s \<Rightarrow> u8 list"
    and sound :: "'s \<Rightarrow> bool"
    and init :: 's
    and update :: "u8 \<Rightarrow> u64 \<Rightarrow> bool \<Rightarrow> 's \<Rightarrow> 's"
    and insert_page :: "u8 \<Rightarrow> u64 \<Rightarrow> 's \<Rightarrow> 's"
    and remove_page :: "u8 \<Rightarrow> 's \<Rightarrow> 's"
    and evict :: "'s \<Rightarrow> page_table \<Rightarrow> u8 option \<times> 's \<times> page_table"
  assumes init_tracked: "tracked init = []"
    and init_sound: "sound init"
    and sound_distinct: "sound s \<Longrightarrow> distinct (tracked s)"
    and sound_bound: "sound s \<Longrightarrow> length (tracked s) \<le> cap"
    and update_tracked: "\<And>v t w. sound s \<Longrightarrow> v \<in> set (tracked s) \<Longrightarrow> tracked (update v t w s) = tracked s"
    and update_sound: "\<And>v t w. sound s \<Longrightarrow> sound (update v t w s)"
    and insert_tracked: "\<And>v t. sound s \<Longrightarrow> tracked (insert_page v t s) =
          (if v \<in> set (tracked s) \<or> cap \<le> length (tracked s) then tracked s else tracked s @ [v])"
    and insert_sound: "\<And>v t. sound s \<Longrightarrow> sound (insert_page v t s)"
    and remove_tracked: "\<And>v. sound s \<Longrightarrow> tracked (remove_page v s) = remove1 v (tracked s)"
    and remove_sound: "\<And>v. sound s \<Longrightarrow> sound (remove_page v s)"
    and evict_empty: "\<And>pt. tracked s = [] \<Longrightarrow> evict s pt = (None, s, pt)"
    and evict_victim: "\<And>pt. sound s \<Longrightarrow> tracked s \<noteq> [] \<Longrightarrow>
          \<exists>v s' pt'. evict s pt = (Some v, s', pt') \<and> v \<in> set (tracked s) \<and>
            tracked s' = remove1 v (tracked s) \<and> sound s' \<and> same_mapping pt pt'"
begin

text \<open>A victim is returned exactly when something is tracked, and is no longer tracked afterwards.\<close>

lemma evict_fails_iff: "sound s \<Longrightarrow> fst (evict s pt) = None \<longleftrightarrow> tracked s = []"
  using evict_empty [of s pt] evict_victim [of s pt] by (cases "tracked s = []") auto

lemma evict_not_tracked:
  assumes "sound s" "evict s pt = (Some v, s', pt')"
  shows "v \<in> set (tracked s)" "v \<notin> set (tracked s')" "set (tracked s') = set (tracked s) - {v}"
    "sound s'" "same_mapping pt pt'"
proof -
  have "tracked s \<noteq> []" using assms evict_empty by fastforce
  then show "v \<in> set (tracked s)" "v \<notin> set (tracked s')" "set (tracked s') = set (tracked s) - {v}"
    "sound s'" "same_mapping pt pt'"
    using evict_victim [OF assms(1), of pt] assms sound_distinct [OF assms(1)] by auto
qed

text \<open>A page inserted into a tracker with room becomes a possible victim.\<close>

lemma insert_then_tracked:
  "sound s \<Longrightarrow> length (tracked s) < cap \<Longrightarrow> v \<in> set (tracked (insert_page v t s))"
  by (simp add: insert_tracked)

text \<open>Repeated eviction empties the tracker and returns every tracked page exactly once.\<close>

lemma mset_evict_all: "sound s \<Longrightarrow> length (tracked s) \<le> n \<Longrightarrow> mset (evict_all evict n s pt) = mset (tracked s)"
proof (induction n arbitrary: s pt)
  case 0
  then show ?case by simp
next
  case (Suc n)
  show ?case
  proof (cases "tracked s = []")
    case True
    then show ?thesis by (simp add: evict_empty)
  next
    case False
    then obtain v s' pt' where e: "evict s pt = (Some v, s', pt')" "v \<in> set (tracked s)"
        "tracked s' = remove1 v (tracked s)" "sound s'"
      using evict_victim [OF Suc.prems(1)] by blast
    then have "length (tracked s') \<le> n" using Suc.prems(2) by (simp add: length_remove1)
    then have "mset (evict_all evict n s' pt') = mset (tracked s) - {#v#}" using Suc.IH e by simp
    then show ?thesis using e by simp
  qed
qed

end


section \<open>FIFO satisfies the contract\<close>

definition fifo_tracked :: "fifo_state \<Rightarrow> u8 list" where
  "fifo_tracked s = arr_list (fifo_queue s) (fifo_size s)"

definition fifo_inv :: "fifo_state \<Rightarrow> bool" where
  "fifo_inv s \<longleftrightarrow> distinct (fifo_tracked s) \<and> fifo_size s \<le> 256"

lemma fifo_insert_tracked:
  "fifo_tracked (fifo_insert v t s) =
     (if v \<in> set (fifo_tracked s) \<or> 256 \<le> length (fifo_tracked s) then fifo_tracked s else fifo_tracked s @ [v])"
  using first_idx_arr_list [of "fifo_queue s" v "fifo_size s"]
  by (auto simp: fifo_insert_def fifo_tracked_def MAX_QUEUE_SIZE_def arr_list_push)

lemma fifo_remove_tracked: "fifo_tracked (fifo_remove v s) = remove1 v (fifo_tracked s)"
  using first_idx_arr_list [of "fifo_queue s" v "fifo_size s"]
  by (auto simp: fifo_remove_def fifo_tracked_def shift_loop_eq_memmove remove1_idem arr_list_remove1 [simplified]
      split: option.splits)

lemma fifo_evict_eq:
  assumes "fifo_tracked s \<noteq> []"
  shows "\<exists>s'. fifo_evict s pt = (Some (hd (fifo_tracked s)), s', pt) \<and> fifo_tracked s' = tl (fifo_tracked s) \<and>
    fifo_size s' = fifo_size s - 1"
  using assms arr_list_remove_first [of "fifo_size s" "fifo_queue s"]
  by (simp add: fifo_evict_def fifo_tracked_def shift_loop_eq_memmove arr_list_first)

lemma fifo_inv_length: "fifo_inv s \<longleftrightarrow> distinct (fifo_tracked s) \<and> length (fifo_tracked s) \<le> 256"
  by (simp add: fifo_inv_def fifo_tracked_def)

interpretation fifo: replacement_policy 256 fifo_tracked fifo_inv fifo_init fifo_update
  fifo_insert fifo_remove fifo_evict
proof unfold_locales
  fix s pt assume "fifo_inv s" and ne: "fifo_tracked s \<noteq> []"
  moreover obtain x xs where "fifo_tracked s = x # xs" using ne by (cases "fifo_tracked s") auto
  ultimately show "\<exists>v s' pt'. fifo_evict s pt = (Some v, s', pt') \<and> v \<in> set (fifo_tracked s) \<and>
      fifo_tracked s' = remove1 v (fifo_tracked s) \<and> fifo_inv s' \<and> same_mapping pt pt'"
    using fifo_evict_eq [OF ne, of pt] by (auto simp: fifo_inv_length)
next
  show "fifo_tracked fifo_init = []" "fifo_inv fifo_init"
    by (simp_all add: fifo_inv_def fifo_tracked_def fifo_init_def)
next
  fix s pt assume "fifo_tracked s = []"
  then show "fifo_evict s pt = (None, s, pt)" by (simp add: fifo_tracked_def fifo_evict_def)
qed (auto simp: fifo_inv_length fifo_update_def fifo_insert_tracked fifo_remove_tracked length_remove1)


section \<open>LRU satisfies the contract\<close>

definition lru_tracked :: "lru_state \<Rightarrow> u8 list" where
  "lru_tracked s = map le_vpn (arr_list (lru_pages s) (lru_count s))"

definition lru_inv :: "lru_state \<Rightarrow> bool" where
  "lru_inv s \<longleftrightarrow> distinct (lru_tracked s) \<and> lru_count s \<le> 256"

lemma lru_inv_length: "lru_inv s \<longleftrightarrow> distinct (lru_tracked s) \<and> length (lru_tracked s) \<le> 256"
  by (simp add: lru_inv_def lru_tracked_def)

lemma lru_tracked_arr: "lru_tracked s = arr_list (\<lambda>i. le_vpn (lru_pages s i)) (lru_count s)"
  by (simp add: lru_tracked_def arr_list_def)

lemma lru_update_tracked:
  "lru_tracked (lru_update v t w s) =
     (if v \<in> set (lru_tracked s) \<or> 256 \<le> length (lru_tracked s) then lru_tracked s else lru_tracked s @ [v])"
proof (cases "first_idx (\<lambda>i. le_vpn (lru_pages s i) = v) 0 (lru_count s)")
  case None
  then have "v \<notin> set (lru_tracked s)" by (simp add: lru_tracked_arr first_idx_arr_list)
  with None show ?thesis
    by (simp add: lru_update_def MAX_LRU_PAGES_def lru_tracked_def arr_list_push)
next
  case (Some i)
  then have "v \<in> set (lru_tracked s)"
    using first_idx_arr_list [of "\<lambda>i. le_vpn (lru_pages s i)" v "lru_count s"] by (simp add: lru_tracked_arr)
  moreover have "lru_tracked (lru_update v t w s) = lru_tracked s"
    using Some by (auto simp: lru_update_def lru_tracked_arr arr_list_def)
  ultimately show ?thesis by simp
qed

lemma lru_shift_tracked:
  "i < lru_count s \<Longrightarrow>
     map le_vpn (arr_list (shift_loop (lru_pages s) i (lru_count s)) (lru_count s - 1)) =
       take i (lru_tracked s) @ drop (Suc i) (lru_tracked s)"
  using arr_list_remove [of i "lru_count s" "lru_pages s"]
  by (simp add: lru_tracked_def shift_loop_eq_memmove take_map drop_map)

lemma lru_remove_tracked: "lru_tracked (lru_remove v s) = remove1 v (lru_tracked s)"
proof (cases "first_idx (\<lambda>i. le_vpn (lru_pages s i) = v) 0 (lru_count s)")
  case None
  then show ?thesis
    using first_idx_arr_list [of "\<lambda>i. le_vpn (lru_pages s i)" v "lru_count s"]
    by (simp add: lru_remove_def lru_tracked_arr remove1_idem)
next
  case (Some i)
  note D = first_idx_SomeD [OF Some]
  have "take i (lru_tracked s) @ drop (Suc i) (lru_tracked s) = remove1 v (lru_tracked s)"
    using D by (intro take_drop_remove1) (auto simp: lru_tracked_arr)
  then show ?thesis using Some lru_shift_tracked [OF D(2)]
    by (simp add: lru_remove_def lru_tracked_def)
qed

text \<open>The victim is an entry whose recorded tick is least.\<close>

lemma lru_evict_eq:
  assumes "lru_tracked s \<noteq> []"
  shows "\<exists>i s'. i < lru_count s \<and> lru_evict s pt = (Some (lru_tracked s ! i), s', pt) \<and>
    lru_tracked s' = take i (lru_tracked s) @ drop (Suc i) (lru_tracked s) \<and> lru_count s' = lru_count s - 1 \<and>
    (\<forall>j < lru_count s. le_last_tick (lru_pages s i) \<le> le_last_tick (lru_pages s j))"
proof -
  let ?i = "argmin_idx (\<lambda>i. le_last_tick (lru_pages s i)) 0 1 (lru_count s)"
  have n: "0 < lru_count s" using assms by (simp add: lru_tracked_def)
  have i: "?i < lru_count s" using n by (rule argmin_idx_lt)
  have "le_last_tick (lru_pages s ?i) \<le> le_last_tick (lru_pages s j)" if "j < lru_count s" for j
    using argmin_idx_le [of "\<lambda>i. le_last_tick (lru_pages s i)" 0 1 "lru_count s"] that by (cases "j = 0") auto
  then show ?thesis using n i lru_shift_tracked [OF i]
    by (intro exI [of _ ?i]) (simp add: lru_evict_def Let_def lru_tracked_def)
qed

interpretation lru: replacement_policy 256 lru_tracked lru_inv lru_init lru_update
  lru_insert lru_remove lru_evict
proof unfold_locales
  fix s pt assume inv: "lru_inv s" and ne: "lru_tracked s \<noteq> []"
  obtain i s' where "i < lru_count s" "lru_evict s pt = (Some (lru_tracked s ! i), s', pt)"
    "lru_tracked s' = take i (lru_tracked s) @ drop (Suc i) (lru_tracked s)" "lru_count s' = lru_count s - 1"
    using lru_evict_eq [OF ne, of pt] by blast
  moreover from this have "lru_tracked s' = remove1 (lru_tracked s ! i) (lru_tracked s)"
    using inv by (simp add: distinct_take_drop_remove1 lru_inv_def lru_tracked_def)
  ultimately show "\<exists>v s' pt'. lru_evict s pt = (Some v, s', pt') \<and> v \<in> set (lru_tracked s) \<and>
      lru_tracked s' = remove1 v (lru_tracked s) \<and> lru_inv s' \<and> same_mapping pt pt'"
    using inv by (auto simp: lru_inv_def lru_tracked_def set_arr_list)
next
  show "lru_tracked lru_init = []" "lru_inv lru_init"
    by (simp_all add: lru_inv_def lru_tracked_def lru_init_def)
next
  fix s pt assume "lru_tracked s = []"
  then show "lru_evict s pt = (None, s, pt)" by (simp add: lru_tracked_def lru_evict_def)
qed (auto simp: lru_inv_length lru_insert_def lru_update_tracked lru_remove_tracked length_remove1)


section \<open>Clock satisfies the contract\<close>

definition clock_tracked :: "clock_state \<Rightarrow> u8 list" where
  "clock_tracked s = arr_list (ck_pages s) (ck_count s)"

definition clock_inv :: "clock_state \<Rightarrow> bool" where
  "clock_inv s \<longleftrightarrow> distinct (clock_tracked s) \<and> ck_count s \<le> 64 \<and>
     (if ck_count s = 0 then ck_hand s = 0 else ck_hand s < ck_count s)"

lemma clock_inv_length:
  "clock_inv s \<Longrightarrow> distinct (clock_tracked s) \<and> length (clock_tracked s) \<le> 64"
  by (simp add: clock_inv_def clock_tracked_def)

lemma clock_insert_tracked:
  "clock_tracked (clock_insert v t s) =
     (if v \<in> set (clock_tracked s) \<or> 64 \<le> length (clock_tracked s) then clock_tracked s else clock_tracked s @ [v])"
  using first_idx_arr_list [of "ck_pages s" v "ck_count s"]
  by (auto simp: clock_insert_def clock_tracked_def arr_list_push)

lemma clock_inv_insert: "clock_inv s \<Longrightarrow> clock_inv (clock_insert v t s)"
  using clock_insert_tracked [of v t s] first_idx_arr_list [of "ck_pages s" v "ck_count s"]
  by (auto simp: clock_inv_def clock_insert_def clock_tracked_def split: if_splits)

lemma clock_remove_tracked: "clock_tracked (clock_remove v s) = remove1 v (clock_tracked s)"
  using first_idx_arr_list [of "ck_pages s" v "ck_count s"]
  by (auto simp: clock_remove_def clock_tracked_def shift_loop_eq_memmove remove1_idem Let_def
      arr_list_remove1 [simplified] split: option.splits)

lemma clock_inv_remove:
  assumes "clock_inv s"
  shows "clock_inv (clock_remove v s)"
proof -
  have "distinct (clock_tracked (clock_remove v s))"
    using assms by (simp add: clock_remove_tracked clock_inv_def)
  then show ?thesis using assms
    by (auto simp: clock_inv_def clock_remove_def Let_def split: option.splits if_splits)
qed

lemma clock_shift_tracked:
  assumes "distinct (clock_tracked s)" "i < ck_count s"
  shows "arr_list (shift_loop (ck_pages s) i (ck_count s)) (ck_count s - 1) = remove1 (ck_pages s i) (clock_tracked s)"
  using arr_list_remove [OF assms(2), of "ck_pages s"] distinct_take_drop_remove1 [OF assms(1), of i] assms(2)
  by (simp add: clock_tracked_def shift_loop_eq_memmove)

lemma clock_take_tracked:
  assumes "clock_inv s" "0 < ck_count s"
  shows "clock_tracked (clock_take s) = remove1 (ck_pages s (ck_hand s)) (clock_tracked s)" "clock_inv (clock_take s)"
proof -
  have h: "ck_hand s < ck_count s" "distinct (clock_tracked s)" using assms by (simp_all add: clock_inv_def)
  show t: "clock_tracked (clock_take s) = remove1 (ck_pages s (ck_hand s)) (clock_tracked s)"
    using clock_shift_tracked [OF h(2,1)] by (simp add: clock_tracked_def clock_take_def Let_def)
  have "distinct (clock_tracked (clock_take s))" using t h by simp
  then show "clock_inv (clock_take s)" using assms
    by (auto simp: clock_inv_def clock_take_def Let_def not_le)
qed

lemma clock_scan_victim:
  "clock_inv s \<Longrightarrow> 0 < ck_count s \<Longrightarrow>
     \<exists>v s' pt'. clock_scan attempts s pt = (Some v, s', pt') \<and> v \<in> set (clock_tracked s) \<and>
       clock_tracked s' = remove1 v (clock_tracked s) \<and> clock_inv s' \<and> same_mapping pt pt'"
proof (induction attempts s pt rule: clock_scan.induct)
  case (1 attempts s pt)
  let ?v = "ck_pages s (ck_hand s)"
  let ?s = "s\<lparr>ck_hand := (ck_hand s + 1) mod ck_count s\<rparr>"
  let ?pt = "pt(?v := (pt ?v)\<lparr>referenced := False\<rparr>)"
  have h: "ck_hand s < ck_count s" "distinct (clock_tracked s)" using 1 by (simp_all add: clock_inv_def)
  consider (chance) "attempts < 2 * ck_count s" "referenced (page_table_lookup_const pt ?v)"
    | (take) "attempts < 2 * ck_count s" "\<not> referenced (page_table_lookup_const pt ?v)"
    | (fallback) "\<not> attempts < 2 * ck_count s" by blast
  then show ?case
  proof cases
    case chance
    have "clock_inv ?s" "clock_tracked ?s = clock_tracked s"
      using 1 by (simp_all add: clock_inv_def clock_tracked_def)
    then have "\<exists>v s' pt'. clock_scan (Suc attempts) ?s ?pt = (Some v, s', pt') \<and> v \<in> set (clock_tracked s) \<and>
       clock_tracked s' = remove1 v (clock_tracked s) \<and> clock_inv s' \<and> same_mapping ?pt pt'"
      using "1.IH" [OF chance(1) refl chance(2)] 1 by (simp add: fun_upd_def)
    then show ?thesis using chance same_mapping_trans [OF same_mapping_clear [of pt ?v]]
      by (subst clock_scan.simps) (auto simp: Let_def)
  next
    case take
    then show ?thesis using clock_take_tracked [OF 1(2,3)] h
      by (subst clock_scan.simps) (auto simp: Let_def clock_tracked_def in_set_arr_list)
  next
    case fallback
    let ?f = "s\<lparr>ck_pages := shift_loop (ck_pages s) 0 (ck_count s), ck_count := ck_count s - 1, ck_hand := 0\<rparr>"
    have t: "clock_tracked ?f = remove1 (ck_pages s 0) (clock_tracked s)"
      using clock_shift_tracked [OF h(2), of 0] 1(3) by (simp add: clock_tracked_def)
    moreover have "clock_inv ?f" using t h 1(2) by (auto simp: clock_inv_def)
    moreover have "ck_pages s 0 \<in> set (clock_tracked s)" using 1(3) by (auto simp: clock_tracked_def in_set_arr_list)
    ultimately show ?thesis using fallback by (subst clock_scan.simps) simp
  qed
qed

interpretation clock: replacement_policy 64 clock_tracked clock_inv clock_init clock_update
  clock_insert clock_remove clock_evict
proof unfold_locales
  fix s pt assume "clock_inv s" "clock_tracked s \<noteq> []"
  then show "\<exists>v s' pt'. clock_evict s pt = (Some v, s', pt') \<and> v \<in> set (clock_tracked s) \<and>
      clock_tracked s' = remove1 v (clock_tracked s) \<and> clock_inv s' \<and> same_mapping pt pt'"
    using clock_scan_victim [of s 0 pt] by (auto simp: clock_evict_def clock_tracked_def)
next
  show "clock_tracked clock_init = []" "clock_inv clock_init"
    by (simp_all add: clock_inv_def clock_tracked_def clock_init_def)
next
  fix s pt assume "clock_tracked s = []"
  then show "clock_evict s pt = (None, s, pt)" by (simp add: clock_tracked_def clock_evict_def)
qed (auto simp: clock_update_def clock_insert_tracked clock_remove_tracked clock_inv_insert clock_inv_remove
    dest: clock_inv_length)


section \<open>Which page each policy picks\<close>

text \<open>The clock face read from the hand onwards, and the page a second-chance scan picks on it.\<close>

definition clock_face :: "clock_state \<Rightarrow> u8 list" where
  "clock_face s = ring_list (ck_count s) (ck_pages s) (ck_hand s) (ck_count s)"

definition second_chance :: "(u8 \<Rightarrow> bool) \<Rightarrow> u8 list \<Rightarrow> u8" where
  "second_chance refd face = (case find (\<lambda>v. \<not> refd v) face of Some v \<Rightarrow> v | None \<Rightarrow> hd face)"

definition clear_refs :: "page_table \<Rightarrow> u8 set \<Rightarrow> page_table" where
  "clear_refs pt V = (\<lambda>v. if v \<in> V then (pt v)\<lparr>referenced := False\<rparr> else pt v)"

lemma nth_clock_face: "k < ck_count s \<Longrightarrow> clock_face s ! k = ck_pages s ((ck_hand s + k) mod ck_count s)"
  by (simp add: clock_face_def ring_list_def)

lemma length_clock_face [simp]: "length (clock_face s) = ck_count s"
  by (simp add: clock_face_def)

lemma clock_face_nth_eq:
  assumes "clock_inv s" "j < ck_count s" "k < ck_count s" "clock_face s ! j = clock_face s ! k"
  shows "j = k"
proof -
  have "inj_on (ck_pages s) {..<ck_count s}"
    using assms(1) by (simp add: clock_inv_def clock_tracked_def distinct_arr_list)
  moreover have "0 < ck_count s" using assms(2) by simp
  ultimately have "(ck_hand s + j) mod ck_count s = (ck_hand s + k) mod ck_count s"
    using assms(4) by (simp add: nth_clock_face assms(2,3) inj_on_eq_iff)
  then show ?thesis using assms(2,3) by (rule ring_index_inj)
qed

text \<open>\<open>n\<close> referenced pages in a row are passed over and lose their bit.\<close>

lemma clock_scan_passes:
  assumes "clock_inv s" "n \<le> ck_count s" "n \<le> 2 * ck_count s"
    and "\<And>k. k < n \<Longrightarrow> referenced (pt (clock_face s ! k))"
  shows "clock_scan 0 s pt =
    clock_scan n (s\<lparr>ck_hand := (ck_hand s + n) mod ck_count s\<rparr>) (clear_refs pt (set (take n (clock_face s))))"
  using assms(2-)
proof (induction n)
  case 0
  have "(ck_hand s + 0) mod ck_count s = ck_hand s"
    using assms(1) by (simp add: clock_inv_def split: if_splits)
  then show ?case by (simp add: clear_refs_def)
next
  case (Suc n)
  let ?s = "s\<lparr>ck_hand := (ck_hand s + n) mod ck_count s\<rparr>"
  let ?pt = "clear_refs pt (set (take n (clock_face s)))"
  let ?v = "clock_face s ! n"
  have n: "n < ck_count s" using Suc.prems(1) by simp
  have "clock_face s ! i \<noteq> ?v" if "i < n" for i
    using clock_face_nth_eq [OF assms(1), of i n] that n by auto
  then have "?v \<notin> set (take n (clock_face s))" by (auto simp: in_set_conv_nth)
  then have r: "referenced (?pt ?v)" using Suc.prems(3) [of n] by (simp add: clear_refs_def)
  have "clock_scan 0 s pt = clock_scan n ?s ?pt" using Suc by simp
  also have "\<dots> = clock_scan (Suc n) (?s\<lparr>ck_hand := (ck_hand ?s + 1) mod ck_count s\<rparr>)
      (?pt(?v := (?pt ?v)\<lparr>referenced := False\<rparr>))"
    using n r by (subst clock_scan.simps) (simp add: Let_def page_table_lookup_const_def nth_clock_face)
  also have "?s\<lparr>ck_hand := (ck_hand ?s + 1) mod ck_count s\<rparr> = s\<lparr>ck_hand := (ck_hand s + Suc n) mod ck_count s\<rparr>"
    by (simp add: mod_simps)
  also have "?pt(?v := (?pt ?v)\<lparr>referenced := False\<rparr>) = clear_refs pt (set (take (Suc n) (clock_face s)))"
    using n by (auto simp: clear_refs_def take_Suc_conv_app_nth fun_eq_iff)
  finally show ?case .
qed

text \<open>The scan stops at an unreferenced page, always within its bound: the fallback is dead code.\<close>

lemma clock_scan_stops:
  assumes "clock_inv s" "n \<le> ck_count s" "0 < ck_count s"
    and "\<And>k. k < n \<Longrightarrow> referenced (pt (clock_face s ! k))"
    and "v = clock_face s ! (n mod ck_count s)"
    and "n < ck_count s \<Longrightarrow> \<not> referenced (pt v)"
  shows "clock_scan 0 s pt =
    (Some v, clock_take (s\<lparr>ck_hand := (ck_hand s + n) mod ck_count s\<rparr>), clear_refs pt (set (take n (clock_face s))))"
proof -
  let ?s = "s\<lparr>ck_hand := (ck_hand s + n) mod ck_count s\<rparr>"
  let ?pt = "clear_refs pt (set (take n (clock_face s)))"
  have v: "v = ck_pages ?s (ck_hand ?s)"
    using assms(3,5) by (simp add: nth_clock_face mod_simps)
  have "\<not> referenced (?pt v)"
  proof (cases "n < ck_count s")
    case True
    then show ?thesis using assms(6) by (simp add: clear_refs_def)
  next
    case False
    then have "n = ck_count s" using assms(2) by simp
    then have "v \<in> set (take n (clock_face s))" using assms(3,5) by (simp add: in_set_conv_nth) blast
    then show ?thesis by (simp add: clear_refs_def)
  qed
  then have "clock_scan n ?s ?pt = (Some v, clock_take ?s, ?pt)"
    using assms(2,3) v by (subst clock_scan.simps) (simp add: Let_def page_table_lookup_const_def)
  moreover have "clock_scan 0 s pt = clock_scan n ?s ?pt"
    by (rule clock_scan_passes) (use assms(1,2,4) in auto)
  ultimately show ?thesis by simp
qed

text \<open>C34. The clock policy gives a second chance: the victim is the first page, from the hand
  around the clock face, whose referenced bit is clear, or the page under the hand when every
  bit is set; exactly the pages the hand passed lose their bit. In particular the fallback
  after the scanning loop is never reached.\<close>

theorem clock_evict_second_chance:
  assumes inv: "clock_inv s" and pos: "0 < ck_count s"
  shows "\<exists>s'. clock_evict s pt =
    (Some (second_chance (\<lambda>v. referenced (pt v)) (clock_face s)), s',
     clear_refs pt (set (takeWhile (\<lambda>v. referenced (pt v)) (clock_face s))))"
proof -
  let ?P = "\<lambda>v. referenced (pt v)" and ?f = "clock_face s"
  let ?n = "length (takeWhile ?P ?f)"
  have n: "?n \<le> ck_count s" using length_takeWhile_le [of ?P ?f] by simp
  have refd: "?P (?f ! k)" if "k < ?n" for k
    using that nth_mem [OF that] by (metis set_takeWhileD takeWhile_nth)
  have victim: "second_chance ?P ?f = ?f ! (?n mod ck_count s)"
  proof (cases "?n < ck_count s")
    case True
    then have "\<not> ?P (?f ! ?n)" by (intro nth_length_takeWhile) simp
    then have "find (\<lambda>v. \<not> ?P v) ?f = Some (?f ! ?n)"
      using True refd by (auto simp: find_Some_iff intro!: exI [of _ ?n])
    then show ?thesis using True by (simp add: second_chance_def)
  next
    case False
    then have "find (\<lambda>v. \<not> ?P v) ?f = None"
      using refd n by (auto simp: find_None_iff in_set_conv_nth)
    moreover have "?f \<noteq> []" using pos by (metis length_0_conv length_clock_face less_irrefl)
    ultimately show ?thesis using False n by (simp add: second_chance_def hd_conv_nth le_antisym)
  qed
  have "clock_scan 0 s pt = (Some (second_chance ?P ?f),
      clock_take (s\<lparr>ck_hand := (ck_hand s + ?n) mod ck_count s\<rparr>), clear_refs pt (set (take ?n ?f)))"
  proof (rule clock_scan_stops [OF inv n pos _ victim])
    show "?P (?f ! k)" if "k < ?n" for k using that by (rule refd)
    assume "?n < ck_count s"
    then show "\<not> ?P (second_chance ?P ?f)"
      using victim nth_length_takeWhile [of ?P ?f] by simp
  qed
  moreover have "take ?n ?f = takeWhile ?P ?f" by (metis takeWhile_eq_take)
  ultimately show ?thesis using pos by (simp add: clock_evict_def)
qed


theorem clock_evict_second_chance_witness:
  "\<exists>s'. clock_evict (clock_insert 9 0 (clock_insert 8 0 clock_init))
      ((\<lambda>_. zero_pte)(8 := zero_pte\<lparr>referenced := True\<rparr>)) =
    (Some 9, s', \<lambda>_. zero_pte)"
proof -
  let ?s = "clock_insert 9 0 (clock_insert 8 0 clock_init)"
  let ?pt = "(\<lambda>_. zero_pte)(8 := zero_pte\<lparr>referenced := True\<rparr>)"
  have inv: "clock_inv ?s"
    by (intro clock_inv_insert) (simp add: clock_inv_def clock_tracked_def clock_init_def)
  have c: "ck_count ?s = 2" "clock_face ?s = [8, 9]"
    by (simp_all add: clock_insert_def clock_init_def clock_face_def ring_list_def first_idx.simps upt_rec)
  have "clear_refs ?pt {8} = (\<lambda>_. zero_pte)"
    by (auto simp: clear_refs_def zero_pte_def fun_eq_iff)
  then show ?thesis
    using clock_evict_second_chance [OF inv, of ?pt] c by (simp add: second_chance_def zero_pte_def)
qed

lemma evict_all_fifo: "evict_all fifo_evict n s pt = take n (fifo_tracked s)"
proof (induction n arbitrary: s)
  case 0
  then show ?case by simp
next
  case (Suc n)
  show ?case
  proof (cases "fifo_tracked s = []")
    case True
    then show ?thesis by (simp add: fifo.evict_empty)
  next
    case False
    then obtain s' where "fifo_evict s pt = (Some (hd (fifo_tracked s)), s', pt)"
        "fifo_tracked s' = tl (fifo_tracked s)"
      using fifo_evict_eq by blast
    then show ?thesis using False Suc.IH by (simp add: take_Suc)
  qed
qed

lemma lru_evict_least:
  assumes "lru_inv l" "lru_tracked l \<noteq> []"
  shows "\<exists>i s'. i < lru_count l \<and> lru_evict l pt = (Some (le_vpn (lru_pages l i)), s', pt) \<and>
    lru_tracked s' = remove1 (le_vpn (lru_pages l i)) (lru_tracked l) \<and>
    (\<forall>j < lru_count l. le_last_tick (lru_pages l i) \<le> le_last_tick (lru_pages l j))"
proof -
  obtain i s' where e: "i < lru_count l" "lru_evict l pt = (Some (lru_tracked l ! i), s', pt)"
      "lru_tracked s' = take i (lru_tracked l) @ drop (Suc i) (lru_tracked l)"
      "\<forall>j < lru_count l. le_last_tick (lru_pages l i) \<le> le_last_tick (lru_pages l j)"
    using lru_evict_eq [OF assms(2), of pt] by blast
  have "lru_tracked l ! i = le_vpn (lru_pages l i)" using e(1) by (simp add: lru_tracked_arr)
  moreover have "lru_tracked s' = remove1 (lru_tracked l ! i) (lru_tracked l)"
    using assms(1) e(1,3) by (simp add: distinct_take_drop_remove1 lru_inv_def lru_tracked_def)
  ultimately show ?thesis using e by metis
qed

text \<open>What a sequence of uses (page, tick) leaves behind: FIFO tracks the pages in order of their first
  use, for a queue of 256 entries has room for every page number; LRU has one entry per page,
  with the low 32 bits of the tick of its latest use.\<close>

definition fifo_uses :: "(u8 \<times> u64) list \<Rightarrow> fifo_state \<Rightarrow> fifo_state" where
  "fifo_uses us f = fold (\<lambda>(v, t). fifo_insert v t) us f"

definition lru_uses :: "(u8 \<times> u64) list \<Rightarrow> lru_state \<Rightarrow> lru_state" where
  "lru_uses us l = fold (\<lambda>(v, t). lru_insert v t) us l"

definition first_uses :: "'a list \<Rightarrow> 'a list" where
  "first_uses xs = rev (remdups (rev xs))"

definition latest_use :: "(u8 \<times> u64) list \<Rightarrow> u8 \<Rightarrow> u64 option" where
  "latest_use us = map_of (rev us)"

lemma all_pages_fit:
  assumes "distinct xs" "256 \<le> length xs"
  shows "(v :: u8) \<in> set xs"
proof -
  have "card (UNIV :: u8 set) \<le> card (set xs)" using assms by (simp add: distinct_card card_word)
  then have "set xs = UNIV" by (intro card_seteq) simp_all
  then show ?thesis by simp
qed

lemma remdups_seen: "v \<in> set ys \<Longrightarrow> remdups (xs @ v # ys) = remdups (xs @ ys)"
  by (induction xs) auto

lemma fifo_tracked_uses: "fifo_inv f \<Longrightarrow> fifo_tracked (fifo_uses us f) = first_uses (fifo_tracked f @ map fst us)"
proof (induction us arbitrary: f)
  case Nil
  then have "distinct (rev (fifo_tracked f))" by (simp add: fifo_inv_def)
  then show ?case by (simp only: fifo_uses_def first_uses_def fold.simps id_apply list.map append_Nil2 distinct_remdups_id rev_rev_ident)
next
  case (Cons u us)
  obtain v t where u: "u = (v, t)" by fastforce
  have "fifo_inv (fifo_insert v t f)" using Cons.prems by (rule fifo.insert_sound)
  then have "fifo_tracked (fifo_uses (u # us) f) = first_uses (fifo_tracked (fifo_insert v t f) @ map fst us)"
    using Cons.IH by (simp add: fifo_uses_def u)
  also have "\<dots> = first_uses (fifo_tracked f @ map fst (u # us))"
    using all_pages_fit [of "fifo_tracked f" v] Cons.prems by (auto simp: fifo_insert_tracked first_uses_def u fifo_inv_def remdups_seen)
  finally show ?case .
qed

definition lru_recorded :: "lru_state \<Rightarrow> u8 \<Rightarrow> u32 \<Rightarrow> bool" where
  "lru_recorded l v x \<longleftrightarrow> (\<exists>i < lru_count l. le_vpn (lru_pages l i) = v \<and> le_last_tick (lru_pages l i) = x)"

lemma lru_recorded_insert:
  assumes "lru_inv l"
  shows "lru_recorded (lru_insert v t l) u x \<longleftrightarrow> (if u = v then x = ucast t else lru_recorded l u x)"
proof (cases "first_idx (\<lambda>i. le_vpn (lru_pages l i) = v) 0 (lru_count l)")
  case None
  then have new: "v \<notin> set (lru_tracked l)" by (simp add: lru_tracked_arr first_idx_arr_list)
  then have "lru_count l < 256"
    using all_pages_fit [of "lru_tracked l" v] assms by (force simp: lru_inv_def lru_tracked_def)
  moreover have "le_vpn (lru_pages l i) \<noteq> v" if "i < lru_count l" for i
    using new that by (auto simp: lru_tracked_arr in_set_arr_list)
  ultimately show ?thesis
    using None by (force simp: lru_recorded_def lru_insert_def lru_update_def MAX_LRU_PAGES_def less_Suc_eq)
next
  case (Some i)
  note D = first_idx_SomeD [OF Some]
  have only_i: "le_vpn (lru_pages l j) = v \<longleftrightarrow> j = i" if "j < lru_count l" for j
    using assms that D by (auto simp: lru_inv_def lru_tracked_arr distinct_arr_list dest: inj_onD)
  have "lru_recorded (lru_insert v t l) u x \<longleftrightarrow>
      (\<exists>j < lru_count l. le_vpn (lru_pages l j) = u \<and> (if j = i then ucast t else le_last_tick (lru_pages l j)) = x)"
    unfolding lru_recorded_def lru_insert_def lru_update_def Some by (intro ex_cong1) simp
  then show ?thesis using only_i D(2) unfolding lru_recorded_def by metis
qed

lemma lru_inv_uses: "lru_inv l \<Longrightarrow> lru_inv (lru_uses us l)"
  by (induction us arbitrary: l) (auto simp: lru_uses_def lru.insert_sound)

lemma lru_recorded_uses: "lru_recorded (lru_uses us lru_init) v x \<longleftrightarrow> (\<exists>t. latest_use us v = Some t \<and> x = ucast t)"
proof (induction us rule: rev_induct)
  case Nil
  show ?case by (simp add: lru_uses_def lru_recorded_def lru_init_def latest_use_def)
next
  case (snoc u us)
  obtain p t where u: "u = (p, t)" by fastforce
  have "lru_uses (us @ [u]) lru_init = lru_insert p t (lru_uses us lru_init)" by (simp add: lru_uses_def u)
  then show ?case
    using snoc.IH lru_recorded_insert [OF lru_inv_uses [OF lru.init_sound], of p t us v x] by (simp add: latest_use_def u)
qed

lemma lru_evict_latest:
  assumes "us \<noteq> []"
  shows "\<exists>v t s'. lru_evict (lru_uses us lru_init) pt = (Some v, s', pt) \<and> latest_use us v = Some t \<and>
    (\<forall>u t'. latest_use us u = Some t' \<longrightarrow> (ucast t :: u32) \<le> ucast t')"
proof -
  let ?l = "lru_uses us lru_init"
  have used: "\<exists>j < lru_count ?l. le_vpn (lru_pages ?l j) = u \<and> le_last_tick (lru_pages ?l j) = ucast t'" if "latest_use us u = Some t'" for u t'
    using lru_recorded_uses [of us u "ucast t'"] that by (auto simp: lru_recorded_def)
  have "latest_use us (fst (last us)) = Some (snd (last us))"
    using assms by (cases us rule: rev_cases) (simp_all add: latest_use_def)
  then have "lru_tracked ?l \<noteq> []" using used by (fastforce simp: lru_tracked_def)
  then obtain i s' where i: "i < lru_count ?l" "lru_evict ?l pt = (Some (le_vpn (lru_pages ?l i)), s', pt)"
      "\<forall>j < lru_count ?l. le_last_tick (lru_pages ?l i) \<le> le_last_tick (lru_pages ?l j)"
    using lru_evict_least [OF lru_inv_uses [OF lru.init_sound], of us pt] by blast
  then obtain t where "latest_use us (le_vpn (lru_pages ?l i)) = Some t" "le_last_tick (lru_pages ?l i) = ucast t"
    using lru_recorded_uses [of us "le_vpn (lru_pages ?l i)" "le_last_tick (lru_pages ?l i)"] by (auto simp: lru_recorded_def)
  then show ?thesis using i used by metis
qed

text \<open>C35. Victim selection of the FIFO and LRU policies. FIFO evicts in order of insertion: pages inserted
  into a queue come out after those tracked before, in the order in which they were first
  inserted, and those tracked before come out in their own order. LRU evicts a tracked page
  whose recorded tick is least and stops tracking that page only; starting from the empty state,
  this is a page whose latest use, compared by the low 32 bits of its tick, is least among all
  pages used. Under all three policies, evicting until no page is left returns every tracked
  page exactly once. The three states are assumed to be well-formed: distinct pages, within the
  capacity.\<close>

theorem policies_select_victims:
  assumes "fifo_inv f" "lru_inv l" "clock_inv c"
  shows "evict_all fifo_evict n (fifo_uses us f) pt = take n (first_uses (fifo_tracked f @ map fst us)) \<and>
    evict_all fifo_evict n f pt = take n (fifo_tracked f) \<and>
    (lru_tracked l \<noteq> [] \<longrightarrow>
       (\<exists>i s'. i < lru_count l \<and> lru_evict l pt = (Some (le_vpn (lru_pages l i)), s', pt) \<and>
          lru_tracked s' = remove1 (le_vpn (lru_pages l i)) (lru_tracked l) \<and>
          (\<forall>j < lru_count l. le_last_tick (lru_pages l i) \<le> le_last_tick (lru_pages l j)))) \<and>
    (us \<noteq> [] \<longrightarrow>
       (\<exists>v t s'. lru_evict (lru_uses us lru_init) pt = (Some v, s', pt) \<and> latest_use us v = Some t \<and>
          (\<forall>u t'. latest_use us u = Some t' \<longrightarrow> (ucast t :: u32) \<le> ucast t'))) \<and>
    mset (evict_all fifo_evict 256 f pt) = mset (fifo_tracked f) \<and>
    mset (evict_all lru_evict 256 l pt) = mset (lru_tracked l) \<and>
    mset (evict_all clock_evict 64 c pt) = mset (clock_tracked c)"
proof (intro conjI impI)
  show "evict_all fifo_evict n (fifo_uses us f) pt = take n (first_uses (fifo_tracked f @ map fst us))"
    using evict_all_fifo fifo_tracked_uses [OF assms(1)] by metis
  show "evict_all fifo_evict n f pt = take n (fifo_tracked f)" by (rule evict_all_fifo)
  show "\<exists>v t s'. lru_evict (lru_uses us lru_init) pt = (Some v, s', pt) \<and> latest_use us v = Some t \<and>
      (\<forall>u t'. latest_use us u = Some t' \<longrightarrow> (ucast t :: u32) \<le> ucast t')" if "us \<noteq> []"
    using that by (rule lru_evict_latest)
  show "\<exists>i s'. i < lru_count l \<and> lru_evict l pt = (Some (le_vpn (lru_pages l i)), s', pt) \<and>
      lru_tracked s' = remove1 (le_vpn (lru_pages l i)) (lru_tracked l) \<and>
      (\<forall>j < lru_count l. le_last_tick (lru_pages l i) \<le> le_last_tick (lru_pages l j))"
    if "lru_tracked l \<noteq> []" using assms(2) that by (rule lru_evict_least)
  show "mset (evict_all fifo_evict 256 f pt) = mset (fifo_tracked f)"
    using assms(1) by (intro fifo.mset_evict_all fifo.sound_bound)
  show "mset (evict_all lru_evict 256 l pt) = mset (lru_tracked l)"
    using assms(2) by (intro lru.mset_evict_all lru.sound_bound)
  show "mset (evict_all clock_evict 64 c pt) = mset (clock_tracked c)"
    using assms(3) by (intro clock.mset_evict_all clock.sound_bound)
qed

theorem policies_select_victims_witness:
  "evict_all fifo_evict 3 (fifo_uses [(9, 1), (8, 2), (9, 3)] (fifo_insert 7 0 fifo_init)) (\<lambda>_. zero_pte) = [7, 9, 8] \<and>
   (\<exists>s'. lru_evict (lru_uses [(9, 1), (8, 2), (9, 3)] lru_init) (\<lambda>_. zero_pte) = (Some 8, s', \<lambda>_. zero_pte)) \<and>
   mset (evict_all lru_evict 256 (lru_insert 4 1 lru_init) (\<lambda>_. zero_pte)) = {#4#} \<and>
   mset (evict_all clock_evict 64 (clock_insert 5 1 clock_init) (\<lambda>_. zero_pte)) = {#5#}"
proof -
  let ?f = "fifo_insert 7 0 fifo_init" and ?us = "[(9, 1), (8, 2), (9, 3)] :: (u8 \<times> u64) list" and ?pt = "\<lambda>_. zero_pte"
  let ?l = "lru_insert 4 1 lru_init" and ?c = "clock_insert 5 1 clock_init"
  have inv: "fifo_inv ?f" "lru_inv ?l" "clock_inv ?c"
    by (intro fifo.insert_sound fifo.init_sound lru.insert_sound lru.init_sound clock.insert_sound clock.init_sound)+
  have "fifo_tracked ?f = [7]" "lru_tracked ?l = [4]" "clock_tracked ?c = [5]"
    by (simp_all add: fifo.insert_tracked fifo.init_sound fifo.init_tracked
        lru.insert_tracked lru.init_sound lru.init_tracked clock.insert_tracked clock.init_sound clock.init_tracked)
  note tracked = this
  note V = policies_select_victims [OF inv, of 3 ?us ?pt, unfolded tracked]
  note 1 = V [THEN conjunct1]
  note 2 = V [THEN conjunct2, THEN conjunct2, THEN conjunct2, THEN conjunct1]
  note 3 = V [THEN conjunct2, THEN conjunct2, THEN conjunct2, THEN conjunct2, THEN conjunct2]
  obtain v t s' where e: "lru_evict (lru_uses ?us lru_init) ?pt = (Some v, s', ?pt)" "latest_use ?us v = Some t"
      "\<forall>u t'. latest_use ?us u = Some t' \<longrightarrow> (ucast t :: u32) \<le> ucast t'"
    using mp [OF 2 list.distinct(2)] by blast
  have "latest_use ?us 8 = Some 2" by (simp add: latest_use_def)
  then have "(ucast t :: u32) \<le> ucast (2 :: u64)" using e(3) by blast
  then have "t \<noteq> 3" by (intro notI) simp
  then have "v = 8" using e(2) unfolding latest_use_def by (simp split: if_splits)
  moreover have "take 3 (first_uses ([7] @ map fst ?us)) = [7, 9, 8]" by (simp add: first_uses_def)
  ultimately show ?thesis using 1 3 e(1) by (intro conjI exI) simp_all
qed

end
