(* ===== verification/Pager.thy ===== *)
theory Pager
  imports Swap TLB Replacement Proc
begin

text \<open>
  \<^verbatim>\<open>pager.c\<close>: demand paging over the frame table, the swap space, the TLB, the replacement
  policy and the page tables of all processes.

  The static state of the memory components and the objects \<^verbatim>\<open>vm_state_t\<close> on the heap form
  the record \<open>mem\<close>. A \<^verbatim>\<open>vm_state_t\<close> pointer is an address of \<open>w_vms\<close>: the page table of the
  faulting process and that of the victim's owner may be the same object, and the code
  mutates both, so they are read and written through the heap. The page table parameter of
  \<open>pager_access_page\<close> is always \<^verbatim>\<open>&vm->pt\<close>, hence the address of the \<^verbatim>\<open>vm_state_t\<close>; an
  address without an object behaves like the null pointer. The policy is the operation
  table with its state; the success of \<^verbatim>\<open>malloc\<close> is a parameter. The per-process policy
  state of \<^verbatim>\<open>vm_state_t\<close> is always null and has no field.
\<close>

section \<open>Replacement policies behind one table\<close>

datatype policy_kind = FIFO_OPS | LRU_OPS | CLOCK_OPS
datatype policy = Fifo fifo_state | Lru lru_state | Clock clock_state

definition policy_name :: "policy_kind \<Rightarrow> string" where
  "policy_name k = (case k of FIFO_OPS \<Rightarrow> ''fifo'' | LRU_OPS \<Rightarrow> ''lru'' | CLOCK_OPS \<Rightarrow> ''clock'')"

definition policy_init :: "policy_kind \<Rightarrow> bool \<Rightarrow> policy option" where
  "policy_init k malloc_ok =
     (if \<not> malloc_ok then None
      else Some (case k of FIFO_OPS \<Rightarrow> Fifo fifo_init | LRU_OPS \<Rightarrow> Lru lru_init | CLOCK_OPS \<Rightarrow> Clock clock_init))"

fun policy_update :: "u8 \<Rightarrow> u64 \<Rightarrow> bool \<Rightarrow> policy \<Rightarrow> policy" where
  "policy_update n tick write (Fifo s) = Fifo (fifo_update n tick write s)"
| "policy_update n tick write (Lru s) = Lru (lru_update n tick write s)"
| "policy_update n tick write (Clock s) = Clock (clock_update n tick write s)"

fun policy_insert :: "u8 \<Rightarrow> u64 \<Rightarrow> policy \<Rightarrow> policy" where
  "policy_insert n tick (Fifo s) = Fifo (fifo_insert n tick s)"
| "policy_insert n tick (Lru s) = Lru (lru_insert n tick s)"
| "policy_insert n tick (Clock s) = Clock (clock_insert n tick s)"

fun policy_evict :: "policy \<Rightarrow> page_table \<Rightarrow> u8 option \<times> policy \<times> page_table" where
  "policy_evict (Fifo s) pt = (let (v, s', pt') = fifo_evict s pt in (v, Fifo s', pt'))"
| "policy_evict (Lru s) pt = (let (v, s', pt') = lru_evict s pt in (v, Lru s', pt'))"
| "policy_evict (Clock s) pt = (let (v, s', pt') = clock_evict s pt in (v, Clock s', pt'))"


section \<open>State\<close>

datatype pager_result =
    PAGER_HIT | PAGER_FAULT_MINOR | PAGER_FAULT_MAJOR | PAGER_ERROR_PERM | PAGER_ERROR_OOM | PAGER_ERROR_ADDR

record pager_stats =
  ps_minor_faults :: u32
  ps_major_faults :: u32
  ps_evictions :: u32

record pager_state =
  g_policy :: "policy_kind option"
  g_policy_state :: "policy option"
  g_pager_stats :: pager_stats

definition zero_pager_stats :: pager_stats where
  "zero_pager_stats = \<lparr>ps_minor_faults = 0, ps_major_faults = 0, ps_evictions = 0\<rparr>"

record vm_proc_stats =
  vst_minor_faults :: u32
  vst_major_faults :: u32
  vst_page_out_count :: u32
  vst_page_in_count :: u32
  vst_tlb_hits :: u32
  vst_tlb_misses :: u32
  vst_heap_break :: u16
  vst_heap_start :: u16
  vst_stack_limit :: u16

record vm_state =
  vs_pid :: int
  vs_pt :: page_table
  vs_stats :: vm_proc_stats

record mem =
  w_frame :: frame_state
  w_swap :: swap_state
  w_tlb :: tlb_state
  w_pager :: pager_state
  w_pt :: process_table
  w_vms :: "vm_ptr \<Rightarrow> vm_state option"

text \<open>Writes through the pointers \<^verbatim>\<open>pte\<close> and \<^verbatim>\<open>pt\<close>.\<close>

definition pte_at :: "mem \<Rightarrow> vm_ptr \<Rightarrow> u8 \<Rightarrow> pte" where
  "pte_at w a v = (case w_vms w a of Some vm \<Rightarrow> page_table_lookup (vs_pt vm) v | None \<Rightarrow> zero_pte)"

definition upd_vm :: "vm_ptr \<Rightarrow> (vm_state \<Rightarrow> vm_state) \<Rightarrow> mem \<Rightarrow> mem" where
  "upd_vm a f w = w\<lparr>w_vms := (w_vms w)(a := map_option f (w_vms w a))\<rparr>"

definition upd_pte :: "vm_ptr \<Rightarrow> u8 \<Rightarrow> (pte \<Rightarrow> pte) \<Rightarrow> mem \<Rightarrow> mem" where
  "upd_pte a v f = upd_vm a (\<lambda>vm. vm\<lparr>vs_pt := (vs_pt vm)(v := f (vs_pt vm v))\<rparr>)"


section \<open>Operations\<close>

definition pager_init :: "bool \<Rightarrow> pager_state \<Rightarrow> pager_state" where
  "pager_init malloc_ok s =
     \<lparr>g_policy = Some FIFO_OPS, g_policy_state = policy_init FIFO_OPS malloc_ok, g_pager_stats = zero_pager_stats\<rparr>"

definition pager_shutdown :: "pager_state \<Rightarrow> pager_state" where
  "pager_shutdown s = s\<lparr>g_policy := None, g_policy_state := None\<rparr>"

definition policy_of_name :: "string \<Rightarrow> policy_kind option" where
  "policy_of_name name =
     (if name = ''fifo'' then Some FIFO_OPS
      else if name = ''lru'' then Some LRU_OPS
      else if name = ''clock'' then Some CLOCK_OPS else None)"

definition pager_set_policy :: "string \<Rightarrow> bool \<Rightarrow> frame_state \<Rightarrow> pager_state \<Rightarrow> bool \<times> pager_state" where
  "pager_set_policy name malloc_ok f s =
     (case policy_of_name name of
        None \<Rightarrow> (False, s)
      | Some k \<Rightarrow>
          (True,
           s\<lparr>g_policy := Some k,
             g_policy_state :=
               fold (\<lambda>pfn st. if frame_get_owner (of_nat pfn) f \<noteq> None
                              then map_option (policy_insert (of_nat pfn) 0) st else st)
                 [0..<VM_NUM_FRAMES] (policy_init k malloc_ok)\<rparr>))"

definition pager_get_policy_name :: "pager_state \<Rightarrow> string" where
  "pager_get_policy_name s = (case g_policy s of Some k \<Rightarrow> policy_name k | None \<Rightarrow> ''none'')"

definition pager_get_stats :: "pager_state \<Rightarrow> pager_stats" where
  "pager_get_stats s = g_pager_stats s"

definition pager_reset_stats :: "pager_state \<Rightarrow> pager_state" where
  "pager_reset_stats s = s\<lparr>g_pager_stats := \<lparr>ps_minor_faults = 0, ps_major_faults = 0, ps_evictions = 0\<rparr>\<rparr>"

text \<open>The guarded calls \<^verbatim>\<open>if (g_policy != NULL && g_policy_state != NULL) g_policy->...\<close>.\<close>

definition policy_apply :: "(policy \<Rightarrow> policy) \<Rightarrow> mem \<Rightarrow> mem" where
  "policy_apply f w =
     (case g_policy (w_pager w) of
        None \<Rightarrow> w
      | Some _ \<Rightarrow> w\<lparr>w_pager := (w_pager w)\<lparr>g_policy_state := map_option f (g_policy_state (w_pager w))\<rparr>\<rparr>)"

text \<open>The hit path.\<close>

definition pager_hit :: "vm_ptr \<Rightarrow> u8 \<Rightarrow> bool \<Rightarrow> u64 \<Rightarrow> mem \<Rightarrow> mem" where
  "pager_hit a vpn write tick w =
     (let w1 = upd_pte a vpn (\<lambda>e. e\<lparr>accessed := True, referenced := True, last_accessed_tick := ucast tick,
                                   dirty := (if write then True else dirty e)\<rparr>) w;
          e = pte_at w1 a vpn;
          w2 = policy_apply (policy_update (frame_num e) tick write) w1
      in w2\<lparr>w_tlb := tlb_insert vpn (frame_num e) (dirty e) (permissions e) tick (w_tlb w2)\<rparr>)"

text \<open>
  The eviction of the chosen victim: write the page to swap when it is dirty, unmap it, drop
  its TLB entry, free the frame. The result tells whether a frame was freed; the state is
  changed on the failing paths as well.
\<close>

definition unmap_victim :: "u8 \<Rightarrow> int \<Rightarrow> u8 \<Rightarrow> vm_ptr \<Rightarrow> mem \<Rightarrow> mem" where
  "unmap_victim victim_pfn victim_pid victim_vpn b w =
     (let w1 = upd_pte b victim_vpn (\<lambda>e. e\<lparr>present := False, dirty := False\<rparr>) w
      in w1\<lparr>w_tlb := tlb_flush_entry victim_vpn (w_tlb w1), w_frame := frame_free victim_pfn (w_frame w1)\<rparr>)"

definition evict_victim :: "u8 \<Rightarrow> int \<Rightarrow> u8 \<Rightarrow> vm_ptr \<Rightarrow> mem \<Rightarrow> bool \<times> mem" where
  "evict_victim victim_pfn victim_pid victim_vpn b w =
     (let e = pte_at w b victim_vpn
      in if dirty e then
           (case (if in_swap e then (Some (unat (swap_slot e)), w_swap w)
                  else swap_alloc victim_pid victim_vpn (w_swap w)) of
              (None, sw) \<Rightarrow> (False, w\<lparr>w_swap := sw\<rparr>)
            | (Some slot, sw) \<Rightarrow>
                (let w1 = w\<lparr>w_swap := swap_out victim_pfn (of_nat slot) (w_frame w) sw\<rparr>;
                     w2 = upd_pte b victim_vpn (\<lambda>e. e\<lparr>swap_slot := of_nat slot, in_swap := True\<rparr>) w1
                 in (True, unmap_victim victim_pfn victim_pid victim_vpn b w2)))
         else (True, unmap_victim victim_pfn victim_pid victim_vpn b w))"

text \<open>Selecting the victim: the policy names a frame, the frame table its owner, the process table the owner's memory.\<close>

definition pager_evict :: "vm_ptr \<Rightarrow> mem \<Rightarrow> bool \<times> mem" where
  "pager_evict a w =
     (case (g_policy (w_pager w), g_policy_state (w_pager w), w_vms w a) of
        (Some _, Some ps, Some vm) \<Rightarrow>
          (let (victim, ps', pt') = policy_evict ps (vs_pt vm);
               w1 = upd_vm a (\<lambda>vm. vm\<lparr>vs_pt := pt'\<rparr>)
                      (w\<lparr>w_pager := (w_pager w)\<lparr>g_policy_state := Some ps'\<rparr>\<rparr>)
           in case victim of
                None \<Rightarrow> (False, w1)
              | Some victim_pfn \<Rightarrow>
                  (case frame_get_owner victim_pfn (w_frame w1) of
                     None \<Rightarrow> (False, w1)
                   | Some (victim_pid, victim_vpn) \<Rightarrow>
                       (case proc_get victim_pid (w_pt w1) of
                          None \<Rightarrow> (False, w1)
                        | Some victim_pcb \<Rightarrow>
                            (case p_vm victim_pcb of
                               None \<Rightarrow> (False, w1)
                             | Some b \<Rightarrow> evict_victim victim_pfn victim_pid victim_vpn b w1))))
      | _ \<Rightarrow> (False, w))"

text \<open>Getting a frame: a free one, else that of a victim.\<close>

definition pager_get_frame :: "int \<Rightarrow> vm_ptr \<Rightarrow> u8 \<Rightarrow> mem \<Rightarrow> nat option \<times> mem" where
  "pager_get_frame pid a vpn w =
     (case frame_alloc pid vpn (w_frame w) of
        (Some pfn, f) \<Rightarrow> (Some pfn, w\<lparr>w_frame := f\<rparr>)
      | (None, f) \<Rightarrow>
          (let (ok, w1) = pager_evict a (w\<lparr>w_frame := f\<rparr>)
           in if \<not> ok then (None, w1)
              else (case frame_alloc pid vpn (w_frame w1) of
                      (None, f1) \<Rightarrow> (None, w1\<lparr>w_frame := f1\<rparr>)
                    | (Some pfn, f1) \<Rightarrow>
                        (Some pfn,
                         w1\<lparr>w_frame := f1,
                            w_pager := (w_pager w1)\<lparr>g_pager_stats := (g_pager_stats (w_pager w1))
                              \<lparr>ps_evictions := ps_evictions (g_pager_stats (w_pager w1)) + 1\<rparr>\<rparr>\<rparr>))))"

text \<open>Filling the frame from swap (major fault) or with zeros (minor fault).\<close>

definition pager_fill :: "vm_ptr \<Rightarrow> u8 \<Rightarrow> u8 \<Rightarrow> bool \<Rightarrow> mem \<Rightarrow> mem" where
  "pager_fill a vpn pfn is_major w =
     (if is_major then
        (let slot = swap_slot (pte_at w a vpn);
             (f, sw) = swap_in slot pfn (w_frame w) (w_swap w);
             w1 = w\<lparr>w_frame := f, w_swap := swap_free slot sw\<rparr>;
             w2 = upd_pte a vpn (\<lambda>e. e\<lparr>in_swap := False, swap_slot := 0\<rparr>) w1
         in w2\<lparr>w_pager := (w_pager w2)\<lparr>g_pager_stats := (g_pager_stats (w_pager w2))
              \<lparr>ps_major_faults := ps_major_faults (g_pager_stats (w_pager w2)) + 1\<rparr>\<rparr>\<rparr>)
      else
        w\<lparr>w_frame := frame_write_block pfn (\<lambda>_. 0) (w_frame w),
          w_pager := (w_pager w)\<lparr>g_pager_stats := (g_pager_stats (w_pager w))
              \<lparr>ps_minor_faults := ps_minor_faults (g_pager_stats (w_pager w)) + 1\<rparr>\<rparr>\<rparr>)"

text \<open>Mapping the page, registering the frame with the policy, entering the translation in the TLB.\<close>

definition pager_map :: "vm_ptr \<Rightarrow> u8 \<Rightarrow> u8 \<Rightarrow> bool \<Rightarrow> u64 \<Rightarrow> mem \<Rightarrow> mem" where
  "pager_map a vpn pfn write tick w =
     (let w1 = upd_vm a (\<lambda>vm. vm\<lparr>vs_pt := page_table_map (vs_pt vm) vpn pfn (permissions (vs_pt vm vpn))\<rparr>) w;
          w2 = upd_pte a vpn (\<lambda>e. e\<lparr>accessed := True, referenced := True, dirty := write,
                                    last_accessed_tick := ucast tick\<rparr>) w1;
          w3 = policy_apply (policy_insert pfn tick) w2;
          e = pte_at w3 a vpn
      in w3\<lparr>w_tlb := tlb_insert vpn pfn (dirty e) (permissions e) tick (tlb_flush_entry vpn (w_tlb w3))\<rparr>)"

definition pager_access_page ::
  "int \<Rightarrow> vm_ptr \<Rightarrow> u8 \<Rightarrow> bool \<Rightarrow> u64 \<Rightarrow> mem \<Rightarrow> pager_result \<times> u8 option \<times> mem" where
  "pager_access_page pid a vpn write tick w =
     (case w_vms w a of
        None \<Rightarrow> (PAGER_ERROR_ADDR, None, w)
      | Some vm \<Rightarrow>
          (let req_perm = (if write then VM_PROT_WRITE else VM_PROT_READ); e = page_table_lookup (vs_pt vm) vpn
           in if \<not> page_table_validate_permissions (vs_pt vm) vpn req_perm then (PAGER_ERROR_PERM, None, w)
              else if present e then (PAGER_HIT, Some (frame_num e), pager_hit a vpn write tick w)
              else
                (let is_major = in_swap e
                 in case pager_get_frame pid a vpn w of
                      (None, w1) \<Rightarrow> (PAGER_ERROR_OOM, None, w1)
                    | (Some pfn, w1) \<Rightarrow>
                        (if is_major then PAGER_FAULT_MAJOR else PAGER_FAULT_MINOR, Some (of_nat pfn),
                         pager_map a vpn (of_nat pfn) write tick (pager_fill a vpn (of_nat pfn) is_major w1)))))"


section \<open>What a policy promises the pager\<close>

fun policy_tracked :: "policy \<Rightarrow> u8 list" where
  "policy_tracked (Fifo s) = fifo_tracked s"
| "policy_tracked (Lru s) = lru_tracked s"
| "policy_tracked (Clock s) = clock_tracked s"

fun policy_inv :: "policy \<Rightarrow> bool" where
  "policy_inv (Fifo s) = fifo_inv s"
| "policy_inv (Lru s) = lru_inv s"
| "policy_inv (Clock s) = clock_inv s"

lemma policy_evict_facts:
  assumes "policy_inv ps" "policy_evict ps pt = (v, ps', pt')"
  shows "policy_inv ps' \<and> same_mapping pt pt' \<and>
    (case v of None \<Rightarrow> policy_tracked ps = [] | Some f \<Rightarrow> f \<in> set (policy_tracked ps)) \<and>
    set (policy_tracked ps') \<subseteq> set (policy_tracked ps)"
proof (cases ps)
  case (Fifo s)
  obtain s' where e: "fifo_evict s pt = (v, s', pt')" "ps' = Fifo s'" using assms(2) Fifo by (auto split: prod.splits)
  have i: "fifo_inv s" using assms(1) Fifo by simp
  show ?thesis
  proof (cases v)
    case None
    then show ?thesis using e i fifo.evict_fails_iff [OF i, of pt] fifo.evict_empty [of s pt] Fifo by auto
  next
    case (Some f)
    then show ?thesis using e i fifo.evict_not_tracked [OF i, of pt f s' pt'] Fifo by auto
  qed
next
  case (Lru s)
  obtain s' where e: "lru_evict s pt = (v, s', pt')" "ps' = Lru s'" using assms(2) Lru by (auto split: prod.splits)
  have i: "lru_inv s" using assms(1) Lru by simp
  show ?thesis
  proof (cases v)
    case None
    then show ?thesis using e i lru.evict_fails_iff [OF i, of pt] lru.evict_empty [of s pt] Lru by auto
  next
    case (Some f)
    then show ?thesis using e i lru.evict_not_tracked [OF i, of pt f s' pt'] Lru by auto
  qed
next
  case (Clock s)
  obtain s' where e: "clock_evict s pt = (v, s', pt')" "ps' = Clock s'" using assms(2) Clock by (auto split: prod.splits)
  have i: "clock_inv s" using assms(1) Clock by simp
  show ?thesis
  proof (cases v)
    case None
    then show ?thesis using e i clock.evict_fails_iff [OF i, of pt] clock.evict_empty [of s pt] Clock by auto
  next
    case (Some f)
    then show ?thesis using e i clock.evict_not_tracked [OF i, of pt f s' pt'] Clock by auto
  qed
qed

lemma policy_insert_facts:
  "policy_inv ps \<Longrightarrow> policy_inv (policy_insert n t ps)"
  "policy_inv ps \<Longrightarrow> set (policy_tracked (policy_insert n t ps)) \<subseteq> insert n (set (policy_tracked ps))"
  by (cases ps; auto simp: fifo.insert_sound lru.insert_sound clock.insert_sound
      fifo.insert_tracked lru.insert_tracked clock.insert_tracked)+

lemma policy_update_facts:
  "policy_inv ps \<Longrightarrow> policy_inv (policy_update n t b ps)"
  "policy_inv ps \<Longrightarrow> set (policy_tracked (policy_update n t b ps)) \<subseteq> insert n (set (policy_tracked ps))"
  by (cases ps; auto simp: fifo.update_sound lru.update_sound clock.update_sound fifo_update_def clock_update_def
      lru_update_tracked)+

lemma policy_init_inv: "policy_init k ok = Some ps \<Longrightarrow> policy_inv ps \<and> policy_tracked ps = []"
  by (auto simp: policy_init_def fifo.init_sound lru.init_sound clock.init_sound
      fifo.init_tracked lru.init_tracked clock.init_tracked split: if_splits policy_kind.splits)

definition pager_ok :: "pager_state \<Rightarrow> bool" where
  "pager_ok s \<longleftrightarrow>
     (\<forall>ps. g_policy_state s = Some ps \<longrightarrow> policy_inv ps \<and> (\<forall>f \<in> set (policy_tracked ps). unat f < 64))"


section \<open>Page locations\<close>

text \<open>
  The invariant of paging, over the page table entry \<open>P q v\<close> of each page \<open>v\<close> of each process
  \<open>q\<close>, the owner \<open>G f\<close> of each frame and the owner \<open>S k\<close> of each swap slot: a present page
  owns its frame, a swapped page owns its slot, no page is both, and every frame that has an
  owner holds that owner's page.
\<close>

type_synonym pages = "int \<Rightarrow> u8 \<Rightarrow> pte option"

definition pages_ok :: "pages \<Rightarrow> (u8 \<Rightarrow> (int \<times> u8) option) \<Rightarrow> (nat \<Rightarrow> (int \<times> u8) option) \<Rightarrow> bool" where
  "pages_ok P G S \<longleftrightarrow>
     (\<forall>q v e. P q v = Some e \<longrightarrow> present e \<longrightarrow> \<not> in_swap e \<and> G (frame_num e) = Some (q, v)) \<and>
     (\<forall>q v e. P q v = Some e \<longrightarrow> in_swap e \<longrightarrow> S (unat (swap_slot e)) = Some (q, v)) \<and>
     (\<forall>f q v. G f = Some (q, v) \<longrightarrow> (\<exists>e. P q v = Some e \<and> present e \<and> frame_num e = f))"

definition set_page :: "pages \<Rightarrow> int \<Rightarrow> u8 \<Rightarrow> pte \<Rightarrow> pages" where
  "set_page P q v e = (\<lambda>q' v'. if q' = q \<and> v' = v then Some e else P q' v')"

lemma set_page_apply: "set_page P q v e q' v' = (if q' = q \<and> v' = v then Some e else P q' v')"
  by (simp add: set_page_def)

text \<open>What a page holds: its frame, else its swap slot, else zeros.\<close>

definition page_bytes :: "(nat \<Rightarrow> u8 list) \<Rightarrow> (nat \<Rightarrow> u8 list) \<Rightarrow> pte \<Rightarrow> u8 list" where
  "page_bytes F B e = (if present e then F (unat (frame_num e)) else if in_swap e then B (unat (swap_slot e)) else replicate 256 0)"

lemma pages_ok_present:
  assumes "pages_ok P G S" "P q v = Some e" "present e"
  shows "\<not> in_swap e" "G (frame_num e) = Some (q, v)"
  using assms by (auto simp: pages_ok_def)

lemma pages_ok_swapped: "pages_ok P G S \<Longrightarrow> P q v = Some e \<Longrightarrow> in_swap e \<Longrightarrow> S (unat (swap_slot e)) = Some (q, v)"
  by (auto simp: pages_ok_def)

lemma pages_ok_owner: "pages_ok P G S \<Longrightarrow> G f = Some (q, v) \<Longrightarrow> \<exists>e. P q v = Some e \<and> present e \<and> frame_num e = f"
  by (auto simp: pages_ok_def)

text \<open>Different pages have different frames and slots.\<close>

lemma pages_ok_frame_inj:
  assumes "pages_ok P G S" "P q v = Some e" "present e" "P q' v' = Some e'" "present e'" "frame_num e = frame_num e'"
  shows "q = q' \<and> v = v'"
  using pages_ok_present(2) [OF assms(1,2,3)] pages_ok_present(2) [OF assms(1,4,5)] assms(6) by simp

lemma pages_okI:
  assumes "\<And>q v e. P q v = Some e \<Longrightarrow> present e \<Longrightarrow> \<not> in_swap e \<and> G (frame_num e) = Some (q, v)"
    and "\<And>q v e. P q v = Some e \<Longrightarrow> in_swap e \<Longrightarrow> S (unat (swap_slot e)) = Some (q, v)"
    and "\<And>f q v. G f = Some (q, v) \<Longrightarrow> \<exists>e. P q v = Some e \<and> present e \<and> frame_num e = f"
  shows "pages_ok P G S"
  unfolding pages_ok_def using assms by blast

text \<open>Unmapping a present page, whose bytes are discarded or have been put into the free slot \<open>k\<close>.\<close>

lemma pages_ok_unmap:
  assumes ok: "pages_ok P G S" and e: "P q v = Some e" "present e"
    and e': "\<not> present e'" "in_swap e' \<Longrightarrow> S (unat (swap_slot e')) = None"
    and S': "S' = (if in_swap e' then S(unat (swap_slot e') \<mapsto> (q, v)) else S)"
  shows "pages_ok (set_page P q v e') (G(frame_num e := None)) S'"
proof (rule pages_okI)
  fix q1 v1 x assume x: "set_page P q v e' q1 v1 = Some x" "present x"
  then have p: "P q1 v1 = Some x" "(q1, v1) \<noteq> (q, v)" using e'(1) by (auto simp: set_page_apply split: if_splits)
  then have "frame_num x \<noteq> frame_num e" using pages_ok_frame_inj [OF ok p(1) x(2) e] by auto
  then show "\<not> in_swap x \<and> (G(frame_num e := None)) (frame_num x) = Some (q1, v1)"
    using pages_ok_present [OF ok p(1) x(2)] by simp
next
  fix q1 v1 x assume x: "set_page P q v e' q1 v1 = Some x" "in_swap x"
  show "S' (unat (swap_slot x)) = Some (q1, v1)"
  proof (cases "(q1, v1) = (q, v)")
    case True
    then show ?thesis using x S' by (auto simp: set_page_apply)
  next
    case False
    then have "S (unat (swap_slot x)) = Some (q1, v1)" using x pages_ok_swapped [OF ok] by (auto simp: set_page_apply split: if_splits)
    then show ?thesis using S' e'(2) by auto
  qed
next
  fix f q1 v1 assume f: "(G(frame_num e := None)) f = Some (q1, v1)"
  then have "G f = Some (q1, v1)" "f \<noteq> frame_num e" by (auto split: if_splits)
  then obtain x where "P q1 v1 = Some x" "present x" "frame_num x = f" using pages_ok_owner [OF ok] by blast
  then show "\<exists>x. set_page P q v e' q1 v1 = Some x \<and> present x \<and> frame_num x = f"
    using e \<open>f \<noteq> frame_num e\<close> by (auto simp: set_page_apply)
qed

text \<open>Mapping an absent page into the unowned frame \<open>f\<close>, giving up its swap slot.\<close>

lemma pages_ok_map:
  assumes ok: "pages_ok P G S" and e: "P q v = Some e" "\<not> present e" and f: "G f = None"
    and e': "present e'" "\<not> in_swap e'" "frame_num e' = f"
    and S': "S' = (if in_swap e then S(unat (swap_slot e) := None) else S)"
  shows "pages_ok (set_page P q v e') (G(f \<mapsto> (q, v))) S'"
proof (rule pages_okI)
  fix q1 v1 x assume x: "set_page P q v e' q1 v1 = Some x" "present x"
  show "\<not> in_swap x \<and> (G(f \<mapsto> (q, v))) (frame_num x) = Some (q1, v1)"
    using x e' f pages_ok_present [OF ok, of q1 v1 x] by (auto simp: set_page_apply split: if_splits)
next
  fix q1 v1 x assume x: "set_page P q v e' q1 v1 = Some x" "in_swap x"
  then have "P q1 v1 = Some x" "(q1, v1) \<noteq> (q, v)" using e'(2) by (auto simp: set_page_apply split: if_splits)
  then show "S' (unat (swap_slot x)) = Some (q1, v1)"
    using pages_ok_swapped [OF ok _ x(2)] pages_ok_swapped [OF ok e(1)] S' by auto
next
  fix g q1 v1 assume g: "(G(f \<mapsto> (q, v))) g = Some (q1, v1)"
  show "\<exists>x. set_page P q v e' q1 v1 = Some x \<and> present x \<and> frame_num x = g"
  proof (cases "g = f")
    case True
    then show ?thesis using g e' by (auto simp: set_page_apply)
  next
    case False
    then obtain x where x: "P q1 v1 = Some x" "present x" "frame_num x = g" using g pages_ok_owner [OF ok, of g q1 v1] by auto
    then show ?thesis using e by (auto simp: set_page_apply)
  qed
qed


section \<open>The invariant of the memory state\<close>

definition vm_of :: "mem \<Rightarrow> int \<Rightarrow> vm_ptr option" where
  "vm_of w q = (case proc_get q (w_pt w) of Some p \<Rightarrow> p_vm p | None \<Rightarrow> None)"

definition ppte :: "mem \<Rightarrow> pages" where
  "ppte w q v = (case vm_of w q of Some b \<Rightarrow> map_option (\<lambda>vm. vs_pt vm v) (w_vms w b) | None \<Rightarrow> None)"

definition frame_owner :: "mem \<Rightarrow> u8 \<Rightarrow> (int \<times> u8) option" where
  "frame_owner w f = frame_get_owner f (w_frame w)"

definition swap_owner :: "mem \<Rightarrow> nat \<Rightarrow> (int \<times> u8) option" where
  "swap_owner w k =
     (if k < 256 \<and> m_allocated (g_swap_meta (w_swap w) k)
      then Some (m_pid (g_swap_meta (w_swap w) k), m_vpn (g_swap_meta (w_swap w) k)) else None)"

definition swap_bytes :: "mem \<Rightarrow> nat \<Rightarrow> u8 list" where
  "swap_bytes w k = map (g_swap_mem (w_swap w) k) [0..<256]"

definition vm_wf :: "mem \<Rightarrow> bool" where
  "vm_wf w \<longleftrightarrow> (\<forall>q b. vm_of w q = Some b \<longrightarrow> w_vms w b \<noteq> None) \<and>
     (\<forall>q q' b. vm_of w q = Some b \<longrightarrow> vm_of w q' = Some b \<longrightarrow> q = q')"

definition mem_inv :: "mem \<Rightarrow> bool" where
  "mem_inv w \<longleftrightarrow> vm_wf w \<and> frame_inv (w_frame w) \<and> swap_inv (w_swap w) \<and> pager_ok (w_pager w) \<and>
     pages_ok (ppte w) (frame_owner w) (swap_owner w)"

text \<open>The 256 bytes a process sees in one of its pages.\<close>

definition content :: "mem \<Rightarrow> int \<Rightarrow> u8 \<Rightarrow> u8 list option" where
  "content w q v = map_option (page_bytes (frame_bytes (w_frame w)) (swap_bytes w)) (ppte w q v)"

text \<open>The TLB holds only translations of the running process's page table \<open>a\<close>.\<close>

definition translates :: "mem \<Rightarrow> vm_ptr \<Rightarrow> u8 \<Rightarrow> u8 \<times> bool \<times> u8 \<Rightarrow> bool" where
  "translates w a v x \<longleftrightarrow>
     (let e = pte_at w a v in present e \<and> fst x = frame_num e \<and> snd (snd x) = permissions e \<and> (fst (snd x) \<longrightarrow> dirty e))"

definition tlb_coherent :: "mem \<Rightarrow> vm_ptr \<Rightarrow> bool" where
  "tlb_coherent w a \<longleftrightarrow> tlb.coherent (translates w a) (w_tlb w)"


subsection \<open>Reading through writes\<close>

lemma upd_vm_simps [simp]:
  "w_frame (upd_vm a f w) = w_frame w" "w_swap (upd_vm a f w) = w_swap w" "w_tlb (upd_vm a f w) = w_tlb w"
  "w_pager (upd_vm a f w) = w_pager w" "w_pt (upd_vm a f w) = w_pt w" "vm_of (upd_vm a f w) = vm_of w"
  "frame_owner (upd_vm a f w) = frame_owner w" "swap_owner (upd_vm a f w) = swap_owner w"
  "swap_bytes (upd_vm a f w) = swap_bytes w"
  by (simp_all add: upd_vm_def vm_of_def fun_eq_iff frame_owner_def swap_owner_def swap_bytes_def)

lemma upd_pte_simps [simp]:
  "w_frame (upd_pte a v f w) = w_frame w" "w_swap (upd_pte a v f w) = w_swap w" "w_tlb (upd_pte a v f w) = w_tlb w"
  "w_pager (upd_pte a v f w) = w_pager w" "w_pt (upd_pte a v f w) = w_pt w" "vm_of (upd_pte a v f w) = vm_of w"
  "frame_owner (upd_pte a v f w) = frame_owner w" "swap_owner (upd_pte a v f w) = swap_owner w"
  "swap_bytes (upd_pte a v f w) = swap_bytes w"
  by (simp_all add: upd_pte_def)

lemma vm_of_mem [simp]:
  "vm_of (w\<lparr>w_frame := x\<rparr>) = vm_of w" "vm_of (w\<lparr>w_swap := y\<rparr>) = vm_of w" "vm_of (w\<lparr>w_tlb := z\<rparr>) = vm_of w"
  "vm_of (w\<lparr>w_pager := p\<rparr>) = vm_of w"
  by (simp_all add: vm_of_def fun_eq_iff)

lemma ppte_mem [simp]:
  "ppte (w\<lparr>w_frame := x\<rparr>) = ppte w" "ppte (w\<lparr>w_swap := y\<rparr>) = ppte w" "ppte (w\<lparr>w_tlb := z\<rparr>) = ppte w"
  "ppte (w\<lparr>w_pager := p\<rparr>) = ppte w"
  by (simp_all add: ppte_def fun_eq_iff split: option.split)

lemma pte_at_mem [simp]:
  "pte_at (w\<lparr>w_frame := x\<rparr>) = pte_at w" "pte_at (w\<lparr>w_swap := y\<rparr>) = pte_at w" "pte_at (w\<lparr>w_tlb := z\<rparr>) = pte_at w"
  "pte_at (w\<lparr>w_pager := p\<rparr>) = pte_at w"
  by (simp_all add: pte_at_def fun_eq_iff split: option.split)

lemma owner_mem [simp]:
  "frame_owner (w\<lparr>w_swap := y\<rparr>) = frame_owner w" "frame_owner (w\<lparr>w_tlb := z\<rparr>) = frame_owner w"
  "frame_owner (w\<lparr>w_pager := p\<rparr>) = frame_owner w"
  "swap_owner (w\<lparr>w_frame := x\<rparr>) = swap_owner w" "swap_owner (w\<lparr>w_tlb := z\<rparr>) = swap_owner w"
  "swap_owner (w\<lparr>w_pager := p\<rparr>) = swap_owner w"
  "swap_bytes (w\<lparr>w_frame := x\<rparr>) = swap_bytes w" "swap_bytes (w\<lparr>w_tlb := z\<rparr>) = swap_bytes w"
  "swap_bytes (w\<lparr>w_pager := p\<rparr>) = swap_bytes w"
  by (simp_all add: frame_owner_def swap_owner_def swap_bytes_def fun_eq_iff)

lemma vm_wf_cong: "vm_of w' = vm_of w \<Longrightarrow> (\<And>b. w_vms w' b = None \<longleftrightarrow> w_vms w b = None) \<Longrightarrow> vm_wf w' = vm_wf w"
  by (simp add: vm_wf_def)

lemma vm_wf_mem [simp]:
  "vm_wf (w\<lparr>w_frame := x\<rparr>) = vm_wf w" "vm_wf (w\<lparr>w_swap := y\<rparr>) = vm_wf w" "vm_wf (w\<lparr>w_tlb := z\<rparr>) = vm_wf w"
  "vm_wf (w\<lparr>w_pager := p\<rparr>) = vm_wf w"
  by (rule vm_wf_cong; simp)+

lemma upd_vm_None_iff [simp]: "w_vms (upd_vm a f w) b = None \<longleftrightarrow> w_vms w b = None"
  by (simp add: upd_vm_def)

lemma upd_pte_None_iff [simp]: "w_vms (upd_pte a v f w) b = None \<longleftrightarrow> w_vms w b = None"
  by (simp add: upd_pte_def)

lemma vm_wf_upd [simp]: "vm_wf (upd_vm a f w) = vm_wf w" "vm_wf (upd_pte a v g w) = vm_wf w"
  by (rule vm_wf_cong; simp)+

lemma ppte_upd_vm:
  "vm_wf w \<Longrightarrow> vm_of w q = Some a \<Longrightarrow>
     ppte (upd_vm a f w) q' v = (if q' = q then map_option (\<lambda>vm. vs_pt (f vm) v) (w_vms w a) else ppte w q' v)"
  unfolding ppte_def upd_vm_simps by (auto simp: vm_wf_def upd_vm_def option.map_comp comp_def split: option.splits)

lemma ppte_upd_pte:
  assumes "vm_wf w" "vm_of w q = Some a" "ppte w q v = Some e"
  shows "ppte (upd_pte a v f w) = set_page (ppte w) q v (f e)"
  unfolding fun_eq_iff upd_pte_def ppte_upd_vm [OF assms(1,2)] set_page_apply
  using assms by (auto simp: ppte_def split: option.splits)

lemma vm_wf_live:
  assumes "vm_wf w" "vm_of w q = Some a"
  obtains vm where "w_vms w a = Some vm"
  using assms unfolding vm_wf_def by blast

lemma pte_at_ppte:
  assumes "vm_wf w" "vm_of w q = Some a"
  shows "ppte w q v = Some (pte_at w a v)"
  using assms by (auto simp: ppte_def pte_at_def page_table_lookup_def vm_wf_def split: option.splits)

lemma pte_at_upd_pte:
  "w_vms w a \<noteq> None \<Longrightarrow> pte_at (upd_pte a v f w) b x = (if b = a \<and> x = v then f (pte_at w a v) else pte_at w b x)"
  by (auto simp: pte_at_def upd_pte_def upd_vm_def page_table_lookup_def split: option.splits)

lemma frame_owner_free: "frame_owner (w\<lparr>w_frame := frame_free f (w_frame w)\<rparr>) = (frame_owner w)(f := None)"
  by (auto simp: fun_eq_iff frame_owner_def frame_get_owner_def frame_free_def word_unat_eq_iff)

lemma frame_owner_alloc:
  assumes "frame_alloc p v (w_frame w) = (Some i, F)"
  shows "frame_owner (w\<lparr>w_frame := F\<rparr>) = (frame_owner w)(of_nat i \<mapsto> (p, v))" "frame_owner w (of_nat i) = None"
    "unat (of_nat i :: u8) = i"
proof -
  note D = frame_alloc_SomeD [OF assms]
  show u: "unat (of_nat i :: u8) = i" using D(1) by (simp add: unat_u8_of_nat)
  show "frame_owner (w\<lparr>w_frame := F\<rparr>) = (frame_owner w)(of_nat i \<mapsto> (p, v))"
  proof
    fix g :: u8
    show "frame_owner (w\<lparr>w_frame := F\<rparr>) g = ((frame_owner w)(of_nat i \<mapsto> (p, v))) g"
    proof (cases "g = of_nat i")
      case True
      then show ?thesis using D(1,5) u by (simp add: frame_owner_def frame_get_owner_def)
    next
      case False
      then have "unat g \<noteq> i" by auto
      then show ?thesis using D(5) False by (simp add: frame_owner_def frame_get_owner_def)
    qed
  qed
  show "frame_owner w (of_nat i) = None" using D(1,2) u by (simp add: frame_owner_def frame_get_owner_def)
qed

lemma frame_owner_write [simp]:
  "frame_get_owner g (frame_write_block f b F) = frame_get_owner g F"
  by (simp add: frame_get_owner_def frame_write_block_def)

lemma mem_inv_owner:
  assumes "mem_inv w" "frame_owner w f = Some (p, v)"
  obtains e where "ppte w p v = Some e" "present e" "frame_num e = f"
  using assms unfolding mem_inv_def by (blast dest: pages_ok_owner)

lemma frame_owner_less: "frame_owner w f = Some x \<Longrightarrow> unat f < 64"
  by (auto simp: frame_owner_def frame_get_owner_def split: if_splits)

lemma swap_owner_less: "swap_owner w k = Some x \<Longrightarrow> k < 256"
  by (auto simp: swap_owner_def split: if_splits)


subsection \<open>What of a page table entry locates a page\<close>

definition pte_core :: "pte \<Rightarrow> pte" where
  "pte_core e = e\<lparr>referenced := False, accessed := False, last_accessed_tick := 0\<rparr>"

definition core :: "pages \<Rightarrow> pages" where
  "core P = (\<lambda>q v. map_option pte_core (P q v))"

lemma pte_core_simps [simp]:
  "present (pte_core e) = present e" "frame_num (pte_core e) = frame_num e" "in_swap (pte_core e) = in_swap e"
  "swap_slot (pte_core e) = swap_slot e" "dirty (pte_core e) = dirty e" "permissions (pte_core e) = permissions e"
  by (simp_all add: pte_core_def)

lemma pte_coreD:
  assumes "pte_core e = pte_core e'"
  shows "present e = present e'" "frame_num e = frame_num e'" "in_swap e = in_swap e'"
    "swap_slot e = swap_slot e'" "dirty e = dirty e'" "permissions e = permissions e'"
  using arg_cong [OF assms, of present] arg_cong [OF assms, of frame_num] arg_cong [OF assms, of in_swap]
    arg_cong [OF assms, of swap_slot] arg_cong [OF assms, of dirty] arg_cong [OF assms, of permissions] by simp_all

lemma pte_core_same_mapping: "same_mapping pt pt' \<Longrightarrow> pte_core (pt' v) = pte_core (pt v)"
  unfolding same_mapping_def pte_core_def
  by (drule spec [of _ v], drule arg_cong [of _ _ "\<lambda>e. e\<lparr>accessed := False, last_accessed_tick := 0\<rparr>"]) simp

lemma core_set_page: "core (set_page P q v e) = set_page (core P) q v (pte_core e)"
  by (auto simp: core_def set_page_def fun_eq_iff)

lemma core_apply: "core P q v = map_option pte_core (P q v)"
  by (simp add: core_def)

lemma coreD: "core P' = core P \<Longrightarrow> map_option pte_core (P' q v) = map_option pte_core (P q v)"
  by (metis core_def)

lemma core_SomeD:
  assumes "core P' = core P" "P' q v = Some e'"
  obtains e where "P q v = Some e" "pte_core e' = pte_core e"
  using coreD [OF assms(1), of q v] assms(2) by (auto simp: map_option_case split: option.splits)

lemma pages_ok_core:
  assumes ok: "pages_ok P G S" and c: "core P' = core P"
  shows "pages_ok P' G S"
proof (rule pages_okI)
  fix q v e' assume e': "P' q v = Some e'"
  then obtain e where e: "P q v = Some e" "pte_core e' = pte_core e" by (rule core_SomeD [OF c])
  then show "present e' \<Longrightarrow> \<not> in_swap e' \<and> G (frame_num e') = Some (q, v)"
    "in_swap e' \<Longrightarrow> S (unat (swap_slot e')) = Some (q, v)"
    using pages_ok_present [OF ok e(1)] pages_ok_swapped [OF ok e(1)] by (simp_all add: pte_coreD [OF e(2)])
next
  fix f q v assume "G f = Some (q, v)"
  then obtain e where e: "P q v = Some e" "present e" "frame_num e = f" using pages_ok_owner [OF ok] by blast
  obtain e' where "P' q v = Some e'" "pte_core e = pte_core e'" by (rule core_SomeD [OF c [symmetric] e(1)])
  then show "\<exists>e. P' q v = Some e \<and> present e \<and> frame_num e = f" using e by (auto dest: pte_coreD)
qed

lemma page_bytes_core: "map_option (page_bytes F B) (core P q v) = map_option (page_bytes F B) (P q v)"
  by (cases "P q v") (simp_all add: core_def page_bytes_def)

lemma mem_inv_core:
  assumes "mem_inv w" "core (ppte w') = core (ppte w)" "vm_wf w'" "w_frame w' = w_frame w" "w_swap w' = w_swap w"
    "pager_ok (w_pager w')"
  shows "mem_inv w'" "content w' = content w" "frame_owner w' = frame_owner w" "swap_owner w' = swap_owner w"
    "swap_bytes w' = swap_bytes w"
proof -
  show G: "frame_owner w' = frame_owner w" and S: "swap_owner w' = swap_owner w" and B: "swap_bytes w' = swap_bytes w"
    using assms by (simp_all add: frame_owner_def swap_owner_def swap_bytes_def fun_eq_iff)
  then show "mem_inv w'" using assms pages_ok_core [OF _ assms(2)] by (simp add: mem_inv_def)
  have "content x q v = map_option (page_bytes (frame_bytes (w_frame x)) (swap_bytes x)) (core (ppte x) q v)" for x q v
    by (simp add: content_def page_bytes_core)
  then have "content w' q v = content w q v" for q v by (simp add: assms(2,4) B)
  then show "content w' = content w" by (simp add: fun_eq_iff)
qed

lemma translates_core:
  assumes "pte_core (pte_at w' a v) = pte_core (pte_at w a v)"
  shows "translates w' a v x = translates w a v x"
  unfolding translates_def Let_def pte_coreD [OF assms] ..


subsection \<open>Bytes under unmapping and mapping\<close>

lemma page_bytes_unmap:
  assumes ok: "pages_ok P G S" and e: "P p v = Some e" "present e"
    and e': "\<not> present e'" "in_swap e' \<Longrightarrow> S (unat (swap_slot e')) = None"
    and B': "B' = (if in_swap e' then B(unat (swap_slot e') := F (unat (frame_num e))) else B)"
  shows "map_option (page_bytes F B') (set_page P p v e' q x) =
    (if (q, x) = (p, v) then Some (if in_swap e' then F (unat (frame_num e)) else replicate 256 0)
     else map_option (page_bytes F B) (P q x))"
proof (cases "(q, x) = (p, v)")
  case True
  then show ?thesis using e' B' by (simp add: set_page_apply page_bytes_def)
next
  case False
  have "page_bytes F B' y = page_bytes F B y" if "P q x = Some y" for y
    using pages_ok_swapped [OF ok that] e'(2) B' by (auto simp: page_bytes_def)
  then show ?thesis using False by (cases "P q x") (auto simp: set_page_apply)
qed

lemma page_bytes_map:
  assumes ok: "pages_ok P G S" and e: "P p v = Some e" and f: "G f = None"
    and e': "present e'" "frame_num e' = f"
    and F': "F' = F(unat f := page_bytes F B e)"
  shows "map_option (page_bytes F' B) (set_page P p v e' q x) = map_option (page_bytes F B) (P q x)"
proof (cases "(q, x) = (p, v)")
  case True
  then show ?thesis using e e' F' by (simp add: set_page_apply page_bytes_def)
next
  case False
  have "page_bytes F' B y = page_bytes F B y" if y: "P q x = Some y" for y
  proof -
    have "present y \<Longrightarrow> frame_num y \<noteq> f" using pages_ok_present(2) [OF ok y] f by auto
    then show ?thesis using F' by (auto simp: page_bytes_def word_unat_eq_iff)
  qed
  then show ?thesis using False by (cases "P q x") (auto simp: set_page_apply)
qed

lemma swap_alloc_out:
  assumes a: "swap_alloc p v (w_swap w) = (Some k, sw)" and f: "unat f < 64"
    and w': "w' = w\<lparr>w_swap := swap_out f (of_nat k) (w_frame w) sw\<rparr>"
  shows "swap_owner w k = None" "swap_owner w' = (swap_owner w)(k \<mapsto> (p, v))"
    "swap_bytes w' = (swap_bytes w)(k := frame_bytes (w_frame w) (unat f))" "unat (of_nat k :: u16) = k"
proof -
  note D = swap_alloc_SomeD [OF a]
  show u: "unat (of_nat k :: u16) = k" using D(1) by (simp add: unat_u16_of_nat)
  show "swap_owner w k = None" using D(2) by (simp add: swap_owner_def)
  show "swap_owner w' = (swap_owner w)(k \<mapsto> (p, v))" using D(1,5) u by (auto simp: w' swap_owner_def swap_out_def fun_eq_iff)
  have "swap_bytes w' j = ((swap_bytes w)(k := frame_bytes (w_frame w) (unat f))) j" for j
    using swap_out_mem [of "of_nat k" f "w_frame w" sw] swap_out_other [of j "of_nat k" f "w_frame w" sw] D(1,6) u f
    by (simp add: w' swap_bytes_def)
  then show "swap_bytes w' = (swap_bytes w)(k := frame_bytes (w_frame w) (unat f))" by (rule ext)
qed


section \<open>Eviction\<close>

lemma set_page_twice [simp]: "set_page (set_page P q v e) q v e' = set_page P q v e'"
  by (auto simp: set_page_def fun_eq_iff)

lemma set_page_same [simp]: "set_page P q v e q v = Some e"
  by (simp add: set_page_apply)

lemma unmap_victim_simps:
  "w_swap (unmap_victim f p v b w) = w_swap w" "w_pager (unmap_victim f p v b w) = w_pager w"
  "w_pt (unmap_victim f p v b w) = w_pt w" "vm_of (unmap_victim f p v b w) = vm_of w"
  "w_tlb (unmap_victim f p v b w) = tlb_flush_entry v (w_tlb w)"
  "w_frame (unmap_victim f p v b w) = frame_free f (w_frame w)"
  "frame_owner (unmap_victim f p v b w) = (frame_owner w)(f := None)"
  "swap_owner (unmap_victim f p v b w) = swap_owner w" "swap_bytes (unmap_victim f p v b w) = swap_bytes w"
  "vm_wf (unmap_victim f p v b w) = vm_wf w"
  using frame_owner_free [where f = f and w = w] by (simp_all add: unmap_victim_def Let_def frame_owner_def fun_eq_iff)

lemma ppte_unmap_victim:
  "vm_wf w \<Longrightarrow> vm_of w p = Some b \<Longrightarrow> ppte w p v = Some e \<Longrightarrow>
     ppte (unmap_victim f p v b w) = set_page (ppte w) p v (e\<lparr>present := False, dirty := False\<rparr>)"
  by (simp add: unmap_victim_def Let_def ppte_upd_pte)

text \<open>The protection of every page.\<close>

definition perms :: "mem \<Rightarrow> int \<Rightarrow> u8 \<Rightarrow> u8 option" where
  "perms w q x = map_option permissions (ppte w q x)"

lemma perms_core: "core (ppte w') = core (ppte w) \<Longrightarrow> perms w' = perms w"
  using arg_cong [of _ _ "map_option permissions", OF coreD]
  by (fastforce simp: perms_def fun_eq_iff option.map_comp comp_def)

lemma perms_set_page:
  "ppte w' = set_page (ppte w) q v e' \<Longrightarrow> ppte w q v = Some e \<Longrightarrow> permissions e' = permissions e \<Longrightarrow> perms w' = perms w"
  by (auto simp: perms_def fun_eq_iff set_page_apply)

text \<open>
  The effect of an eviction: the page \<open>(p, v)\<close> gives up its frame \<open>f\<close>; its bytes are those it
  had when the page was dirty, and zeros otherwise; all else stays.
\<close>

definition evicted :: "mem \<Rightarrow> int \<Rightarrow> u8 \<Rightarrow> u8 \<Rightarrow> mem \<Rightarrow> bool" where
  "evicted w p v f w' \<longleftrightarrow> mem_inv w' \<and> vm_of w' = vm_of w \<and> w_tlb w' = tlb_flush_entry v (w_tlb w) \<and>
     frame_owner w f = Some (p, v) \<and> frame_owner w' = (frame_owner w)(f := None) \<and> perms w' = perms w \<and>
     (\<forall>q x. (q, x) \<noteq> (p, v) \<longrightarrow> core (ppte w') q x = core (ppte w) q x) \<and>
     (\<forall>q x. content w' q x =
        (if (q, x) = (p, v) \<and> \<not> dirty (the (ppte w p v)) then Some (replicate 256 0) else content w q x))"

lemma evicted_unmap:
  assumes inv: "mem_inv w" and b: "vm_of w p = Some b" and e: "ppte w p v = Some e" "present e"
    and w2: "vm_wf w2" "vm_of w2 = vm_of w" "w_tlb w2 = w_tlb w" "w_frame w2 = w_frame w" "w_pager w2 = w_pager w"
      "ppte w2 = set_page (ppte w) p v e2" "swap_inv (w_swap w2)"
    and e2: "in_swap e2 = dirty e" "permissions e2 = permissions e" "in_swap e2 \<Longrightarrow> swap_owner w (unat (swap_slot e2)) = None"
      "swap_owner w2 = (if in_swap e2 then (swap_owner w)(unat (swap_slot e2) \<mapsto> (p, v)) else swap_owner w)"
      "swap_bytes w2 = (if in_swap e2 then (swap_bytes w)(unat (swap_slot e2) := frame_bytes (w_frame w) (unat (frame_num e)))
                        else swap_bytes w)"
  shows "evicted w p v (frame_num e) (unmap_victim (frame_num e) p v b w2)"
proof -
  let ?w = "unmap_victim (frame_num e) p v b w2"
  let ?e = "e2\<lparr>present := False, dirty := False\<rparr>"
  have i: "vm_wf w" "frame_inv (w_frame w)" "pager_ok (w_pager w)" "pages_ok (ppte w) (frame_owner w) (swap_owner w)"
    using inv by (auto simp: mem_inv_def)
  have P: "ppte ?w = set_page (ppte w) p v ?e"
    using ppte_unmap_victim [of w2 p b v e2 "frame_num e"] w2 b by simp
  have G: "frame_owner w2 = frame_owner w" using w2(4) by (simp add: frame_owner_def fun_eq_iff)
  have ok: "pages_ok (ppte ?w) (frame_owner ?w) (swap_owner ?w)"
    unfolding P unmap_victim_simps G by (rule pages_ok_unmap [OF i(4) e]) (use e2 in auto)
  have own: "frame_owner w (frame_num e) = Some (p, v)" using pages_ok_present(2) [OF i(4) e] .
  have "content ?w q x = (if (q, x) = (p, v) then Some (if in_swap ?e then frame_bytes (w_frame w) (unat (frame_num e))
      else replicate 256 0) else content w q x)" for q x
    unfolding content_def P unmap_victim_simps w2(4) frame_bytes_free
    by (rule page_bytes_unmap [OF i(4) e]) (use e2(3) in \<open>simp_all add: e2(5)\<close>)
  moreover have "content w p v = Some (frame_bytes (w_frame w) (unat (frame_num e)))"
    using e by (simp add: content_def page_bytes_def)
  ultimately have c: "content ?w q x = (if (q, x) = (p, v) \<and> \<not> dirty (the (ppte w p v)) then Some (replicate 256 0)
      else content w q x)" for q x using e e2(1) by auto
  have "perms ?w = perms w" by (rule perms_set_page [OF P e(1)]) (simp add: e2(2))
  moreover have "mem_inv ?w" unfolding mem_inv_def using ok i w2 by (simp add: unmap_victim_simps frame_inv_free)
  ultimately show ?thesis unfolding evicted_def using c own w2
    by (simp add: unmap_victim_simps G P core_apply set_page_apply)
qed

lemma evict_victim_evicted:
  assumes inv: "mem_inv w" and b: "vm_of w p = Some b" and e: "ppte w p v = Some e" "present e"
    and ev: "evict_victim (frame_num e) p v b w = (ok, w')"
  shows "if ok then evicted w p v (frame_num e) w' else w' = w"
proof -
  have wf: "vm_wf w" and sw: "swap_inv (w_swap w)" and po: "pages_ok (ppte w) (frame_owner w) (swap_owner w)"
    using inv by (auto simp: mem_inv_def)
  have at: "pte_at w b v = e" using pte_at_ppte [OF wf b, of v] e by simp
  have ns: "\<not> in_swap e" using pages_ok_present(1) [OF po e] .
  have f: "unat (frame_num e) < 64" using pages_ok_present(2) [OF po e] by (rule frame_owner_less)
  show ?thesis
  proof (cases "dirty e")
    case False
    then have "ok" "w' = unmap_victim (frame_num e) p v b w" using ev at by (auto simp: evict_victim_def)
    moreover have "ppte w = set_page (ppte w) p v e" using e by (auto simp: set_page_def fun_eq_iff)
    ultimately show ?thesis using evicted_unmap [OF inv b e, of w e] wf sw ns False by simp
  next
    case True
    obtain r s where a: "swap_alloc p v (w_swap w) = (r, s)" by (cases "swap_alloc p v (w_swap w)")
    show ?thesis
    proof (cases r)
      case None
      then show ?thesis using ev at True ns a swap_alloc_NoneD(1) [of p v "w_swap w" s] by (simp add: evict_victim_def)
    next
      case (Some k)
      let ?w1 = "w\<lparr>w_swap := swap_out (frame_num e) (of_nat k) (w_frame w) s\<rparr>"
      let ?w2 = "upd_pte b v (\<lambda>e. e\<lparr>swap_slot := of_nat k, in_swap := True\<rparr>) ?w1"
      note S = swap_alloc_out [OF a [unfolded Some] f refl]
      have w': "ok" "w' = unmap_victim (frame_num e) p v b ?w2" using ev at True ns a Some by (auto simp: evict_victim_def Let_def)
      have "ppte ?w2 = set_page (ppte w) p v (e\<lparr>swap_slot := of_nat k, in_swap := True\<rparr>)"
        using ppte_upd_pte [of ?w1 p b v e] wf b e by simp
      moreover have "swap_inv (w_swap ?w2)" using sw a Some by (simp add: swap_inv_out swap_inv_alloc)
      ultimately show ?thesis unfolding w'(2)
        using evicted_unmap [OF inv b e, of ?w2 "e\<lparr>swap_slot := of_nat k, in_swap := True\<rparr>"] wf S True w'(1) by simp
    qed
  qed
qed



lemma pager_ok_evict:
  assumes "pager_ok s" "g_policy_state s = Some ps" "policy_evict ps pt = (v, ps', pt')"
  shows "pager_ok (s\<lparr>g_policy_state := Some ps'\<rparr>)"
  using assms policy_evict_facts [of ps pt v ps' pt'] by (auto simp: pager_ok_def)

lemma policy_apply_simps [simp]:
  "w_frame (policy_apply f w) = w_frame w" "w_swap (policy_apply f w) = w_swap w" "w_tlb (policy_apply f w) = w_tlb w"
  "w_pt (policy_apply f w) = w_pt w" "w_vms (policy_apply f w) = w_vms w"
  "vm_of (policy_apply f w) = vm_of w" "ppte (policy_apply f w) = ppte w" "pte_at (policy_apply f w) = pte_at w"
  "frame_owner (policy_apply f w) = frame_owner w" "swap_owner (policy_apply f w) = swap_owner w"
  "swap_bytes (policy_apply f w) = swap_bytes w" "vm_wf (policy_apply f w) = vm_wf w"
  by (simp_all add: policy_apply_def split: option.split)

lemma pager_ok_apply:
  assumes "pager_ok (w_pager w)" "\<And>ps. policy_inv ps \<Longrightarrow> policy_inv (f ps) \<and> set (policy_tracked (f ps)) \<subseteq> insert n (set (policy_tracked ps))"
    "unat n < 64"
  shows "pager_ok (w_pager (policy_apply f w))"
  using assms by (auto simp: pager_ok_def policy_apply_def split: option.splits)

lemma evicted_core:
  assumes ev: "evicted w1 p v f w'" and c: "core (ppte w1) = core (ppte w)" and "vm_of w1 = vm_of w" "w_tlb w1 = w_tlb w"
    "frame_owner w1 = frame_owner w" "content w1 = content w"
  shows "evicted w p v f w'"
proof -
  have "dirty (the (ppte w1 p v)) = dirty (the (ppte w p v))"
    using coreD [OF c, of p v] by (cases "ppte w1 p v"; cases "ppte w p v") (auto dest: pte_coreD)
  then show ?thesis using assms perms_core [OF c] by (simp add: evicted_def)
qed

lemma pager_evict_choice:
  assumes inv: "mem_inv w" and a: "vm_of w q = Some a"
    and k: "g_policy (w_pager w) = Some k" "g_policy_state (w_pager w) = Some ps" "w_vms w a = Some vm"
    and pe: "policy_evict ps (vs_pt vm) = (r, ps', pt')"
    and w1: "w1 = upd_vm a (\<lambda>vm. vm\<lparr>vs_pt := pt'\<rparr>) (w\<lparr>w_pager := (w_pager w)\<lparr>g_policy_state := Some ps'\<rparr>\<rparr>)"
  shows "core (ppte w1) = core (ppte w)" "vm_of w1 = vm_of w" "w_tlb w1 = w_tlb w" "mem_inv w1" "content w1 = content w"
    "frame_owner w1 = frame_owner w" "swap_owner w1 = swap_owner w"
    "pager_evict a w =
      (case r of None \<Rightarrow> (False, w1)
       | Some f \<Rightarrow> (case frame_owner w1 f of None \<Rightarrow> (False, w1)
         | Some (p, v) \<Rightarrow> (case vm_of w1 p of None \<Rightarrow> (False, w1) | Some b \<Rightarrow> evict_victim f p v b w1)))"
proof -
  have wf: "vm_wf w" and po: "pager_ok (w_pager w)" using inv by (auto simp: mem_inv_def)
  have sm: "same_mapping (vs_pt vm) pt'" using policy_evict_facts [OF _ pe] po k by (auto simp: pager_ok_def)
  have "core (ppte w1) q' v = core (ppte w) q' v" for q' v
    unfolding core_apply w1 using ppte_upd_vm [of "w\<lparr>w_pager := (w_pager w)\<lparr>g_policy_state := Some ps'\<rparr>\<rparr>" q a] wf a k(3)
    by (simp add: ppte_def pte_core_same_mapping [OF sm])
  then show c: "core (ppte w1) = core (ppte w)" by (simp add: fun_eq_iff)
  have s1: "vm_wf w1" "w_frame w1 = w_frame w" "w_swap w1 = w_swap w" "pager_ok (w_pager w1)"
    using wf pager_ok_evict [OF po k(2) pe] by (simp_all add: w1)
  show "mem_inv w1" "content w1 = content w" "frame_owner w1 = frame_owner w" "swap_owner w1 = swap_owner w"
    by (rule mem_inv_core [OF inv c s1])+
  show "vm_of w1 = vm_of w" "w_tlb w1 = w_tlb w" by (simp_all add: w1)
  show "pager_evict a w =
      (case r of None \<Rightarrow> (False, w1)
       | Some f \<Rightarrow> (case frame_owner w1 f of None \<Rightarrow> (False, w1)
         | Some (p, v) \<Rightarrow> (case vm_of w1 p of None \<Rightarrow> (False, w1) | Some b \<Rightarrow> evict_victim f p v b w1)))"
    by (simp add: pager_evict_def k pe w1 vm_of_def frame_owner_def split: option.split)
qed

lemma pager_evict_cases:
  assumes inv: "mem_inv w" and a: "vm_of w q = Some a" and ev: "pager_evict a w = (ok, w')"
  shows "(ok \<and> (\<exists>p v f. evicted w p v f w')) \<or>
         (\<not> ok \<and> core (ppte w') = core (ppte w) \<and> vm_of w' = vm_of w \<and> mem_inv w' \<and> content w' = content w \<and>
              frame_owner w' = frame_owner w \<and> w_tlb w' = w_tlb w)"
proof (cases "g_policy (w_pager w) = None \<or> g_policy_state (w_pager w) = None \<or> w_vms w a = None")
  case True
  then have "\<not> ok" "w' = w" using ev by (auto simp: pager_evict_def split: option.splits)
  then show ?thesis using inv by simp
next
  case False
  then obtain k ps vm where k: "g_policy (w_pager w) = Some k" "g_policy_state (w_pager w) = Some ps" "w_vms w a = Some vm" by auto
  obtain r ps' pt' where pe: "policy_evict ps (vs_pt vm) = (r, ps', pt')" by (cases "policy_evict ps (vs_pt vm)")
  define w1 where "w1 = upd_vm a (\<lambda>vm. vm\<lparr>vs_pt := pt'\<rparr>) (w\<lparr>w_pager := (w_pager w)\<lparr>g_policy_state := Some ps'\<rparr>\<rparr>)"
  note C = pager_evict_choice [OF inv a k pe w1_def]
  show ?thesis
  proof (cases "\<exists>f p v b. r = Some f \<and> frame_owner w1 f = Some (p, v) \<and> vm_of w1 p = Some b")
    case False
    then have "\<not> ok" "w' = w1" using ev C(8) by (auto split: option.splits)
    then show ?thesis using C by simp
  next
    case True
    then obtain f p v b where f: "r = Some f" "frame_owner w1 f = Some (p, v)" "vm_of w1 p = Some b" by blast
    obtain e where e: "ppte w1 p v = Some e" "present e" "frame_num e = f" by (rule mem_inv_owner [OF C(4) f(2)])
    have "evict_victim (frame_num e) p v b w1 = (ok, w')" using ev C(8) f e by simp
    then have "if ok then evicted w1 p v (frame_num e) w' else w' = w1" by (rule evict_victim_evicted [OF C(4) f(3) e(1,2)])
    then consider "ok" "evicted w p v (frame_num e) w'" | "\<not> ok" "w' = w1"
      using evicted_core [OF _ C(1,2,3,6,5), of p v "frame_num e" w'] by (cases ok) auto
    then show ?thesis by cases (use C in blast)+
  qed
qed


section \<open>The rest of a fault\<close>

text \<open>
  What follows the allocation of frame \<open>i\<close> in state \<open>w\<close>: the page's old bytes, from swap or
  zeros, are put into the frame, the page is mapped there, its swap slot is released.
\<close>

lemma pager_fill_simps:
  assumes "pte_at w a v = e"
  shows "w_frame (pager_fill a v f (in_swap e) w) =
      (if in_swap e then fst (swap_in (swap_slot e) f (w_frame w) (w_swap w)) else frame_write_block f (\<lambda>_. 0) (w_frame w))"
    and "w_swap (pager_fill a v f (in_swap e) w) =
      (if in_swap e then swap_free (swap_slot e) (snd (swap_in (swap_slot e) f (w_frame w) (w_swap w))) else w_swap w)"
    and "w_tlb (pager_fill a v f m w) = w_tlb w" "w_pt (pager_fill a v f m w) = w_pt w"
    and "vm_of (pager_fill a v f m w) = vm_of w" "vm_wf (pager_fill a v f m w) = vm_wf w"
    and "g_policy (w_pager (pager_fill a v f m w)) = g_policy (w_pager w)"
    and "g_policy_state (w_pager (pager_fill a v f m w)) = g_policy_state (w_pager w)"
  using assms by (simp_all add: pager_fill_def Let_def split_beta)

lemma ppte_fill:
  assumes "vm_wf w" "vm_of w q = Some a" "ppte w q v = Some e"
  shows "ppte (pager_fill a v f (in_swap e) w) =
    set_page (ppte w) q v (if in_swap e then e\<lparr>in_swap := False, swap_slot := 0\<rparr> else e)"
proof (cases "in_swap e")
  case True
  have "ppte (upd_pte a v h (w\<lparr>w_frame := F, w_swap := S\<rparr>)) = set_page (ppte w) q v (h e)" for h F S
    using ppte_upd_pte [of "w\<lparr>w_frame := F, w_swap := S\<rparr>" q a v e h] assms by simp
  then show ?thesis using True by (simp add: pager_fill_def Let_def split_beta)
next
  case False
  then show ?thesis using assms(3) by (auto simp: pager_fill_def Let_def set_page_def fun_eq_iff)
qed

definition mapped_pte :: "u8 \<Rightarrow> bool \<Rightarrow> u64 \<Rightarrow> pte \<Rightarrow> pte" where
  "mapped_pte f write t e = e\<lparr>frame_num := f, present := True, in_swap := False, accessed := True, referenced := True,
     dirty := write, last_accessed_tick := ucast t\<rparr>"

lemma mapped_pte_simps [simp]:
  "present (mapped_pte f write t e)" "\<not> in_swap (mapped_pte f write t e)" "frame_num (mapped_pte f write t e) = f"
  "dirty (mapped_pte f write t e) = write" "permissions (mapped_pte f write t e) = permissions e"
  by (simp_all add: mapped_pte_def)

lemma pager_map_simps:
  "w_frame (pager_map a v f b t w) = w_frame w" "w_swap (pager_map a v f b t w) = w_swap w"
  "w_pt (pager_map a v f b t w) = w_pt w" "vm_of (pager_map a v f b t w) = vm_of w"
  "vm_wf (pager_map a v f b t w) = vm_wf w" "frame_owner (pager_map a v f b t w) = frame_owner w"
  "swap_owner (pager_map a v f b t w) = swap_owner w" "swap_bytes (pager_map a v f b t w) = swap_bytes w"
  by (simp_all add: pager_map_def Let_def)

lemma pager_map_pte:
  assumes "vm_wf w" "vm_of w q = Some a" "ppte w q v = Some e"
  shows "ppte (pager_map a v f b t w) = set_page (ppte w) q v (mapped_pte f b t e)"
    and "w_tlb (pager_map a v f b t w) = tlb_insert v f b (permissions e) t (tlb_flush_entry v (w_tlb w))"
proof -
  define w1 where "w1 = upd_pte a v (\<lambda>e. e\<lparr>accessed := True, referenced := True, dirty := b, last_accessed_tick := ucast t\<rparr>)
    (upd_vm a (\<lambda>vm. vm\<lparr>vs_pt := page_table_map (vs_pt vm) v f (permissions (vs_pt vm v))\<rparr>) w)"
  have "w1 = upd_pte a v (mapped_pte f b t) w"
    by (simp add: w1_def upd_pte_def upd_vm_def option.map_comp comp_def page_table_map_def mapped_pte_def)
  then have P: "ppte w1 = set_page (ppte w) q v (mapped_pte f b t e)" using ppte_upd_pte [OF assms] by simp
  then show "ppte (pager_map a v f b t w) = set_page (ppte w) q v (mapped_pte f b t e)"
    by (simp add: pager_map_def Let_def w1_def)
  have "pte_at w1 a v = mapped_pte f b t e" using pte_at_ppte [of w1 q a v] assms P by (simp add: w1_def)
  then show "w_tlb (pager_map a v f b t w) = tlb_insert v f b (permissions e) t (tlb_flush_entry v (w_tlb w))"
    by (simp add: pager_map_def Let_def w1_def)
qed


lemma swap_in_free_simps:
  "g_swap_mem (snd (swap_in k f F s)) = g_swap_mem s"
  "m_allocated (g_swap_meta (swap_free k (snd (swap_in k f F s))) j) = (m_allocated (g_swap_meta s j) \<and> (j \<noteq> unat k \<or> \<not> unat k < 256))"
  "j \<noteq> unat k \<Longrightarrow> g_swap_meta (swap_free k (snd (swap_in k f F s))) j = g_swap_meta s j"
  by (auto simp: swap_in_def swap_free_def)

lemma frame_bytes_fill:
  assumes al: "frame_alloc q v F0 = (Some i, F)" and k: "in_swap e \<Longrightarrow> unat (swap_slot e) < 256" and e: "\<not> present e"
  shows "frame_bytes (if in_swap e then fst (swap_in (swap_slot e) (of_nat i) F s) else frame_write_block (of_nat i) (\<lambda>_. 0) F) =
    (frame_bytes F0)(i := page_bytes B (\<lambda>k. map (g_swap_mem s k) [0..<256]) e)"
proof -
  have i: "i < 64" and u: "unat (of_nat i :: u8) = i" using frame_alloc_SomeD(1) [OF al] by (simp_all add: unat_u8_of_nat)
  have z: "map (\<lambda>_. 0 :: u8) [0..<256] = replicate 256 0" by (simp add: map_replicate_const)
  show ?thesis
    using swap_in_bytes [of "swap_slot e" "of_nat i" F s] frame_bytes_write_block [of "of_nat i" "\<lambda>_. 0" F]
      frame_bytes_alloc [OF al] i k e z
    by (auto simp: fun_eq_iff u page_bytes_def)
qed

lemma fault_effect:
  assumes inv: "mem_inv w" and a: "vm_of w q = Some a" and e: "ppte w q v = Some e" "\<not> present e"
    and al: "frame_alloc q v (w_frame w) = (Some i, F)"
    and g: "g_policy_state g = g_policy_state (w_pager w)"
    and w1: "w1 = w\<lparr>w_frame := F, w_pager := g\<rparr>"
    and w': "w' = pager_map a v (of_nat i) wr t (pager_fill a v (of_nat i) (in_swap e) w1)"
  shows "mem_inv w' \<and> content w' = content w \<and> vm_of w' = vm_of w \<and>
    frame_owner w' = (frame_owner w)(of_nat i \<mapsto> (q, v)) \<and>
    (\<exists>e'. ppte w' = set_page (ppte w) q v e' \<and> present e' \<and> frame_num e' = of_nat i \<and> permissions e' = permissions e \<and> dirty e' = wr) \<and>
    w_tlb w' = tlb_insert v (of_nat i) wr (permissions e) t (tlb_flush_entry v (w_tlb w))"
proof -
  have i: "vm_wf w" "frame_inv (w_frame w)" "swap_inv (w_swap w)" "pager_ok (w_pager w)"
    "pages_ok (ppte w) (frame_owner w) (swap_owner w)" using inv by (auto simp: mem_inv_def)
  let ?f = "of_nat i :: u8" and ?w2 = "pager_fill a v (of_nat i) (in_swap e) w1"
  let ?e2 = "if in_swap e then e\<lparr>in_swap := False, swap_slot := 0\<rparr> else e"
  have O: "frame_owner (w\<lparr>w_frame := F\<rparr>) = (frame_owner w)(?f \<mapsto> (q, v))" "frame_owner w ?f = None" "unat ?f = i"
    using frame_owner_alloc [OF al] by auto
  have k: "in_swap e \<Longrightarrow> unat (swap_slot e) < 256" using pages_ok_swapped [OF i(5) e(1)] by (auto dest: swap_owner_less)
  have w1s: "vm_wf w1" "vm_of w1 = vm_of w" "ppte w1 = ppte w" "w_frame w1 = F" "w_swap w1 = w_swap w" "w_tlb w1 = w_tlb w"
    using i(1) by (simp_all add: w1)
  have at: "pte_at w1 a v = e" using pte_at_ppte [OF w1s(1), of q a v] w1s a e by simp
  note fs = pager_fill_simps [OF at, of ?f]
  have w2: "vm_wf ?w2" "vm_of ?w2 = vm_of w" "ppte ?w2 = set_page (ppte w) q v ?e2"
    using ppte_fill [OF w1s(1), of q a v e ?f] w1s a e fs by simp_all
  have P: "ppte w' = set_page (ppte w) q v (mapped_pte ?f wr t ?e2)"
    and T: "w_tlb w' = tlb_insert v ?f wr (permissions e) t (tlb_flush_entry v (w_tlb w))"
    using pager_map_pte [OF w2(1), of q a v ?e2 ?f wr t] w2 a w1s fs by (simp_all add: w')
  have Fr: "w_frame w' = (if in_swap e then fst (swap_in (swap_slot e) ?f F (w_swap w)) else frame_write_block ?f (\<lambda>_. 0) F)"
    and Sw: "w_swap w' = (if in_swap e then swap_free (swap_slot e) (snd (swap_in (swap_slot e) ?f F (w_swap w))) else w_swap w)"
    using fs w1s by (simp_all add: w' pager_map_simps)
  have own: "frame_owner w' = (frame_owner w)(?f \<mapsto> (q, v))"
    using O(1) by (auto simp: fun_eq_iff frame_owner_def Fr swap_in_def)
  have so: "swap_owner w' = (if in_swap e then (swap_owner w)(unat (swap_slot e) := None) else swap_owner w)"
    using k by (auto simp: fun_eq_iff swap_owner_def Sw swap_in_free_simps)
  have B: "swap_bytes w' = swap_bytes w" by (simp add: swap_bytes_def Sw swap_in_free_simps fun_eq_iff)
  have ok: "pages_ok (ppte w') (frame_owner w') (swap_owner w')" unfolding P own
    by (rule pages_ok_map [OF i(5) e O(2)]) (simp_all add: so)
  have F': "frame_bytes (w_frame w') = (frame_bytes (w_frame w))(unat ?f := page_bytes (frame_bytes (w_frame w)) (swap_bytes w) e)"
    unfolding Fr O(3) swap_bytes_def by (rule frame_bytes_fill [OF al k e(2)])
  have "content w' q' x = content w q' x" for q' x unfolding content_def P B
    by (rule page_bytes_map [OF i(5) e(1) O(2) _ _ F']) simp_all
  moreover have "frame_inv (w_frame w')" using frame_inv_alloc [OF i(2) al] by (simp add: Fr swap_in_def frame_inv_write_block)
  moreover have "swap_inv (w_swap w')" using i(3) by (simp add: Sw swap_inv_free swap_inv_in)
  moreover have "pager_ok (w_pager w')"
  proof -
    have "unat ?f < 64" using O(3) frame_alloc_SomeD(1) [OF al] by simp
    moreover have "pager_ok (w_pager ?w2)" using i(4) g fs by (simp add: pager_ok_def w1)
    ultimately show ?thesis by (simp add: w' pager_map_def Let_def) (rule pager_ok_apply [where n = ?f]; simp add: policy_insert_facts)
  qed
  ultimately show ?thesis using ok w2 T P own by (auto simp: mem_inv_def w' pager_map_simps fun_eq_iff)
qed


section \<open>An access as a whole\<close>

lemma pages_ok_relabel:
  assumes ok: "pages_ok P G S" and e: "P q v = Some e"
    and e': "present e' = present e" "frame_num e' = frame_num e" "in_swap e' = in_swap e" "swap_slot e' = swap_slot e"
  shows "pages_ok (set_page P q v e') G S"
    and "map_option (page_bytes F B) (set_page P q v e' p x) = map_option (page_bytes F B) (P p x)"
proof -
  show "pages_ok (set_page P q v e') G S"
  proof (rule pages_okI)
    fix q1 v1 x assume x: "set_page P q v e' q1 v1 = Some x"
    show "present x \<Longrightarrow> \<not> in_swap x \<and> G (frame_num x) = Some (q1, v1)" "in_swap x \<Longrightarrow> S (unat (swap_slot x)) = Some (q1, v1)"
      using x e' pages_ok_present [OF ok, of q1 v1] pages_ok_swapped [OF ok, of q1 v1] e by (auto simp: set_page_apply split: if_splits)
  next
    fix f q1 v1 assume "G f = Some (q1, v1)"
    then obtain x where "P q1 v1 = Some x" "present x" "frame_num x = f" using pages_ok_owner [OF ok] by blast
    then show "\<exists>x. set_page P q v e' q1 v1 = Some x \<and> present x \<and> frame_num x = f" using e e' by (auto simp: set_page_apply)
  qed
  show "map_option (page_bytes F B) (set_page P q v e' p x) = map_option (page_bytes F B) (P p x)"
    using e e' by (auto simp: set_page_apply page_bytes_def)
qed

lemma tlb_coherent_change:
  assumes "tlb_coherent w a" "w_tlb w' = tlb_flush_entry v (w_tlb w)" "vm_wf w" "vm_wf w'" "vm_of w q = Some a" "vm_of w' = vm_of w"
    "\<And>x. x \<noteq> v \<Longrightarrow> core (ppte w') q x = core (ppte w) q x"
  shows "tlb_coherent w' a"
proof -
  have "translates w' a x y" if "x \<noteq> v" "translates w a x y" for x y
    using that translates_core [of w' a x w y] assms(7) [OF that(1)] pte_at_ppte [OF assms(3,5), of x] pte_at_ppte [OF assms(4), of q a x] assms(5,6)
    by (simp add: core_apply)
  then show ?thesis using assms(1,2) tlb.coherent_flush_entry [of "translates w a" "w_tlb w" v "translates w' a"] by (simp add: tlb_coherent_def)
qed

lemma pager_hit_effect:
  assumes inv: "mem_inv w" and a: "vm_of w q = Some a" and c: "tlb_coherent w a" and e: "ppte w q v = Some e" "present e"
  shows "mem_inv (pager_hit a v wr t w) \<and> content (pager_hit a v wr t w) = content w \<and> vm_of (pager_hit a v wr t w) = vm_of w \<and>
    frame_owner (pager_hit a v wr t w) = frame_owner w \<and> tlb_coherent (pager_hit a v wr t w) a \<and>
    (\<exists>e'. ppte (pager_hit a v wr t w) = set_page (ppte w) q v e' \<and> present e' \<and> frame_num e' = frame_num e \<and>
       permissions e' = permissions e \<and> dirty e' = (wr \<or> dirty e))"
proof -
  define e1 where "e1 = e\<lparr>accessed := True, referenced := True, last_accessed_tick := ucast t, dirty := (if wr then True else dirty e)\<rparr>"
  have e1: "present e1 = present e" "frame_num e1 = frame_num e" "in_swap e1 = in_swap e" "swap_slot e1 = swap_slot e"
    "permissions e1 = permissions e" "dirty e1 = (wr \<or> dirty e)" by (simp_all add: e1_def)
  define w1 where "w1 = upd_pte a v (\<lambda>e. e\<lparr>accessed := True, referenced := True, last_accessed_tick := ucast t,
    dirty := (if wr then True else dirty e)\<rparr>) w"
  define w2 where "w2 = policy_apply (policy_update (frame_num e1) t wr) w1"
  have i: "vm_wf w" "pager_ok (w_pager w)" "pages_ok (ppte w) (frame_owner w) (swap_owner w)" using inv by (auto simp: mem_inv_def)
  have P: "ppte w1 = set_page (ppte w) q v e1" using ppte_upd_pte [OF i(1) a e(1)] by (simp add: w1_def e1_def)
  have at: "pte_at w1 a v = e1" using pte_at_ppte [of w1 q a v] i(1) a P by (simp add: w1_def)
  have w': "pager_hit a v wr t w = w2\<lparr>w_tlb := tlb_insert v (frame_num e1) (dirty e1) (permissions e1) t (w_tlb w)\<rparr>"
    unfolding pager_hit_def Let_def w1_def [symmetric] at by (simp add: w2_def w1_def)
  have f: "unat (frame_num e) < 64" using pages_ok_present(2) [OF i(3) e] by (rule frame_owner_less)
  have "pager_ok (w_pager w2)" unfolding w2_def
    by (rule pager_ok_apply [where n = "frame_num e"]) (use f i(2) in \<open>simp_all add: w1_def e1 policy_update_facts\<close>)
  moreover have "pages_ok (set_page (ppte w) q v e1) (frame_owner w) (swap_owner w)" by (rule pages_ok_relabel(1) [OF i(3) e(1) e1(1-4)])
  ultimately have m: "mem_inv w2" using inv P by (simp add: mem_inv_def w2_def) (simp add: w1_def)
  have "content w2 p x = content w p x" for p x unfolding content_def w2_def policy_apply_simps P
    using pages_ok_relabel(2) [OF i(3) e(1) e1(1-4), of "frame_bytes (w_frame w)" "swap_bytes w" p x] by (simp add: w1_def)
  then have ct: "content w2 = content w" by (simp add: fun_eq_iff)
  have sv: "vm_wf w2" "vm_of w2 = vm_of w" "ppte w2 = set_page (ppte w) q v e1" "frame_owner w2 = frame_owner w" using i(1) P by (simp_all add: w2_def) (simp_all add: w1_def)
  have at2: "pte_at w2 a x = (if x = v then e1 else pte_at w a x)" for x
    using pte_at_ppte [OF sv(1), of q a x] pte_at_ppte [OF i(1) a, of x] sv a by (auto simp: set_page_apply split: if_splits)
  have "tlb.coherent (translates w2 a) (w_tlb w)"
    using c unfolding tlb_coherent_def by (rule tlb.coherent_mono) (use at2 e pte_at_ppte [OF i(1) a, of v] in \<open>auto simp: translates_def Let_def e1\<close>)
  then have "tlb.coherent (translates w2 a) (w_tlb (pager_hit a v wr t w))"
    unfolding w' using at2 [of v] e(2) by (simp add: tlb.coherent_insert translates_def Let_def e1)
  moreover have "translates (pager_hit a v wr t w) a = translates w2 a" by (simp add: w' translates_def fun_eq_iff)
  ultimately have "tlb_coherent (pager_hit a v wr t w) a" by (simp add: tlb_coherent_def)
  moreover have "mem_inv (pager_hit a v wr t w)" "content (pager_hit a v wr t w) = content w"
    using m ct by (simp_all add: w' mem_inv_def content_def fun_eq_iff)
  ultimately show ?thesis using sv e(2) e1 by (auto simp: w')
qed


lemma tlb_coherent_core:
  assumes "tlb_coherent w a" "w_tlb w' = w_tlb w" "vm_wf w" "vm_wf w'" "vm_of w q = Some a" "vm_of w' = vm_of w"
    "core (ppte w') = core (ppte w)"
  shows "tlb_coherent w' a"
proof -
  have "translates w' a x y = translates w a x y" for x y
    using translates_core [of w' a x w y] coreD [OF assms(7), of q x] pte_at_ppte [OF assms(3,5), of x] pte_at_ppte [OF assms(4), of q a x] assms(5,6)
    by simp
  then show ?thesis using assms(1,2) tlb.coherent_mono by (simp add: tlb_coherent_def)
qed

lemma evicted_alloc:
  assumes "evicted w p x f w'"
  obtains i F where "frame_alloc q v (w_frame w') = (Some i, F)"
proof (cases "fst (frame_alloc q v (w_frame w'))")
  case None
  have own: "frame_owner w f = Some (p, x)" "frame_owner w' f = None" using assms by (auto simp: evicted_def)
  then have "unat f < 64" "\<not> m_allocated (g_frames (w_frame w') (unat f))"
    by (auto simp: frame_owner_def frame_get_owner_def split: if_splits)
  moreover have "{..<64} \<subseteq> busy_frames (w_frame w')" using frame_alloc_NoneD(2) [of q v "w_frame w'"] None by (metis prod.collapse)
  ultimately show ?thesis by (auto simp: used_slots_def)
next
  case (Some i)
  then show ?thesis using that by (metis prod.collapse)
qed

lemma pager_get_frame_cases:
  assumes inv: "mem_inv w" and a: "vm_of w q = Some a" and c: "tlb_coherent w a" and e: "ppte w q v = Some e" "\<not> present e"
    and g: "pager_get_frame q a v w = (r, w1)"
  shows "(r = None \<and> mem_inv w1 \<and> content w1 = content w \<and> perms w1 = perms w \<and> vm_of w1 = vm_of w \<and> tlb_coherent w1 a) \<or>
    (\<exists>i w0 F h e0. r = Some i \<and> mem_inv w0 \<and> vm_of w0 = vm_of w \<and> tlb_coherent w0 a \<and> ppte w0 q v = Some e0 \<and> pte_core e0 = pte_core e \<and>
       frame_alloc q v (w_frame w0) = (Some i, F) \<and> w1 = w0\<lparr>w_frame := F, w_pager := h\<rparr> \<and> g_policy_state h = g_policy_state (w_pager w0) \<and>
       (w0 = w \<or> (\<exists>p x f. evicted w p x f w0)))"
proof -
  have wf: "vm_wf w" using inv by (simp add: mem_inv_def)
  obtain r0 F where al: "frame_alloc q v (w_frame w) = (r0, F)" by (cases "frame_alloc q v (w_frame w)")
  show ?thesis
  proof (cases r0)
    case (Some i)
    then have "r = Some i" "w1 = w\<lparr>w_frame := F, w_pager := w_pager w\<rparr>" using g al by (auto simp: pager_get_frame_def)
    then show ?thesis using inv c e al Some by blast
  next
    case None
    then have F: "w\<lparr>w_frame := F\<rparr> = w" using frame_alloc_NoneD(1) [of q v "w_frame w" F] al by simp
    obtain ok w0 where ev: "pager_evict a w = (ok, w0)" by (cases "pager_evict a w")
    show ?thesis
    proof (cases ok)
      case False
      then have r: "r = None" "w1 = w0" using g al None ev F by (auto simp: pager_get_frame_def)
      have f: "core (ppte w0) = core (ppte w)" "vm_of w0 = vm_of w" "mem_inv w0" "content w0 = content w" "w_tlb w0 = w_tlb w"
        using pager_evict_cases [OF inv a ev] False by auto
      then have "vm_wf w0" by (simp add: mem_inv_def)
      then show ?thesis using r f tlb_coherent_core [OF c f(5) wf _ a f(2,1)] perms_core [OF f(1)] by simp
    next
      case True
      then obtain p x f where evd: "evicted w p x f w0" using pager_evict_cases [OF inv a ev] by auto
      obtain i F' where al': "frame_alloc q v (w_frame w0) = (Some i, F')" by (rule evicted_alloc [OF evd])
      have o: "mem_inv w0" "vm_of w0 = vm_of w" "w_tlb w0 = tlb_flush_entry x (w_tlb w)" "frame_owner w f = Some (p, x)"
        "\<And>q' y. (q', y) \<noteq> (p, x) \<Longrightarrow> core (ppte w0) q' y = core (ppte w) q' y" using evd by (auto simp: evicted_def)
      obtain e1 where "ppte w p x = Some e1" "present e1" by (rule mem_inv_owner [OF inv o(4)])
      then have "(q, v) \<noteq> (p, x)" using e by auto
      then have cq: "core (ppte w0) q v = core (ppte w) q v" by (rule o(5))
      then obtain e0 where e0: "ppte w0 q v = Some e0" "pte_core e0 = pte_core e" using e by (auto simp: core_apply)
      have "vm_wf w0" using o(1) by (simp add: mem_inv_def)
      then have "tlb_coherent w0 a" using tlb_coherent_change [OF c o(3) wf _ a o(2)] o(5) by simp
      moreover have "r = Some i" "\<exists>h. w1 = w0\<lparr>w_frame := F', w_pager := h\<rparr> \<and> g_policy_state h = g_policy_state (w_pager w0)"
        using g al None ev F True al' by (auto simp: pager_get_frame_def)
      ultimately show ?thesis using o(1,2) e0 al' evd by blast
    qed
  qed
qed


lemma tlb_coherent_mapped:
  assumes c: "tlb_coherent w a" and wf: "vm_wf w" "vm_wf w'" and a: "vm_of w q = Some a" "vm_of w' = vm_of w"
    and P: "ppte w' = set_page (ppte w) q v e'" "present e'" "frame_num e' = f" "permissions e' = p" "dirty e' = d"
    and T: "w_tlb w' = tlb_insert v f d p t (tlb_flush_entry v (w_tlb w))"
  shows "tlb_coherent w' a"
proof -
  have at: "pte_at w' a x = (if x = v then e' else pte_at w a x)" for x
    using pte_at_ppte [OF wf(1) a(1), of x] pte_at_ppte [OF wf(2), of q a x] a P(1) by (auto simp: set_page_apply split: if_splits)
  have "tlb.coherent (translates w' a) (tlb_flush_entry v (w_tlb w))"
    using c unfolding tlb_coherent_def by (rule tlb.coherent_flush_entry) (simp add: translates_def at)
  moreover have "translates w' a v (f, d, p)" using P by (simp add: translates_def at)
  ultimately show ?thesis unfolding tlb_coherent_def T by (rule tlb.coherent_insert)
qed

text \<open>What an access may do to the bytes of the pages: nothing, or zero one clean present page other than the accessed one.\<close>

definition clean_page :: "mem \<Rightarrow> int \<Rightarrow> u8 \<Rightarrow> bool" where
  "clean_page w q x \<longleftrightarrow> (case ppte w q x of Some e \<Rightarrow> present e \<and> \<not> dirty e | None \<Rightarrow> False)"

definition discards :: "mem \<Rightarrow> int \<Rightarrow> u8 \<Rightarrow> mem \<Rightarrow> bool" where
  "discards w p x w' \<longleftrightarrow> clean_page w p x \<and>
     (\<forall>q y. content w' q y = (if (q, y) = (p, x) then Some (replicate 256 0) else content w q y))"

lemma evicted_content:
  assumes inv: "mem_inv w" and ev: "evicted w p x f w'"
  shows "content w' = content w \<or> discards w p x w'"
proof -
  have "frame_owner w f = Some (p, x)" using ev by (simp add: evicted_def)
  then obtain e where e: "ppte w p x = Some e" "present e" by (rule mem_inv_owner [OF inv])
  show ?thesis
  proof (cases "dirty e")
    case True
    then have "content w' = content w" using ev e by (auto simp: evicted_def fun_eq_iff)
    then show ?thesis ..
  next
    case False
    then have "discards w p x w'" using ev e by (auto simp: evicted_def discards_def clean_page_def)
    then show ?thesis ..
  qed
qed

lemma evicted_not_present:
  assumes inv: "mem_inv w" and ev: "evicted w p x f w'"
  shows "\<not> (\<exists>e. ppte w' p x = Some e \<and> present e)"
proof
  assume "\<exists>e. ppte w' p x = Some e \<and> present e"
  then obtain e where e: "ppte w' p x = Some e" "present e" by blast
  have o: "mem_inv w'" "frame_owner w f = Some (p, x)" "frame_owner w' = (frame_owner w)(f := None)" using ev by (auto simp: evicted_def)
  have "frame_owner w' (frame_num e) = Some (p, x)" using o(1) e pages_ok_present(2) unfolding mem_inv_def by blast
  then have g: "frame_num e \<noteq> f" "frame_owner w (frame_num e) = Some (p, x)" using o(3) by (auto split: if_splits)
  obtain e1 where "ppte w p x = Some e1" "frame_num e1 = f" by (rule mem_inv_owner [OF inv o(2)])
  moreover obtain e2 where "ppte w p x = Some e2" "frame_num e2 = frame_num e" by (rule mem_inv_owner [OF inv g(2)])
  ultimately show False using g(1) by simp
qed

lemma clean_page_core:
  "core P' q x = core P q x \<Longrightarrow> (case P' q x of Some e \<Rightarrow> present e \<and> \<not> dirty e | None \<Rightarrow> False) =
     (case P q x of Some e \<Rightarrow> present e \<and> \<not> dirty e | None \<Rightarrow> False)"
  by (cases "P' q x"; cases "P q x") (auto simp: core_apply dest: pte_coreD)

lemma evicted_clean:
  assumes inv: "mem_inv w" and ev: "evicted w p x f w'" and c: "clean_page w' q y"
  shows "clean_page w q y"
proof (cases "(q, y) = (p, x)")
  case True
  then show ?thesis using evicted_not_present [OF inv ev] c by (auto simp: clean_page_def split: option.splits)
next
  case False
  then show ?thesis using c clean_page_core [of "ppte w'" q y "ppte w"] ev by (simp add: clean_page_def evicted_def)
qed

lemma pager_access_fault:
  assumes inv: "mem_inv w" and a: "vm_of w q = Some a" and c: "tlb_coherent w a" and e: "ppte w q v = Some e" "\<not> present e"
    and g: "pager_get_frame q a v w = (Some i, w1)"
    and w': "w' = pager_map a v (of_nat i) wr t (pager_fill a v (of_nat i) (in_swap e) w1)"
  shows "mem_inv w' \<and> tlb_coherent w' a \<and> vm_of w' = vm_of w \<and> perms w' = perms w \<and> frame_owner w' (of_nat i) = Some (q, v) \<and>
    (\<exists>e'. ppte w' q v = Some e' \<and> present e' \<and> frame_num e' = of_nat i \<and> permissions e' = permissions e \<and> dirty e' = wr) \<and>
    (content w' = content w \<or> (\<exists>p x. (p, x) \<noteq> (q, v) \<and> discards w p x w')) \<and>
    (\<forall>p x. (p, x) \<noteq> (q, v) \<longrightarrow> clean_page w' p x \<longrightarrow> clean_page w p x)"
proof -
  obtain w0 F h e0 where w0: "mem_inv w0" "vm_of w0 = vm_of w" "tlb_coherent w0 a" "ppte w0 q v = Some e0" "pte_core e0 = pte_core e"
      "frame_alloc q v (w_frame w0) = (Some i, F)" "w1 = w0\<lparr>w_frame := F, w_pager := h\<rparr>" "g_policy_state h = g_policy_state (w_pager w0)"
    and o: "w0 = w \<or> (\<exists>p x f. evicted w p x f w0)"
    using pager_get_frame_cases [OF inv a c e g] by blast
  have e0: "\<not> present e0" "in_swap e = in_swap e0" "permissions e0 = permissions e" using e(2) pte_coreD [OF w0(5)] by auto
  note fe = fault_effect [OF w0(1) _ w0(4) e0(1) w0(6) w0(8,7) w' [unfolded e0(2)]]
  have fe: "mem_inv w'" "content w' = content w0" "vm_of w' = vm_of w" "frame_owner w' (of_nat i) = Some (q, v)"
    "w_tlb w' = tlb_insert v (of_nat i) wr (permissions e) t (tlb_flush_entry v (w_tlb w0))"
    using fe a w0(2) e0(3) by auto
  obtain e' where e': "ppte w' = set_page (ppte w0) q v e'" "present e'" "frame_num e' = of_nat i" "permissions e' = permissions e" "dirty e' = wr"
    using fault_effect [OF w0(1) _ w0(4) e0(1) w0(6) w0(8,7) w' [unfolded e0(2)]] a w0(2) e0(3) by auto
  have "tlb_coherent w' a" using fe(1) w0(1) a
    by (intro tlb_coherent_mapped [OF w0(3) _ _ _ _ e' fe(5)]) (auto simp: mem_inv_def w0(2) fe(3))
  moreover have "content w' = content w \<or> (\<exists>p x. (p, x) \<noteq> (q, v) \<and> discards w p x w')"
    using o
  proof
    assume "\<exists>p x f. evicted w p x f w0"
    then obtain p x f where ev: "evicted w p x f w0" by blast
    have "discards w p x w' \<Longrightarrow> (p, x) \<noteq> (q, v)" using e by (auto simp: discards_def clean_page_def)
    moreover have "content w' = content w \<or> discards w p x w'"
      using evicted_content [OF inv ev] fe(2) by (simp add: discards_def)
    ultimately show ?thesis by blast
  qed (use fe(2) in simp)
  moreover have "perms w' = perms w"
    using perms_set_page [OF e'(1) w0(4)] e'(4) e0(3) o by (auto simp: evicted_def)
  moreover have "clean_page w p x" if "(p, x) \<noteq> (q, v)" "clean_page w' p x" for p x
  proof -
    have "clean_page w0 p x" using that by (auto simp: clean_page_def e'(1) set_page_apply)
    then show ?thesis using o evicted_clean [OF inv] by blast
  qed
  ultimately show ?thesis using fe e' by auto
qed


text \<open>The branches of an access: refused, hit, no frame, fault.\<close>

lemma pager_access_branches:
  assumes inv: "mem_inv w" and a: "vm_of w q = Some a" and acc: "pager_access_page q a v wr t w = (r, out, w')"
  obtains (perm) "permissions (pte_at w a v) AND (if wr then 2 else 1) \<noteq> (if wr then 2 else 1)" "r = PAGER_ERROR_PERM" "out = None" "w' = w"
  | (hit) "permissions (pte_at w a v) AND (if wr then 2 else 1) = (if wr then 2 else 1)" "present (pte_at w a v)"
      "r = PAGER_HIT" "out = Some (frame_num (pte_at w a v))" "w' = pager_hit a v wr t w"
  | (oom) "permissions (pte_at w a v) AND (if wr then 2 else 1) = (if wr then 2 else 1)" "\<not> present (pte_at w a v)"
      "pager_get_frame q a v w = (None, w')" "r = PAGER_ERROR_OOM" "out = None"
  | (fault) i w1 where "permissions (pte_at w a v) AND (if wr then 2 else 1) = (if wr then 2 else 1)" "\<not> present (pte_at w a v)"
      "pager_get_frame q a v w = (Some i, w1)" "r = (if in_swap (pte_at w a v) then PAGER_FAULT_MAJOR else PAGER_FAULT_MINOR)"
      "out = Some (of_nat i)" "w' = pager_map a v (of_nat i) wr t (pager_fill a v (of_nat i) (in_swap (pte_at w a v)) w1)"
proof -
  let ?e = "pte_at w a v" and ?need = "if wr then 2 else 1 :: u8"
  obtain vm where vm: "w_vms w a = Some vm" by (rule vm_wf_live [OF _ a]) (use inv in \<open>auto simp: mem_inv_def\<close>)
  then have e: "page_table_lookup (vs_pt vm) v = ?e" by (simp add: pte_at_def)
  then have permits: "page_table_validate_permissions (vs_pt vm) v (if wr then VM_PROT_WRITE else VM_PROT_READ) \<longleftrightarrow> permissions ?e AND ?need = ?need"
    by (simp add: page_table_validate_permissions_def page_table_lookup_def vm_prots)
  obtain g w1 where g: "pager_get_frame q a v w = (g, w1)" by (cases "pager_get_frame q a v w")
  consider "permissions ?e AND ?need \<noteq> ?need" | "permissions ?e AND ?need = ?need" "present ?e"
    | "permissions ?e AND ?need = ?need" "\<not> present ?e" "g = None"
    | i where "permissions ?e AND ?need = ?need" "\<not> present ?e" "g = Some i" by (cases g) blast+
  then show ?thesis
    using acc vm e permits g by cases (auto simp: pager_access_page_def Let_def intro: perm hit oom fault)
qed

lemma pager_access_all:
  assumes "mem_inv w" "vm_of w q = Some a" "tlb_coherent w a" "pager_access_page q a v wr t w = (r, out, w')"
  shows "mem_inv w' \<and> tlb_coherent w' a \<and> vm_of w' = vm_of w \<and> perms w' = perms w \<and> r \<noteq> PAGER_ERROR_ADDR \<and>
    (r = PAGER_ERROR_PERM \<longleftrightarrow> permissions (pte_at w a v) AND (if wr then 2 else 1) \<noteq> (if wr then 2 else 1)) \<and>
    (r = PAGER_ERROR_PERM \<longrightarrow> w' = w) \<and>
    (r = PAGER_ERROR_PERM \<or> r = PAGER_ERROR_OOM \<longrightarrow> out = None \<and> content w' = content w) \<and>
    (r \<in> {PAGER_HIT, PAGER_FAULT_MINOR, PAGER_FAULT_MAJOR} \<longrightarrow>
       present (pte_at w' a v) \<and> out = Some (frame_num (pte_at w' a v)) \<and> (wr \<longrightarrow> dirty (pte_at w' a v)) \<and>
       content w q v = Some (frame_bytes (w_frame w') (unat (frame_num (pte_at w' a v)))) \<and>
       permissions (pte_at w' a v) = permissions (pte_at w a v) \<and>
       (content w' = content w \<or> r \<noteq> PAGER_HIT \<and> (\<exists>p x. (p, x) \<noteq> (q, v) \<and> discards w p x w')) \<and>
       (\<forall>p x. (p, x) \<noteq> (q, v) \<longrightarrow> clean_page w' p x \<longrightarrow> clean_page w p x)) \<and>
    (r = PAGER_HIT \<longleftrightarrow> permissions (pte_at w a v) AND (if wr then 2 else 1) = (if wr then 2 else 1) \<and> present (pte_at w a v))"
proof -
  have wf: "vm_wf w" using assms(1) by (simp add: mem_inv_def)
  define e where "e = pte_at w a v"
  have e: "ppte w q v = Some e" using pte_at_ppte [OF wf assms(2), of v] by (simp add: e_def)
  have read: "present (pte_at w' a v)" "content w' q v = Some (frame_bytes (w_frame w') (unat (frame_num e')))" "pte_at w' a v = e'"
    if "mem_inv w'" "vm_of w' = vm_of w" "ppte w' q v = Some e'" "present e'" for e'
    using that pte_at_ppte [of w' q a v] assms(2) by (simp_all add: mem_inv_def content_def page_bytes_def)
  have stay: "content w' = content w \<or> (\<exists>p x. (p, x) \<noteq> (q, v) \<and> discards w p x w') \<Longrightarrow> content w' q v = content w q v"
    by (auto simp: discards_def)
  from assms(1,2,4) show ?thesis
  proof (cases rule: pager_access_branches)
    case perm
    then show ?thesis using assms(1,2,3) by simp
  next
    case hit
    obtain e' where e': "ppte w' = set_page (ppte w) q v e'" "present e'" "frame_num e' = frame_num e" "dirty e' = (wr \<or> dirty e)"
      "permissions e' = permissions e" "mem_inv w'" "content w' = content w" "vm_of w' = vm_of w" "tlb_coherent w' a"
      using pager_hit_effect [OF assms(1,2,3) e(1) hit(2) [folded e_def], of wr t] unfolding hit(5) by blast
    moreover have "perms w' = perms w" by (rule perms_set_page [OF e'(1) e(1) e'(5)])
    moreover have "clean_page w' p x = clean_page w p x" if "(p, x) \<noteq> (q, v)" for p x
      using that e'(1) by (auto simp: clean_page_def set_page_apply)
    ultimately show ?thesis using read [of e'] hit(1-4) by (simp add: e_def)
  next
    case oom
    then show ?thesis using pager_get_frame_cases [OF assms(1,2,3) e(1) oom(2) [folded e_def] oom(3)] by simp
  next
    case (fault i w1)
    note f = pager_access_fault [OF assms(1,2,3) e(1) fault(2) [folded e_def] fault(3) fault(6) [folded e_def]]
    then obtain e' where e': "ppte w' q v = Some e'" "present e'" "frame_num e' = of_nat i" "dirty e' = wr"
      "permissions e' = permissions e" by auto
    have rd: "pte_at w' a v = e'" "content w' q v = Some (frame_bytes (w_frame w') (unat (of_nat i :: u8)))"
      using read [OF _ _ e'(1,2)] f e'(3) by auto
    have "content w q v = Some (frame_bytes (w_frame w') (unat (of_nat i :: u8)))" using stay f rd(2) by metis
    then show ?thesis using f fault(1,2,4,5) e' rd by (simp add: e_def)
  qed
qed


lemma pager_access_facts:
  assumes "mem_inv w" "vm_of w q = Some a" "tlb_coherent w a" "pager_access_page q a v wr t w = (r, out, w')"
  shows "mem_inv w'" "tlb_coherent w' a" "vm_of w' = vm_of w" "perms w' = perms w"
    "r = PAGER_ERROR_PERM \<or> r = PAGER_ERROR_OOM \<or> r \<in> {PAGER_HIT, PAGER_FAULT_MINOR, PAGER_FAULT_MAJOR}"
    "r = PAGER_ERROR_PERM \<or> r = PAGER_ERROR_OOM \<Longrightarrow> out = None \<and> content w' = content w"
  using pager_access_all [OF assms] pager_result.exhaust [of r] by blast+

lemma pager_access_success:
  assumes "mem_inv w" "vm_of w q = Some a" "tlb_coherent w a" "pager_access_page q a v wr t w = (r, out, w')"
    and "r \<in> {PAGER_HIT, PAGER_FAULT_MINOR, PAGER_FAULT_MAJOR}"
  shows "permissions (pte_at w a v) AND (if wr then 2 else 1) = (if wr then 2 else 1)"
    "present (pte_at w' a v)" "out = Some (frame_num (pte_at w' a v))" "wr \<longrightarrow> dirty (pte_at w' a v)"
    "content w q v = Some (frame_bytes (w_frame w') (unat (frame_num (pte_at w' a v))))"
    "permissions (pte_at w' a v) = permissions (pte_at w a v)"
    "content w' = content w \<or> r \<noteq> PAGER_HIT \<and> (\<exists>p x. (p, x) \<noteq> (q, v) \<and> discards w p x w')"
    "(p, x) \<noteq> (q, v) \<Longrightarrow> clean_page w' p x \<Longrightarrow> clean_page w p x" "present (pte_at w a v) \<Longrightarrow> r = PAGER_HIT"
  using pager_access_all [OF assms(1-4)] assms(5) by blast+


section \<open>When an access runs out of memory\<close>

text \<open>The policy can name every frame in use.\<close>

definition tracks_frames :: "mem \<Rightarrow> bool" where
  "tracks_frames w \<longleftrightarrow> g_policy (w_pager w) \<noteq> None \<and>
     (case g_policy_state (w_pager w) of None \<Rightarrow> False
      | Some ps \<Rightarrow> \<forall>f. frame_owner w f \<noteq> None \<longrightarrow> f \<in> set (policy_tracked ps))"

lemma policy_evict_set:
  "policy_inv ps \<Longrightarrow> policy_evict ps pt = (Some f, ps', pt') \<Longrightarrow> set (policy_tracked ps') = set (policy_tracked ps) - {f}"
  by (cases ps) (auto split: prod.splits dest: fifo.evict_not_tracked lru.evict_not_tracked clock.evict_not_tracked)

lemma frame_list_room:
  assumes "distinct xs" "\<forall>g \<in> set xs. unat g < 64" "f \<notin> set xs" "unat (f :: u8) < 64"
  shows "length xs < 64"
proof -
  have "unat ` set (f # xs) \<subseteq> {..<64}" using assms by auto
  then have "card (unat ` set (f # xs)) \<le> 64" using card_mono [of "{..<64 :: nat}"] by fastforce
  moreover have "inj_on unat (set (f # xs))" by (auto simp: inj_on_def word_unat_eq_iff)
  ultimately show ?thesis using assms(1,3) by (simp add: card_image distinct_card del: image_insert)
qed

lemma policy_insert_set:
  assumes "policy_inv ps" "\<forall>g \<in> set (policy_tracked ps). unat g < 64" "unat f < 64"
  shows "set (policy_tracked (policy_insert f t ps)) = insert f (set (policy_tracked ps))"
proof -
  have d: "distinct (policy_tracked ps)" using assms(1)
    by (cases ps) (auto simp: fifo.sound_distinct lru.sound_distinct clock.sound_distinct)
  show ?thesis
  proof (cases "f \<in> set (policy_tracked ps)")
    case True
    then show ?thesis using assms(1) by (cases ps) (auto simp: fifo.insert_tracked lru.insert_tracked clock.insert_tracked)
  next
    case False
    then have "length (policy_tracked ps) < 64" by (rule frame_list_room [OF d assms(2) _ assms(3)])
    then show ?thesis using assms(1) by (cases ps) (auto simp: fifo.insert_tracked lru.insert_tracked clock.insert_tracked)
  qed
qed

lemma evict_victim_pager: "w_pager (snd (evict_victim f p v b w)) = w_pager w"
  by (simp add: evict_victim_def Let_def unmap_victim_simps split: prod.split option.split)

lemma evict_victim_succeeds:
  assumes inv: "mem_inv w" and b: "vm_of w p = Some b" and e: "ppte w p v = Some e" "present e"
    and free: "k < 256" "swap_owner w k = None"
  shows "fst (evict_victim f p v b w)"
proof -
  have wf: "vm_wf w" and po: "pages_ok (ppte w) (frame_owner w) (swap_owner w)" using inv by (auto simp: mem_inv_def)
  have at: "pte_at w b v = e" "\<not> in_swap e" using pte_at_ppte [OF wf b, of v] e pages_ok_present(1) [OF po e] by simp_all
  have "\<not> m_allocated (g_swap_meta (w_swap w) k)" using free by (auto simp: swap_owner_def split: if_splits)
  then have "fst (swap_alloc p v (w_swap w)) \<noteq> None"
    using swap_alloc_NoneD(2) [of p v "w_swap w"] free(1) by (cases "swap_alloc p v (w_swap w)") (auto simp: used_slots_def)
  then show ?thesis using at by (auto simp: evict_victim_def split: prod.splits)
qed

lemma pager_evict_succeeds:
  assumes inv: "mem_inv w" and a: "vm_of w q = Some a" and tr: "tracks_frames w"
    and full: "\<And>f. unat f < 64 \<Longrightarrow> frame_owner w f \<noteq> None" and free: "k < 256" "swap_owner w k = None"
    and ev: "pager_evict a w = (ok, w')"
  shows "ok \<and> tracks_frames w'"
proof -
  have wf: "vm_wf w" and po: "pager_ok (w_pager w)" using inv by (auto simp: mem_inv_def)
  obtain vm where vm: "w_vms w a = Some vm" by (rule vm_wf_live [OF wf a])
  obtain j ps where k: "g_policy (w_pager w) = Some j" "g_policy_state (w_pager w) = Some ps"
    and all: "\<And>f. frame_owner w f \<noteq> None \<Longrightarrow> f \<in> set (policy_tracked ps)"
    using tr by (auto simp: tracks_frames_def split: option.splits)
  have ps: "policy_inv ps" "\<And>f. f \<in> set (policy_tracked ps) \<Longrightarrow> unat f < 64" using po k(2) by (auto simp: pager_ok_def)
  obtain r ps' pt' where pe: "policy_evict ps (vs_pt vm) = (r, ps', pt')" by (cases "policy_evict ps (vs_pt vm)")
  define w1 where "w1 = upd_vm a (\<lambda>vm. vm\<lparr>vs_pt := pt'\<rparr>) (w\<lparr>w_pager := (w_pager w)\<lparr>g_policy_state := Some ps'\<rparr>\<rparr>)"
  note C = pager_evict_choice [OF inv a k vm pe w1_def]
  have "policy_tracked ps \<noteq> []" using all [of 0] full [of 0] by auto
  then obtain f where f: "r = Some f" "f \<in> set (policy_tracked ps)" using policy_evict_facts [OF ps(1) pe] by (cases r) auto
  then obtain p v where o: "frame_owner w1 f = Some (p, v)" using full [OF ps(2) [OF f(2)]] C(6) by auto
  obtain e where e: "ppte w1 p v = Some e" "present e" "frame_num e = f" by (rule mem_inv_owner [OF C(4) o])
  then obtain b where b: "vm_of w1 p = Some b" by (auto simp: ppte_def split: option.splits)
  have v: "evict_victim f p v b w1 = (ok, w')" using ev C(8) f(1) o b by simp
  then have ok: ok using evict_victim_succeeds [OF C(4) b e(1,2) free(1), of f] free(2) C(7) by simp
  then have "evicted w1 p v f w'" using evict_victim_evicted [OF C(4) b e(1,2)] v e(3) by auto
  then have "frame_owner w' = (frame_owner w)(f := None)" using C(6) by (simp add: evicted_def)
  moreover have "w_pager w' = (w_pager w)\<lparr>g_policy_state := Some ps'\<rparr>"
    using arg_cong [OF v, of "\<lambda>x. w_pager (snd x)"] by (simp add: evict_victim_pager w1_def)
  moreover have "set (policy_tracked ps') = set (policy_tracked ps) - {f}" using policy_evict_set [OF ps(1)] pe f(1) by simp
  ultimately show ?thesis using ok k all by (auto simp: tracks_frames_def)
qed

lemma frame_alloc_owner_full:
  assumes "frame_alloc q v (w_frame w) = (None, F)" "unat f < 64"
  shows "frame_owner w f \<noteq> None"
  using frame_alloc_NoneD(2) [OF assms(1)] assms(2) by (auto simp: frame_owner_def frame_get_owner_def used_slots_def)

lemma pager_get_frame_succeeds:
  assumes inv: "mem_inv w" and a: "vm_of w q = Some a" and tr: "tracks_frames w"
    and free: "k < 256" "swap_owner w k = None"
  obtains i w0 F h where "pager_get_frame q a v w = (Some i, w0\<lparr>w_frame := F, w_pager := h\<rparr>)" "mem_inv w0" "tracks_frames w0"
    "frame_alloc q v (w_frame w0) = (Some i, F)" "g_policy h = g_policy (w_pager w0)" "g_policy_state h = g_policy_state (w_pager w0)"
proof (cases "frame_alloc q v (w_frame w)")
  case (Pair r F)
  show ?thesis
  proof (cases r)
    case (Some i)
    then have "pager_get_frame q a v w = (Some i, w\<lparr>w_frame := F, w_pager := w_pager w\<rparr>)" using Pair by (simp add: pager_get_frame_def)
    then show ?thesis using that inv tr Pair Some by blast
  next
    case None
    have full: "frame_owner w f \<noteq> None" if "unat f < 64" for f using frame_alloc_owner_full [OF _ that] Pair None by blast
    obtain ok w0 where ev: "pager_evict a w = (ok, w0)" by (cases "pager_evict a w")
    have ok: ok "tracks_frames w0" using pager_evict_succeeds [OF inv a tr full free ev] by auto
    then obtain p x f where evd: "evicted w p x f w0" using pager_evict_cases [OF inv a ev] by auto
    obtain i F' where al: "frame_alloc q v (w_frame w0) = (Some i, F')" by (rule evicted_alloc [OF evd])
    have "F = w_frame w" using frame_alloc_NoneD(1) Pair None by blast
    then have "pager_get_frame q a v w = (Some i, w0\<lparr>w_frame := F', w_pager := (w_pager w0)\<lparr>g_pager_stats := (g_pager_stats (w_pager w0))
        \<lparr>ps_evictions := ps_evictions (g_pager_stats (w_pager w0)) + 1\<rparr>\<rparr>\<rparr>)"
      using Pair None ev ok al by (simp add: pager_get_frame_def)
    then show ?thesis by (rule that) (use evd ok al in \<open>simp_all add: evicted_def\<close>)
  qed
qed


section \<open>Properties\<close>

text \<open>C5. An access through the pager is right on every branch. It keeps the paging invariant (each
  present page owns its frame, each swapped page its slot, no two pages share one) and the
  coherence of the TLB. A success returns the frame in which the accessed page now is, marked
  dirty by a write, with the page's earlier bytes; a lack of permission changes nothing, and
  neither a lack of permission nor of memory changes the bytes of any page. A success changes
  the bytes of at most one other page: a clean present page that is evicted reads as zeros.\<close>

theorem pager_access_correct:
  assumes "mem_inv w" "vm_of w q = Some a" "tlb_coherent w a" "pager_access_page q a v wr t w = (r, out, w')"
  shows "mem_inv w' \<and> tlb_coherent w' a \<and> vm_of w' = vm_of w \<and> r \<noteq> PAGER_ERROR_ADDR \<and>
    (r = PAGER_ERROR_PERM \<longleftrightarrow> permissions (pte_at w a v) AND (if wr then 2 else 1) \<noteq> (if wr then 2 else 1)) \<and>
    (r = PAGER_ERROR_PERM \<longrightarrow> w' = w) \<and>
    (r = PAGER_ERROR_PERM \<or> r = PAGER_ERROR_OOM \<longrightarrow> out = None \<and> content w' = content w) \<and>
    (r \<in> {PAGER_HIT, PAGER_FAULT_MINOR, PAGER_FAULT_MAJOR} \<longrightarrow>
       present (pte_at w' a v) \<and> out = Some (frame_num (pte_at w' a v)) \<and> (wr \<longrightarrow> dirty (pte_at w' a v)) \<and>
       content w q v = Some (frame_bytes (w_frame w') (unat (frame_num (pte_at w' a v)))) \<and>
       (content w' = content w \<or> r \<noteq> PAGER_HIT \<and> (\<exists>p x. (p, x) \<noteq> (q, v) \<and> discards w p x w')))"
  using pager_access_all [OF assms] by blast

lemma frame_owner_fill: "frame_owner (pager_fill a v f m w) = frame_owner w"
  by (auto simp: fun_eq_iff pager_fill_def Let_def frame_owner_def swap_in_def split_beta)

lemma policy_apply_pager:
  "g_policy (w_pager (policy_apply f w)) = g_policy (w_pager w)"
  "g_policy (w_pager w) \<noteq> None \<Longrightarrow> g_policy_state (w_pager (policy_apply f w)) = map_option f (g_policy_state (w_pager w))"
  by (auto simp: policy_apply_def split: option.splits)

lemma pager_map_pager:
  "g_policy (w_pager (pager_map a v f b t w)) = g_policy (w_pager w)"
  "g_policy (w_pager w) \<noteq> None \<Longrightarrow>
     g_policy_state (w_pager (pager_map a v f b t w)) = map_option (policy_insert f t) (g_policy_state (w_pager w))"
  by (simp_all add: pager_map_def Let_def policy_apply_pager)

lemma pager_fill_pager:
  "g_policy (w_pager (pager_fill a v f m w)) = g_policy (w_pager w)"
  "g_policy_state (w_pager (pager_fill a v f m w)) = g_policy_state (w_pager w)"
  by (simp_all add: pager_fill_def Let_def split_beta)

lemma pager_hit_owner:
  "frame_owner (pager_hit a v wr t w) = frame_owner w" "g_policy (w_pager (pager_hit a v wr t w)) = g_policy (w_pager w)"
  "g_policy (w_pager w) \<noteq> None \<Longrightarrow> \<exists>n. g_policy_state (w_pager (pager_hit a v wr t w)) = map_option (policy_update n t wr) (g_policy_state (w_pager w))"
  by (auto simp: pager_hit_def Let_def policy_apply_pager)

lemma policy_update_keeps: "policy_inv ps \<Longrightarrow> set (policy_tracked ps) \<subseteq> set (policy_tracked (policy_update n t b ps))"
  by (cases ps) (auto simp: fifo_update_def clock_update_def lru_update_tracked)

lemma tracks_after_hit:
  assumes inv: "mem_inv w" and tr: "tracks_frames w"
  shows "tracks_frames (pager_hit a v wr t w)"
proof -
  obtain ps where ps: "g_policy (w_pager w) \<noteq> None" "g_policy_state (w_pager w) = Some ps"
      "\<And>f. frame_owner w f \<noteq> None \<Longrightarrow> f \<in> set (policy_tracked ps)"
    using tr by (auto simp: tracks_frames_def split: option.splits)
  obtain n where "g_policy_state (w_pager (pager_hit a v wr t w)) = Some (policy_update n t wr ps)"
    using pager_hit_owner(3) [OF ps(1), of a v wr t] ps(2) by auto
  moreover have "policy_inv ps" using inv ps(2) by (simp add: mem_inv_def pager_ok_def)
  ultimately show ?thesis using ps policy_update_keeps [of ps n t wr] by (auto simp: tracks_frames_def pager_hit_owner)
qed

lemma tracks_after_fault:
  assumes inv: "mem_inv w0" and tr: "tracks_frames w0" and al: "frame_alloc q v (w_frame w0) = (Some i, F)"
    and h: "g_policy h = g_policy (w_pager w0)" "g_policy_state h = g_policy_state (w_pager w0)"
  shows "tracks_frames (pager_map a v (of_nat i) wr t (pager_fill a v (of_nat i) m (w0\<lparr>w_frame := F, w_pager := h\<rparr>)))"
proof -
  obtain ps where ps: "g_policy (w_pager w0) \<noteq> None" "g_policy_state (w_pager w0) = Some ps"
      "\<And>f. frame_owner w0 f \<noteq> None \<Longrightarrow> f \<in> set (policy_tracked ps)"
    using tr by (auto simp: tracks_frames_def split: option.splits)
  have pi: "policy_inv ps" "\<forall>g \<in> set (policy_tracked ps). unat g < 64" using inv ps(2) by (auto simp: mem_inv_def pager_ok_def)
  have i: "unat (of_nat i :: u8) < 64" "frame_owner (w0\<lparr>w_frame := F\<rparr>) = (frame_owner w0)(of_nat i \<mapsto> (q, v))"
    using frame_owner_alloc [OF al] frame_alloc_SomeD(1) [OF al] by auto
  then have "frame_owner (w0\<lparr>w_frame := F, w_pager := h\<rparr>) = (frame_owner w0)(of_nat i \<mapsto> (q, v))" by simp
  then show ?thesis using ps h policy_insert_set [OF pi i(1)]
    by (auto simp: tracks_frames_def pager_map_pager pager_fill_pager pager_map_simps frame_owner_fill)
qed

text \<open>Memory runs out only when swap is full: while one of the 256 swap slots is free and the policy
  tracks every frame in use, no access fails for lack of memory, and the policy still tracks
  every frame in use afterwards.\<close>

lemma pager_access_oom:
  assumes "mem_inv w" "vm_of w q = Some a" "tracks_frames w" "k < 256" "swap_owner w k = None"
    and "pager_access_page q a v wr t w = (r, out, w')"
  shows "r \<noteq> PAGER_ERROR_OOM \<and> tracks_frames w'"
proof -
  obtain i w0 F h where g: "pager_get_frame q a v w = (Some i, w0\<lparr>w_frame := F, w_pager := h\<rparr>)" "mem_inv w0" "tracks_frames w0"
    "frame_alloc q v (w_frame w0) = (Some i, F)" "g_policy h = g_policy (w_pager w0)" "g_policy_state h = g_policy_state (w_pager w0)"
    by (rule pager_get_frame_succeeds [OF assms(1-5)])
  obtain vm where vm: "w_vms w a = Some vm" using assms(1,2) vm_wf_live by (metis mem_inv_def)
  show ?thesis
    using assms(6) vm g(1) tracks_after_fault [OF g(2-6)] tracks_after_hit [OF assms(1,3)] assms(3)
    by (auto simp: pager_access_page_def Let_def split: if_splits)
qed

text \<open>C16. A page that was swapped out, read back and evicted again without being written loses its bytes:
  the read restores them from swap, but releases the slot and leaves the page clean, and the
  next eviction drops a clean page without writing it, so that it reads as zeros from then on.\<close>

theorem clean_eviction_loses_bytes:
  assumes "mem_inv w" "vm_of w q = Some a" "tlb_coherent w a" "in_swap (pte_at w a v)"
    and "pager_access_page q a v False t w = (r, Some f, w1)"
  shows "r = PAGER_FAULT_MAJOR \<and> content w1 q v = content w q v \<and>
    fst (evict_victim f q v a w1) \<and> content (snd (evict_victim f q v a w1)) q v = Some (replicate 256 0)"
proof -
  have wf: "vm_wf w" and po: "pages_ok (ppte w) (frame_owner w) (swap_owner w)" using assms(1) by (auto simp: mem_inv_def)
  obtain vm where vm: "w_vms w a = Some vm" by (rule vm_wf_live [OF wf assms(2)])
  define e where "e = pte_at w a v"
  have e: "ppte w q v = Some e" "page_table_lookup (vs_pt vm) v = e" "in_swap e"
    using pte_at_ppte [OF wf assms(2), of v] vm assms(4) by (simp_all add: e_def pte_at_def)
  then have np: "\<not> present e" using pages_ok_present(1) [OF po e(1)] by blast
  obtain i w2 where g: "pager_get_frame q a v w = (Some i, w2)"
    and r: "r = PAGER_FAULT_MAJOR" "f = of_nat i" "w1 = pager_map a v (of_nat i) False t (pager_fill a v (of_nat i) (in_swap e) w2)"
    using assms(5) vm e np by (auto simp: pager_access_page_def Let_def split: if_splits option.splits prod.splits)
  note F = pager_access_fault [OF assms(1-3) e(1) np g r(3)]
  then obtain e' where e': "ppte w1 q v = Some e'" "present e'" "frame_num e' = f" "\<not> dirty e'" and w1: "mem_inv w1" "vm_of w1 q = Some a"
    using r(2) assms(2) by auto
  have "pte_at w1 a v = e'" using pte_at_ppte [of w1 q a v] w1 e'(1) by (simp add: mem_inv_def)
  then have ok: "fst (evict_victim f q v a w1)" using e'(4) by (simp add: evict_victim_def)
  then have "evicted w1 q v f (snd (evict_victim f q v a w1))"
    using evict_victim_evicted [OF w1 e'(1,2), of True "snd (evict_victim f q v a w1)"] e'(3) by (metis prod.collapse)
  then have "content (snd (evict_victim f q v a w1)) q v = Some (replicate 256 0)" using e' by (simp add: evicted_def)
  moreover have "content w1 q v = content w q v" using F by (auto simp: discards_def)
  ultimately show ?thesis using r(1) ok by simp
qed


subsection \<open>A machine with one process\<close>

definition one_proc :: process_table where
  "one_proc = \<lparr>entries = (\<lambda>_. zero_pcb)(0 := zero_pcb\<lparr>p_used := True, p_pid := 1, p_vm := Some 0\<rparr>), next_pid = 2,
     pid_to_slot = (\<lambda>_. -1)(0 := 0), os_maps = {}\<rparr>"

definition one_proc_mem :: "page_table \<Rightarrow> swap_state \<Rightarrow> mem" where
  "one_proc_mem pt s =
     \<lparr>w_frame = frame_init zero_frame_state, w_swap = s, w_tlb = tlb_init zero_tlb_state,
      w_pager = \<lparr>g_policy = Some FIFO_OPS, g_policy_state = Some (Fifo fifo_init), g_pager_stats = zero_pager_stats\<rparr>,
      w_pt = one_proc,
      w_vms = [0 \<mapsto> \<lparr>vs_pid = 1, vs_pt = pt,
                     vs_stats = \<lparr>vst_minor_faults = 0, vst_major_faults = 0, vst_page_out_count = 0, vst_page_in_count = 0,
                       vst_tlb_hits = 0, vst_tlb_misses = 0, vst_heap_break = VM_SEG_HEAP_START,
                       vst_heap_start = VM_SEG_HEAP_START, vst_stack_limit = 192\<rparr>\<rparr>]\<rparr>"

lemma vm_of_one_proc [simp]: "vm_of (one_proc_mem pt s) q = (if q = 1 then Some 0 else None)"
  by (auto simp: vm_of_def one_proc_mem_def proc_get_def find_slot_by_pid_def one_proc_def zero_pcb_def split: option.splits)

lemma ppte_one_proc: "ppte (one_proc_mem pt s) q v = (if q = 1 then Some (pt v) else None)"
  unfolding ppte_def vm_of_one_proc by (simp add: one_proc_mem_def)

lemma pte_at_one_proc [simp]: "pte_at (one_proc_mem pt s) 0 v = pt v"
  by (simp add: pte_at_def one_proc_mem_def page_table_lookup_def)

lemma frame_owner_one_proc [simp]: "frame_owner (one_proc_mem pt s) f = None"
  by (simp add: frame_owner_def frame_get_owner_def one_proc_mem_def frame_init_def)

lemma mem_inv_one_proc:
  assumes "\<And>v. \<not> present (pt v)" "swap_inv s" "\<And>v. in_swap (pt v) \<Longrightarrow> swap_owner (one_proc_mem pt s) (unat (swap_slot (pt v))) = Some (1, v)"
  shows "mem_inv (one_proc_mem pt s)"
proof -
  have "vm_wf (one_proc_mem pt s)" unfolding vm_wf_def vm_of_one_proc by (auto simp: one_proc_mem_def)
  moreover have "pages_ok (ppte (one_proc_mem pt s)) (frame_owner (one_proc_mem pt s)) (swap_owner (one_proc_mem pt s))"
    by (rule pages_okI) (use assms in \<open>auto simp: ppte_one_proc split: if_splits\<close>)
  ultimately show ?thesis using assms(2) fifo.init_sound fifo.init_tracked
    by (simp add: mem_inv_def one_proc_mem_def pager_ok_def frame_inv_init)
qed

lemma tlb_coherent_init: "tlb.coherent R (tlb_init s)"
proof -
  have no: "\<not> tlb_matches (tlb_init s) v i" if "i < 16" for v i
    using that by (simp add: tlb_matches_def tlb_init_def tlb_reset_stats_def tlb_flush_def zero_tlb_entry_def)
  then have "tlb_find (tlb_init s) v = None" for v by (simp add: tlb_find_None_iff)
  then show ?thesis using no by (simp add: tlb.coherent_def tlb_inv_def)
qed

lemma tlb_coherent_one_proc: "tlb_coherent (one_proc_mem pt s) 0"
  by (simp add: tlb_coherent_def tlb_coherent_init one_proc_mem_def)

definition fresh_mem :: mem where
  "fresh_mem = one_proc_mem (page_table_init (\<lambda>_. zero_pte)) (swap_init zero_swap_state)"

definition swapped_mem :: mem where
  "swapped_mem = one_proc_mem
     ((page_table_init (\<lambda>_. zero_pte))(64 := zero_pte\<lparr>permissions := 3, in_swap := True, swap_slot := 0\<rparr>))
     ((snd (swap_alloc 1 64 (swap_init zero_swap_state)))\<lparr>g_swap_mem := (\<lambda>_ _. 7)\<rparr>)"


lemma fresh_mem_facts:
  "mem_inv fresh_mem" "vm_of fresh_mem 1 = Some 0" "tlb_coherent fresh_mem 0" "tracks_frames fresh_mem" "swap_owner fresh_mem 5 = None"
proof -
  have pt: "\<not> present (page_table_init (\<lambda>_. zero_pte) v)" "\<not> in_swap (page_table_init (\<lambda>_. zero_pte) v)" for v
    by (simp_all add: page_table_init_def)
  show "mem_inv fresh_mem" unfolding fresh_mem_def by (rule mem_inv_one_proc) (simp_all add: pt swap_inv_init)
  show "vm_of fresh_mem 1 = Some 0" "tlb_coherent fresh_mem 0" by (simp_all add: fresh_mem_def tlb_coherent_one_proc)
  show "tracks_frames fresh_mem" unfolding tracks_frames_def fresh_mem_def frame_owner_one_proc by (simp add: one_proc_mem_def)
  show "swap_owner fresh_mem 5 = None" by (simp add: swap_owner_def fresh_mem_def one_proc_mem_def swap_init_def)
qed

lemma fresh_mem_access: "\<exists>w'. pager_access_page 1 0 64 True 3 fresh_mem = (PAGER_FAULT_MINOR, Some 0, w')"
  by (simp add: pager_access_page_def fresh_mem_def one_proc_mem_def page_table_lookup_def page_table_init_def zero_pte_def
      page_table_validate_permissions_def default_permissions_cases vm_prots pager_get_frame_def frame_alloc_def frame_init_def
      first_idx.simps)

theorem pager_access_correct_witness:
  "\<exists>w'. pager_access_page 1 0 64 True 3 fresh_mem = (PAGER_FAULT_MINOR, Some 0, w') \<and> mem_inv w' \<and> tlb_coherent w' 0 \<and>
     dirty (pte_at w' 0 64) \<and> frame_num (pte_at w' 0 64) = 0"
  using pager_access_correct [OF fresh_mem_facts(1-3), of 64 True 3] fresh_mem_access by fastforce

lemma swapped_mem_facts:
  "mem_inv swapped_mem" "vm_of swapped_mem 1 = Some 0" "tlb_coherent swapped_mem 0" "in_swap (pte_at swapped_mem 0 64)"
  "content swapped_mem 1 64 = Some (replicate 256 7)"
  "\<exists>r w1. pager_access_page 1 0 64 False 3 swapped_mem = (r, Some 0, w1)"
proof -
  let ?pt = "(page_table_init (\<lambda>_. zero_pte))(64 := zero_pte\<lparr>permissions := 3, in_swap := True, swap_slot := 0\<rparr>)"
  let ?s = "(snd (swap_alloc 1 64 (swap_init zero_swap_state)))\<lparr>g_swap_mem := (\<lambda>_ _. 7)\<rparr>"
  have al: "swap_alloc 1 64 (swap_init zero_swap_state) = (Some 0, snd (swap_alloc 1 64 (swap_init zero_swap_state)))"
    by (simp add: swap_alloc_def swap_init_def first_idx.simps)
  have "swap_inv (snd (swap_alloc 1 64 (swap_init zero_swap_state)))" using al by (rule swap_inv_alloc [OF swap_inv_init])
  then have si: "swap_inv ?s" by (simp add: swap_inv_def)
  have o: "swap_owner (one_proc_mem ?pt ?s) 0 = Some (1, 64)"
    using swap_alloc_SomeD(5) [OF al] by (simp add: swap_owner_def one_proc_mem_def)
  have pt: "\<not> present (?pt v)" "in_swap (?pt v) \<Longrightarrow> v = 64" for v by (cases "v = 64"; simp add: page_table_init_def zero_pte_def)+
  show "mem_inv swapped_mem" unfolding swapped_mem_def
  proof (rule mem_inv_one_proc [OF pt(1) si])
    fix v assume "in_swap (?pt v)"
    then have "v = 64" by (rule pt(2))
    then show "swap_owner (one_proc_mem ?pt ?s) (unat (swap_slot (?pt v))) = Some (1, v)" using o by simp
  qed
  show "vm_of swapped_mem 1 = Some 0" "tlb_coherent swapped_mem 0" "in_swap (pte_at swapped_mem 0 64)"
    by (simp_all add: swapped_mem_def tlb_coherent_one_proc)
  show "content swapped_mem 1 64 = Some (replicate 256 7)"
    by (simp add: content_def swapped_mem_def ppte_one_proc page_bytes_def zero_pte_def)
      (simp add: swap_bytes_def one_proc_mem_def map_replicate_const)
  show "\<exists>r w1. pager_access_page 1 0 64 False 3 swapped_mem = (r, Some 0, w1)"
    by (simp add: pager_access_page_def swapped_mem_def one_proc_mem_def page_table_lookup_def zero_pte_def
      page_table_validate_permissions_def vm_prots pager_get_frame_def frame_alloc_def frame_init_def first_idx.simps)
qed

theorem clean_eviction_loses_bytes_witness:
  "\<exists>r w1. pager_access_page 1 0 64 False 3 swapped_mem = (r, Some 0, w1) \<and> content swapped_mem 1 64 = Some (replicate 256 7) \<and>
     content w1 1 64 = Some (replicate 256 7) \<and> content (snd (evict_victim 0 1 64 0 w1)) 1 64 = Some (replicate 256 0)"
  using clean_eviction_loses_bytes [OF swapped_mem_facts(1-4), of 3] swapped_mem_facts(5,6) by fastforce

end
