(* ===== verification/VM.thy ===== *)
theory VM
  imports Pager
begin

text \<open>
  \<^verbatim>\<open>vm.c\<close>: set-up of the memory components, creation and destruction of a process's memory,
  and byte access to virtual memory through the TLB and the pager.

  The buffer arguments are lists or arrays of bytes: \<open>vm_read_mem\<close> returns the bytes it has
  put into \<^verbatim>\<open>dest\<close>, which on an error are those before the failing address. The success of
  \<^verbatim>\<open>malloc\<close> and the address it returns are parameters. The dump functions only print.
\<close>

section \<open>Set-up and tear-down\<close>

definition vm_init :: "bool \<Rightarrow> mem \<Rightarrow> mem" where
  "vm_init malloc_ok w =
     w\<lparr>w_frame := frame_init (w_frame w), w_tlb := tlb_init (w_tlb w), w_swap := swap_init (w_swap w),
       w_pager := pager_init malloc_ok (w_pager w)\<rparr>"

definition vm_shutdown :: "mem \<Rightarrow> mem" where
  "vm_shutdown w =
     w\<lparr>w_pager := pager_shutdown (w_pager w), w_swap := swap_shutdown (w_swap w),
       w_frame := frame_shutdown (w_frame w), w_tlb := tlb_flush (w_tlb w)\<rparr>"

definition new_vm :: "int \<Rightarrow> vm_state" where
  "new_vm pid =
     \<lparr>vs_pid = pid, vs_pt = page_table_init (\<lambda>_. zero_pte),
      vs_stats = \<lparr>vst_minor_faults = 0, vst_major_faults = 0, vst_page_out_count = 0, vst_page_in_count = 0,
        vst_tlb_hits = 0, vst_tlb_misses = 0, vst_heap_break = VM_SEG_HEAP_START, vst_heap_start = VM_SEG_HEAP_START,
        vst_stack_limit = of_nat (VM_NUM_PAGES - VM_SEG_STACK_MAX_PAGES)\<rparr>\<rparr>"

definition vm_proc_init :: "vm_ptr option \<Rightarrow> int \<Rightarrow> mem \<Rightarrow> vm_ptr option \<times> mem" where
  "vm_proc_init malloc pid w =
     (case malloc of None \<Rightarrow> (None, w) | Some a \<Rightarrow> (Some a, w\<lparr>w_vms := (w_vms w)(a \<mapsto> new_vm pid)\<rparr>))"

definition release_page :: "pte \<Rightarrow> mem \<Rightarrow> mem" where
  "release_page e w =
     (let w1 = (if present e then w\<lparr>w_frame := frame_free (frame_num e) (w_frame w)\<rparr> else w)
      in if in_swap e then w1\<lparr>w_swap := swap_free (swap_slot e) (w_swap w1)\<rparr> else w1)"

definition vm_proc_destroy :: "vm_ptr \<Rightarrow> mem \<Rightarrow> mem" where
  "vm_proc_destroy a w =
     (case w_vms w a of
        None \<Rightarrow> w
      | Some vm \<Rightarrow>
          (let w1 = fold (\<lambda>vpn. release_page (page_table_lookup (vs_pt vm) (of_nat vpn))) [0..<VM_NUM_PAGES] w
           in w1\<lparr>w_vms := (w_vms w1)(a := None)\<rparr>))"


section \<open>Byte access\<close>

definition vpn_of :: "u16 \<Rightarrow> u8" where
  "vpn_of curr_addr = ucast (drop_bit VM_PAGE_SHIFT curr_addr)"

definition offset_of :: "u16 \<Rightarrow> u8" where
  "offset_of curr_addr = ucast (curr_addr AND VM_PAGE_MASK)"

definition phys_addr :: "u8 \<Rightarrow> u8 \<Rightarrow> u32" where
  "phys_addr pfn offset = ucast pfn * of_nat VM_PAGE_SIZE + ucast offset"

definition count_fault :: "pager_result \<Rightarrow> vm_state \<Rightarrow> vm_state" where
  "count_fault res vm =
     (if res = PAGER_FAULT_MINOR then
        vm\<lparr>vs_stats := (vs_stats vm)\<lparr>vst_minor_faults := vst_minor_faults (vs_stats vm) + 1\<rparr>\<rparr>
      else if res = PAGER_FAULT_MAJOR then
        vm\<lparr>vs_stats := (vs_stats vm)\<lparr>vst_major_faults := vst_major_faults (vs_stats vm) + 1,
                                   vst_page_in_count := vst_page_in_count (vs_stats vm) + 1\<rparr>\<rparr>
      else vm)"

text \<open>
  The path taken on a TLB miss, the same in the two loops up to the \<^verbatim>\<open>write\<close> argument of the
  pager. The pager reports a frame exactly on the three successful results.
\<close>

definition vm_miss :: "int \<Rightarrow> vm_ptr \<Rightarrow> u8 \<Rightarrow> bool \<Rightarrow> u64 \<Rightarrow> mem \<Rightarrow> u8 option \<times> mem" where
  "vm_miss pid a vpn write tick w =
     (let (res, out, w1) = pager_access_page pid a vpn write tick w
      in if res = PAGER_ERROR_PERM \<or> res = PAGER_ERROR_OOM \<or> res = PAGER_ERROR_ADDR then (None, w1)
         else case out of
                None \<Rightarrow> (None, w1)
              | Some pfn \<Rightarrow>
                  (let w2 = upd_vm a (count_fault res) w1; e = pte_at w2 a vpn
                   in (Some pfn, w2\<lparr>w_tlb := tlb_insert vpn pfn (dirty e) (permissions e) tick (w_tlb w2)\<rparr>)))"

definition vm_read_page :: "int \<Rightarrow> vm_ptr \<Rightarrow> u8 \<Rightarrow> u64 \<Rightarrow> mem \<Rightarrow> u8 option \<times> mem" where
  "vm_read_page pid a vpn tick w =
     (let (hit, tlb) = tlb_lookup vpn tick (w_tlb w); w1 = w\<lparr>w_tlb := tlb\<rparr>
      in case hit of
           Some (pfn, tlb_dirty, tlb_perm) \<Rightarrow>
             if tlb_perm AND VM_PROT_READ = 0 then (None, w1)
             else (Some pfn, upd_pte a vpn (\<lambda>e. e\<lparr>accessed := True\<rparr>) w1)
         | None \<Rightarrow> vm_miss pid a vpn False tick w1)"

definition vm_write_page :: "int \<Rightarrow> vm_ptr \<Rightarrow> u8 \<Rightarrow> u64 \<Rightarrow> mem \<Rightarrow> u8 option \<times> mem" where
  "vm_write_page pid a vpn tick w =
     (let (hit, tlb) = tlb_lookup vpn tick (w_tlb w); w1 = w\<lparr>w_tlb := tlb\<rparr>
      in case hit of
           Some (pfn, tlb_dirty, tlb_perm) \<Rightarrow>
             if tlb_perm AND VM_PROT_WRITE = 0 then (None, w1)
             else
               (let w2 = upd_pte a vpn (\<lambda>e. e\<lparr>accessed := True, dirty := True\<rparr>) w1
                in (Some pfn, if \<not> tlb_dirty then w2\<lparr>w_tlb := tlb_insert vpn pfn True tlb_perm tick (w_tlb w2)\<rparr> else w2))
         | None \<Rightarrow> vm_miss pid a vpn True tick w1)"

definition vm_read_byte :: "int \<Rightarrow> vm_ptr \<Rightarrow> u16 \<Rightarrow> u64 \<Rightarrow> mem \<Rightarrow> u8 option \<times> mem" where
  "vm_read_byte pid a curr_addr tick w =
     (case vm_read_page pid a (vpn_of curr_addr) tick w of
        (None, w1) \<Rightarrow> (None, w1)
      | (Some pfn, w1) \<Rightarrow> (Some (frame_read_byte (phys_addr pfn (offset_of curr_addr)) (w_frame w1)), w1))"

definition vm_write_byte :: "int \<Rightarrow> vm_ptr \<Rightarrow> u16 \<Rightarrow> u8 \<Rightarrow> u64 \<Rightarrow> mem \<Rightarrow> bool \<times> mem" where
  "vm_write_byte pid a curr_addr val tick w =
     (case vm_write_page pid a (vpn_of curr_addr) tick w of
        (None, w1) \<Rightarrow> (False, w1)
      | (Some pfn, w1) \<Rightarrow> (True, w1\<lparr>w_frame := frame_write_byte (phys_addr pfn (offset_of curr_addr)) val (w_frame w1)\<rparr>))"

text \<open>The loops over the remaining bytes, and the statistics added on success.\<close>

primrec vm_read_loop :: "int \<Rightarrow> vm_ptr \<Rightarrow> u64 \<Rightarrow> nat \<Rightarrow> u16 \<Rightarrow> mem \<Rightarrow> bool \<times> u8 list \<times> mem" where
  "vm_read_loop pid a tick 0 curr_addr w = (True, [], w)"
| "vm_read_loop pid a tick (Suc n) curr_addr w =
     (case vm_read_byte pid a curr_addr tick w of
        (None, w1) \<Rightarrow> (False, [], w1)
      | (Some b, w1) \<Rightarrow> (let (ok, bs, w2) = vm_read_loop pid a tick n (curr_addr + 1) w1 in (ok, b # bs, w2)))"

primrec vm_write_loop :: "int \<Rightarrow> vm_ptr \<Rightarrow> u64 \<Rightarrow> u8 list \<Rightarrow> u16 \<Rightarrow> mem \<Rightarrow> bool \<times> mem" where
  "vm_write_loop pid a tick [] curr_addr w = (True, w)"
| "vm_write_loop pid a tick (b # bs) curr_addr w =
     (case vm_write_byte pid a curr_addr b tick w of
        (False, w1) \<Rightarrow> (False, w1)
      | (True, w1) \<Rightarrow> vm_write_loop pid a tick bs (curr_addr + 1) w1)"

definition add_tlb_stats :: "vm_ptr \<Rightarrow> tlb_stats \<Rightarrow> mem \<Rightarrow> mem" where
  "add_tlb_stats a tlb_before w =
     (let tlb_after = tlb_get_stats (w_tlb w)
      in upd_vm a (\<lambda>vm. vm\<lparr>vs_stats := (vs_stats vm)
           \<lparr>vst_tlb_hits := vst_tlb_hits (vs_stats vm) + (ts_hits tlb_after - ts_hits tlb_before),
            vst_tlb_misses := vst_tlb_misses (vs_stats vm) + (ts_misses tlb_after - ts_misses tlb_before)\<rparr>\<rparr>) w)"

definition vm_read_mem :: "int \<Rightarrow> vm_ptr \<Rightarrow> u16 \<Rightarrow> u64 \<Rightarrow> u64 \<Rightarrow> mem \<Rightarrow> int \<times> u8 list \<times> mem" where
  "vm_read_mem pid a virt_addr len tick w =
     (if w_vms w a = None then (-1, [], w)
      else if of_nat VM_VIRT_ADDR_SPACE_SIZE < ucast virt_addr + len then (-1, [], w)
      else
        (let (ok, bs, w1) = vm_read_loop pid a tick (unat len) virt_addr w
         in if \<not> ok then (-1, bs, w1)
            else (sint (ucast len :: 32 word), bs, add_tlb_stats a (tlb_get_stats (w_tlb w)) w1)))"

definition vm_write_mem :: "int \<Rightarrow> vm_ptr \<Rightarrow> u16 \<Rightarrow> u8 carray \<Rightarrow> u64 \<Rightarrow> u64 \<Rightarrow> mem \<Rightarrow> int \<times> mem" where
  "vm_write_mem pid a virt_addr src len tick w =
     (if w_vms w a = None then (-1, w)
      else if of_nat VM_VIRT_ADDR_SPACE_SIZE < ucast virt_addr + len then (-1, w)
      else
        (let (ok, w1) = vm_write_loop pid a tick (map src [0..<unat len]) virt_addr w
         in if \<not> ok then (-1, w1)
            else (sint (ucast len :: 32 word), add_tlb_stats a (tlb_get_stats (w_tlb w)) w1)))"

definition vm_handle_fault_blocking :: "int \<Rightarrow> pager_result \<Rightarrow> u64 \<Rightarrow> process_table \<Rightarrow> bool \<times> process_table" where
  "vm_handle_fault_blocking pid res tick t =
     (if res = PAGER_FAULT_MAJOR
      then (True, proc_upd pid (\<lambda>p. p\<lparr>p_wakeup_tick := tick + VM_PAGE_FAULT_LATENCY\<rparr>) t)
      else (False, t))"


section \<open>Addresses\<close>

lemma unat_vpn_of: "unat (vpn_of x) = unat x div 256"
proof -
  have "unat x div 256 < 256" by (rule less_mult_imp_div_less) simp
  then show ?thesis by (simp add: vpn_of_def unsigned_ucast_eq drop_bit_eq_div unat_div_distrib take_bit_eq_mod)
qed

lemma unat_offset_of: "unat (offset_of x) = unat x mod 256"
proof -
  have "VM_PAGE_MASK = mask 8" by (simp add: VM_PAGE_MASK_def mask_eq_exp_minus_1)
  then have "x AND VM_PAGE_MASK = take_bit 8 x" by (simp add: take_bit_eq_mask)
  then show ?thesis by (simp add: offset_of_def unsigned_ucast_eq take_bit_eq_mod unat_mod_distrib)
qed

lemma vpn_offset_inj:
  assumes "vpn_of x = vpn_of y" "offset_of x = offset_of y"
  shows "x = y"
proof -
  have "unat x div 256 = unat y div 256" "unat x mod 256 = unat y mod 256"
    using arg_cong [OF assms(1), of unat] arg_cong [OF assms(2), of unat] by (simp_all add: unat_vpn_of unat_offset_of)
  then have "unat x = unat y" by (metis div_mult_mod_eq)
  then show ?thesis by (simp add: word_unat_eq_iff)
qed

lemma unat_phys_addr:
  assumes "unat f < 64"
  shows "unat (phys_addr f k) = unat f * 256 + unat k"
proof -
  have "unat k < 256" "unat f < 256" by simp_all
  then have "unat (ucast k :: u32) = unat k" "unat (ucast f :: u32) = unat f" "unat f * 256 + unat k < 4294967296"
    using assms by (auto simp: unsigned_ucast_eq take_bit_eq_mod simp del: unat_u8_less)
  then show ?thesis by (simp add: phys_addr_def unat_word_ariths)
qed

lemma phys_addr_bound: "unat f < 64 \<Longrightarrow> unat f * 256 + unat (k :: u8) < 16384"
proof -
  assume "unat f < 64"
  moreover have "unat k < 256" by simp
  ultimately show ?thesis by arith
qed

lemma frame_read_phys: "unat f < 64 \<Longrightarrow> frame_read_byte (phys_addr f k) F = frame_bytes F (unat f) ! unat k"
  by (simp add: frame_read_byte_def unat_phys_addr phys_addr_bound frame_bytes_def)

lemma frame_write_phys:
  assumes "unat f < 64"
  shows "frame_bytes (frame_write_byte (phys_addr f k) b F) j =
    (if j = unat f then (frame_bytes F j)[unat k := b] else frame_bytes F j)"
proof (cases "j = unat f")
  case True
  then show ?thesis using assms unat_u8_less [of k]
    by (intro nth_equalityI) (auto simp: frame_bytes_def frame_write_byte_def unat_phys_addr phys_addr_bound nth_list_update)
next
  case False
  then show ?thesis using assms unat_u8_less [of k] other_block [of "unat f" j "unat k"]
    by (auto intro!: frame_bytes_cong simp: frame_write_byte_def unat_phys_addr phys_addr_bound)
qed

lemma length_frame_bytes [simp]: "length (frame_bytes F i) = 256"
  by (simp add: frame_bytes_def)


section \<open>State changes that leave pages alone\<close>

lemma tlb_only [simp]:
  "mem_inv (w\<lparr>w_tlb := T\<rparr>) = mem_inv w" "content (w\<lparr>w_tlb := T\<rparr>) = content w" "clean_page (w\<lparr>w_tlb := T\<rparr>) = clean_page w" "perms (w\<lparr>w_tlb := T\<rparr>) = perms w"
  "translates (w\<lparr>w_tlb := T\<rparr>) = translates w" "tlb_coherent (w\<lparr>w_tlb := T\<rparr>) a = tlb.coherent (translates w a) T"
proof -
  show t: "translates (w\<lparr>w_tlb := T\<rparr>) = translates w" by (simp add: translates_def fun_eq_iff)
  show "tlb_coherent (w\<lparr>w_tlb := T\<rparr>) a = tlb.coherent (translates w a) T" by (simp add: tlb_coherent_def t)
qed (simp_all add: mem_inv_def content_def clean_page_def perms_def fun_eq_iff)

lemma stats_only:
  assumes "\<And>vm. vs_pt (f vm) = vs_pt vm"
  shows "ppte (upd_vm a f w) = ppte w" "pte_at (upd_vm a f w) = pte_at w" "mem_inv (upd_vm a f w) = mem_inv w"
    "content (upd_vm a f w) = content w" "clean_page (upd_vm a f w) = clean_page w" "tlb_coherent (upd_vm a f w) = tlb_coherent w"
    "perms (upd_vm a f w) = perms w"
proof -
  have "map_option (\<lambda>vm. vs_pt vm v) (w_vms (upd_vm a f w) b) = map_option (\<lambda>vm. vs_pt vm v) (w_vms w b)" for v b
    by (auto simp: upd_vm_def option.map_comp comp_def assms)
  then show p: "ppte (upd_vm a f w) = ppte w" unfolding ppte_def upd_vm_simps by (auto simp: fun_eq_iff split: option.split)
  show q: "pte_at (upd_vm a f w) = pte_at w"
    by (auto simp: fun_eq_iff pte_at_def upd_vm_def page_table_lookup_def assms split: option.splits)
  show "mem_inv (upd_vm a f w) = mem_inv w" "content (upd_vm a f w) = content w" "clean_page (upd_vm a f w) = clean_page w"
    "perms (upd_vm a f w) = perms w"
    by (simp_all add: mem_inv_def content_def clean_page_def perms_def p fun_eq_iff)
  have "translates (upd_vm a f w) = translates w" by (simp add: translates_def q fun_eq_iff)
  then show "tlb_coherent (upd_vm a f w) = tlb_coherent w" by (intro ext) (simp add: tlb_coherent_def)
qed

lemma count_fault_pt [simp]: "vs_pt (count_fault res vm) = vs_pt vm"
  by (simp add: count_fault_def)

text \<open>Marking an entry accessed or dirty.\<close>

lemma mark_effect:
  assumes inv: "mem_inv w" and a: "vm_of w q = Some a" and c: "tlb_coherent w a"
    and g: "\<And>e. present (g e) = present e" "\<And>e. frame_num (g e) = frame_num e" "\<And>e. in_swap (g e) = in_swap e"
      "\<And>e. swap_slot (g e) = swap_slot e" "\<And>e. permissions (g e) = permissions e" "\<And>e. dirty e \<Longrightarrow> dirty (g e)"
  shows "mem_inv (upd_pte a v g w)" "content (upd_pte a v g w) = content w" "tlb_coherent (upd_pte a v g w) a"
    "pte_at (upd_pte a v g w) a v = g (pte_at w a v)" "ppte (upd_pte a v g w) = set_page (ppte w) q v (g (pte_at w a v))"
    "clean_page (upd_pte a v g w) p x \<Longrightarrow> clean_page w p x" "perms (upd_pte a v g w) = perms w"
proof -
  have i: "vm_wf w" "pages_ok (ppte w) (frame_owner w) (swap_owner w)" using inv by (auto simp: mem_inv_def)
  have e: "ppte w q v = Some (pte_at w a v)" by (rule pte_at_ppte [OF i(1) a])
  show P: "ppte (upd_pte a v g w) = set_page (ppte w) q v (g (pte_at w a v))" by (rule ppte_upd_pte [OF i(1) a e])
  show "perms (upd_pte a v g w) = perms w" by (rule perms_set_page [OF P e g(5)])
  note R = pages_ok_relabel [OF i(2) e g(1-4)]
  show "mem_inv (upd_pte a v g w)" using inv R(1) by (simp add: mem_inv_def P)
  show "content (upd_pte a v g w) = content w" using R(2) by (simp add: content_def P fun_eq_iff)
  have live: "w_vms w a \<noteq> None" using i(1) a by (auto simp: vm_wf_def)
  show at: "pte_at (upd_pte a v g w) a v = g (pte_at w a v)" using pte_at_upd_pte [OF live] by simp
  show "tlb_coherent (upd_pte a v g w) a" using c unfolding tlb_coherent_def upd_pte_simps
    by (rule tlb.coherent_mono) (auto simp: translates_def Let_def pte_at_upd_pte [OF live] g)
  show "clean_page w p x" if "clean_page (upd_pte a v g w) p x"
    using that e g(1) g(6) [of "pte_at w a v"] by (auto simp: clean_page_def P set_page_apply split: option.splits if_splits)
qed


section \<open>Reaching a page\<close>

text \<open>
  What a successful translation guarantees: page \<open>v\<close> of process \<open>q\<close> is in frame \<open>f\<close> with its old
  bytes. Other pages keep theirs, except that clean present ones may have been dropped, and no
  page but \<open>v\<close> has become clean.
\<close>

definition lost :: "mem \<Rightarrow> mem \<Rightarrow> int \<Rightarrow> u8 \<Rightarrow> bool" where
  "lost w w' p x \<longleftrightarrow> clean_page w p x \<and> content w' p x = Some (replicate 256 0)"

definition reached :: "mem \<Rightarrow> int \<Rightarrow> vm_ptr \<Rightarrow> u8 \<Rightarrow> u8 \<Rightarrow> mem \<Rightarrow> bool" where
  "reached w q a v f w' \<longleftrightarrow> mem_inv w' \<and> tlb_coherent w' a \<and> vm_of w' = vm_of w \<and> perms w' = perms w \<and>
     present (pte_at w' a v) \<and> frame_num (pte_at w' a v) = f \<and> permissions (pte_at w' a v) = permissions (pte_at w a v) \<and>
     content w' q v = content w q v \<and>
     (present (pte_at w a v) \<longrightarrow> content w' = content w) \<and>
     (\<forall>p x. content w' p x = content w p x \<or> (p, x) \<noteq> (q, v) \<and> lost w w' p x) \<and>
     (\<forall>p x. (p, x) \<noteq> (q, v) \<longrightarrow> clean_page w' p x \<longrightarrow> clean_page w p x)"

definition refused :: "mem \<Rightarrow> vm_ptr \<Rightarrow> mem \<Rightarrow> bool" where
  "refused w a w' \<longleftrightarrow> mem_inv w' \<and> tlb_coherent w' a \<and> vm_of w' = vm_of w \<and> perms w' = perms w \<and> content w' = content w"

lemma tlb_lookup_coherent:
  assumes "tlb_coherent w a" "tlb_lookup v t (w_tlb w) = (r, T)"
  shows "tlb.coherent (translates w a) T" "r = Some x \<Longrightarrow> translates w a v x"
  using tlb.coherent_lookup [of "translates w a" "w_tlb w" v t] tlb.coherent_hit [of "translates w a" "w_tlb w" v t x] assms
  by (simp_all add: tlb_coherent_def)

lemma vm_miss_effect:
  assumes inv: "mem_inv w" and a: "vm_of w q = Some a" and c: "tlb_coherent w a"
    and m: "vm_miss q a v wr t w = (r, w')"
  shows "case r of None \<Rightarrow> refused w a w'
    | Some f \<Rightarrow> reached w q a v f w' \<and> (wr \<longrightarrow> dirty (pte_at w' a v)) \<and>
        permissions (pte_at w a v) AND (if wr then 2 else 1) = (if wr then 2 else 1)"
proof -
  obtain res out w1 where p: "pager_access_page q a v wr t w = (res, out, w1)" by (cases "pager_access_page q a v wr t w")
  note F = pager_access_facts [OF inv a c p]
  show ?thesis
  proof (cases "res \<in> {PAGER_HIT, PAGER_FAULT_MINOR, PAGER_FAULT_MAJOR}")
    case False
    then have res: "res = PAGER_ERROR_PERM \<or> res = PAGER_ERROR_OOM" using F(5) by blast
    then have "r = None" "w' = w1" using m p by (auto simp: vm_miss_def)
    then show ?thesis using F(1-4) F(6) [OF res] by (simp add: refused_def)
  next
    case True
    note G = pager_access_success [OF inv a c p True]
    define f where "f = frame_num (pte_at w1 a v)"
    have own: "content w1 q v = content w q v" using G(7) by (auto simp: discards_def)
    let ?e = "pte_at w1 a v" and ?w2 = "upd_vm a (count_fault res) w1"
    note st = stats_only [OF count_fault_pt]
    have r: "r = Some f" "w' = ?w2\<lparr>w_tlb := tlb_insert v f (dirty ?e) (permissions ?e) t (w_tlb w1)\<rparr>"
      using m p True G(3) by (auto simp: vm_miss_def Let_def st f_def)
    have "translates ?w2 a v (f, dirty ?e, permissions ?e)" using G(2) by (simp add: translates_def st f_def)
    moreover have "tlb.coherent (translates ?w2 a) (w_tlb w1)" using F(2) st(6) by (simp add: tlb_coherent_def fun_eq_iff)
    ultimately have "tlb_coherent w' a" unfolding r(2) by (simp add: tlb.coherent_insert)
    moreover have "present (pte_at w a v) \<longrightarrow> content w1 = content w" using G(7,9) by blast
    moreover have "content w1 p x = content w p x \<or> (p, x) \<noteq> (q, v) \<and> lost w w1 p x" for p x
      using G(7) by (auto simp: discards_def lost_def split: if_splits)
    ultimately show ?thesis using F(1,3,4) G own unfolding r by (simp add: reached_def st f_def lost_def perms_def)
  qed
qed

lemma vm_read_page_effect:
  assumes inv: "mem_inv w" and a: "vm_of w q = Some a" and c: "tlb_coherent w a"
    and m: "vm_read_page q a v t w = (r, w')"
  shows "case r of None \<Rightarrow> refused w a w' | Some f \<Rightarrow> reached w q a v f w' \<and> permissions (pte_at w a v) AND 1 \<noteq> 0"
proof -
  obtain h T where l: "tlb_lookup v t (w_tlb w) = (h, T)" by (cases "tlb_lookup v t (w_tlb w)")
  note L = tlb_lookup_coherent [OF c l]
  let ?w1 = "w\<lparr>w_tlb := T\<rparr>"
  have w1: "mem_inv ?w1" "vm_of ?w1 q = Some a" "tlb_coherent ?w1 a" using inv a L(1) by simp_all
  show ?thesis
  proof (cases h)
    case None
    then have "vm_miss q a v False t ?w1 = (r, w')" using m l by (simp add: vm_read_page_def)
    from vm_miss_effect [OF w1 this] show ?thesis by (auto simp: refused_def reached_def lost_def split: option.splits)
  next
    case (Some x)
    obtain f d p where x: "x = (f, d, p)" by (cases x)
    have tr: "present (pte_at w a v)" "frame_num (pte_at w a v) = f" "permissions (pte_at w a v) = p"
      using L(2) [OF Some] x by (auto simp: translates_def Let_def)
    show ?thesis
    proof (cases "p AND 1 = 0")
      case True
      then have "r = None" "w' = ?w1" using m l Some x by (auto simp: vm_read_page_def vm_prots)
      then show ?thesis using inv L(1) by (simp add: refused_def)
    next
      case False
      then have r: "r = Some f" "w' = upd_pte a v (\<lambda>e. e\<lparr>accessed := True\<rparr>) ?w1" using m l Some x by (auto simp: vm_read_page_def vm_prots)
      have M: "mem_inv w'" "content w' = content w" "tlb_coherent w' a" "vm_of w' = vm_of w"
        "pte_at w' a v = (pte_at w a v)\<lparr>accessed := True\<rparr>" "\<And>p x. clean_page w' p x \<Longrightarrow> clean_page w p x" "perms w' = perms w"
        using mark_effect [OF w1, of "\<lambda>e. e\<lparr>accessed := True\<rparr>" v] unfolding r(2) by simp_all
      show ?thesis using M tr False by (simp add: r(1) reached_def)
    qed
  qed
qed

lemma vm_write_page_effect:
  assumes inv: "mem_inv w" and a: "vm_of w q = Some a" and c: "tlb_coherent w a"
    and m: "vm_write_page q a v t w = (r, w')"
  shows "case r of None \<Rightarrow> refused w a w'
    | Some f \<Rightarrow> reached w q a v f w' \<and> dirty (pte_at w' a v) \<and> permissions (pte_at w a v) AND 2 \<noteq> 0"
proof -
  obtain h T where l: "tlb_lookup v t (w_tlb w) = (h, T)" by (cases "tlb_lookup v t (w_tlb w)")
  note L = tlb_lookup_coherent [OF c l]
  let ?w1 = "w\<lparr>w_tlb := T\<rparr>"
  have w1: "mem_inv ?w1" "vm_of ?w1 q = Some a" "tlb_coherent ?w1 a" using inv a L(1) by simp_all
  show ?thesis
  proof (cases h)
    case None
    then have "vm_miss q a v True t ?w1 = (r, w')" using m l by (simp add: vm_write_page_def)
    from vm_miss_effect [OF w1 this] show ?thesis by (auto simp: refused_def reached_def lost_def split: option.splits)
  next
    case (Some x)
    obtain f d p where x: "x = (f, d, p)" by (cases x)
    have tr: "present (pte_at w a v)" "frame_num (pte_at w a v) = f" "permissions (pte_at w a v) = p"
      using L(2) [OF Some] x by (auto simp: translates_def Let_def)
    show ?thesis
    proof (cases "p AND 2 = 0")
      case True
      then have "r = None" "w' = ?w1" using m l Some x by (auto simp: vm_write_page_def vm_prots)
      then show ?thesis using inv L(1) by (simp add: refused_def)
    next
      case False
      let ?g = "\<lambda>e :: pte. e\<lparr>accessed := True, dirty := True\<rparr>"
      let ?w2 = "upd_pte a v ?g ?w1"
      have M: "mem_inv ?w2" "content ?w2 = content w" "tlb_coherent ?w2 a" "vm_of ?w2 = vm_of w"
        "pte_at ?w2 a v = ?g (pte_at w a v)" "\<And>p x. clean_page ?w2 p x \<Longrightarrow> clean_page w p x" "perms ?w2 = perms w"
        using mark_effect [OF w1, of ?g v] by simp_all
      have r: "r = Some f" "w' = (if \<not> d then ?w2\<lparr>w_tlb := tlb_insert v f True p t (w_tlb ?w2)\<rparr> else ?w2)"
        using m l Some x False by (auto simp: vm_write_page_def vm_prots Let_def)
      have "translates ?w2 a v (f, True, p)" using M(5) tr by (simp add: translates_def)
      then have "tlb_coherent w' a" using M(3) unfolding r(2) tlb_coherent_def by (simp add: tlb.coherent_insert)
      then show ?thesis using M tr False by (auto simp: r reached_def)
    qed
  qed
qed


section \<open>Bytes\<close>

definition mem_byte :: "mem \<Rightarrow> int \<Rightarrow> u16 \<Rightarrow> u8 option" where
  "mem_byte w q x = map_option (\<lambda>bs. bs ! unat (offset_of x)) (content w q (vpn_of x))"

lemma content_present:
  assumes "mem_inv w" "vm_of w q = Some a" "present (pte_at w a v)"
  shows "content w q v = Some (frame_bytes (w_frame w) (unat (frame_num (pte_at w a v))))" "unat (frame_num (pte_at w a v)) < 64"
proof -
  have wf: "vm_wf w" and po: "pages_ok (ppte w) (frame_owner w) (swap_owner w)" using assms(1) by (auto simp: mem_inv_def)
  have e: "ppte w q v = Some (pte_at w a v)" by (rule pte_at_ppte [OF wf assms(2)])
  show "content w q v = Some (frame_bytes (w_frame w) (unat (frame_num (pte_at w a v))))" using assms(3) by (simp add: content_def e page_bytes_def)
  show "unat (frame_num (pte_at w a v)) < 64" using pages_ok_present(2) [OF po e assms(3)] by (rule frame_owner_less)
qed

lemma vm_read_byte_effect:
  assumes inv: "mem_inv w" and a: "vm_of w q = Some a" and c: "tlb_coherent w a" and m: "vm_read_byte q a x t w = (r, w')"
  shows "case r of None \<Rightarrow> refused w a w' | Some b \<Rightarrow> (\<exists>f. reached w q a (vpn_of x) f w') \<and> mem_byte w q x = Some b"
proof -
  obtain g w1 where p: "vm_read_page q a (vpn_of x) t w = (g, w1)" by (cases "vm_read_page q a (vpn_of x) t w")
  note E = vm_read_page_effect [OF inv a c p]
  show ?thesis
  proof (cases g)
    case None
    then show ?thesis using E m p by (auto simp: vm_read_byte_def)
  next
    case (Some f)
    then have R: "reached w q a (vpn_of x) f w1" using E by simp
    then have w1: "mem_inv w1" "vm_of w1 q = Some a" "present (pte_at w1 a (vpn_of x))" "frame_num (pte_at w1 a (vpn_of x)) = f"
      "content w1 q (vpn_of x) = content w q (vpn_of x)" using a by (auto simp: reached_def)
    note C = content_present [OF w1(1-3)]
    have "r = Some (frame_read_byte (phys_addr f (offset_of x)) (w_frame w1))" "w' = w1" using m p Some by (auto simp: vm_read_byte_def)
    then show ?thesis using R C w1(4,5) frame_read_phys [of f "offset_of x" "w_frame w1"] by (auto simp: mem_byte_def)
  qed
qed

lemma store_effect:
  assumes inv: "mem_inv w" and a: "vm_of w q = Some a" and c: "tlb_coherent w a" and p: "present (pte_at w a v)" "frame_num (pte_at w a v) = f"
    and w': "w' = w\<lparr>w_frame := frame_write_byte (phys_addr f k) b (w_frame w)\<rparr>"
  shows "mem_inv w'" "tlb_coherent w' a" "vm_of w' = vm_of w" "perms w' = perms w" "clean_page w' = clean_page w"
    "\<exists>bs. content w q v = Some bs \<and> length bs = 256 \<and>
       (\<forall>p x. content w' p x = (if (p, x) = (q, v) then Some (bs[unat k := b]) else content w p x))"
proof -
  have i: "vm_wf w" "frame_inv (w_frame w)" "pages_ok (ppte w) (frame_owner w) (swap_owner w)" using inv by (auto simp: mem_inv_def)
  note C = content_present [OF inv a p(1)]
  have e: "ppte w q v = Some (pte_at w a v)" by (rule pte_at_ppte [OF i(1) a])
  have own: "frame_owner w' = frame_owner w" by (auto simp: w' frame_owner_def frame_get_owner_def frame_write_byte_def fun_eq_iff)
  show "mem_inv w'" using inv own by (simp add: mem_inv_def w' frame_inv_write_byte)
  have "translates w' = translates w" by (simp add: translates_def w' fun_eq_iff)
  then show "tlb_coherent w' a" using c by (simp add: tlb_coherent_def w')
  show "vm_of w' = vm_of w" "perms w' = perms w" "clean_page w' = clean_page w" by (simp_all add: w' perms_def clean_page_def fun_eq_iff)
  let ?bs = "frame_bytes (w_frame w) (unat f)"
  have "content w' p' x = (if (p', x) = (q, v) then Some (?bs[unat k := b]) else content w p' x)" for p' x
  proof (cases "(p', x) = (q, v)")
    case True
    then show ?thesis using e p C(2) frame_write_phys [of f k b "w_frame w" "unat f"] by (simp add: w' content_def page_bytes_def)
  next
    case False
    have "present y \<Longrightarrow> frame_num y \<noteq> f" if "ppte w p' x = Some y" for y
      using pages_ok_frame_inj [OF i(3) that _ e p(1)] p(2) False by auto
    then show ?thesis using False C(2) p(2) frame_write_phys [of f k b "w_frame w"]
      by (cases "ppte w p' x") (auto simp: w' content_def page_bytes_def word_unat_eq_iff)
  qed
  then show "\<exists>bs. content w q v = Some bs \<and> length bs = 256 \<and>
       (\<forall>p x. content w' p x = (if (p, x) = (q, v) then Some (bs[unat k := b]) else content w p x))"
    using C(1) p(2) by (intro exI [of _ ?bs]) simp
qed

text \<open>A step towards the end of a write: which bytes it may change.\<close>

definition decayed :: "mem \<Rightarrow> mem \<Rightarrow> int \<Rightarrow> u16 \<Rightarrow> bool" where
  "decayed w w' p x \<longleftrightarrow> clean_page w p (vpn_of x) \<and> mem_byte w' p x = Some 0"

lemma lost_byte: "lost w w' p (vpn_of x) \<Longrightarrow> decayed w w' p x"
  by (simp add: lost_def decayed_def mem_byte_def)

lemma vm_write_byte_effect:
  assumes inv: "mem_inv w" and a: "vm_of w q = Some a" and c: "tlb_coherent w a" and m: "vm_write_byte q a x b t w = (ok, w')"
  shows "mem_inv w' \<and> tlb_coherent w' a \<and> vm_of w' = vm_of w \<and> perms w' = perms w \<and>
    (if ok then permissions (pte_at w a (vpn_of x)) AND 2 \<noteq> 0 \<and> mem_byte w' q x = Some b \<and> \<not> clean_page w' q (vpn_of x) \<and> present (pte_at w' a (vpn_of x)) \<and>
       (\<forall>p y. (p, y) \<noteq> (q, x) \<longrightarrow> mem_byte w' p y = mem_byte w p y \<or> decayed w w' p y) \<and>
       (\<forall>p y. clean_page w' p y \<longrightarrow> clean_page w p y)
     else content w' = content w)"
proof -
  let ?v = "vpn_of x" and ?k = "offset_of x"
  obtain g w1 where p: "vm_write_page q a ?v t w = (g, w1)" by (cases "vm_write_page q a ?v t w")
  note E = vm_write_page_effect [OF inv a c p]
  show ?thesis
  proof (cases g)
    case None
    then show ?thesis using E m p by (auto simp: vm_write_byte_def refused_def)
  next
    case (Some f)
    then have R: "reached w q a ?v f w1" "dirty (pte_at w1 a ?v)" "permissions (pte_at w a ?v) AND 2 \<noteq> 0" using E by simp_all
    then have w1: "mem_inv w1" "vm_of w1 q = Some a" "tlb_coherent w1 a" "present (pte_at w1 a ?v)" "frame_num (pte_at w1 a ?v) = f"
      "vm_of w1 = vm_of w" "perms w1 = perms w" "content w1 q ?v = content w q ?v"
      "\<And>p y. content w1 p y = content w p y \<or> lost w w1 p y"
      "\<And>p y. (p, y) \<noteq> (q, ?v) \<Longrightarrow> clean_page w1 p y \<Longrightarrow> clean_page w p y" using a by (auto simp: reached_def)
    have wf: "vm_wf w1" using w1(1) by (simp add: mem_inv_def)
    have nc: "\<not> clean_page w1 q ?v" using R(2) pte_at_ppte [OF wf w1(2), of ?v] by (simp add: clean_page_def)
    have ok: "ok" "w' = w1\<lparr>w_frame := frame_write_byte (phys_addr f ?k) b (w_frame w1)\<rparr>" using m p Some by (auto simp: vm_write_byte_def)
    note S = store_effect [OF w1(1-5) ok(2)]
    obtain bs where bs: "content w1 q ?v = Some bs" "length bs = 256"
      "\<And>p y. content w' p y = (if (p, y) = (q, ?v) then Some (bs[unat ?k := b]) else content w1 p y)" using S(6) by blast
    have new: "mem_byte w' q x = Some b" using bs(2) by (simp add: mem_byte_def bs(3))
    have old: "mem_byte w' p y = mem_byte w p y \<or> decayed w w' p y" if ne: "(p, y) \<noteq> (q, x)" for p y
    proof (cases "(p, vpn_of y) = (q, ?v)")
      case True
      then have "offset_of y \<noteq> ?k" using ne vpn_offset_inj by auto
      then have "unat (offset_of y) \<noteq> unat ?k" by (simp add: word_unat_eq_iff)
      then show ?thesis using True bs(1) w1(8) by (simp add: mem_byte_def bs(3))
    next
      case False
      then have "content w' p (vpn_of y) = content w1 p (vpn_of y)" unfolding bs(3) by (rule if_not_P)
      then have "content w' p (vpn_of y) = content w p (vpn_of y) \<or> lost w w' p (vpn_of y)" using w1(9) [of p "vpn_of y"] by (simp add: lost_def)
      then show ?thesis using lost_byte by (auto simp: mem_byte_def)
    qed
    have "clean_page w p y" if "clean_page w' p y" for p y using that S(5) nc w1(10) [of p y] by auto
    moreover have "present (pte_at w' a ?v)" using w1(4) by (simp add: ok(2))
    ultimately show ?thesis using S ok(1) R(3) w1(6,7) new old nc by simp
  qed
qed


section \<open>Ranges of bytes\<close>

lemma unat_addr_add: "unat (x :: u16) + n \<le> 65536 \<Longrightarrow> i < n \<Longrightarrow> unat (x + of_nat i) = unat x + i"
  by (simp add: unat_word_ariths unat_of_nat take_bit_eq_mod)

lemma next_addr_fits:
  assumes "unat (x :: u16) + Suc n \<le> 65536"
  shows "unat (x + 1) + n \<le> 65536"
proof (cases n)
  case (Suc m)
  then have "unat (x + 1) = unat x + 1" using unat_addr_add [OF assms, of 1] by simp
  then show ?thesis using assms by simp
next
  case 0
  then show ?thesis using less_imp_le [OF unat_u16_less [of "x + 1"]] by simp
qed

lemma addr_range_Cons:
  "(\<exists>i < Suc n. y = x + of_nat i) \<longleftrightarrow> y = x \<or> (\<exists>i < n. y = (x + 1) + of_nat i)" for x y :: u16
proof
  assume "\<exists>i < Suc n. y = x + of_nat i"
  then obtain i where "i < Suc n" "y = x + of_nat i" by blast
  then show "y = x \<or> (\<exists>i < n. y = (x + 1) + of_nat i)" by (cases i) (auto simp: add.assoc)
next
  assume "y = x \<or> (\<exists>i < n. y = (x + 1) + of_nat i)"
  then show "\<exists>i < Suc n. y = x + of_nat i"
  proof
    assume "\<exists>i < n. y = (x + 1) + of_nat i"
    then obtain i where "i < n" "y = (x + 1) + of_nat i" by blast
    then show ?thesis by (intro exI [of _ "Suc i"]) (simp add: add.assoc)
  qed (auto intro: exI [of _ 0])
qed

lemma first_not_later: "unat (x :: u16) + Suc n \<le> 65536 \<Longrightarrow> \<not> (\<exists>i < n. x = (x + 1) + of_nat i)"
proof
  assume f: "unat x + Suc n \<le> 65536" and "\<exists>i < n. x = (x + 1) + of_nat i"
  then obtain i where i: "i < n" "x = x + of_nat (Suc i)" by (auto simp: add.assoc)
  then show False using unat_addr_add [OF f, of "Suc i"] by simp
qed

lemma perms_pte_at:
  assumes "mem_inv w" "mem_inv w'" "vm_of w q = Some a" "vm_of w' = vm_of w" "perms w' = perms w"
  shows "permissions (pte_at w' a v) = permissions (pte_at w a v)"
proof -
  have "ppte w q v = Some (pte_at w a v)" "ppte w' q v = Some (pte_at w' a v)"
    using pte_at_ppte [of w q a v] pte_at_ppte [of w' q a v] assms(1-4) by (simp_all add: mem_inv_def)
  moreover have "perms w' q v = perms w q v" by (simp add: assms(5))
  ultimately show ?thesis by (simp add: perms_def)
qed

lemma decayed_trans:
  assumes "mem_byte w1 p y = mem_byte w p y \<or> decayed w w1 p y" "mem_byte w' p y = mem_byte w1 p y \<or> decayed w1 w' p y"
    "clean_page w1 p (vpn_of y) \<Longrightarrow> clean_page w p (vpn_of y)"
  shows "mem_byte w' p y = mem_byte w p y \<or> decayed w w' p y"
  using assms by (auto simp: decayed_def)

lemma vm_write_loop_effect:
  assumes "mem_inv w" "vm_of w q = Some a" "tlb_coherent w a" "vm_write_loop q a t bs x w = (ok, w')" "unat x + length bs \<le> 65536"
  shows "mem_inv w' \<and> tlb_coherent w' a \<and> vm_of w' = vm_of w \<and> perms w' = perms w \<and>
    (\<forall>p y. p = q \<and> (\<exists>i < length bs. y = x + of_nat i) \<and> permissions (pte_at w a (vpn_of y)) AND 2 \<noteq> 0 \<or>
       mem_byte w' p y = mem_byte w p y \<or> decayed w w' p y) \<and>
    (ok \<longrightarrow> (\<forall>p y. clean_page w' p y \<longrightarrow> clean_page w p y) \<and>
      (\<forall>i < length bs. mem_byte w' q (x + of_nat i) = Some (bs ! i) \<and> \<not> clean_page w' q (vpn_of (x + of_nat i))))"
  using assms
proof (induction bs arbitrary: x w)
  case Nil
  then show ?case by simp
next
  case (Cons b bs)
  obtain ok1 w1 where s: "vm_write_byte q a x b t w = (ok1, w1)" by (cases "vm_write_byte q a x b t w")
  note E = vm_write_byte_effect [OF Cons.prems(1-3) s]
  have w1: "mem_inv w1" "tlb_coherent w1 a" "vm_of w1 = vm_of w" "perms w1 = perms w" using E by auto
  show ?case
  proof (cases ok1)
    case False
    then have "ok = False" "w' = w1" "content w1 = content w" using Cons.prems(4) s E by auto
    then show ?thesis using w1 by (simp add: mem_byte_def)
  next
    case True
    have B: "permissions (pte_at w a (vpn_of x)) AND 2 \<noteq> 0" "mem_byte w1 q x = Some b" "\<not> clean_page w1 q (vpn_of x)"
      "\<And>p y. (p, y) \<noteq> (q, x) \<Longrightarrow> mem_byte w1 p y = mem_byte w p y \<or> decayed w w1 p y" "\<And>p y. clean_page w1 p y \<Longrightarrow> clean_page w p y"
      using E True by auto
    have l: "vm_write_loop q a t bs (x + 1) w1 = (ok, w')" using Cons.prems(4) s True by simp
    have fit: "unat x + Suc (length bs) \<le> 65536" using Cons.prems(5) by simp
    have a1: "vm_of w1 q = Some a" using w1(3) Cons.prems(2) by simp
    note I = Cons.IH [OF w1(1) a1 w1(2) l next_addr_fits [OF fit]]
    have pe: "permissions (pte_at w1 a v) = permissions (pte_at w a v)" for v by (rule perms_pte_at [OF Cons.prems(1) w1(1) Cons.prems(2) w1(3,4)])
    have I5: "p = q \<and> (\<exists>i < length bs. y = (x + 1) + of_nat i) \<and> permissions (pte_at w a (vpn_of y)) AND 2 \<noteq> 0 \<or>
       mem_byte w' p y = mem_byte w1 p y \<or> decayed w1 w' p y" for p y using I unfolding pe by blast
    have R: "p = q \<and> (\<exists>i < length (b # bs). y = x + of_nat i) \<and> permissions (pte_at w a (vpn_of y)) AND 2 \<noteq> 0 \<or>
       mem_byte w' p y = mem_byte w p y \<or> decayed w w' p y" for p y
    proof (cases "(p, y) = (q, x)")
      case True
      then show ?thesis using B(1) by (auto intro: exI [of _ 0])
    next
      case False
      show ?thesis using I5 [of p y] decayed_trans [OF B(4) [OF False], of w'] B(5) addr_range_Cons [of "length bs" y x] by auto
    qed
    have x': "mem_byte w' q x = Some b" using I5 [of q x] first_not_later [OF fit] B(2,3) by (auto simp: decayed_def)
    have A: "mem_byte w' q (x + of_nat i) = Some ((b # bs) ! i) \<and> \<not> clean_page w' q (vpn_of (x + of_nat i))" if "ok" "i < length (b # bs)" for i
    proof (cases i)
      case 0
      then show ?thesis using x' I B(3) that(1) by auto
    next
      case (Suc j)
      then have "mem_byte w' q ((x + 1) + of_nat j) = Some (bs ! j) \<and> \<not> clean_page w' q (vpn_of ((x + 1) + of_nat j))"
        using I that by auto
      then show ?thesis using Suc by (simp add: add.assoc)
    qed
    have "clean_page w p y" if "ok" "clean_page w' p y" for p y using I B(5) that by blast
    then show ?thesis using I w1 R A by auto
  qed
qed


lemma vpn_mono:
  assumes f: "unat x + Suc n \<le> 65536" and i: "i < n" and e: "vpn_of ((x + 1) + of_nat i) = vpn_of x"
  shows "vpn_of (x + 1) = vpn_of x"
proof -
  have u: "unat ((x + 1) + of_nat i) = unat x + Suc i" "unat (x + 1) = unat x + 1"
    using unat_addr_add [OF f, of "Suc i"] unat_addr_add [OF f, of 1] i by (simp_all add: add.assoc)
  have "(unat x + Suc i) div 256 = unat x div 256" using arg_cong [OF e, of unat] by (simp add: unat_vpn_of u)
  then have "(unat x + 1) div 256 = unat x div 256"
    using div_le_mono [of "unat x" "unat x + 1" 256] div_le_mono [of "unat x + 1" "unat x + Suc i" 256] by simp
  then show ?thesis by (simp add: word_unat_eq_iff unat_vpn_of u)
qed

text \<open>What a later byte of a read says of the memory before the first byte was read.\<close>

lemma read_later_byte:
  assumes first: "content w1 q (vpn_of x) = content w q (vpn_of x)" "\<And>y. content w1 q y = content w q y \<or> lost w w1 q y"
      "\<And>y. y \<noteq> vpn_of x \<Longrightarrow> clean_page w1 q y \<Longrightarrow> clean_page w q y"
    and later: "mem_byte w1 q y = Some b \<or> clean_page w1 q (vpn_of y) \<and> vpn_of y \<noteq> vpn_of x \<and> b = 0"
  shows "mem_byte w q y = Some b \<or> clean_page w q (vpn_of y) \<and> vpn_of y \<noteq> vpn_of x \<and> b = 0"
proof (cases "mem_byte w1 q y = Some b")
  case m: True
  show ?thesis
  proof (cases "vpn_of y = vpn_of x")
    case True
    then show ?thesis using m first(1) by (simp add: mem_byte_def)
  next
    case False
    then show ?thesis using m first(2) [of "vpn_of y"] lost_byte [of w w1 q y] by (auto simp: mem_byte_def decayed_def lost_def)
  qed
next
  case False
  then show ?thesis using later first(3) by blast
qed

lemma vm_read_loop_effect:
  assumes "mem_inv w" "vm_of w q = Some a" "tlb_coherent w a" "vm_read_loop q a t n x w = (ok, bs, w')" "unat x + n \<le> 65536"
  shows "mem_inv w' \<and> tlb_coherent w' a \<and> vm_of w' = vm_of w \<and> perms w' = perms w \<and> length bs \<le> n \<and> (ok \<longrightarrow> length bs = n) \<and>
    (\<forall>i < length bs. mem_byte w q (x + of_nat i) = Some (bs ! i) \<or>
       clean_page w q (vpn_of (x + of_nat i)) \<and> vpn_of (x + of_nat i) \<noteq> vpn_of x \<and> bs ! i = 0)"
  using assms
proof (induction n arbitrary: x w bs)
  case 0
  then show ?case by simp
next
  case (Suc n)
  obtain r w1 where s: "vm_read_byte q a x t w = (r, w1)" by (cases "vm_read_byte q a x t w")
  note E = vm_read_byte_effect [OF Suc.prems(1-3) s]
  show ?case
  proof (cases r)
    case None
    then have "ok = False" "bs = []" "w' = w1" using Suc.prems(4) s by auto
    then show ?thesis using E None by (simp add: refused_def)
  next
    case (Some b)
    obtain bs1 where l: "vm_read_loop q a t n (x + 1) w1 = (ok, bs1, w')" "bs = b # bs1"
      using Suc.prems(4) s Some by (auto split: prod.splits)
    have w1: "mem_inv w1" "tlb_coherent w1 a" "vm_of w1 = vm_of w" "perms w1 = perms w" "mem_byte w q x = Some b"
      "content w1 q (vpn_of x) = content w q (vpn_of x)" "\<And>y. content w1 q y = content w q y \<or> lost w w1 q y"
      "\<And>y. y \<noteq> vpn_of x \<Longrightarrow> clean_page w1 q y \<Longrightarrow> clean_page w q y" using E Some by (auto simp: reached_def)
    have a1: "vm_of w1 q = Some a" using w1(3) Suc.prems(2) by simp
    note I = Suc.IH [OF w1(1) a1 w1(2) l(1) next_addr_fits [OF Suc.prems(5)]]
    have "mem_byte w q (x + of_nat i) = Some (bs ! i) \<or>
       clean_page w q (vpn_of (x + of_nat i)) \<and> vpn_of (x + of_nat i) \<noteq> vpn_of x \<and> bs ! i = 0" if i: "i < length bs" for i
    proof (cases i)
      case 0
      then show ?thesis using w1(5) l(2) by simp
    next
      case (Suc j)
      let ?y = "(x + 1) + of_nat j"
      have y: "x + of_nat i = ?y" "bs ! i = bs1 ! j" "j < length bs1" using Suc i l(2) by (simp_all add: add.assoc)
      then have j: "j < n" using I by simp
      have "mem_byte w1 q ?y = Some (bs ! i) \<or> clean_page w1 q (vpn_of ?y) \<and> vpn_of ?y \<noteq> vpn_of (x + 1) \<and> bs ! i = 0"
        using I y by simp
      then show ?thesis unfolding y(1) using vpn_mono [OF Suc.prems(5) j] by (intro read_later_byte [OF w1(6-8)]) auto
    qed
    then show ?thesis using I w1(3,4) l(2) by simp
  qed
qed


section \<open>The two accessors\<close>

lemma add_tlb_stats_only:
  "mem_inv (add_tlb_stats a b w) = mem_inv w" "content (add_tlb_stats a b w) = content w" "mem_byte (add_tlb_stats a b w) = mem_byte w"
  "clean_page (add_tlb_stats a b w) = clean_page w" "tlb_coherent (add_tlb_stats a b w) = tlb_coherent w"
  "perms (add_tlb_stats a b w) = perms w" "vm_of (add_tlb_stats a b w) = vm_of w" "decayed w0 (add_tlb_stats a b w) = decayed w0 w"
  by (simp_all add: add_tlb_stats_def Let_def stats_only mem_byte_def decayed_def fun_eq_iff)

lemma length_check:
  assumes "unat (len :: u64) \<le> 65536"
  shows "\<not> 65536 < ucast (x :: u16) + len \<longleftrightarrow> unat x + unat len \<le> 65536"
proof -
  have "unat (ucast x :: u64) = unat x" using unat_u16_less [of x] by (simp add: unsigned_ucast_eq take_bit_eq_mod del: unat_u16_less)
  moreover have "unat x < 65536" by simp
  ultimately have "unat (ucast x + len) = unat x + unat len" using assms by (simp add: unat_word_ariths del: unat_u16_less)
  then show ?thesis by (simp add: word_less_nat_alt not_less)
qed

lemma length_result:
  assumes "unat (len :: u64) \<le> 65536"
  shows "sint (ucast len :: 32 word) = int (unat len)"
proof -
  have "uint len = int (unat len)" by simp
  then have l: "0 \<le> uint len" "uint len \<le> 65536" using assms by linarith+
  then have "uint (ucast len :: 32 word) = uint len" by (simp add: unsigned_ucast_eq take_bit_eq_mod)
  moreover have "- (2 ^ 31) \<le> uint len" "uint len < 2 ^ 31" using l by (simp_all add: order_trans [of _ 0])
  then have "signed_take_bit 31 (uint len) = uint len" by (rule signed_take_bit_int_eq_self)
  ultimately show ?thesis by (simp add: sint_uint)
qed

lemma vm_read_mem_cases:
  assumes "mem_inv w" "vm_of w q = Some a" "unat len \<le> 65536" "vm_read_mem q a x len t w = (r, bs, w')"
  obtains (range) "\<not> unat x + unat len \<le> 65536" "r = -1" "bs = []" "w' = w"
  | (fault) "unat x + unat len \<le> 65536" "vm_read_loop q a t (unat len) x w = (False, bs, w')" "r = -1"
  | (ok) w1 where "unat x + unat len \<le> 65536" "vm_read_loop q a t (unat len) x w = (True, bs, w1)" "r = int (unat len)"
      "w' = add_tlb_stats a (tlb_get_stats (w_tlb w)) w1"
proof -
  have live: "w_vms w a \<noteq> None" using assms(1,2) by (auto simp: mem_inv_def vm_wf_def)
  have e: "vm_read_mem q a x len t w = (if \<not> unat x + unat len \<le> 65536 then (-1, [], w)
      else let (ok, bs, w1) = vm_read_loop q a t (unat len) x w
           in if \<not> ok then (-1, bs, w1) else (int (unat len), bs, add_tlb_stats a (tlb_get_stats (w_tlb w)) w1))"
    using live length_check [OF assms(3), of x] unfolding vm_read_mem_def length_result [OF assms(3)] by auto
  obtain k bs1 w1 where l: "vm_read_loop q a t (unat len) x w = (k, bs1, w1)" by (cases "vm_read_loop q a t (unat len) x w")
  consider "\<not> unat x + unat len \<le> 65536" | "unat x + unat len \<le> 65536" "\<not> k" | "unat x + unat len \<le> 65536" k by blast
  then show ?thesis
  proof cases
    case 1
    then show ?thesis using assms(4) unfolding e by (intro range) simp_all
  next
    case 2
    then show ?thesis using assms(4) l unfolding e by (intro fault) simp_all
  next
    case 3
    then show ?thesis using assms(4) l unfolding e by (intro ok [of w1]) simp_all
  qed
qed

lemma vm_write_mem_cases:
  assumes "mem_inv w" "vm_of w q = Some a" "unat len \<le> 65536" "vm_write_mem q a x src len t w = (r, w')"
  obtains (range) "\<not> unat x + unat len \<le> 65536" "r = -1" "w' = w"
  | (fault) "unat x + unat len \<le> 65536" "vm_write_loop q a t (map src [0..<unat len]) x w = (False, w')" "r = -1"
  | (ok) w1 where "unat x + unat len \<le> 65536" "vm_write_loop q a t (map src [0..<unat len]) x w = (True, w1)" "r = int (unat len)"
      "w' = add_tlb_stats a (tlb_get_stats (w_tlb w)) w1"
proof -
  have live: "w_vms w a \<noteq> None" using assms(1,2) by (auto simp: mem_inv_def vm_wf_def)
  have e: "vm_write_mem q a x src len t w = (if \<not> unat x + unat len \<le> 65536 then (-1, w)
      else let (ok, w1) = vm_write_loop q a t (map src [0..<unat len]) x w
           in if \<not> ok then (-1, w1) else (int (unat len), add_tlb_stats a (tlb_get_stats (w_tlb w)) w1))"
    using live length_check [OF assms(3), of x] unfolding vm_write_mem_def length_result [OF assms(3)] by auto
  obtain k w1 where l: "vm_write_loop q a t (map src [0..<unat len]) x w = (k, w1)"
    by (cases "vm_write_loop q a t (map src [0..<unat len]) x w")
  consider "\<not> unat x + unat len \<le> 65536" | "unat x + unat len \<le> 65536" "\<not> k" | "unat x + unat len \<le> 65536" k by blast
  then show ?thesis
  proof cases
    case 1
    then show ?thesis using assms(4) unfolding e by (intro range) simp_all
  next
    case 2
    then show ?thesis using assms(4) l unfolding e by (intro fault) simp_all
  next
    case 3
    then show ?thesis using assms(4) l unfolding e by (intro ok [of w1]) simp_all
  qed
qed

text \<open>What the accessors guarantee, in the form their clients use.\<close>

lemma vm_write_mem_effect:
  assumes "mem_inv w" "vm_of w q = Some a" "tlb_coherent w a" "unat len \<le> 65536" "vm_write_mem q a x src len t w = (r, w')"
  shows "mem_inv w'" "tlb_coherent w' a" "vm_of w' = vm_of w" "perms w' = perms w" "r = -1 \<or> r = int (unat len)"
    "p = q \<and> (\<exists>i < unat len. y = x + of_nat i) \<and> permissions (pte_at w a (vpn_of y)) AND 2 \<noteq> 0 \<or>
       mem_byte w' p y = mem_byte w p y \<or> decayed w w' p y"
    "r \<noteq> -1 \<Longrightarrow> unat x + unat len \<le> 65536"
    "r \<noteq> -1 \<Longrightarrow> clean_page w' p v \<Longrightarrow> clean_page w p v"
    "r \<noteq> -1 \<Longrightarrow> i < unat len \<Longrightarrow> mem_byte w' q (x + of_nat i) = Some (src i)"
    "r \<noteq> -1 \<Longrightarrow> i < unat len \<Longrightarrow> \<not> clean_page w' q (vpn_of (x + of_nat i))"
proof -
  have "mem_inv w' \<and> tlb_coherent w' a \<and> vm_of w' = vm_of w \<and> perms w' = perms w \<and> (r = -1 \<or> r = int (unat len)) \<and>
    (\<forall>p y. p = q \<and> (\<exists>i < unat len. y = x + of_nat i) \<and> permissions (pte_at w a (vpn_of y)) AND 2 \<noteq> 0 \<or>
       mem_byte w' p y = mem_byte w p y \<or> decayed w w' p y) \<and>
    (r \<noteq> -1 \<longrightarrow> unat x + unat len \<le> 65536 \<and> (\<forall>p v. clean_page w' p v \<longrightarrow> clean_page w p v) \<and>
       (\<forall>i < unat len. mem_byte w' q (x + of_nat i) = Some (src i) \<and> \<not> clean_page w' q (vpn_of (x + of_nat i))))"
    using assms(1,2,4,5)
  proof (cases rule: vm_write_mem_cases)
    case range
    then show ?thesis using assms by simp
  next
    case fault
    then show ?thesis using vm_write_loop_effect [OF assms(1-3) fault(2)] by simp
  next
    case (ok w1)
    then show ?thesis using vm_write_loop_effect [OF assms(1-3) ok(2)] by (simp add: add_tlb_stats_only)
  qed
  note E = this
  show "mem_inv w'" "tlb_coherent w' a" "vm_of w' = vm_of w" "perms w' = perms w" "r = -1 \<or> r = int (unat len)"
    "p = q \<and> (\<exists>i < unat len. y = x + of_nat i) \<and> permissions (pte_at w a (vpn_of y)) AND 2 \<noteq> 0 \<or>
       mem_byte w' p y = mem_byte w p y \<or> decayed w w' p y"
    "r \<noteq> -1 \<Longrightarrow> unat x + unat len \<le> 65536"
    "r \<noteq> -1 \<Longrightarrow> clean_page w' p v \<Longrightarrow> clean_page w p v"
    "r \<noteq> -1 \<Longrightarrow> i < unat len \<Longrightarrow> mem_byte w' q (x + of_nat i) = Some (src i)"
    "r \<noteq> -1 \<Longrightarrow> i < unat len \<Longrightarrow> \<not> clean_page w' q (vpn_of (x + of_nat i))"
    using E by blast+
qed

lemma vm_read_mem_effect:
  assumes "mem_inv w" "vm_of w q = Some a" "tlb_coherent w a" "unat len \<le> 65536" "vm_read_mem q a x len t w = (r, bs, w')"
  shows "mem_inv w'" "tlb_coherent w' a" "vm_of w' = vm_of w" "perms w' = perms w" "r = -1 \<or> r = int (unat len)"
    "r \<noteq> -1 \<Longrightarrow> length bs = unat len" "r \<noteq> -1 \<Longrightarrow> unat x + unat len \<le> 65536"
    "i < length bs \<Longrightarrow> mem_byte w q (x + of_nat i) = Some (bs ! i) \<or>
       clean_page w q (vpn_of (x + of_nat i)) \<and> vpn_of (x + of_nat i) \<noteq> vpn_of x \<and> bs ! i = 0"
proof -
  have "mem_inv w' \<and> tlb_coherent w' a \<and> vm_of w' = vm_of w \<and> perms w' = perms w \<and> (r = -1 \<or> r = int (unat len)) \<and>
    (r \<noteq> -1 \<longrightarrow> length bs = unat len \<and> unat x + unat len \<le> 65536) \<and>
    (\<forall>i < length bs. mem_byte w q (x + of_nat i) = Some (bs ! i) \<or>
       clean_page w q (vpn_of (x + of_nat i)) \<and> vpn_of (x + of_nat i) \<noteq> vpn_of x \<and> bs ! i = 0)"
    using assms(1,2,4,5)
  proof (cases rule: vm_read_mem_cases)
    case range
    then show ?thesis using assms by simp
  next
    case fault
    then show ?thesis using vm_read_loop_effect [OF assms(1-3) fault(2,1)] by simp
  next
    case (ok w1)
    then show ?thesis using vm_read_loop_effect [OF assms(1-3) ok(2,1)] by (simp add: add_tlb_stats_only)
  qed
  note E = this
  show "mem_inv w'" "tlb_coherent w' a" "vm_of w' = vm_of w" "perms w' = perms w" "r = -1 \<or> r = int (unat len)"
    "r \<noteq> -1 \<Longrightarrow> length bs = unat len" "r \<noteq> -1 \<Longrightarrow> unat x + unat len \<le> 65536"
    "i < length bs \<Longrightarrow> mem_byte w q (x + of_nat i) = Some (bs ! i) \<or>
       clean_page w q (vpn_of (x + of_nat i)) \<and> vpn_of (x + of_nat i) \<noteq> vpn_of x \<and> bs ! i = 0"
    using E by blast+
qed


text \<open>Accesses of one byte, and when they succeed.\<close>

lemma vm_read_one:
  "w_vms w a = Some vm \<Longrightarrow> vm_read_mem q a x 1 t w =
     (case vm_read_byte q a x t w of
        (None, w1) \<Rightarrow> (-1, [], w1)
      | (Some b, w1) \<Rightarrow> (1, [b], add_tlb_stats a (tlb_get_stats (w_tlb w)) w1))"
  using length_check [of 1 x] unat_u16_less [of x] length_result [of 1]
  by (simp add: vm_read_mem_def not_less Suc_leI split: option.split prod.split del: unat_u16_less)

lemma vm_write_one:
  "w_vms w a = Some vm \<Longrightarrow> vm_write_mem q a x src 1 t w =
     (case vm_write_byte q a x (src 0) t w of
        (False, w1) \<Rightarrow> (-1, w1)
      | (True, w1) \<Rightarrow> (1, add_tlb_stats a (tlb_get_stats (w_tlb w)) w1))"
  using length_check [of 1 x] unat_u16_less [of x] length_result [of 1]
  by (simp add: vm_write_mem_def not_less Suc_leI split: bool.split prod.split del: unat_u16_less)

lemma tracks_frames_tlb [simp]: "tracks_frames (w\<lparr>w_tlb := T\<rparr>) = tracks_frames w"
  unfolding tracks_frames_def owner_mem by simp

lemma vm_miss_succeeds:
  assumes inv: "mem_inv w" and a: "vm_of w q = Some a" and c: "tlb_coherent w a"
    and p: "permissions (pte_at w a v) AND (if wr then 2 else 1) = (if wr then 2 else 1)"
    and ok: "present (pte_at w a v) \<or> tracks_frames w \<and> k < 256 \<and> swap_owner w k = None"
  shows "fst (vm_miss q a v wr t w) \<noteq> None"
proof -
  obtain res out w1 where e: "pager_access_page q a v wr t w = (res, out, w1)" by (cases "pager_access_page q a v wr t w")
  have "res \<noteq> PAGER_ERROR_OOM"
    using ok pager_access_oom [OF inv a _ _ _ e] pager_access_all [OF inv a c e] p by auto
  then have r: "res \<in> {PAGER_HIT, PAGER_FAULT_MINOR, PAGER_FAULT_MAJOR}"
    using pager_access_all [OF inv a c e] pager_access_facts(5) [OF inv a c e] p by blast
  show ?thesis using r pager_access_success(3) [OF inv a c e r] e by (auto simp: vm_miss_def Let_def)
qed

lemma vm_read_page_succeeds:
  assumes inv: "mem_inv w" and a: "vm_of w q = Some a" and c: "tlb_coherent w a"
    and p: "permissions (pte_at w a v) AND 1 = 1"
    and ok: "present (pte_at w a v) \<or> tracks_frames w \<and> k < 256 \<and> swap_owner w k = None"
  shows "fst (vm_read_page q a v t w) \<noteq> None"
proof -
  obtain h T where l: "tlb_lookup v t (w_tlb w) = (h, T)" by (cases "tlb_lookup v t (w_tlb w)")
  note L = tlb_lookup_coherent [OF c l]
  have "fst (vm_miss q a v False t (w\<lparr>w_tlb := T\<rparr>)) \<noteq> None"
    by (rule vm_miss_succeeds [where k = k]) (use inv a p ok L(1) in simp_all)
  moreover have "permissions (pte_at w a v) = pm" if "h = Some (f, d, pm)" for f d pm using L(2) [OF that] by (auto simp: translates_def Let_def)
  ultimately show ?thesis using l p by (cases h) (auto simp: vm_read_page_def vm_prots)
qed

lemma vm_write_page_succeeds:
  assumes inv: "mem_inv w" and a: "vm_of w q = Some a" and c: "tlb_coherent w a"
    and p: "permissions (pte_at w a v) AND 2 = 2"
    and ok: "present (pte_at w a v) \<or> tracks_frames w \<and> k < 256 \<and> swap_owner w k = None"
  shows "fst (vm_write_page q a v t w) \<noteq> None"
proof -
  obtain h T where l: "tlb_lookup v t (w_tlb w) = (h, T)" by (cases "tlb_lookup v t (w_tlb w)")
  note L = tlb_lookup_coherent [OF c l]
  have "fst (vm_miss q a v True t (w\<lparr>w_tlb := T\<rparr>)) \<noteq> None"
    by (rule vm_miss_succeeds [where k = k]) (use inv a p ok L(1) in simp_all)
  moreover have "permissions (pte_at w a v) = pm" if "h = Some (f, d, pm)" for f d pm using L(2) [OF that] by (auto simp: translates_def Let_def)
  ultimately show ?thesis using l p by (cases h) (auto simp: vm_write_page_def vm_prots Let_def)
qed


section \<open>Properties\<close>



text \<open>C7. A read returns the bytes that are stored: each byte it delivers is the one the process's page
  holds when the read begins, or zero where that page, on a later page of the range than the
  first, is clean and is dropped by the paging of the earlier ones. It keeps the memory
  invariant and delivers exactly the requested number of bytes when it succeeds.\<close>

theorem vm_read_correct:
  assumes "mem_inv w" "vm_of w q = Some a" "tlb_coherent w a" "unat len \<le> 65536" "vm_read_mem q a x len t w = (r, bs, w')"
  shows "mem_inv w' \<and> tlb_coherent w' a \<and> vm_of w' = vm_of w \<and> (r = -1 \<or> r = int (unat len) \<and> length bs = unat len) \<and>
    (\<forall>i < length bs. mem_byte w q (x + of_nat i) = Some (bs ! i) \<or>
       clean_page w q (vpn_of (x + of_nat i)) \<and> vpn_of (x + of_nat i) \<noteq> vpn_of x \<and> bs ! i = 0)"
  using vm_read_mem_effect [OF assms] by blast

text \<open>C8. An access that is allowed is carried out: reading or writing one byte of a page with the
  required permission succeeds while the page is present, or the policy tracks the frames in use
  and a swap slot is free.\<close>

theorem vm_access_succeeds:
  assumes "mem_inv w" "vm_of w q = Some a" "tlb_coherent w a"
    and "present (pte_at w a (vpn_of x)) \<or> tracks_frames w \<and> k < 256 \<and> swap_owner w k = None"
  shows "(permissions (pte_at w a (vpn_of x)) AND VM_PROT_READ = VM_PROT_READ \<longrightarrow> fst (vm_read_mem q a x 1 t w) = 1) \<and>
    (permissions (pte_at w a (vpn_of x)) AND VM_PROT_WRITE = VM_PROT_WRITE \<longrightarrow> fst (vm_write_mem q a x src 1 t w) = 1)"
proof -
  obtain vm where vm: "w_vms w a = Some vm" using assms(1,2) vm_wf_live by (metis mem_inv_def)
  show ?thesis
    using vm_read_page_succeeds [OF assms(1-3) _ assms(4), of t] vm_write_page_succeeds [OF assms(1-3) _ assms(4), of t]
    by (auto simp: vm_read_one [OF vm] vm_write_one [OF vm] vm_read_byte_def vm_write_byte_def vm_prots split: prod.splits option.splits)
qed

lemma fresh_page: "permissions (pte_at fresh_mem 0 64) = 3" "vpn_of 0x4005 = 64"
proof -
  show "permissions (pte_at fresh_mem 0 64) = 3" by (simp add: fresh_mem_def page_table_init_def default_permissions_cases)
  show "vpn_of 0x4005 = 64" by (simp add: word_unat_eq_iff unat_vpn_of)
qed

lemma fresh_available: "present (pte_at fresh_mem 0 (vpn_of x)) \<or> tracks_frames fresh_mem \<and> (5 :: nat) < 256 \<and> swap_owner fresh_mem 5 = None"
  using fresh_mem_facts(4,5) by simp

theorem vm_access_succeeds_witness: "fst (vm_write_mem 1 0 0x4005 (\<lambda>_. 42) 1 7 fresh_mem) = 1"
  using vm_access_succeeds [OF fresh_mem_facts(1-3) fresh_available] by (simp add: fresh_page vm_prots)


lemma fresh_write:
  "\<exists>w1 bs w2. vm_write_mem 1 0 0x4005 (\<lambda>_. 42) 1 7 fresh_mem = (1, w1) \<and> vm_read_mem 1 0 0x4005 1 8 w1 = (1, bs, w2)"
proof -
  let ?x = "0x4005 :: u16"
  note F = fresh_mem_facts(1-3)
  obtain vm where vm: "w_vms fresh_mem 0 = Some vm" using F(1,2) vm_wf_live by (metis mem_inv_def)
  have "fst (vm_write_page 1 0 64 7 fresh_mem) \<noteq> None"
    using vm_write_page_succeeds [OF F _ fresh_available [of ?x, unfolded fresh_page(2)], of 7] by (simp add: fresh_page(1))
  then obtain w' where w': "vm_write_byte 1 0 ?x 42 7 fresh_mem = (True, w')"
    by (cases "vm_write_page 1 0 64 7 fresh_mem") (auto simp: vm_write_byte_def fresh_page(2))
  note E = vm_write_byte_effect [OF F w']
  define w1 where "w1 = add_tlb_stats 0 (tlb_get_stats (w_tlb fresh_mem)) w'"
  have w: "vm_write_mem 1 0 ?x (\<lambda>_. 42) 1 7 fresh_mem = (1, w1)" by (simp add: vm_write_one [OF vm] w' w1_def)
  have i: "mem_inv w1" "vm_of w1 = vm_of fresh_mem" "vm_of w1 1 = Some 0" "tlb_coherent w1 0" "present (pte_at w1 0 64)" "perms w1 = perms fresh_mem"
    using E F(2) by (simp_all add: w1_def add_tlb_stats_only fresh_page(2)) (simp add: add_tlb_stats_def Let_def stats_only)
  have "permissions (pte_at w1 0 64) = 3" using perms_pte_at [OF F(1) i(1) F(2) i(2,6), of 64] fresh_page(1) by simp
  then have r: "fst (vm_read_page 1 0 64 8 w1) \<noteq> None" using vm_read_page_succeeds [OF i(1,3,4), of 64] i(5) by simp
  obtain vm1 where vm1: "w_vms w1 0 = Some vm1" using i(1,3) vm_wf_live by (metis mem_inv_def)
  have "fst (vm_read_mem 1 0 ?x 1 8 w1) = 1"
    using r by (cases "vm_read_page 1 0 64 8 w1") (auto simp: vm_read_one [OF vm1] vm_read_byte_def fresh_page(2))
  then show ?thesis using w by (cases "vm_read_mem 1 0 ?x 1 8 w1") auto
qed



theorem vm_read_correct_witness:
  "\<exists>bs w'. vm_read_mem 1 0 0x4005 1 8 fresh_mem = (1, bs, w') \<and> mem_inv w' \<and> mem_byte fresh_mem 1 0x4005 = Some (bs ! 0)"
proof -
  obtain vm where vm: "w_vms fresh_mem 0 = Some vm" using fresh_mem_facts(1,2) vm_wf_live by (metis mem_inv_def)
  have "fst (vm_read_page 1 0 64 8 fresh_mem) \<noteq> None"
    using vm_read_page_succeeds [OF fresh_mem_facts(1-3) _ fresh_available [of "0x4005", unfolded fresh_page(2)], of 8] by (simp add: fresh_page(1))
  then obtain b w' where r: "vm_read_mem 1 0 0x4005 1 8 fresh_mem = (1, [b], w')"
    by (cases "vm_read_page 1 0 64 8 fresh_mem") (auto simp: vm_read_one [OF vm] vm_read_byte_def fresh_page(2))
  show ?thesis using vm_read_correct [OF fresh_mem_facts(1-3) _ r] r by auto
qed

end
