(* ===== verification/VM_Resident.thy ===== *)
theory VM_Resident
  imports VM
begin

text \<open>
  Accesses to virtual memory while physical memory is large enough: if there are as many free
  frames as there are pages, out of a set \<open>V\<close>, that are not present, then accesses within \<open>V\<close> all
  succeed, evict nothing and so lose nothing. This is the memory the heap allocator relies on.
\<close>

section \<open>Room for a set of pages\<close>

definition free_frames :: "mem \<Rightarrow> u8 set" where
  "free_frames w = {f. unat f < 64 \<and> frame_owner w f = None}"

definition absent :: "mem \<Rightarrow> vm_ptr \<Rightarrow> u8 set \<Rightarrow> u8 set" where
  "absent w a V = {v \<in> V. \<not> present (pte_at w a v)}"

definition limits :: "mem \<Rightarrow> vm_ptr \<Rightarrow> (u16 \<times> u16) option" where
  "limits w a = map_option (\<lambda>vm. (vst_heap_start (vs_stats vm), vst_heap_break (vs_stats vm))) (w_vms w a)"

text \<open>Process \<open>q\<close>, with memory \<open>a\<close>, runs and has room for its read-write pages \<open>V\<close>.\<close>

definition resident :: "mem \<Rightarrow> int \<Rightarrow> vm_ptr \<Rightarrow> u8 set \<Rightarrow> bool" where
  "resident w q a V \<longleftrightarrow> mem_inv w \<and> vm_of w q = Some a \<and> tlb_coherent w a \<and>
     (\<forall>v \<in> V. permissions (pte_at w a v) = 3) \<and> card (absent w a V) \<le> card (free_frames w)"

text \<open>What accesses to pages \<open>T\<close> within \<open>V\<close> leave alone.\<close>

definition steady :: "int \<Rightarrow> vm_ptr \<Rightarrow> u8 set \<Rightarrow> u8 set \<Rightarrow> mem \<Rightarrow> mem \<Rightarrow> bool" where
  "steady q a V T w w' \<longleftrightarrow> resident w' q a V \<and> vm_of w' = vm_of w \<and> limits w' a = limits w a \<and>
     (\<forall>v. v \<notin> T \<longrightarrow> pte_at w' a v = pte_at w a v)"

lemma steady_refl: "resident w q a V \<Longrightarrow> steady q a V T w w"
  by (simp add: steady_def)

lemma steady_trans [trans]: "steady q a V T w w1 \<Longrightarrow> steady q a V T w1 w2 \<Longrightarrow> steady q a V T w w2"
  by (simp add: steady_def)

lemma residentD:
  assumes "resident w q a V"
  shows "mem_inv w" "vm_of w q = Some a" "tlb_coherent w a" "vm_wf w" "v \<in> V \<Longrightarrow> permissions (pte_at w a v) = 3"
  using assms by (auto simp: resident_def mem_inv_def)


section \<open>The bounds of the heap are not touched\<close>

lemma limits_upd_vm:
  assumes "\<And>vm. vst_heap_start (vs_stats (f vm)) = vst_heap_start (vs_stats vm)" "\<And>vm. vst_heap_break (vs_stats (f vm)) = vst_heap_break (vs_stats vm)"
  shows "limits (upd_vm b f w) a = limits w a"
  using assms by (auto simp: limits_def upd_vm_def option.map_comp comp_def)

lemma limits_upd_pte [simp]: "limits (upd_pte b v f w) a = limits w a"
  unfolding upd_pte_def by (rule limits_upd_vm) simp_all

lemma limits_mem [simp]:
  "limits (w\<lparr>w_frame := x\<rparr>) a = limits w a" "limits (w\<lparr>w_swap := y\<rparr>) a = limits w a" "limits (w\<lparr>w_tlb := z\<rparr>) a = limits w a"
  "limits (w\<lparr>w_pager := p\<rparr>) a = limits w a" "limits (policy_apply g w) a = limits w a"
  by (simp_all add: limits_def)

lemma limits_pager [simp]:
  "limits (pager_hit b v wr t w) a = limits w a" "limits (pager_fill b v f m w) a = limits w a" "limits (pager_map b v f wr t w) a = limits w a"
  by (simp_all add: pager_hit_def pager_fill_def pager_map_def Let_def split_beta limits_upd_vm)

lemma limits_stats [simp]: "limits (upd_vm b (count_fault r) w) a = limits w a" "limits (add_tlb_stats b s w) a = limits w a"
  by (simp_all add: limits_upd_vm count_fault_def add_tlb_stats_def Let_def)


section \<open>Reaching one page\<close>

definition touched :: "int \<Rightarrow> vm_ptr \<Rightarrow> u8 \<Rightarrow> mem \<Rightarrow> mem \<Rightarrow> bool" where
  "touched q a v w w' \<longleftrightarrow> content w' = content w \<and> limits w' a = limits w a \<and>
     (\<exists>e'. ppte w' = set_page (ppte w) q v e' \<and> present e') \<and>
     (if present (pte_at w a v) then frame_owner w' = frame_owner w
      else \<exists>f x. frame_owner w f = None \<and> unat f < 64 \<and> frame_owner w' = (frame_owner w)(f \<mapsto> x))"

lemma touched_steady:
  assumes r: "resident w q a V" and T: "T \<subseteq> V" and v: "v \<in> T" and t: "touched q a v w w'"
    and w': "mem_inv w'" "tlb_coherent w' a" "vm_of w' = vm_of w" "perms w' = perms w"
  shows "steady q a V T w w'"
proof -
  note R = residentD [OF r]
  have wf: "vm_wf w'" and a: "vm_of w' q = Some a" using w'(1,3) R(2) by (auto simp: mem_inv_def)
  obtain e' where e': "ppte w' = set_page (ppte w) q v e'" "present e'" using t by (auto simp: touched_def)
  have at: "pte_at w' a x = (if x = v then e' else pte_at w a x)" for x
    using pte_at_ppte [OF wf a, of x] pte_at_ppte [OF R(4,2), of x] by (auto simp: e' set_page_apply split: if_splits)
  have "permissions (pte_at w' a x) = permissions (pte_at w a x)" for x by (rule perms_pte_at [OF R(1) w'(1) R(2) w'(3,4)])
  moreover have "card (absent w' a V) \<le> card (free_frames w')"
  proof (cases "present (pte_at w a v)")
    case True
    then have "absent w' a V = absent w a V" "free_frames w' = free_frames w"
      using t by (auto simp: absent_def at e'(2) free_frames_def touched_def)
    then show ?thesis using r by (simp add: resident_def)
  next
    case False
    then obtain f x where f: "frame_owner w f = None" "unat f < 64" "frame_owner w' = (frame_owner w)(f \<mapsto> x)"
      using t by (auto simp: touched_def)
    have "absent w' a V = absent w a V - {v}" "free_frames w' = free_frames w - {f}"
      by (auto simp: absent_def at e'(2) free_frames_def f(3))
    moreover have "v \<in> absent w a V" "f \<in> free_frames w" using v T False f by (auto simp: absent_def free_frames_def)
    ultimately show ?thesis using r by (simp add: resident_def card_Diff_singleton diff_le_mono)
  qed
  ultimately show ?thesis using R w' a t v at by (auto simp: steady_def resident_def touched_def)
qed

lemma pager_access_touched:
  assumes r: "resident w q a V" and v: "v \<in> V" and p: "pager_access_page q a v wr t w = (res, out, w')"
  shows "res \<in> {PAGER_HIT, PAGER_FAULT_MINOR, PAGER_FAULT_MAJOR} \<and> touched q a v w w'"
proof -
  note R = residentD [OF r]
  obtain vm where vm: "w_vms w a = Some vm" by (rule vm_wf_live [OF R(4,2)])
  define e where "e = pte_at w a v"
  have e: "ppte w q v = Some e" "page_table_lookup (vs_pt vm) v = e"
    using pte_at_ppte [OF R(4,2), of v] vm by (simp_all add: e_def pte_at_def)
  have perm: "page_table_validate_permissions (vs_pt vm) v (if wr then VM_PROT_WRITE else VM_PROT_READ)"
    using e(2) R(5) [OF v] by (simp add: page_table_validate_permissions_def page_table_lookup_def vm_prots e_def)
  show ?thesis
  proof (cases "present e")
    case True
    then have "res = PAGER_HIT" "w' = pager_hit a v wr t w" using p vm perm e(2) by (auto simp: pager_access_page_def Let_def split: if_splits)
    then show ?thesis using pager_hit_effect [OF R(1-3) e(1) True] True by (auto simp: touched_def e_def)
  next
    case False
    then have "v \<in> absent w a V" using v by (simp add: absent_def e_def)
    then have "free_frames w \<noteq> {}" using r by (auto simp: resident_def card_0_eq)
    then obtain f where f: "unat f < 64" "frame_owner w f = None" unfolding free_frames_def by blast
    obtain o1 F where al: "frame_alloc q v (w_frame w) = (o1, F)" by (cases "frame_alloc q v (w_frame w)")
    then obtain i where i: "o1 = Some i" using frame_alloc_owner_full [of q v w F f] f by (cases o1) auto
    define w1 where "w1 = w\<lparr>w_frame := F, w_pager := w_pager w\<rparr>"
    have g: "pager_get_frame q a v w = (Some i, w1)" using al i by (simp add: pager_get_frame_def w1_def)
    have w': "res = (if in_swap e then PAGER_FAULT_MAJOR else PAGER_FAULT_MINOR)" "w' = pager_map a v (of_nat i) wr t (pager_fill a v (of_nat i) (in_swap e) w1)"
      using p vm perm e(2) False g by (auto simp: pager_access_page_def Let_def split: if_splits)
    have i64: "unat (of_nat i :: u8) < 64" using frame_alloc_SomeD(1) [of q v "w_frame w" i F] al i by (simp add: unat_u8_of_nat)
    have own: "frame_owner w (of_nat i) = None" using frame_owner_alloc(2) [of q v w i F] al i by simp
    have "limits w' a = limits w a" by (simp add: w'(2) w1_def)
    moreover have "\<exists>f x. frame_owner w f = None \<and> unat f < 64 \<and> frame_owner w' = (frame_owner w)(f \<mapsto> x)"
      using fault_effect [OF R(1,2) e(1) False al [unfolded i] refl w1_def w'(2)] i64 own by blast
    ultimately show ?thesis
      using fault_effect [OF R(1,2) e(1) False al [unfolded i] refl w1_def w'(2)] False w'(1) by (auto simp: touched_def e_def)
  qed
qed


lemma touched_mem:
  "touched q a v (w\<lparr>w_tlb := T\<rparr>) w' = touched q a v w w'" "touched q a v w (w'\<lparr>w_tlb := T\<rparr>) = touched q a v w w'"
  "touched q a v w (upd_vm b (count_fault res) w') = touched q a v w w'"
  by (simp_all add: touched_def stats_only)

lemma resident_tlb: "resident (w\<lparr>w_tlb := T\<rparr>) q a V \<longleftrightarrow> resident w q a V \<and> tlb.coherent (translates w a) T"
  if "resident w q a V"
  using that by (simp add: resident_def absent_def free_frames_def)

lemma vm_miss_touched:
  assumes r: "resident w q a V" and v: "v \<in> V" and m: "vm_miss q a v wr t w = (g, w')"
  shows "g \<noteq> None \<and> touched q a v w w'"
proof -
  obtain res out w1 where p: "pager_access_page q a v wr t w = (res, out, w1)" by (cases "pager_access_page q a v wr t w")
  note T = pager_access_touched [OF r v p]
  then obtain f where "out = Some f" using pager_access_success(3) [OF residentD(1-3) [OF r] p] by blast
  then show ?thesis using T m p by (auto simp: vm_miss_def Let_def touched_mem)
qed

lemma mark_touched:
  assumes r: "resident w q a V" and p: "present (pte_at w a v)"
    and g: "\<And>e. present (g e) = present e" "\<And>e. frame_num (g e) = frame_num e" "\<And>e. in_swap (g e) = in_swap e"
      "\<And>e. swap_slot (g e) = swap_slot e" "\<And>e. permissions (g e) = permissions e" "\<And>e. dirty e \<Longrightarrow> dirty (g e)"
  shows "touched q a v w (upd_pte a v g w)"
  using mark_effect(2,5) [OF residentD(1-3) [OF r], of g v] p g by (auto simp: touched_def)

lemma vm_read_page_touched:
  assumes r: "resident w q a V" and v: "v \<in> V" and m: "vm_read_page q a v t w = (g, w')"
  shows "g \<noteq> None \<and> touched q a v w w'"
proof -
  obtain h T where l: "tlb_lookup v t (w_tlb w) = (h, T)" by (cases "tlb_lookup v t (w_tlb w)")
  note L = tlb_lookup_coherent [OF residentD(3) [OF r] l]
  let ?w1 = "w\<lparr>w_tlb := T\<rparr>"
  have r1: "resident ?w1 q a V" using resident_tlb [OF r] r L(1) by simp
  show ?thesis
  proof (cases h)
    case None
    then show ?thesis using vm_miss_touched [OF r1 v, of False t g w'] m l by (simp add: vm_read_page_def touched_mem)
  next
    case (Some x)
    obtain f d p where x: "x = (f, d, p)" by (cases x)
    have tr: "present (pte_at w a v)" "permissions (pte_at w a v) = p" using L(2) [OF Some] x by (auto simp: translates_def Let_def)
    then have "p AND VM_PROT_READ \<noteq> 0" using residentD(5) [OF r v] by (simp add: vm_prots)
    then have "g = Some f" "w' = upd_pte a v (\<lambda>e. e\<lparr>accessed := True\<rparr>) ?w1" using m l Some x by (auto simp: vm_read_page_def)
    then show ?thesis using mark_touched [OF r1, of v "\<lambda>e. e\<lparr>accessed := True\<rparr>"] tr(1) by (simp add: touched_mem)
  qed
qed

lemma vm_write_page_touched:
  assumes r: "resident w q a V" and v: "v \<in> V" and m: "vm_write_page q a v t w = (g, w')"
  shows "g \<noteq> None \<and> touched q a v w w'"
proof -
  obtain h T where l: "tlb_lookup v t (w_tlb w) = (h, T)" by (cases "tlb_lookup v t (w_tlb w)")
  note L = tlb_lookup_coherent [OF residentD(3) [OF r] l]
  let ?w1 = "w\<lparr>w_tlb := T\<rparr>"
  have r1: "resident ?w1 q a V" using resident_tlb [OF r] r L(1) by simp
  show ?thesis
  proof (cases h)
    case None
    then show ?thesis using vm_miss_touched [OF r1 v, of True t g w'] m l by (simp add: vm_write_page_def touched_mem)
  next
    case (Some x)
    obtain f d p where x: "x = (f, d, p)" by (cases x)
    have tr: "present (pte_at w a v)" "permissions (pte_at w a v) = p" using L(2) [OF Some] x by (auto simp: translates_def Let_def)
    let ?g = "\<lambda>e :: pte. e\<lparr>accessed := True, dirty := True\<rparr>"
    have "p AND VM_PROT_WRITE \<noteq> 0" using tr residentD(5) [OF r v] by (simp add: vm_prots)
    then have "g = Some f" "w' = (if \<not> d then (upd_pte a v ?g ?w1)\<lparr>w_tlb := tlb_insert v f True p t T\<rparr> else upd_pte a v ?g ?w1)"
      using m l Some x by (auto simp: vm_write_page_def Let_def)
    then show ?thesis using mark_touched [OF r1, of v ?g] tr(1) by (simp add: touched_mem)
  qed
qed


section \<open>Accesses of bytes\<close>

lemma vm_read_byte_steady:
  assumes r: "resident w q a V" and T: "T \<subseteq> V" and v: "vpn_of x \<in> T"
  obtains b w' where "vm_read_byte q a x t w = (Some b, w')" "steady q a V T w w'" "content w' = content w" "mem_byte w q x = Some b"
proof -
  note R = residentD(1-3) [OF r]
  obtain g w1 where p: "vm_read_page q a (vpn_of x) t w = (g, w1)" by (cases "vm_read_page q a (vpn_of x) t w")
  note E0 = vm_read_page_touched [OF r subsetD [OF T v] p]
  then obtain f where f: "g = Some f" by blast
  obtain b where b: "vm_read_byte q a x t w = (Some b, w1)" using p f by (simp add: vm_read_byte_def)
  note E = vm_read_byte_effect [OF R b]
  then have "steady q a V T w w1" using touched_steady [OF r T v conjunct2 [OF E0]] by (auto simp: reached_def)
  then show ?thesis using that b E E0 by (auto simp: touched_def)
qed

lemma vm_write_byte_steady:
  assumes r: "resident w q a V" and T: "T \<subseteq> V" and v: "vpn_of x \<in> T"
  obtains w' where "vm_write_byte q a x b t w = (True, w')" "steady q a V T w w'"
    "\<And>p y. mem_byte w' p y = (if (p, y) = (q, x) then Some b else mem_byte w p y)"
proof -
  note R = residentD(1-3) [OF r]
  let ?v = "vpn_of x" and ?k = "offset_of x"
  obtain g w1 where p: "vm_write_page q a ?v t w = (g, w1)" by (cases "vm_write_page q a ?v t w")
  note E0 = vm_write_page_touched [OF r subsetD [OF T v] p]
  then obtain f where f: "g = Some f" by blast
  have re: "reached w q a ?v f w1" using vm_write_page_effect [OF R p] f by simp
  then have w1: "mem_inv w1" "vm_of w1 = vm_of w" "tlb_coherent w1 a" "perms w1 = perms w" "present (pte_at w1 a ?v)" "frame_num (pte_at w1 a ?v) = f"
    by (simp_all add: reached_def)
  define w' where "w' = w1\<lparr>w_frame := frame_write_byte (phys_addr f ?k) b (w_frame w1)\<rparr>"
  have a1: "vm_of w1 q = Some a" using w1(2) R(2) by simp
  note S = store_effect [OF w1(1) a1 w1(3,5,6) w'_def]
  obtain bs where bs: "content w1 q ?v = Some bs" "length bs = 256"
    "\<And>p x. content w' p x = (if (p, x) = (q, ?v) then Some (bs[unat ?k := b]) else content w1 p x)" using S(6) by blast
  have st: "steady q a V T w w1" by (rule touched_steady [OF r T v conjunct2 [OF E0] w1(1,3,2,4)])
  have "frame_owner w' = frame_owner w1" by (auto simp: w'_def frame_owner_def frame_get_owner_def frame_write_byte_def fun_eq_iff)
  moreover have "pte_at w' = pte_at w1" by (simp add: w'_def)
  ultimately have "resident w' q a V" using st S(1-3) R(2) by (simp add: steady_def resident_def absent_def free_frames_def)
  then have "steady q a V T w1 w'" using S(3) by (simp add: steady_def) (simp add: w'_def)
  then have "steady q a V T w w'" by (rule steady_trans [OF st])
  moreover have "mem_byte w' p y = (if (p, y) = (q, x) then Some b else mem_byte w p y)" for p y
  proof -
    have "unat ?k < 256" by simp
    moreover have "(p, y) \<noteq> (q, x) \<Longrightarrow> p = q \<Longrightarrow> vpn_of y = ?v \<Longrightarrow> unat (offset_of y) \<noteq> unat ?k"
      using vpn_offset_inj [of y x] by (auto simp: word_unat_eq_iff)
    moreover have "content w1 = content w" using E0 by (simp add: touched_def)
    ultimately show ?thesis using bs by (auto simp: mem_byte_def nth_list_update)
  qed
  moreover have "vm_write_byte q a x b t w = (True, w')" using p f by (simp add: vm_write_byte_def w'_def)
  ultimately show ?thesis using that by blast
qed


section \<open>Accesses of ranges\<close>

lemma vm_read_loop_steady:
  assumes "resident w q a V" "T \<subseteq> V" "\<And>i. i < n \<Longrightarrow> vpn_of (x + of_nat i) \<in> T"
  shows "\<exists>bs w'. vm_read_loop q a t n x w = (True, bs, w') \<and> steady q a V T w w' \<and> content w' = content w \<and>
    length bs = n \<and> (\<forall>i < n. mem_byte w q (x + of_nat i) = Some (bs ! i))"
  using assms
proof (induction n arbitrary: x w)
  case 0
  then show ?case by (simp add: steady_refl)
next
  case (Suc n)
  obtain b w1 where b: "vm_read_byte q a x t w = (Some b, w1)" "steady q a V T w w1" "content w1 = content w" "mem_byte w q x = Some b"
    by (rule vm_read_byte_steady [OF Suc.prems(1,2), of x t]) (use Suc.prems(3) [of 0] in auto)
  have r1: "resident w1 q a V" using b(2) by (simp add: steady_def)
  have "vpn_of (x + 1 + of_nat i) \<in> T" if "i < n" for i using Suc.prems(3) [of "Suc i"] that by (simp add: add.assoc)
  then obtain bs w' where l: "vm_read_loop q a t n (x + 1) w1 = (True, bs, w')" "steady q a V T w1 w'" "content w' = content w1"
    "length bs = n" "\<forall>i < n. mem_byte w1 q (x + 1 + of_nat i) = Some (bs ! i)" using Suc.IH [OF r1 Suc.prems(2), of "x + 1"] by auto
  have "mem_byte w q (x + of_nat i) = Some ((b # bs) ! i)" if "i < Suc n" for i
    using that l(5) b(3,4) by (cases i) (auto simp: mem_byte_def add.assoc)
  then show ?case using b l steady_trans [OF b(2) l(2)] by auto
qed

lemma vm_write_loop_steady:
  assumes "resident w q a V" "T \<subseteq> V" "\<And>i. i < length bs \<Longrightarrow> vpn_of (x + of_nat i) \<in> T" "unat x + length bs \<le> 65536"
  shows "\<exists>w'. vm_write_loop q a t bs x w = (True, w') \<and> steady q a V T w w' \<and>
    (\<forall>p y. mem_byte w' p y = (if p = q \<and> unat x \<le> unat y \<and> unat y < unat x + length bs then Some (bs ! (unat y - unat x)) else mem_byte w p y))"
  using assms
proof (induction bs arbitrary: x w)
  case Nil
  then show ?case by (auto simp: steady_refl)
next
  case (Cons b bs)
  obtain w1 where b: "vm_write_byte q a x b t w = (True, w1)" "steady q a V T w w1"
    "\<And>p y. mem_byte w1 p y = (if (p, y) = (q, x) then Some b else mem_byte w p y)"
    by (rule vm_write_byte_steady [OF Cons.prems(1,2), of x b t]) (use Cons.prems(3) [of 0] in auto)
  have r1: "resident w1 q a V" using b(2) by (simp add: steady_def)
  have v: "vpn_of (x + 1 + of_nat i) \<in> T" if "i < length bs" for i using Cons.prems(3) [of "Suc i"] that by (simp add: add.assoc)
  have fits: "unat x + Suc (length bs) \<le> 65536" using Cons.prems(4) by simp
  obtain w' where l: "vm_write_loop q a t bs (x + 1) w1 = (True, w')" "steady q a V T w1 w'"
    "\<And>p y. mem_byte w' p y = (if p = q \<and> unat (x + 1) \<le> unat y \<and> unat y < unat (x + 1) + length bs then Some (bs ! (unat y - unat (x + 1))) else mem_byte w1 p y)"
    using Cons.IH [OF r1 Cons.prems(2) v next_addr_fits [OF fits]] by auto
  have "mem_byte w' p y = (if p = q \<and> unat x \<le> unat y \<and> unat y < unat x + length (b # bs) then Some ((b # bs) ! (unat y - unat x)) else mem_byte w p y)" for p y
  proof (cases "bs = []")
    case True
    then show ?thesis using l(3) [of p y] b(3) [of p y] by (auto simp: word_unat_eq_iff)
  next
    case False
    then have u: "unat (x + 1) = unat x + 1" using unat_addr_add [OF fits, of 1] by (cases bs) auto
    show ?thesis
    proof (cases "y = x")
      case True
      then show ?thesis using l(3) [of p y] b(3) [of p y] u by auto
    next
      case False
      then have "unat y \<noteq> unat x" by (simp add: word_unat_eq_iff)
      then consider "unat y < unat x" | k where "unat y = unat x + Suc k" by (metis less_imp_Suc_add linorder_neqE_nat add_Suc_right)
      then show ?thesis using l(3) [of p y] b(3) [of p y] u False by cases auto
    qed
  qed
  then show ?case using b l steady_trans [OF b(2) l(2)] by auto
qed

lemma steady_stats: "steady q a V T w (add_tlb_stats a s w') = steady q a V T w w'"
proof -
  have "pte_at (add_tlb_stats a s w') = pte_at w'" "frame_owner (add_tlb_stats a s w') = frame_owner w'"
    by (simp_all add: add_tlb_stats_def Let_def stats_only)
  then show ?thesis by (simp add: steady_def resident_def absent_def free_frames_def add_tlb_stats_only)
qed

lemma vm_read_mem_steady:
  assumes "resident w q a V" "T \<subseteq> V" "unat x + unat len \<le> 65536" "\<And>i. i < unat len \<Longrightarrow> vpn_of (x + of_nat i) \<in> T"
  obtains bs w' where "vm_read_mem q a x len t w = (int (unat len), bs, w')" "steady q a V T w w'" "content w' = content w"
    "length bs = unat len" "\<And>i. i < unat len \<Longrightarrow> mem_byte w q (x + of_nat i) = Some (bs ! i)"
proof -
  note R = residentD(1-3) [OF assms(1)]
  obtain bs w1 where l: "vm_read_loop q a t (unat len) x w = (True, bs, w1)" "steady q a V T w w1" "content w1 = content w"
    "length bs = unat len" "\<forall>i < unat len. mem_byte w q (x + of_nat i) = Some (bs ! i)"
    using vm_read_loop_steady [OF assms(1,2,4)] by blast
  have len: "unat len \<le> 65536" using assms(3) by simp
  obtain vm where "w_vms w a = Some vm" by (rule vm_wf_live [OF residentD(4) [OF assms(1)] R(2)])
  moreover have "\<not> 65536 < ucast x + len" using length_check [OF len] assms(3) by blast
  ultimately have "vm_read_mem q a x len t w = (int (unat len), bs, add_tlb_stats a (tlb_get_stats (w_tlb w)) w1)"
    using length_result [OF len] l(1) by (simp add: vm_read_mem_def)
  then show ?thesis using that l steady_stats by (auto simp: add_tlb_stats_only)
qed

lemma vm_write_mem_steady:
  assumes "resident w q a V" "T \<subseteq> V" "unat x + unat len \<le> 65536" "\<And>i. i < unat len \<Longrightarrow> vpn_of (x + of_nat i) \<in> T"
  obtains w' where "vm_write_mem q a x src len t w = (int (unat len), w')" "steady q a V T w w'"
    "\<And>p y. mem_byte w' p y = (if p = q \<and> unat x \<le> unat y \<and> unat y < unat x + unat len then Some (src (unat y - unat x)) else mem_byte w p y)"
proof -
  note R = residentD(1-3) [OF assms(1)]
  let ?bs = "map src [0..<unat len]"
  obtain w1 where l: "vm_write_loop q a t ?bs x w = (True, w1)" "steady q a V T w w1"
    and m: "\<And>p y. mem_byte w1 p y = (if p = q \<and> unat x \<le> unat y \<and> unat y < unat x + unat len then Some (?bs ! (unat y - unat x)) else mem_byte w p y)"
    using vm_write_loop_steady [OF assms(1,2), of ?bs x t] assms(3,4) by auto
  have m: "mem_byte w1 p y = (if p = q \<and> unat x \<le> unat y \<and> unat y < unat x + unat len then Some (src (unat y - unat x)) else mem_byte w p y)" for p y
    using m [of p y] by auto
  have len: "unat len \<le> 65536" using assms(3) by simp
  obtain vm where "w_vms w a = Some vm" by (rule vm_wf_live [OF residentD(4) [OF assms(1)] R(2)])
  moreover have "\<not> 65536 < ucast x + len" using length_check [OF len] assms(3) by blast
  ultimately have "vm_write_mem q a x src len t w = (int (unat len), add_tlb_stats a (tlb_get_stats (w_tlb w)) w1)"
    using length_result [OF len] l(1) by (simp add: vm_write_mem_def)
  then show ?thesis using that [of "add_tlb_stats a (tlb_get_stats (w_tlb w)) w1"] l m steady_stats by (simp add: add_tlb_stats_only)
qed

end
