(* ===== verification/VM_Alloc.thy ===== *)
theory VM_Alloc
  imports VM_Resident "HOL-Library.Monad_Syntax"
begin

text \<open>
  The heap allocator of a simulated process, \<^verbatim>\<open>vm_alloc.c\<close>, and the calls \<^verbatim>\<open>vm_malloc\<close> and
  \<^verbatim>\<open>vm_free\<close> of \<^verbatim>\<open>vm.c\<close>. The headers of the blocks lie in the process's virtual memory, so
  each step of the allocator is an access through the TLB and the pager, and each may fail.

  A header is stored as the eight bytes of the C structure on a little-endian machine: \<^verbatim>\<open>size\<close>,
  \<^verbatim>\<open>free\<close>, a padding byte, \<^verbatim>\<open>next\<close>, \<^verbatim>\<open>prev\<close>. The value \<open>pad\<close> that a compiler leaves in the
  padding byte and the initial value \<open>undef\<close> of the local variable \<^verbatim>\<open>curr_hdr\<close> are parameters.
  The walk over the list and \<^verbatim>\<open>malloc\<close> itself follow links stored in memory the program can
  write to, so they are partial functions: \<open>None\<close> is a call that does not return.
\<close>

section \<open>Headers in memory\<close>

definition VM_BLOCK_HDR_SIZE :: u64 where "VM_BLOCK_HDR_SIZE = 8"

definition hdr_bytes :: "u8 \<Rightarrow> vm_block_hdr \<Rightarrow> u8 list" where
  "hdr_bytes pad h =
     [ucast (bh_size h), ucast (drop_bit 8 (bh_size h)), if bh_free h then 1 else 0, pad,
      ucast (bh_next h), ucast (drop_bit 8 (bh_next h)), ucast (bh_prev h), ucast (drop_bit 8 (bh_prev h))]"

definition u16_of :: "u8 \<Rightarrow> u8 \<Rightarrow> u16" where
  "u16_of lo hi = ucast lo OR push_bit 8 (ucast hi)"

definition hdr_of_bytes :: "u8 list \<Rightarrow> vm_block_hdr" where
  "hdr_of_bytes bs =
     \<lparr>bh_size = u16_of (bs ! 0) (bs ! 1), bh_free = (bs ! 2 \<noteq> 0), bh_next = u16_of (bs ! 4) (bs ! 5), bh_prev = u16_of (bs ! 6) (bs ! 7)\<rparr>"

definition read_hdr :: "int \<Rightarrow> vm_ptr \<Rightarrow> u16 \<Rightarrow> u64 \<Rightarrow> mem \<Rightarrow> vm_block_hdr option \<times> mem" where
  "read_hdr pid a addr tick w =
     (let (r, bs, w1) = vm_read_mem pid a addr VM_BLOCK_HDR_SIZE tick w
      in (if r = int (unat VM_BLOCK_HDR_SIZE) then Some (hdr_of_bytes bs) else None, w1))"

definition write_hdr :: "u8 \<Rightarrow> int \<Rightarrow> vm_ptr \<Rightarrow> u16 \<Rightarrow> vm_block_hdr \<Rightarrow> u64 \<Rightarrow> mem \<Rightarrow> bool \<times> mem" where
  "write_hdr pad pid a addr h tick w =
     (let (r, w1) = vm_write_mem pid a addr (\<lambda>i. hdr_bytes pad h ! i) VM_BLOCK_HDR_SIZE tick w
      in (r = int (unat VM_BLOCK_HDR_SIZE), w1))"

definition align_up :: "u64 \<Rightarrow> u64 \<Rightarrow> u64" where
  "align_up sz alignment =
     (if alignment = 0 \<or> - 1 - (alignment - 1) < sz then 0 else (sz + alignment - 1) AND NOT (alignment - 1))"


section \<open>Growing the heap\<close>

definition heap_start :: "mem \<Rightarrow> vm_ptr \<Rightarrow> u16" where
  "heap_start w a = (case w_vms w a of Some vm \<Rightarrow> vst_heap_start (vs_stats vm) | None \<Rightarrow> 0)"

definition heap_break :: "mem \<Rightarrow> vm_ptr \<Rightarrow> u16" where
  "heap_break w a = (case w_vms w a of Some vm \<Rightarrow> vst_heap_break (vs_stats vm) | None \<Rightarrow> 0)"

definition grow_page :: "vm_ptr \<Rightarrow> mem \<Rightarrow> mem" where
  "grow_page a w =
     (let vpn = vpn_of (heap_break w a);
          w1 = upd_pte a vpn (\<lambda>e. e\<lparr>permissions := VM_PROT_READ OR VM_PROT_WRITE, present := False, in_swap := False\<rparr>) w
      in upd_vm a (\<lambda>vm. vm\<lparr>vs_stats := (vs_stats vm)\<lparr>vst_heap_break := vst_heap_break (vs_stats vm) + of_nat VM_PAGE_SIZE\<rparr>\<rparr>) w1)"

definition heap_grow :: "vm_ptr \<Rightarrow> u64 \<Rightarrow> mem \<Rightarrow> bool \<times> mem" where
  "heap_grow a pages_needed w =
     (if w_vms w a = None \<or> pages_needed = 0 then (False, w)
      else
        (let current_pages = (ucast (heap_break w a) - ucast (heap_start w a) :: u32) div of_nat VM_PAGE_SIZE
         in if of_nat VM_SEG_HEAP_MAX_PAGES < ucast current_pages + pages_needed then (False, w)
            else (True, (grow_page a ^^ unat pages_needed) w)))"


section \<open>Allocation\<close>

text \<open>The first allocation makes the heap one free block of two pages.\<close>

definition init_heap :: "u8 \<Rightarrow> int \<Rightarrow> vm_ptr \<Rightarrow> u64 \<Rightarrow> mem \<Rightarrow> bool \<times> mem" where
  "init_heap pad pid a tick w =
     (if heap_break w a = heap_start w a then
        (let (ok, w1) = heap_grow a 2 w
         in if \<not> ok then (False, w1)
            else write_hdr pad pid a (heap_start w1 a)
                   \<lparr>bh_size = ucast (ucast (heap_break w1 a) - ucast (heap_start w1 a) - VM_BLOCK_HDR_SIZE),
                    bh_free = True, bh_next = 0, bh_prev = 0\<rparr> tick w1)
      else (True, w))"

text \<open>The walk: a failed access, a block that is free and large enough, or the end of the list.\<close>

datatype walk = Walk_Failed | Walk_Fit u16 vm_block_hdr | Walk_End u16 vm_block_hdr

partial_function (option) find_fit ::
  "int \<Rightarrow> vm_ptr \<Rightarrow> u64 \<Rightarrow> u64 \<Rightarrow> u16 \<Rightarrow> vm_block_hdr \<Rightarrow> mem \<Rightarrow> (walk \<times> mem) option" where
  "find_fit pid a sz tick curr_addr curr_hdr w =
     (if \<not> curr_addr < heap_break w a then Some (Walk_End curr_addr curr_hdr, w)
      else case read_hdr pid a curr_addr tick w of
             (None, w1) \<Rightarrow> Some (Walk_Failed, w1)
           | (Some h, w1) \<Rightarrow>
               if bh_free h \<and> sz \<le> ucast (bh_size h) then Some (Walk_Fit curr_addr h, w1)
               else if bh_next h = 0 then Some (Walk_End curr_addr h, w1)
               else find_fit pid a sz tick (bh_next h) h w1)"

text \<open>Setting the back link of the block at \<open>next\<close>, if there is one.\<close>

definition set_prev :: "u8 \<Rightarrow> int \<Rightarrow> vm_ptr \<Rightarrow> u16 \<Rightarrow> u16 \<Rightarrow> u64 \<Rightarrow> mem \<Rightarrow> bool \<times> mem" where
  "set_prev pad pid a nxt prev tick w =
     (if nxt = 0 then (True, w)
      else case read_hdr pid a nxt tick w of
             (None, w1) \<Rightarrow> (False, w1)
           | (Some nn, w1) \<Rightarrow> write_hdr pad pid a nxt (nn\<lparr>bh_prev := prev\<rparr>) tick w1)"

definition take_block :: "u8 \<Rightarrow> int \<Rightarrow> vm_ptr \<Rightarrow> u64 \<Rightarrow> u64 \<Rightarrow> u16 \<Rightarrow> vm_block_hdr \<Rightarrow> mem \<Rightarrow> u16 \<times> mem" where
  "take_block pad pid a sz tick curr_addr curr_hdr w =
     (let ptr = ucast (ucast curr_addr + VM_BLOCK_HDR_SIZE)
      in if sz + VM_BLOCK_HDR_SIZE + 4 \<le> ucast (bh_size curr_hdr) then
           (let next_addr = ucast (ucast curr_addr + VM_BLOCK_HDR_SIZE + sz);
                next_hdr = \<lparr>bh_size = ucast (ucast (bh_size curr_hdr) - sz - VM_BLOCK_HDR_SIZE), bh_free = True,
                            bh_next = bh_next curr_hdr, bh_prev = curr_addr\<rparr>;
                (ok1, w1) = write_hdr pad pid a next_addr next_hdr tick w
            in if \<not> ok1 then (0, w1)
               else
                 (let (ok2, w2) = write_hdr pad pid a curr_addr
                                    (curr_hdr\<lparr>bh_size := ucast sz, bh_free := False, bh_next := next_addr\<rparr>) tick w1
                  in if \<not> ok2 then (0, w2)
                     else
                       (let (ok3, w3) = set_prev pad pid a (bh_next next_hdr) next_addr tick w2
                        in (if ok3 then ptr else 0, w3))))
         else
           (let (ok, w1) = write_hdr pad pid a curr_addr (curr_hdr\<lparr>bh_free := False\<rparr>) tick w
            in (if ok then ptr else 0, w1)))"

text \<open>Adding a free block at the old break and linking it to the last block.\<close>

definition extend_heap :: "u8 \<Rightarrow> int \<Rightarrow> vm_ptr \<Rightarrow> u64 \<Rightarrow> u64 \<Rightarrow> u16 \<Rightarrow> vm_block_hdr \<Rightarrow> mem \<Rightarrow> bool \<times> mem" where
  "extend_heap pad pid a sz tick curr_addr curr_hdr w =
     (let growth_bytes = VM_BLOCK_HDR_SIZE + sz;
          pages_needed = align_up growth_bytes (of_nat VM_PAGE_SIZE) div of_nat VM_PAGE_SIZE
      in if pages_needed = 0 then (False, w)
         else
           (let old_break = heap_break w a; (ok, w1) = heap_grow a pages_needed w
            in if \<not> ok then (False, w1)
               else
                 (let (ok1, w2) = write_hdr pad pid a old_break
                        \<lparr>bh_size = ucast (pages_needed * of_nat VM_PAGE_SIZE - VM_BLOCK_HDR_SIZE), bh_free = True,
                         bh_next = 0, bh_prev = curr_addr\<rparr> tick w1
                  in if \<not> ok1 then (False, w2)
                     else write_hdr pad pid a curr_addr (curr_hdr\<lparr>bh_next := old_break\<rparr>) tick w2)))"

partial_function (option) vm_alloc_malloc ::
  "u8 \<Rightarrow> vm_block_hdr \<Rightarrow> int \<Rightarrow> vm_ptr \<Rightarrow> u64 \<Rightarrow> u64 \<Rightarrow> mem \<Rightarrow> (u16 \<times> mem) option" where
  "vm_alloc_malloc pad undef pid a sz tick w =
     (if w_vms w a = None \<or> sz = 0 \<or> 65535 < sz then Some (0, w)
      else if align_up sz 4 = 0 \<or> 65535 < align_up sz 4 then Some (0, w)
      else case init_heap pad pid a tick w of
             (ok, w1) \<Rightarrow>
               if \<not> ok then Some (0, w1)
               else find_fit pid a (align_up sz 4) tick (heap_start w1 a) undef w1 \<bind> (\<lambda>(r, w2).
                 case r of
                   Walk_Failed \<Rightarrow> Some (0, w2)
                 | Walk_Fit curr_addr curr_hdr \<Rightarrow> Some (take_block pad pid a (align_up sz 4) tick curr_addr curr_hdr w2)
                 | Walk_End curr_addr curr_hdr \<Rightarrow>
                     (case extend_heap pad pid a (align_up sz 4) tick curr_addr curr_hdr w2 of
                        (ok1, w3) \<Rightarrow>
                          if \<not> ok1 then Some (0, w3) else vm_alloc_malloc pad undef pid a (align_up sz 4) tick w3)))"

definition vm_malloc :: "u8 \<Rightarrow> vm_block_hdr \<Rightarrow> int \<Rightarrow> vm_ptr \<Rightarrow> u64 \<Rightarrow> u64 \<Rightarrow> mem \<Rightarrow> (u16 \<times> mem) option" where
  "vm_malloc pad undef pid a sz tick w = vm_alloc_malloc pad undef pid a sz tick w"


section \<open>Release\<close>

text \<open>Merging with the next block; the result includes the new value of \<^verbatim>\<open>curr_hdr\<close>.\<close>

definition join_next :: "u8 \<Rightarrow> int \<Rightarrow> vm_ptr \<Rightarrow> u64 \<Rightarrow> u16 \<Rightarrow> vm_block_hdr \<Rightarrow> mem \<Rightarrow> bool \<times> vm_block_hdr \<times> mem" where
  "join_next pad pid a tick curr_addr curr_hdr w =
     (if bh_next curr_hdr = 0 then (True, curr_hdr, w)
      else case read_hdr pid a (bh_next curr_hdr) tick w of
             (None, w1) \<Rightarrow> (False, curr_hdr, w1)
           | (Some nh, w1) \<Rightarrow>
               if \<not> bh_free nh then (True, curr_hdr, w1)
               else
                 (let h = curr_hdr\<lparr>bh_size := ucast (ucast (bh_size curr_hdr) + VM_BLOCK_HDR_SIZE + ucast (bh_size nh)), bh_next := bh_next nh\<rparr>;
                      (ok, w2) = write_hdr pad pid a curr_addr h tick w1
                  in if \<not> ok then (False, h, w2)
                     else (let (ok2, w3) = set_prev pad pid a (bh_next h) curr_addr tick w2 in (ok2, h, w3))))"

definition join_prev :: "u8 \<Rightarrow> int \<Rightarrow> vm_ptr \<Rightarrow> u64 \<Rightarrow> vm_block_hdr \<Rightarrow> mem \<Rightarrow> mem" where
  "join_prev pad pid a tick curr_hdr w =
     (if bh_prev curr_hdr = 0 then w
      else case read_hdr pid a (bh_prev curr_hdr) tick w of
             (None, w1) \<Rightarrow> w1
           | (Some ph, w1) \<Rightarrow>
               if \<not> bh_free ph then w1
               else
                 (let h = ph\<lparr>bh_size := ucast (ucast (bh_size ph) + VM_BLOCK_HDR_SIZE + ucast (bh_size curr_hdr)), bh_next := bh_next curr_hdr\<rparr>;
                      (ok, w2) = write_hdr pad pid a (bh_prev curr_hdr) h tick w1
                  in if \<not> ok then w2 else snd (set_prev pad pid a (bh_next h) (bh_prev curr_hdr) tick w2)))"

definition vm_alloc_free :: "u8 \<Rightarrow> int \<Rightarrow> vm_ptr \<Rightarrow> u16 \<Rightarrow> u64 \<Rightarrow> mem \<Rightarrow> mem" where
  "vm_alloc_free pad pid a addr tick w =
     (if w_vms w a = None then w
      else if ucast addr < ucast (heap_start w a) + VM_BLOCK_HDR_SIZE \<or> heap_break w a \<le> addr then w
      else
        (let curr_addr = ucast (ucast addr - VM_BLOCK_HDR_SIZE)
         in case read_hdr pid a curr_addr tick w of
              (None, w1) \<Rightarrow> w1
            | (Some h, w1) \<Rightarrow>
                if bh_free h then w1
                else
                  (let curr_hdr = h\<lparr>bh_free := True\<rparr>; (ok, w2) = write_hdr pad pid a curr_addr curr_hdr tick w1
                   in if \<not> ok then w2
                      else
                        (let (ok2, curr_hdr', w3) = join_next pad pid a tick curr_addr curr_hdr w2
                         in if \<not> ok2 then w3 else join_prev pad pid a tick curr_hdr' w3))))"

definition vm_free :: "u8 \<Rightarrow> int \<Rightarrow> vm_ptr \<Rightarrow> u16 \<Rightarrow> u64 \<Rightarrow> mem \<Rightarrow> mem" where
  "vm_free pad pid a addr tick w = vm_alloc_free pad pid a addr tick w"


section \<open>Statistics\<close>

record vm_alloc_stats =
  va_total_blocks :: u32
  va_free_blocks :: u32
  va_allocated_blocks :: u32
  va_internal_frag_bytes :: u32
  va_external_frag_bytes :: u32

definition count_block :: "vm_block_hdr \<Rightarrow> vm_alloc_stats \<Rightarrow> vm_alloc_stats" where
  "count_block h s =
     (let s1 = s\<lparr>va_total_blocks := va_total_blocks s + 1\<rparr>
      in if bh_free h
         then s1\<lparr>va_free_blocks := va_free_blocks s + 1, va_external_frag_bytes := va_external_frag_bytes s + ucast (bh_size h)\<rparr>
         else s1\<lparr>va_allocated_blocks := va_allocated_blocks s + 1\<rparr>)"

partial_function (option) count_blocks ::
  "int \<Rightarrow> vm_ptr \<Rightarrow> u64 \<Rightarrow> u16 \<Rightarrow> vm_alloc_stats \<Rightarrow> mem \<Rightarrow> (vm_alloc_stats \<times> mem) option" where
  "count_blocks pid a tick curr_addr s w =
     (if \<not> curr_addr < heap_break w a then Some (s, w)
      else case read_hdr pid a curr_addr tick w of
             (None, w1) \<Rightarrow> Some (s, w1)
           | (Some h, w1) \<Rightarrow>
               if bh_next h = 0 then Some (count_block h s, w1)
               else count_blocks pid a tick (bh_next h) (count_block h s) w1)"

definition zero_alloc_stats :: vm_alloc_stats where
  "zero_alloc_stats = \<lparr>va_total_blocks = 0, va_free_blocks = 0, va_allocated_blocks = 0, va_internal_frag_bytes = 0, va_external_frag_bytes = 0\<rparr>"

definition vm_alloc_get_stats :: "int \<Rightarrow> vm_ptr \<Rightarrow> u64 \<Rightarrow> mem \<Rightarrow> (vm_alloc_stats \<times> mem) option" where
  "vm_alloc_get_stats pid a tick w =
     (if w_vms w a = None \<or> heap_break w a = heap_start w a then Some (zero_alloc_stats, w)
      else count_blocks pid a tick (heap_start w a) zero_alloc_stats w)"

end
