(* ===== verification/VM_Heap.thy ===== *)
theory VM_Heap
  imports VM_Alloc
begin

text \<open>
  The heap as a list of blocks. While physical memory has room for the heap's pages, the headers
  in virtual memory form a doubly linked list that tiles the heap; \<^verbatim>\<open>malloc\<close> and \<^verbatim>\<open>free\<close> keep
  it so, \<^verbatim>\<open>malloc\<close> returns and hands out memory that no other block has, and neither touches the
  contents of the blocks in use.
\<close>

section \<open>Headers\<close>

lemma u16_of_split: "u16_of (ucast x) (ucast (drop_bit 8 x)) = x"
  by (rule bit_word_eqI) (auto simp: u16_of_def bit_simps)

lemma hdr_round_trip: "hdr_of_bytes (hdr_bytes pad h) = h"
  by (cases h) (simp add: hdr_of_bytes_def hdr_bytes_def u16_of_split)

lemma length_hdr_bytes [simp]: "length (hdr_bytes pad h) = 8"
  by (simp add: hdr_bytes_def)

lemma hdr_size [simp]: "unat VM_BLOCK_HDR_SIZE = 8"
  by (simp add: VM_BLOCK_HDR_SIZE_def)

definition hdr_at :: "mem \<Rightarrow> int \<Rightarrow> nat \<Rightarrow> vm_block_hdr" where
  "hdr_at w q c = hdr_of_bytes (map (\<lambda>i. the (mem_byte w q (of_nat (c + i)))) [0..<8])"

definition heap_pages :: "nat \<Rightarrow> u8 set" where
  "heap_pages n = {v. 64 \<le> unat v \<and> unat v < 64 + n}"

text \<open>Only the cells \<open>C\<close> of process \<open>q\<close> may differ.\<close>

definition only :: "int \<Rightarrow> nat set \<Rightarrow> mem \<Rightarrow> mem \<Rightarrow> bool" where
  "only q C w w' \<longleftrightarrow> (\<forall>p y. p = q \<and> unat y \<in> C \<or> mem_byte w' p y = mem_byte w p y)"

lemma only_refl: "only q C w w"
  by (simp add: only_def)

lemma only_trans: "only q C w w1 \<Longrightarrow> only q C w1 w2 \<Longrightarrow> only q C w w2"
  unfolding only_def by metis

lemma only_mono: "only q C w w' \<Longrightarrow> C \<subseteq> D \<Longrightarrow> only q D w w'"
  unfolding only_def by blast

lemma only_content: "content w' = content w \<Longrightarrow> only q C w w'"
  by (simp add: only_def mem_byte_def)

lemma hdr_at_only:
  assumes "only q C w w'" "c + 8 \<le> 65536" "\<And>i. i < 8 \<Longrightarrow> c + i \<notin> C"
  shows "hdr_at w' q c = hdr_at w q c"
proof -
  have "mem_byte w' q (of_nat (c + i)) = mem_byte w q (of_nat (c + i))" if "i < 8" for i
  proof -
    have "unat (of_nat (c + i) :: u16) \<notin> C" using assms(3) [OF that] unat_u16_of_nat [of "c + i"] assms(2) that by simp
    then show ?thesis using assms(1) unfolding only_def by blast
  qed
  then show ?thesis unfolding hdr_at_def by (intro arg_cong [where f = hdr_of_bytes] map_cong) auto
qed

lemma heap_page_of:
  assumes "0x4000 \<le> c" "c + 8 \<le> 0x4000 + 256 * n" "n \<le> 128" "i < 8"
  shows "vpn_of (of_nat c + of_nat i) \<in> heap_pages n"
proof -
  have "unat (of_nat c + of_nat i :: u16) = c + i" using unat_u16_of_nat [of "c + i"] assms by simp
  then have "unat (vpn_of (of_nat c + of_nat i)) = (c + i) div 256" by (simp add: unat_vpn_of)
  moreover have "c + i < (64 + n) * 256" "64 * 256 \<le> c + i" using assms by auto
  then have "(c + i) div 256 < 64 + n" "64 \<le> (c + i) div 256" by (simp_all add: less_mult_imp_div_less)
  ultimately show ?thesis by (simp add: heap_pages_def)
qed

lemma read_hdr_steady:
  assumes "resident w q a (heap_pages n)" "0x4000 \<le> c" "c + 8 \<le> 0x4000 + 256 * k" "k \<le> n" "n \<le> 128"
  obtains w' where "read_hdr q a (of_nat c) t w = (Some (hdr_at w q c), w')" "steady q a (heap_pages n) (heap_pages k) w w'" "content w' = content w"
proof -
  have k128: "k \<le> 128" and sub: "heap_pages k \<subseteq> heap_pages n" using assms(4,5) by (auto simp: heap_pages_def)
  have fits: "unat (of_nat c :: u16) + unat VM_BLOCK_HDR_SIZE \<le> 65536" using assms(3-5) unat_u16_of_nat [of c] by simp
  obtain bs w' where r: "vm_read_mem q a (of_nat c) VM_BLOCK_HDR_SIZE t w = (int (unat VM_BLOCK_HDR_SIZE), bs, w')"
    "steady q a (heap_pages n) (heap_pages k) w w'" "content w' = content w"
    "length bs = unat VM_BLOCK_HDR_SIZE" "\<And>i. i < unat VM_BLOCK_HDR_SIZE \<Longrightarrow> mem_byte w q (of_nat c + of_nat i) = Some (bs ! i)"
    by (rule vm_read_mem_steady [OF assms(1) sub fits, where t = t]) (use heap_page_of [OF assms(2,3) k128] in auto)
  have "bs = map (\<lambda>i. the (mem_byte w q (of_nat (c + i)))) [0..<8]" using r(4,5) by (intro nth_equalityI) simp_all
  then show ?thesis using that r by (simp add: read_hdr_def hdr_at_def)
qed

lemma write_hdr_steady:
  assumes "resident w q a (heap_pages n)" "0x4000 \<le> c" "c + 8 \<le> 0x4000 + 256 * k" "k \<le> n" "n \<le> 128"
  obtains w' where "write_hdr pad q a (of_nat c) h t w = (True, w')" "steady q a (heap_pages n) (heap_pages k) w w'" "only q {c..<c + 8} w w'" "hdr_at w' q c = h"
proof -
  have u: "unat (of_nat c :: u16) = c" using assms(3-5) unat_u16_of_nat [of c] by simp
  have k128: "k \<le> 128" and sub: "heap_pages k \<subseteq> heap_pages n" using assms(4,5) by (auto simp: heap_pages_def)
  have fits: "unat (of_nat c :: u16) + unat VM_BLOCK_HDR_SIZE \<le> 65536" using assms(3-5) u by simp
  obtain w' where r: "vm_write_mem q a (of_nat c) (\<lambda>i. hdr_bytes pad h ! i) VM_BLOCK_HDR_SIZE t w = (int (unat VM_BLOCK_HDR_SIZE), w')"
    "steady q a (heap_pages n) (heap_pages k) w w'"
    and m: "\<And>p y. mem_byte w' p y = (if p = q \<and> unat (of_nat c :: u16) \<le> unat y \<and> unat y < unat (of_nat c :: u16) + unat VM_BLOCK_HDR_SIZE
         then Some (hdr_bytes pad h ! (unat y - unat (of_nat c :: u16))) else mem_byte w p y)"
    by (rule vm_write_mem_steady [OF assms(1) sub fits, where t = t and src = "\<lambda>i. hdr_bytes pad h ! i"]) (use heap_page_of [OF assms(2,3) k128] in auto)
  have "only q {c..<c + 8} w w'" using m u by (auto simp: only_def)
  moreover have "the (mem_byte w' q (of_nat (c + i))) = hdr_bytes pad h ! i" if "i < 8" for i
    using m [of q "of_nat (c + i)"] u unat_u16_of_nat [of "c + i"] that assms(3-5) by simp
  then have "map (\<lambda>i. the (mem_byte w' q (of_nat (c + i)))) [0..<8] = hdr_bytes pad h" by (intro nth_equalityI) simp_all
  then have "hdr_at w' q c = h" by (simp add: hdr_at_def hdr_round_trip)
  ultimately show ?thesis using that r by (simp add: write_hdr_def)
qed


section \<open>The list of blocks\<close>

text \<open>A block is its payload size and whether it is free; it starts with its header.\<close>

type_synonym block = "nat \<times> bool"

abbreviation span :: "block list \<Rightarrow> nat" where
  "span bs \<equiv> sum_list (map (\<lambda>b. 8 + fst b) bs)"

definition mk_hdr :: "nat \<Rightarrow> bool \<Rightarrow> nat \<Rightarrow> nat \<Rightarrow> vm_block_hdr" where
  "mk_hdr n fr nx pv = \<lparr>bh_size = of_nat n, bh_free = fr, bh_next = of_nat nx, bh_prev = of_nat pv\<rparr>"

lemma mk_hdr_simps [simp]:
  "bh_size (mk_hdr n fr nx pv) = of_nat n" "bh_free (mk_hdr n fr nx pv) = fr" "bh_next (mk_hdr n fr nx pv) = of_nat nx" "bh_prev (mk_hdr n fr nx pv) = of_nat pv"
  by (simp_all add: mk_hdr_def)

text \<open>
  The headers \<open>H\<close> describe the blocks \<open>bs\<close> from address \<open>x\<close> on, each linked to its neighbours;
  \<open>p\<close> is the block before them and \<open>z\<close> the link after them.
\<close>

primrec seg :: "(nat \<Rightarrow> vm_block_hdr) \<Rightarrow> nat \<Rightarrow> nat \<Rightarrow> nat \<Rightarrow> block list \<Rightarrow> bool" where
  "seg H p x z [] \<longleftrightarrow> True"
| "seg H p x z (b # bs) \<longleftrightarrow>
     H x = mk_hdr (fst b) (snd b) (if bs = [] then z else x + 8 + fst b) p \<and> 4 \<le> fst b \<and> 4 dvd fst b \<and> seg H x (x + 8 + fst b) z bs"

primrec last_at :: "nat \<Rightarrow> nat \<Rightarrow> block list \<Rightarrow> nat" where
  "last_at p x [] = p"
| "last_at p x (b # bs) = last_at x (x + 8 + fst b) bs"

lemma last_at_append [simp]: "last_at p x (us @ vs) = last_at (last_at p x us) (x + span us) vs"
  by (induction us arbitrary: p x) (simp_all add: ac_simps)

lemma last_at_snoc: "us \<noteq> [] \<Longrightarrow> \<exists>vs b. us = vs @ [b] \<and> last_at p x us = x + span vs"
  by (cases us rule: rev_cases) simp_all

lemma seg_append:
  "seg H p x z (us @ vs) \<longleftrightarrow> seg H p x (if vs = [] then z else x + span us) us \<and> seg H (last_at p x us) (x + span us) z vs"
  by (induction us arbitrary: p x) (auto simp: ac_simps)

lemma seg_sizes: "seg H p x z bs \<Longrightarrow> b \<in> set bs \<Longrightarrow> 4 \<le> fst b \<and> 4 dvd fst b"
  by (induction bs arbitrary: p x) auto

lemma seg_cong:
  assumes "seg H p x z bs" "\<And>c. x \<le> c \<Longrightarrow> c + 8 \<le> x + span bs \<Longrightarrow> H' c = H c"
  shows "seg H' p x z bs"
  using assms by (induction bs arbitrary: p x) auto

text \<open>Writing one header leaves the blocks before and after it alone.\<close>

lemma seg_only:
  assumes "seg (hdr_at w q) p x z bs" "only q {c..<c + 8} w w'" "c + 8 \<le> x \<or> x + span bs \<le> c" "x + span bs \<le> 65536"
  shows "seg (hdr_at w' q) p x z bs"
proof (rule seg_cong [OF assms(1)])
  fix d assume d: "x \<le> d" "d + 8 \<le> x + span bs"
  show "hdr_at w' q d = hdr_at w q d" by (rule hdr_at_only [OF assms(2)]) (use d assms(3,4) in auto)
qed

definition heap_ok :: "nat \<Rightarrow> mem \<Rightarrow> int \<Rightarrow> vm_ptr \<Rightarrow> block list \<Rightarrow> bool" where
  "heap_ok n w q a bs \<longleftrightarrow> n \<le> 128 \<and> resident w q a (heap_pages n) \<and> limits w a = Some (0x4000, of_nat (0x4000 + span bs)) \<and>
     256 dvd span bs \<and> span bs \<le> 256 * n \<and> seg (hdr_at w q) 0 0x4000 0 bs \<and>
     (\<forall>v. 64 + span bs div 256 \<le> unat v \<and> unat v < 64 + n \<longrightarrow> \<not> present (pte_at w a v) \<and> \<not> in_swap (pte_at w a v))"

lemma heap_okD:
  assumes "heap_ok n w q a bs"
  shows "n \<le> 128" "resident w q a (heap_pages n)" "limits w a = Some (0x4000, of_nat (0x4000 + span bs))" "span bs \<le> 256 * n"
    "seg (hdr_at w q) 0 0x4000 0 bs" "256 * (span bs div 256) = span bs" "span bs div 256 \<le> n" "span bs \<le> 32768" "w_vms w a \<noteq> None"
    "heap_start w a = 0x4000" "heap_break w a = of_nat (0x4000 + span bs)" "unat (heap_break w a) = 0x4000 + span bs"
proof -
  show a: "n \<le> 128" "resident w q a (heap_pages n)" "limits w a = Some (0x4000, of_nat (0x4000 + span bs))" "span bs \<le> 256 * n"
    "seg (hdr_at w q) 0 0x4000 0 bs" using assms by (simp_all add: heap_ok_def)
  show b: "256 * (span bs div 256) = span bs" using assms by (simp add: heap_ok_def)
  show "span bs div 256 \<le> n" using a(4) b by linarith
  show c: "span bs \<le> 32768" using a(1,4) by simp
  show "w_vms w a \<noteq> None" using a(3) by (auto simp: limits_def)
  show "heap_start w a = 0x4000" "heap_break w a = of_nat (0x4000 + span bs)"
    using a(3) by (auto simp: limits_def heap_start_def heap_break_def)
  then show "unat (heap_break w a) = 0x4000 + span bs" using c unat_u16_of_nat [of "0x4000 + span bs"] by simp
qed

text \<open>An operation on headers below the break: what has to be shown of the resulting state.\<close>

lemma heap_ok_after:
  assumes ok: "heap_ok n w q a bs" and st: "steady q a (heap_pages n) (heap_pages (span bs div 256)) w w'"
    and bs': "span bs' = span bs" "seg (hdr_at w' q) 0 0x4000 0 bs'"
  shows "heap_ok n w' q a bs'"
proof -
  have "pte_at w' a v = pte_at w a v" if "64 + span bs div 256 \<le> unat v" for v
    using st that by (auto simp: steady_def heap_pages_def)
  then show ?thesis using ok st bs' by (auto simp: heap_ok_def steady_def)
qed

lemma hdr_at_content: "content w' = content w \<Longrightarrow> hdr_at w' q = hdr_at w q"
  by (simp add: hdr_at_def mem_byte_def fun_eq_iff)

text \<open>Reading the header of a block.\<close>

lemma block_header:
  assumes ok: "heap_ok n w q a (us @ b # vs)"
  shows "hdr_at w q (0x4000 + span us) =
      mk_hdr (fst b) (snd b) (if vs = [] then 0 else 0x4000 + span us + 8 + fst b) (last_at 0 0x4000 us)"
    and "0x4000 + span us + 8 \<le> 0x4000 + 256 * (span (us @ b # vs) div 256)" "4 \<le> fst b" "4 dvd fst b"
  using heap_okD(5,6) [OF ok] by (auto simp: seg_append)

lemma read_block:
  assumes ok: "heap_ok n w q a (us @ b # vs)"
  obtains w' where
    "read_hdr q a (of_nat (0x4000 + span us)) t w =
       (Some (mk_hdr (fst b) (snd b) (if vs = [] then 0 else 0x4000 + span us + 8 + fst b) (last_at 0 0x4000 us)), w')"
    "steady q a (heap_pages n) (heap_pages (span (us @ b # vs) div 256)) w w'" "content w' = content w" "heap_ok n w' q a (us @ b # vs)"
proof -
  note O = heap_okD [OF ok] and B = block_header [OF ok]
  obtain w' where r: "read_hdr q a (of_nat (0x4000 + span us)) t w = (Some (hdr_at w q (0x4000 + span us)), w')"
    "steady q a (heap_pages n) (heap_pages (span (us @ b # vs) div 256)) w w'" "content w' = content w"
    by (rule read_hdr_steady [OF O(2) _ B(2) O(7,1), of t]) simp_all
  moreover have "heap_ok n w' q a (us @ b # vs)"
    by (rule heap_ok_after [OF ok r(2) refl]) (use O(5) hdr_at_content [OF r(3)] in simp)
  ultimately show ?thesis using that B(1) by simp
qed

section \<open>Sizes and addresses as numbers\<close>

lemma u64_le: "i < 4294967296 \<Longrightarrow> j < 4294967296 \<Longrightarrow> of_nat i \<le> (of_nat j :: u64) \<longleftrightarrow> i \<le> j"
  by (simp add: word_le_nat_alt unat_of_nat take_bit_eq_mod)

lemma u16_less: "i < 65536 \<Longrightarrow> j < 65536 \<Longrightarrow> of_nat i < (of_nat j :: u16) \<longleftrightarrow> i < j"
  by (simp add: word_less_nat_alt unat_of_nat take_bit_eq_mod)

lemma ucast_16_64: "c < 65536 \<Longrightarrow> ucast (of_nat c :: u16) = (of_nat c :: u64)"
  by (simp add: word_unat_eq_iff unsigned_ucast_eq unat_of_nat take_bit_eq_mod)

lemma ucast_64_16: "ucast (of_nat c :: u64) = (of_nat c :: u16)"
  by (simp add: word_unat_eq_iff unsigned_ucast_eq unat_of_nat take_bit_eq_mod mod_mod_cancel)

lemma of_nat_minus: "j \<le> i \<Longrightarrow> of_nat i - of_nat j = (of_nat (i - j) :: u64)"
  by (simp add: of_nat_diff)

lemma u16_eq_0: "0 < c \<Longrightarrow> c < 65536 \<Longrightarrow> (of_nat c :: u16) \<noteq> 0"
  using unat_u16_of_nat [of c] by force

lemma after_hdr: "c < 65536 \<Longrightarrow> ucast (ucast (of_nat c :: u16) + VM_BLOCK_HDR_SIZE) = (of_nat (c + 8) :: u16)"
  using ucast_64_16 [of "c + 8"] by (simp add: ucast_16_64 VM_BLOCK_HDR_SIZE_def)

lemma after_payload: "c < 65536 \<Longrightarrow> ucast (ucast (of_nat c :: u16) + VM_BLOCK_HDR_SIZE + of_nat n) = (of_nat (c + 8 + n) :: u16)"
  using ucast_64_16 [of "c + 8 + n"] by (simp add: ucast_16_64 VM_BLOCK_HDR_SIZE_def)

lemma rest_size:
  assumes "m < 65536" "n + 8 \<le> m"
  shows "ucast (ucast (of_nat m :: u16) - of_nat n - VM_BLOCK_HDR_SIZE) = (of_nat (m - n - 8) :: u16)"
proof -
  have "(ucast (of_nat m :: u16) - of_nat n - VM_BLOCK_HDR_SIZE :: u64) = of_nat (m - n - 8)"
    using of_nat_minus [of n m] of_nat_minus [of 8 "m - n"] assms by (simp add: VM_BLOCK_HDR_SIZE_def ucast_16_64)
  then show ?thesis using ucast_64_16 by metis
qed

lemma splittable:
  "m < 65536 \<Longrightarrow> n < 65536 \<Longrightarrow> of_nat n + VM_BLOCK_HDR_SIZE + 4 \<le> (ucast (of_nat m :: u16) :: u64) \<longleftrightarrow> n + 12 \<le> m"
  using u64_le [of "12 + n" m] by (simp add: ucast_16_64 VM_BLOCK_HDR_SIZE_def add.commute)


section \<open>Walking the list\<close>

definition fits :: "nat \<Rightarrow> block \<Rightarrow> bool" where
  "fits n b \<longleftrightarrow> snd b \<and> n \<le> fst b"

lemma find_fit_step:
  assumes ok: "heap_ok n w q a (us @ b # vs)" and N: "N < 65536"
  obtains w' where "steady q a (heap_pages n) (heap_pages (span (us @ b # vs) div 256)) w w'" "content w' = content w" "heap_ok n w' q a (us @ b # vs)"
    "find_fit q a (of_nat N) t (of_nat (0x4000 + span us)) h0 w =
       (let h = mk_hdr (fst b) (snd b) (if vs = [] then 0 else 0x4000 + span us + 8 + fst b) (last_at 0 0x4000 us)
        in if fits N b then Some (Walk_Fit (of_nat (0x4000 + span us)) h, w')
           else if vs = [] then Some (Walk_End (of_nat (0x4000 + span us)) h, w')
           else find_fit q a (of_nat N) t (of_nat (0x4000 + span (us @ [b]))) h w')"
proof -
  note O = heap_okD [OF ok]
  obtain w' where r: "read_hdr q a (of_nat (0x4000 + span us)) t w =
       (Some (mk_hdr (fst b) (snd b) (if vs = [] then 0 else 0x4000 + span us + 8 + fst b) (last_at 0 0x4000 us)), w')"
    "steady q a (heap_pages n) (heap_pages (span (us @ b # vs) div 256)) w w'" "content w' = content w" "heap_ok n w' q a (us @ b # vs)"
    by (rule read_block [OF ok])
  let ?h = "mk_hdr (fst b) (snd b) (if vs = [] then 0 else 0x4000 + span us + 8 + fst b) (last_at 0 0x4000 us)"
  have lim: "0x4000 + span us < 65536" "fst b < 65536" "0x4000 + span us + 8 + fst b < 65536" "0x4000 + span us < 0x4000 + span (us @ b # vs)"
    "0x4000 + span (us @ b # vs) < 65536" using O(8) by simp_all
  have below: "(of_nat (0x4000 + span us) :: u16) < heap_break w a" unfolding O(11) by (simp only: u16_less lim)
  have le: "(of_nat N :: u64) \<le> ucast (of_nat (fst b) :: u16) \<longleftrightarrow> N \<le> fst b" using N lim(2) by (simp add: ucast_16_64 u64_le)
  have nx: "bh_next ?h = 0 \<longleftrightarrow> vs = []" using u16_eq_0 [OF _ lim(3)] by simp
  have nx': "vs \<noteq> [] \<Longrightarrow> bh_next ?h = of_nat (0x4000 + span (us @ [b]))" by (simp add: ac_simps)
  have c: "bh_free ?h \<and> (of_nat N :: u64) \<le> ucast (bh_size ?h) \<longleftrightarrow> fits N b" using le by (simp add: fits_def)
  have "find_fit q a (of_nat N) t (of_nat (0x4000 + span us)) h0 w =
      (if fits N b then Some (Walk_Fit (of_nat (0x4000 + span us)) ?h, w')
       else if vs = [] then Some (Walk_End (of_nat (0x4000 + span us)) ?h, w')
       else find_fit q a (of_nat N) t (of_nat (0x4000 + span (us @ [b]))) ?h w')"
    unfolding find_fit.simps [of q a "of_nat N" t "of_nat (0x4000 + span us)" h0 w] r(1) prod.case option.case c nx using below nx' by (simp add: add.assoc)
  then show ?thesis by (intro that [OF r(2-4)]) (simp add: Let_def)
qed

lemma find_fit_found:
  assumes "heap_ok n w q a (us @ ys @ b # vs)" "N < 65536" "\<And>y. y \<in> set ys \<Longrightarrow> \<not> fits N y" "fits N b"
  shows "\<exists>w'. steady q a (heap_pages n) (heap_pages (span (us @ ys @ b # vs) div 256)) w w' \<and> content w' = content w \<and> heap_ok n w' q a (us @ ys @ b # vs) \<and>
    find_fit q a (of_nat N) t (of_nat (0x4000 + span us)) h0 w =
      Some (Walk_Fit (of_nat (0x4000 + span (us @ ys)))
        (mk_hdr (fst b) True (if vs = [] then 0 else 0x4000 + span (us @ ys) + 8 + fst b) (last_at 0 0x4000 (us @ ys))), w')"
  using assms
proof (induction ys arbitrary: us w h0)
  case Nil
  have ok: "heap_ok n w q a (us @ b # vs)" using Nil.prems(1) by simp
  obtain w' where w': "steady q a (heap_pages n) (heap_pages (span (us @ b # vs) div 256)) w w'" "content w' = content w" "heap_ok n w' q a (us @ b # vs)"
    "find_fit q a (of_nat N) t (of_nat (0x4000 + span us)) h0 w =
       (let h = mk_hdr (fst b) (snd b) (if vs = [] then 0 else 0x4000 + span us + 8 + fst b) (last_at 0 0x4000 us)
        in if fits N b then Some (Walk_Fit (of_nat (0x4000 + span us)) h, w')
           else if vs = [] then Some (Walk_End (of_nat (0x4000 + span us)) h, w')
           else find_fit q a (of_nat N) t (of_nat (0x4000 + span (us @ [b]))) h w')"
    by (rule find_fit_step [OF ok Nil.prems(2)])
  moreover have "snd b" using Nil.prems(4) by (simp add: fits_def)
  ultimately show ?case using Nil.prems(4) by (intro exI [of _ w']) simp
next
  case (Cons y ys)
  have ok: "heap_ok n w q a (us @ y # (ys @ b # vs))" using Cons.prems(1) by simp
  obtain w1 h where w1: "steady q a (heap_pages n) (heap_pages (span (us @ y # (ys @ b # vs)) div 256)) w w1" "content w1 = content w"
    "heap_ok n w1 q a (us @ y # (ys @ b # vs))"
    "find_fit q a (of_nat N) t (of_nat (0x4000 + span us)) h0 w = find_fit q a (of_nat N) t (of_nat (0x4000 + span (us @ [y]))) h w1"
    by (rule find_fit_step [OF ok Cons.prems(2), of t h0]) (use Cons.prems(3) [of y] in \<open>simp add: Let_def\<close>)
  have ok1: "heap_ok n w1 q a ((us @ [y]) @ ys @ b # vs)" using w1(3) by simp
  obtain w' where "steady q a (heap_pages n) (heap_pages (span ((us @ [y]) @ ys @ b # vs) div 256)) w1 w'" "content w' = content w1" "heap_ok n w' q a ((us @ [y]) @ ys @ b # vs)"
    "find_fit q a (of_nat N) t (of_nat (0x4000 + span (us @ [y]))) h w1 =
      Some (Walk_Fit (of_nat (0x4000 + span ((us @ [y]) @ ys)))
        (mk_hdr (fst b) True (if vs = [] then 0 else 0x4000 + span ((us @ [y]) @ ys) + 8 + fst b) (last_at 0 0x4000 ((us @ [y]) @ ys))), w')"
    using Cons.IH [OF ok1 Cons.prems(2), of h] Cons.prems(3,4) by auto
  then show ?case using w1 steady_trans [OF w1(1)] by (intro exI [of _ w']) simp
qed

lemma find_fit_none:
  assumes "heap_ok n w q a (us @ ys @ [b])" "N < 65536" "\<And>y. y \<in> set (ys @ [b]) \<Longrightarrow> \<not> fits N y"
  shows "\<exists>w'. steady q a (heap_pages n) (heap_pages (span (us @ ys @ [b]) div 256)) w w' \<and> content w' = content w \<and> heap_ok n w' q a (us @ ys @ [b]) \<and>
    find_fit q a (of_nat N) t (of_nat (0x4000 + span us)) h0 w =
      Some (Walk_End (of_nat (0x4000 + span (us @ ys))) (mk_hdr (fst b) (snd b) 0 (last_at 0 0x4000 (us @ ys))), w')"
  using assms
proof (induction ys arbitrary: us w h0)
  case Nil
  have ok: "heap_ok n w q a (us @ b # [])" using Nil.prems(1) by simp
  obtain w' where w': "steady q a (heap_pages n) (heap_pages (span (us @ b # []) div 256)) w w'" "content w' = content w" "heap_ok n w' q a (us @ b # [])"
    "find_fit q a (of_nat N) t (of_nat (0x4000 + span us)) h0 w = Some (Walk_End (of_nat (0x4000 + span us)) (mk_hdr (fst b) (snd b) 0 (last_at 0 0x4000 us)), w')"
    by (rule find_fit_step [OF ok Nil.prems(2), of t h0]) (use Nil.prems(3) [of b] in \<open>simp add: Let_def\<close>)
  then show ?case by (intro exI [of _ w']) simp
next
  case (Cons y ys)
  have ok: "heap_ok n w q a (us @ y # (ys @ [b]))" using Cons.prems(1) by simp
  obtain w1 h where w1: "steady q a (heap_pages n) (heap_pages (span (us @ y # (ys @ [b])) div 256)) w w1" "content w1 = content w"
    "heap_ok n w1 q a (us @ y # (ys @ [b]))"
    "find_fit q a (of_nat N) t (of_nat (0x4000 + span us)) h0 w = find_fit q a (of_nat N) t (of_nat (0x4000 + span (us @ [y]))) h w1"
    by (rule find_fit_step [OF ok Cons.prems(2), of t h0]) (use Cons.prems(3) [of y] in \<open>simp add: Let_def\<close>)
  have ok1: "heap_ok n w1 q a ((us @ [y]) @ ys @ [b])" using w1(3) by simp
  obtain w' where "steady q a (heap_pages n) (heap_pages (span ((us @ [y]) @ ys @ [b]) div 256)) w1 w'" "content w' = content w1" "heap_ok n w' q a ((us @ [y]) @ ys @ [b])"
    "find_fit q a (of_nat N) t (of_nat (0x4000 + span (us @ [y]))) h w1 =
      Some (Walk_End (of_nat (0x4000 + span ((us @ [y]) @ ys))) (mk_hdr (fst b) (snd b) 0 (last_at 0 0x4000 ((us @ [y]) @ ys))), w')"
    using Cons.IH [OF ok1 Cons.prems(2), of h] Cons.prems(3) by auto
  then show ?case using w1 steady_trans [OF w1(1)] by (intro exI [of _ w']) simp
qed


section \<open>Header cells and allocated blocks\<close>

primrec hcells :: "nat \<Rightarrow> block list \<Rightarrow> nat set" where
  "hcells x [] = {}"
| "hcells x (b # bs) = {x..<x + 8} \<union> hcells (x + 8 + fst b) bs"

text \<open>The blocks in use: the address given to the program, and the size.\<close>

primrec allocated :: "nat \<Rightarrow> block list \<Rightarrow> (nat \<times> nat) set" where
  "allocated x [] = {}"
| "allocated x (b # bs) = (if snd b then {} else {(x + 8, fst b)}) \<union> allocated (x + 8 + fst b) bs"

lemma hcells_append [simp]: "hcells x (us @ vs) = hcells x us \<union> hcells (x + span us) vs"
  by (induction us arbitrary: x) (auto simp: ac_simps)

lemma allocated_append [simp]: "allocated x (us @ vs) = allocated x us \<union> allocated (x + span us) vs"
  by (induction us arbitrary: x) (auto simp: ac_simps)

lemma hcells_range: "hcells x bs \<subseteq> {x..<x + span bs}"
  by (induction bs arbitrary: x) fastforce+

lemma allocated_range: "(y, m) \<in> allocated x bs \<Longrightarrow> x + 8 \<le> y \<and> y + m \<le> x + span bs"
  by (induction bs arbitrary: x) (fastforce split: if_splits)+

lemma payload_not_header: "(y, m) \<in> allocated x bs \<Longrightarrow> {y..<y + m} \<inter> hcells x bs = {}"
proof (induction bs arbitrary: x)
  case (Cons b bs)
  show ?case
  proof (cases "(y, m) \<in> allocated (x + 8 + fst b) bs")
    case True
    then show ?thesis using Cons.IH [OF True] allocated_range [OF True] by auto
  next
    case False
    then have "y = x + 8" "m = fst b" using Cons.prems by (auto split: if_splits)
    then show ?thesis using hcells_range [of "x + 8 + fst b" bs] by auto
  qed
qed simp

lemma allocated_disjoint:
  "(y, m) \<in> allocated x bs \<Longrightarrow> (y', m') \<in> allocated x bs \<Longrightarrow> (y, m) \<noteq> (y', m') \<Longrightarrow> {y..<y + m} \<inter> {y'..<y' + m'} = {}"
proof (induction bs arbitrary: x)
  case (Cons b bs)
  let ?r = "allocated (x + 8 + fst b) bs"
  consider "(y, m) \<in> ?r" "(y', m') \<in> ?r" | "(y, m) \<in> ?r" "y' = x + 8" "m' = fst b" | "(y', m') \<in> ?r" "y = x + 8" "m = fst b"
    using Cons.prems by (auto split: if_splits)
  then show ?case
  proof cases
    case 1
    then show ?thesis using Cons.IH Cons.prems(3) by blast
  qed (auto dest: allocated_range)
qed simp


section \<open>Changing headers\<close>

lemma write_threaded:
  assumes st: "steady q a (heap_pages n) (heap_pages k) w0 w" and C: "only q C w0 w"
    and c: "0x4000 \<le> c" "c + 8 \<le> 0x4000 + 256 * k" "k \<le> n" "n \<le> 128"
  obtains w' where "write_hdr pad q a (of_nat c) h t w = (True, w')" "steady q a (heap_pages n) (heap_pages k) w0 w'"
    "only q (C \<union> {c..<c + 8}) w0 w'" "only q {c..<c + 8} w w'" "hdr_at w' q c = h"
proof -
  have "resident w q a (heap_pages n)" using st by (simp add: steady_def)
  then obtain w' where w': "write_hdr pad q a (of_nat c) h t w = (True, w')" "steady q a (heap_pages n) (heap_pages k) w w'"
      "only q {c..<c + 8} w w'" "hdr_at w' q c = h"
    by (rule write_hdr_steady [where n = n and h = h and t = t and pad = pad, OF _ c])
  have "only q (C \<union> {c..<c + 8}) w0 w'" by (rule only_trans [OF only_mono [OF C] only_mono [OF w'(3)]]) auto
  then show ?thesis using that w' steady_trans [OF st w'(2)] by blast
qed

lemma set_prev_threaded:
  assumes st: "steady q a (heap_pages n) (heap_pages k) w0 w" and C: "only q C w0 w"
    and vs: "seg (hdr_at w q) p y z vs" and y: "0x4000 \<le> y" "y + span vs \<le> 0x4000 + 256 * k" "k \<le> n" "n \<le> 128"
    and nx: "nx = (if vs = [] then 0 else y)"
  obtains w' where "set_prev pad q a (of_nat nx) (of_nat p') t w = (True, w')" "steady q a (heap_pages n) (heap_pages k) w0 w'"
    "only q (C \<union> hcells y vs) w0 w'" "only q {y..<y + 8} w w'" "seg (hdr_at w' q) p' y z vs"
proof (cases vs)
  case Nil
  then show ?thesis using that [of w] st C nx by (simp add: set_prev_def only_refl)
next
  case (Cons b vs')
  then have y8: "y + 8 \<le> 0x4000 + 256 * k" using y by simp
  have res: "resident w q a (heap_pages n)" using st by (simp add: steady_def)
  obtain w1 where r: "read_hdr q a (of_nat y) t w = (Some (hdr_at w q y), w1)" "steady q a (heap_pages n) (heap_pages k) w w1" "content w1 = content w"
    by (rule read_hdr_steady [OF res y(1) y8 y(3,4)])
  have C1: "only q C w0 w1" using only_trans [OF C only_content [OF r(3)]] .
  obtain w' where w': "write_hdr pad q a (of_nat y) ((hdr_at w q y)\<lparr>bh_prev := of_nat p'\<rparr>) t w1 = (True, w')" "steady q a (heap_pages n) (heap_pages k) w0 w'"
    "only q (C \<union> {y..<y + 8}) w0 w'" "only q {y..<y + 8} w1 w'" "hdr_at w' q y = (hdr_at w q y)\<lparr>bh_prev := of_nat p'\<rparr>"
    by (rule write_threaded [OF steady_trans [OF st r(2)] C1 y(1) y8 y(3,4), where h = "(hdr_at w q y)\<lparr>bh_prev := of_nat p'\<rparr>" and t = t and pad = pad])
  have o: "only q {y..<y + 8} w w'" using only_trans [OF only_content [OF r(3)] w'(4)] .
  have h: "hdr_at w q y = mk_hdr (fst b) (snd b) (if vs' = [] then z else y + 8 + fst b) p" using vs Cons by simp
  have "seg (hdr_at w' q) y (y + 8 + fst b) z vs'" by (rule seg_only [OF _ o]) (use vs Cons y in auto)
  then have "seg (hdr_at w' q) p' y z vs" using vs Cons w'(5) h by (simp add: mk_hdr_def)
  moreover have "(of_nat y :: u16) \<noteq> 0" by (rule u16_eq_0) (use y y8 in auto)
  then have "set_prev pad q a (of_nat nx) (of_nat p') t w = (True, w')" using nx Cons r(1) w'(1) by (simp add: set_prev_def)
  moreover have "only q (C \<union> hcells y vs) w0 w'" using only_mono [OF w'(3)] Cons by auto
  ultimately show ?thesis using that w'(2) o by blast
qed

text \<open>Taking a free block \<open>m\<close> of the list for a request of \<open>N\<close> bytes: the whole block, or its front when the rest can hold a block.\<close>

lemma block_room:
  assumes "heap_ok n w q a (us @ (m, f) # vs)"
  shows "0x4000 + span us + 8 + m + span vs \<le> 0x4000 + 256 * (span (us @ (m, f) # vs) div 256)"
    "0x4000 + 256 * (span (us @ (m, f) # vs) div 256) \<le> 49152" "m < 65536" "0x4000 + span us < 65536"
    "seg (hdr_at w q) 0 0x4000 (0x4000 + span us) us" "seg (hdr_at w q) (0x4000 + span us) (0x4000 + span us + 8 + m) 0 vs" "4 dvd m"
proof -
  note O = heap_okD [OF assms]
  show lim: "0x4000 + span us + 8 + m + span vs \<le> 0x4000 + 256 * (span (us @ (m, f) # vs) div 256)"
    "0x4000 + 256 * (span (us @ (m, f) # vs) div 256) \<le> 49152" using O(6,8) by simp_all
  then show "m < 65536" "0x4000 + span us < 65536" by simp_all
  show "seg (hdr_at w q) 0 0x4000 (0x4000 + span us) us" "seg (hdr_at w q) (0x4000 + span us) (0x4000 + span us + 8 + m) 0 vs" "4 dvd m"
    using O(5) by (simp_all add: seg_append)
qed

lemma take_whole_heap:
  assumes ok: "heap_ok n w q a (us @ (m, True) # vs)" and N: "4 \<le> N" "N \<le> m" and big: "\<not> N + 12 \<le> m"
    and bs': "bs' = us @ [(m, False)] @ vs"
    and h: "h = mk_hdr m True (if vs = [] then 0 else 0x4000 + span us + 8 + m) (last_at 0 0x4000 us)"
  obtains w' where "take_block pad q a (of_nat N) t (of_nat (0x4000 + span us)) h w = (of_nat (0x4000 + span us + 8), w')"
    "heap_ok n w' q a bs'" "only q (hcells 0x4000 bs') w w'"
proof -
  let ?c = "0x4000 + span us" and ?bs = "us @ (m, True) # vs"
  let ?k = "span ?bs div 256" and ?nx = "if vs = [] then 0 else 0x4000 + span us + 8 + m"
  note O = heap_okD [OF ok] and B = block_header [OF ok]
  have sp: "span bs' = span ?bs" using bs' by auto
  note lim = block_room(1,2) [OF ok] and m = block_room(3,4) [OF ok] and s = block_room(5-7) [OF ok]
  have st: "steady q a (heap_pages n) (heap_pages ?k) w w" using O(2) by (rule steady_refl)
  have ptr: "ucast (ucast (of_nat ?c :: u16) + VM_BLOCK_HDR_SIZE) = (of_nat (?c + 8) :: u16)"
    by (rule after_hdr [OF m(2)])
  have cut: "of_nat N + VM_BLOCK_HDR_SIZE + 4 \<le> (ucast (of_nat m :: u16) :: u64) \<longleftrightarrow> N + 12 \<le> m"
    by (rule splittable) (use m N in auto)
  obtain w' where w': "write_hdr pad q a (of_nat ?c) (h\<lparr>bh_free := False\<rparr>) t w = (True, w')" "steady q a (heap_pages n) (heap_pages ?k) w w'"
    "only q ({} \<union> {?c..<?c + 8}) w w'" "only q {?c..<?c + 8} w w'" "hdr_at w' q ?c = h\<lparr>bh_free := False\<rparr>"
    by (rule write_threaded [OF st only_refl _ _ O(7,1), where h = "h\<lparr>bh_free := False\<rparr>" and t = t and pad = pad and c = ?c]) (use lim in auto)
  have "seg (hdr_at w' q) 0 0x4000 ?c us" by (rule seg_only [OF s(1) w'(4)]) (use lim in auto)
  moreover have "seg (hdr_at w' q) ?c (?c + 8 + m) 0 vs" by (rule seg_only [OF s(2) w'(4)]) (use lim in auto)
  ultimately have "seg (hdr_at w' q) 0 0x4000 0 bs'" using big bs' w'(5) B N s(3) by (simp add: seg_append mk_hdr_def h)
  then have "heap_ok n w' q a bs'" by (rule heap_ok_after [OF ok w'(2) sp])
  moreover have "only q (hcells 0x4000 bs') w w'" by (rule only_mono [OF w'(3)]) (use bs' big in auto)
  moreover have "take_block pad q a (of_nat N) t (of_nat ?c) h w = (of_nat (?c + 8), w')"
    using w'(1) big unfolding take_block_def ptr by (simp add: h cut)
  ultimately show ?thesis using that by blast
qed

lemma split_block_heap:
  assumes ok: "heap_ok n w q a (us @ (m, True) # vs)" and N: "4 \<le> N" "4 dvd N" and big: "N + 12 \<le> m"
    and bs': "bs' = us @ [(N, False), (m - N - 8, True)] @ vs"
    and h: "h = mk_hdr m True (if vs = [] then 0 else 0x4000 + span us + 8 + m) (last_at 0 0x4000 us)"
  obtains w' where "take_block pad q a (of_nat N) t (of_nat (0x4000 + span us)) h w = (of_nat (0x4000 + span us + 8), w')"
    "heap_ok n w' q a bs'" "only q (hcells 0x4000 bs') w w'"
proof -
  let ?c = "0x4000 + span us" and ?bs = "us @ (m, True) # vs"
  let ?k = "span ?bs div 256" and ?nx = "if vs = [] then 0 else 0x4000 + span us + 8 + m"
  note O = heap_okD [OF ok] and B = block_header [OF ok]
  have sp: "span bs' = span ?bs" using bs' big by auto
  note lim = block_room(1,2) [OF ok] and m = block_room(3,4) [OF ok] and s = block_room(5-7) [OF ok]
  have st: "steady q a (heap_pages n) (heap_pages ?k) w w" using O(2) by (rule steady_refl)
  have ptr: "ucast (ucast (of_nat ?c :: u16) + VM_BLOCK_HDR_SIZE) = (of_nat (?c + 8) :: u16)"
    by (rule after_hdr [OF m(2)])
  have cut: "of_nat N + VM_BLOCK_HDR_SIZE + 4 \<le> (ucast (of_nat m :: u16) :: u64) \<longleftrightarrow> N + 12 \<le> m"
    by (rule splittable) (use m N big in auto)
  let ?d = "?c + 8 + N" and ?nh = "mk_hdr (m - N - 8) True ?nx ?c" and ?ch = "mk_hdr N False (?c + 8 + N) (last_at 0 0x4000 us)"
  have d: "ucast (ucast (of_nat ?c :: u16) + VM_BLOCK_HDR_SIZE + of_nat N) = (of_nat ?d :: u16)" by (rule after_payload [OF m(2)])
  have sz: "ucast (ucast (of_nat m :: u16) - of_nat N - VM_BLOCK_HDR_SIZE :: u64) = (of_nat (m - N - 8) :: u16)"
    by (rule rest_size [OF m(1)]) (use big in simp)
  obtain w1 where w1: "write_hdr pad q a (of_nat ?d) ?nh t w = (True, w1)" "steady q a (heap_pages n) (heap_pages ?k) w w1"
    "only q ({} \<union> {?d..<?d + 8}) w w1" "only q {?d..<?d + 8} w w1" "hdr_at w1 q ?d = ?nh"
    by (rule write_threaded [OF st only_refl _ _ O(7,1), where h = ?nh and t = t and pad = pad and c = ?d]) (use lim big in auto)
  obtain w2 where w2: "write_hdr pad q a (of_nat ?c) ?ch t w1 = (True, w2)" "steady q a (heap_pages n) (heap_pages ?k) w w2"
    "only q ({} \<union> {?d..<?d + 8} \<union> {?c..<?c + 8}) w w2" "only q {?c..<?c + 8} w1 w2" "hdr_at w2 q ?c = ?ch"
    by (rule write_threaded [OF w1(2,3) _ _ O(7,1), where h = ?ch and t = t and pad = pad and c = ?c]) (use lim in auto)
  have d2: "hdr_at w2 q ?d = ?nh" using hdr_at_only [OF w2(4), of ?d] w1(5) lim big by auto
  have s1: "seg (hdr_at w2 q) 0 0x4000 ?c us" by (rule seg_only [OF seg_only [OF s(1) w1(4)] w2(4)]) (use lim big in auto)
  have s2: "seg (hdr_at w2 q) ?c (?c + 8 + m) 0 vs" by (rule seg_only [OF seg_only [OF s(2) w1(4)] w2(4)]) (use lim big in auto)
  obtain w3 where w3: "set_prev pad q a (of_nat ?nx) (of_nat ?d) t w2 = (True, w3)" "steady q a (heap_pages n) (heap_pages ?k) w w3"
    "only q ({} \<union> {?d..<?d + 8} \<union> {?c..<?c + 8} \<union> hcells (?c + 8 + m) vs) w w3" "only q {?c + 8 + m..<?c + 8 + m + 8} w2 w3"
    "seg (hdr_at w3 q) ?d (?c + 8 + m) 0 vs"
    by (rule set_prev_threaded [OF w2(2,3) s2 _ lim(1) O(7,1), where nx = ?nx and p' = ?d and t = t and pad = pad]) auto
  have s3: "seg (hdr_at w3 q) 0 0x4000 ?c us" by (rule seg_only [OF s1 w3(4)]) (use lim in auto)
  have h3: "hdr_at w3 q ?d = ?nh" "hdr_at w3 q ?c = ?ch"
    using hdr_at_only [OF w3(4), of ?d] hdr_at_only [OF w3(4), of ?c] d2 w2(5) lim big by auto
  have "4 dvd m - N - 8" using s(3) N(2) big by (simp add: dvd_diff_nat)
  then have "seg (hdr_at w3 q) 0 0x4000 0 bs'" using big bs' w3(5) s3 h3 N by (simp add: seg_append add.assoc)
  then have "heap_ok n w3 q a bs'" by (rule heap_ok_after [OF ok w3(2) sp])
  moreover have "only q (hcells 0x4000 bs') w w3" by (rule only_mono [OF w3(3)]) (use bs' big in \<open>auto simp: add.assoc\<close>)
  moreover have "take_block pad q a (of_nat N) t (of_nat ?c) h w = (of_nat (?c + 8), w3)"
  proof -
    have "\<lparr>bh_size = of_nat (m - N - 8), bh_free = True, bh_next = bh_next h, bh_prev = of_nat ?c\<rparr> = ?nh" by (simp add: mk_hdr_def h)
    moreover have "h\<lparr>bh_size := ucast (of_nat N :: u64), bh_free := False, bh_next := of_nat ?d\<rparr> = ?ch" using ucast_64_16 [of N] by (simp add: mk_hdr_def h)
    moreover have "bh_size h = of_nat m" "bh_next h = of_nat ?nx" by (simp_all add: h)
    ultimately show ?thesis using w1(1) w2(1) w3(1) big unfolding take_block_def ptr Let_def d by (simp only: sz cut) simp
  qed
  ultimately show ?thesis using that by blast
qed

lemma take_block_heap:
  assumes ok: "heap_ok n w q a (us @ (m, True) # vs)" and N: "4 \<le> N" "4 dvd N" "N \<le> m"
    and bs': "bs' = us @ (if N + 12 \<le> m then [(N, False), (m - N - 8, True)] else [(m, False)]) @ vs"
    and h: "h = mk_hdr m True (if vs = [] then 0 else 0x4000 + span us + 8 + m) (last_at 0 0x4000 us)"
  obtains w' where "take_block pad q a (of_nat N) t (of_nat (0x4000 + span us)) h w = (of_nat (0x4000 + span us + 8), w')"
    "heap_ok n w' q a bs'" "only q (hcells 0x4000 bs') w w'"
proof (cases "N + 12 \<le> m")
  case True
  then have "bs' = us @ [(N, False), (m - N - 8, True)] @ vs" using bs' by simp
  then show ?thesis by (rule split_block_heap [OF ok N(1,2) True _ h, of bs' pad t]) (rule that)
next
  case False
  then have "bs' = us @ [(m, False)] @ vs" using bs' by simp
  then show ?thesis by (rule take_whole_heap [OF ok N(1,3) False _ h, of bs' pad t]) (rule that)
qed

end
