(* ===== verification/VM_Malloc.thy ===== *)
theory VM_Malloc
  imports VM_Heap
begin

text \<open>
  Correctness of the heap allocator on the list of blocks: growing the heap, allocation, release,
  statistics. \<open>n\<close> is the number of pages of the heap, at most 128, that physical memory has room
  for; the properties hold while the heap stays within them. With fewer frames the allocator's
  headers may be among the bytes that paging loses.
\<close>

section \<open>Growing\<close>

definition set_break :: "vm_ptr \<Rightarrow> u16 \<Rightarrow> mem \<Rightarrow> mem" where
  "set_break a x w = upd_vm a (\<lambda>vm. vm\<lparr>vs_stats := (vs_stats vm)\<lparr>vst_heap_break := x\<rparr>\<rparr>) w"

lemma set_break_only:
  "mem_inv (set_break a x w) = mem_inv w" "content (set_break a x w) = content w" "tlb_coherent (set_break a x w) = tlb_coherent w"
  "pte_at (set_break a x w) = pte_at w" "vm_of (set_break a x w) = vm_of w" "frame_owner (set_break a x w) = frame_owner w"
  "resident (set_break a x w) q a V = resident w q a V" "hdr_at (set_break a x w) = hdr_at w"
proof -
  show a: "mem_inv (set_break a x w) = mem_inv w" "content (set_break a x w) = content w" "tlb_coherent (set_break a x w) = tlb_coherent w"
    "pte_at (set_break a x w) = pte_at w" "vm_of (set_break a x w) = vm_of w" "frame_owner (set_break a x w) = frame_owner w"
    by (simp_all add: set_break_def stats_only)
  show "resident (set_break a x w) q a V = resident w q a V" by (simp add: resident_def absent_def free_frames_def a)
  show "hdr_at (set_break a x w) = hdr_at w" using hdr_at_content [OF a(2)] by (simp add: fun_eq_iff)
qed

lemma set_break_limits: "limits w a = Some (s, b) \<Longrightarrow> limits (set_break a x w) a = Some (s, x)"
  by (auto simp: limits_def set_break_def upd_vm_def)

lemma upd_pte_same: "f (pte_at w a v) = pte_at w a v \<Longrightarrow> upd_pte a v f w = w"
proof (cases "w_vms w a")
  case None
  then have "(w_vms w)(a := None) = w_vms w" by (simp add: fun_eq_iff)
  then show ?thesis using None by (simp add: upd_pte_def upd_vm_def)
next
  case (Some vm)
  assume "f (pte_at w a v) = pte_at w a v"
  then have "vm\<lparr>vs_pt := (vs_pt vm)(v := f (vs_pt vm v))\<rparr> = vm" using Some by (simp add: pte_at_def page_table_lookup_def)
  then have "(w_vms w)(a \<mapsto> vm\<lparr>vs_pt := (vs_pt vm)(v := f (vs_pt vm v))\<rparr>) = w_vms w" using Some by (simp add: fun_eq_iff)
  then show ?thesis using Some by (simp add: upd_pte_def upd_vm_def)
qed

lemma heap_break_set: "w_vms w a \<noteq> None \<Longrightarrow> heap_break (set_break a x w) a = x"
  by (auto simp: heap_break_def set_break_def upd_vm_def)

lemma set_break_same: "w_vms w a \<noteq> None \<Longrightarrow> set_break a (heap_break w a) w = w"
proof -
  assume "w_vms w a \<noteq> None"
  then obtain vm where vm: "w_vms w a = Some vm" by blast
  then have "(w_vms w)(a \<mapsto> vm) = w_vms w" by (simp add: fun_eq_iff)
  then show ?thesis using vm by (simp add: set_break_def upd_vm_def heap_break_def)
qed

lemma grow_page_fresh:
  assumes "w_vms w a \<noteq> None" "e = pte_at w a (vpn_of (heap_break w a))" "permissions e = 3" "\<not> present e" "\<not> in_swap e"
  shows "grow_page a w = set_break a (heap_break w a + 256) w"
proof -
  have "e\<lparr>permissions := VM_PROT_READ OR VM_PROT_WRITE, present := False, in_swap := False\<rparr> = e" using assms(3-5) by (cases e) (simp add: vm_prots)
  then have "upd_pte a (vpn_of (heap_break w a)) (\<lambda>e. e\<lparr>permissions := VM_PROT_READ OR VM_PROT_WRITE, present := False, in_swap := False\<rparr>) w = w"
    using upd_pte_same [of _ w a "vpn_of (heap_break w a)"] assms(2) by simp
  then show ?thesis using assms(1) by (auto simp: grow_page_def Let_def set_break_def upd_vm_def heap_break_def)
qed

lemma grow_pages:
  assumes "w_vms w a \<noteq> None" "heap_break w a = of_nat b" "b + 256 * p \<le> 65535"
    and "\<And>v. b div 256 \<le> unat v \<Longrightarrow> unat v < b div 256 + p \<Longrightarrow> permissions (pte_at w a v) = 3 \<and> \<not> present (pte_at w a v) \<and> \<not> in_swap (pte_at w a v)"
  shows "(grow_page a ^^ p) w = set_break a (of_nat (b + 256 * p)) w"
  using assms(3,4)
proof (induction p)
  case 0
  then show ?case using set_break_same [OF assms(1)] assms(2) by simp
next
  case (Suc p)
  define x :: u16 where "x = of_nat (b + 256 * p)"
  let ?w = "set_break a x w"
  have IH: "(grow_page a ^^ p) w = ?w" using Suc by (simp add: x_def)
  have live: "w_vms ?w a \<noteq> None" using assms(1) by (auto simp: set_break_def upd_vm_def)
  have hb: "heap_break ?w a = x" by (rule heap_break_set [OF assms(1)])
  have u: "unat x = b + 256 * p" unfolding x_def by (rule unat_u16_of_nat) (use Suc.prems(1) in simp)
  have v: "unat (vpn_of x) = b div 256 + p" unfolding unat_vpn_of u by simp
  have "grow_page a ?w = set_break a (heap_break ?w a + 256) ?w"
    by (rule grow_page_fresh [OF live refl]) (use Suc.prems(2) [of "vpn_of x"] v in \<open>simp_all add: hb set_break_only\<close>)
  also have "heap_break ?w a + 256 = of_nat (b + 256 * Suc p)" unfolding hb by (simp add: x_def)
  also have "set_break a (of_nat (b + 256 * Suc p)) ?w = set_break a (of_nat (b + 256 * Suc p)) w"
    by (simp add: set_break_def upd_vm_def option.map_comp comp_def)
  finally show ?case using IH by simp
qed

lemma ucast_16_32: "c < 65536 \<Longrightarrow> ucast (of_nat c :: u16) = (of_nat c :: u32)"
  by (simp add: word_unat_eq_iff unsigned_ucast_eq unat_of_nat take_bit_eq_mod)

lemma pages_cast:
  assumes "unat (x :: u32) = s" "s \<le> 32768"
  shows "ucast (x div 256) = (of_nat (s div 256) :: u64)"
proof -
  have "unat (x div 256) = s div 256" using assms(1) by (simp add: unat_div_distrib)
  moreover have "s div 256 < 65536" using assms(2) by simp
  ultimately show ?thesis by (simp only: word_unat_eq_iff unsigned_ucast_eq unat_of_nat take_bit_eq_mod)
qed

lemma over_limit: "k < 65536 \<Longrightarrow> p < 65536 \<Longrightarrow> 128 < (of_nat k + of_nat p :: u64) \<longleftrightarrow> 128 < k + p"
  using u64_le [of "k + p" 128] by (simp add: not_le [symmetric])

lemma heap_grow_ok:
  assumes ok: "heap_ok n w q a bs" and p: "0 < p" "p < 65536"
  shows "128 < span bs div 256 + p \<Longrightarrow> heap_grow a (of_nat p) w = (False, w)"
    and "span bs div 256 + p \<le> n \<Longrightarrow> heap_grow a (of_nat p) w = (True, set_break a (of_nat (0x4000 + span bs + 256 * p)) w)"
proof -
  note O = heap_okD [OF ok]
  let ?k = "span bs div 256"
  have k: "?k \<le> 128" using O(1,7) by simp
  have "unat (ucast (heap_break w a) - ucast (heap_start w a) :: u32) = span bs"
  proof -
    have "(ucast (heap_start w a) :: u32) = of_nat 0x4000" by (simp add: O(10))
    moreover have "(ucast (heap_break w a) :: u32) = of_nat (0x4000 + span bs)"
      unfolding O(11) by (rule ucast_16_32) (use O(8) in simp)
    ultimately have "(ucast (heap_break w a) - ucast (heap_start w a) :: u32) = of_nat (span bs)" by simp
    then show ?thesis using O(8) by (simp add: unat_of_nat take_bit_eq_mod)
  qed
  then have cur: "ucast ((ucast (heap_break w a) - ucast (heap_start w a) :: u32) div 256) = (of_nat ?k :: u64)"
    by (rule pages_cast [OF _ O(8)])
  have lt: "128 < (of_nat ?k + of_nat p :: u64) \<longleftrightarrow> 128 < ?k + p" using over_limit [of ?k p] k p by simp
  have p0: "(of_nat p :: u64) \<noteq> 0" using p by (simp add: word_unat_eq_iff unat_of_nat take_bit_eq_mod)
  have up: "unat (of_nat p :: u64) = p" using p by (simp add: unat_of_nat take_bit_eq_mod)
  show "128 < ?k + p \<Longrightarrow> heap_grow a (of_nat p) w = (False, w)" using cur lt p0 O(9) by (simp add: heap_grow_def Let_def)
  assume n: "?k + p \<le> n"
  have "(grow_page a ^^ p) w = set_break a (of_nat (0x4000 + span bs + 256 * p)) w"
  proof (rule grow_pages [OF O(9,11)])
    show "0x4000 + span bs + 256 * p \<le> 65535" using O(1,6) n by linarith
    fix v :: u8 assume v: "(0x4000 + span bs) div 256 \<le> unat v" "unat v < (0x4000 + span bs) div 256 + p"
    have "(0x4000 + span bs) div 256 = 64 + ?k" by simp
    then have "64 + ?k \<le> unat v" "unat v < 64 + n" using v n by linarith+
    then show "permissions (pte_at w a v) = 3 \<and> \<not> present (pte_at w a v) \<and> \<not> in_swap (pte_at w a v)"
      using ok residentD(5) [OF O(2), of v] by (auto simp: heap_ok_def heap_pages_def)
  qed
  then show "heap_grow a (of_nat p) w = (True, set_break a (of_nat (0x4000 + span bs + 256 * p)) w)"
    using cur lt p0 O(1,9) n up by (simp add: heap_grow_def Let_def)
qed

lemma heap_ok_intro:
  assumes "n \<le> 128" "k \<le> n" "steady q a (heap_pages n) (heap_pages k) w w'" "limits w a = Some (0x4000, of_nat (0x4000 + span bs))" "span bs = 256 * k"
    "seg (hdr_at w' q) 0 0x4000 0 bs" "\<And>v. 64 + k \<le> unat v \<Longrightarrow> unat v < 64 + n \<Longrightarrow> \<not> present (pte_at w a v) \<and> \<not> in_swap (pte_at w a v)"
  shows "heap_ok n w' q a bs"
proof -
  have "pte_at w' a v = pte_at w a v" if "64 + k \<le> unat v" for v using assms(3) that by (auto simp: steady_def heap_pages_def)
  then show ?thesis using assms by (auto simp: heap_ok_def steady_def)
qed


lemma heap_ok_grown:
  assumes ok: "heap_ok n w q a bs" and p: "span bs div 256 + p \<le> n"
  shows "resident (set_break a x w) q a (heap_pages n)"
    "limits (set_break a (of_nat (0x4000 + span bs + 256 * p)) w) a = Some (0x4000, of_nat (0x4000 + span bs + 256 * p))"
    "64 + (span bs div 256 + p) \<le> unat v \<Longrightarrow> unat v < 64 + n \<Longrightarrow> \<not> present (pte_at (set_break a x w) a v) \<and> \<not> in_swap (pte_at (set_break a x w) a v)"
  using heap_okD(2) [OF ok] set_break_limits [OF heap_okD(3) [OF ok]] ok p by (simp_all add: set_break_only heap_ok_def)

lemma init_heap_skip: "heap_ok n w q a bs \<Longrightarrow> bs \<noteq> [] \<Longrightarrow> init_heap pad q a t w = (True, w)"
proof -
  assume ok: "heap_ok n w q a bs" and "bs \<noteq> []"
  then have "8 \<le> span bs" by (cases bs) simp_all
  moreover have "unat (heap_start w a) = 0x4000" using heap_okD(10) [OF ok] by simp
  ultimately have "unat (heap_break w a) \<noteq> unat (heap_start w a)" using heap_okD(12) [OF ok] by linarith
  then show ?thesis by (auto simp: init_heap_def)
qed

lemma init_heap_first:
  assumes ok: "heap_ok n w q a []" and n: "2 \<le> n"
  obtains w' where "init_heap pad q a t w = (True, w')" "heap_ok n w' q a [(504, True)]" "only q (hcells 0x4000 [(504, True)]) w w'"
proof -
  note O = heap_okD [OF ok]
  define w1 where "w1 = set_break a (of_nat (0x4000 + span [] + 256 * 2)) w"
  have g: "heap_grow a 2 w = (True, w1)" using heap_grow_ok(2) [OF ok, of 2] n by (simp add: w1_def)
  have lim: "limits w1 a = Some (0x4000, of_nat (0x4000 + 512))" using heap_ok_grown(2) [OF ok, of 2] n by (simp add: w1_def)
  have hb: "heap_start w1 a = 0x4000" "heap_break w1 a = 0x4200" using lim by (auto simp: limits_def heap_start_def heap_break_def)
  have st: "steady q a (heap_pages n) (heap_pages 2) w1 w1" using heap_ok_grown(1) [OF ok, of 0] by (intro steady_refl) (simp add: w1_def)
  obtain w' where w': "write_hdr pad q a (of_nat 0x4000) (mk_hdr 504 True 0 0) t w1 = (True, w')" "steady q a (heap_pages n) (heap_pages 2) w1 w'"
    "only q ({} \<union> {0x4000..<0x4000 + 8}) w1 w'" "hdr_at w' q 0x4000 = mk_hdr 504 True 0 0"
    by (rule write_threaded [OF st only_refl _ _ n O(1), where h = "mk_hdr 504 True 0 0" and t = t and pad = pad and c = "0x4000"]) auto
  have "\<not> present (pte_at w1 a v) \<and> \<not> in_swap (pte_at w1 a v)" if "64 + 2 \<le> unat v" "unat v < 64 + n" for v
    using heap_ok_grown(3) [OF ok, of 2 v] n that by (simp add: w1_def)
  then have "heap_ok n w' q a [(504, True)]" by (intro heap_ok_intro [OF O(1) n w'(2)]) (use lim w'(4) in simp_all)
  moreover have "only q (hcells 0x4000 [(504, True)]) w w'"
    using only_trans [OF only_content only_mono [OF w'(3)]] by (simp add: w1_def set_break_only)
  moreover have "init_heap pad q a t w = (True, w')" using g w'(1) O(10,11) by (simp add: init_heap_def hb mk_hdr_def VM_BLOCK_HDR_SIZE_def)
  ultimately show ?thesis using that by blast
qed

text \<open>The number of pages a new block of \<open>n\<close> bytes takes.\<close>

definition pages_for :: "nat \<Rightarrow> nat" where
  "pages_for n = (n + 263) div 256"

lemma align_up_pages:
  assumes "n < 65536"
  shows "align_up (VM_BLOCK_HDR_SIZE + of_nat n) 256 div 256 = of_nat (pages_for n)"
proof -
  have u: "unat (of_nat (8 + n) :: u64) = 8 + n" using assms by (simp only: unat_of_nat) simp
  have x: "VM_BLOCK_HDR_SIZE + of_nat n = (of_nat (8 + n) :: u64)" by (simp add: VM_BLOCK_HDR_SIZE_def)
  have "unat (((of_nat (8 + n) :: u64) + 256 - 1) AND NOT (256 - 1)) = (8 + n + 255) div 256 * 256"
    using unat_align_up [of 8 "of_nat (8 + n) :: u64"] u assms by simp
  moreover have "\<not> (- 1 - (256 - 1) < (of_nat (8 + n) :: u64))" unfolding word_less_nat_alt u using assms by simp
  moreover have "(256 :: u64) \<noteq> 0" by simp
  moreover have "8 + n + 255 = n + 263" by simp
  ultimately have "unat (align_up (VM_BLOCK_HDR_SIZE + of_nat n) 256) = pages_for n * 256"
    unfolding x align_up_def pages_for_def by (simp only: if_False simp_thms)
  then have "unat (align_up (VM_BLOCK_HDR_SIZE + of_nat n) 256 div 256) = pages_for n" by (simp add: unat_div_distrib)
  moreover have "pages_for n < 65536" using assms by (simp add: pages_for_def)
  ultimately show ?thesis by (simp add: word_unat_eq_iff unat_of_nat take_bit_eq_mod)
qed

lemma pages_for_bounds: "n + 8 \<le> 256 * pages_for n" "0 < pages_for n" "n < 65536 \<Longrightarrow> pages_for n < 65536"
  by (simp_all add: pages_for_def)

lemma pages_cast_block: "0 < p \<Longrightarrow> ucast (of_nat p * 256 - VM_BLOCK_HDR_SIZE :: u64) = (of_nat (256 * p - 8) :: u16)"
proof -
  assume "0 < p"
  then have "of_nat p * 256 - VM_BLOCK_HDR_SIZE = (of_nat (256 * p - 8) :: u64)" using of_nat_minus [of 8 "256 * p"] by (simp add: VM_BLOCK_HDR_SIZE_def mult.commute)
  then show ?thesis using ucast_64_16 by metis
qed

lemma extend_heap_refused:
  assumes ok: "heap_ok n w q a bs" and N: "N < 65536" and p: "128 < span bs div 256 + pages_for N"
  shows "extend_heap pad q a (of_nat N) t c h w = (False, w)"
proof -
  have "(of_nat (pages_for N) :: u64) \<noteq> 0" using pages_for_bounds [of N] N by (simp add: word_unat_eq_iff unat_of_nat take_bit_eq_mod)
  then show ?thesis using heap_grow_ok(1) [OF ok pages_for_bounds(2) pages_for_bounds(3) [OF N] p] align_up_pages [OF N]
    by (simp add: extend_heap_def Let_def)
qed

lemma extend_heap_ok:
  assumes ok: "heap_ok n w q a (us @ [b])" and N: "N < 65536" and p: "span (us @ [b]) div 256 + pages_for N \<le> n"
    and h: "h = mk_hdr (fst b) (snd b) 0 (last_at 0 0x4000 us)" and bs': "bs' = us @ [b] @ [(256 * pages_for N - 8, True)]"
  obtains w' where "extend_heap pad q a (of_nat N) t (of_nat (0x4000 + span us)) h w = (True, w')" "heap_ok n w' q a bs'" "only q (hcells 0x4000 bs') w w'"
proof -
  note O = heap_okD [OF ok]
  let ?P = "pages_for N" and ?c = "0x4000 + span us" and ?o = "0x4000 + span (us @ [b])"
  let ?k = "span (us @ [b]) div 256 + ?P" and ?nh = "mk_hdr (256 * ?P - 8) True 0 ?c" and ?ch = "mk_hdr (fst b) (snd b) ?o (last_at 0 0x4000 us)"
  have P: "8 \<le> 256 * ?P" "0 < ?P" "?P < 65536" using pages_for_bounds [of N] N by linarith+
  have sp: "span bs' = 256 * ?k" using bs' O(6) P(1) by simp
  define w1 where "w1 = set_break a (of_nat (?o + 256 * ?P)) w"
  have g: "heap_grow a (of_nat ?P) w = (True, w1)" unfolding w1_def by (rule heap_grow_ok(2) [OF ok P(2,3) p])
  have lim: "limits w1 a = Some (0x4000, of_nat (0x4000 + span bs'))"
    using heap_ok_grown(2) [OF ok p] sp O(6) unfolding w1_def by (simp add: distrib_left add.assoc)
  have st: "steady q a (heap_pages n) (heap_pages ?k) w1 w1" unfolding w1_def by (intro steady_refl heap_ok_grown(1) [OF ok p])
  have on: "only q {} w w1" unfolding w1_def by (rule only_content) (simp add: set_break_only)
  have range: "?o + 8 \<le> 0x4000 + 256 * ?k" "?c + 8 \<le> ?o" "0x4000 + 256 * ?k \<le> 49152" using O(1,6) p P(1) by (simp_all add: distrib_left)
  have s: "seg (hdr_at w1 q) 0 0x4000 ?c us" "4 \<le> fst b" "4 dvd fst b" using O(5) by (simp_all add: seg_append w1_def set_break_only)
  obtain w2 where w2: "write_hdr pad q a (of_nat ?o) ?nh t w1 = (True, w2)" "steady q a (heap_pages n) (heap_pages ?k) w1 w2"
    "only q ({} \<union> {?o..<?o + 8}) w1 w2" "only q {?o..<?o + 8} w1 w2" "hdr_at w2 q ?o = ?nh"
    by (rule write_threaded [OF st only_refl _ range(1) p O(1), where h = ?nh and t = t and pad = pad]) auto
  obtain w3 where w3: "write_hdr pad q a (of_nat ?c) ?ch t w2 = (True, w3)" "steady q a (heap_pages n) (heap_pages ?k) w1 w3"
    "only q ({} \<union> {?o..<?o + 8} \<union> {?c..<?c + 8}) w1 w3" "only q {?c..<?c + 8} w2 w3" "hdr_at w3 q ?c = ?ch"
    by (rule write_threaded [OF w2(2,3) _ _ p O(1), where h = ?ch and t = t and pad = pad and c = ?c]) (use range in auto)
  have "hdr_at w3 q ?o = ?nh" using hdr_at_only [OF w3(4), of ?o] w2(5) range by auto
  moreover have "seg (hdr_at w3 q) 0 0x4000 ?c us" by (rule seg_only [OF seg_only [OF s(1) w2(4)] w3(4)]) (use range in auto)
  moreover have "4 dvd 256 * ?P - 8" "4 \<le> 256 * ?P - 8" using P(2) by (simp_all add: dvd_diff_nat)
  ultimately have "seg (hdr_at w3 q) 0 0x4000 0 bs'" using bs' w3(5) s(2,3) by (simp add: seg_append add.assoc)
  then have "heap_ok n w3 q a bs'"
    by (intro heap_ok_intro [OF O(1) p w3(2) lim sp]) (use heap_ok_grown(3) [OF ok p] in \<open>simp_all add: w1_def\<close>)
  moreover have "only q (hcells 0x4000 bs') w w3"
    by (rule only_trans [OF only_mono [OF on] only_mono [OF w3(3)]]) (use bs' in \<open>auto simp: add.assoc\<close>)
  moreover have "extend_heap pad q a (of_nat N) t (of_nat ?c) h w = (True, w3)"
  proof -
    have "(of_nat ?P :: u64) \<noteq> 0" using P by (simp add: word_unat_eq_iff unat_of_nat take_bit_eq_mod)
    moreover have "\<lparr>bh_size = of_nat (256 * ?P - 8), bh_free = True, bh_next = 0, bh_prev = of_nat ?c\<rparr> = ?nh" by (simp add: mk_hdr_def)
    moreover have "h\<lparr>bh_next := of_nat ?o\<rparr> = ?ch" by (simp add: mk_hdr_def h)
    moreover have "heap_break w a = of_nat ?o" by (rule O(11))
    ultimately show ?thesis using g w2(1) w3(1) unfolding extend_heap_def Let_def vm_sizes of_nat_numeral align_up_pages [OF N]
      by (simp only: pages_cast_block [OF P(2)]) simp
  qed
  ultimately show ?thesis using that by blast
qed


section \<open>Allocation\<close>

definition round4 :: "nat \<Rightarrow> nat" where
  "round4 s = (s + 3) div 4 * 4"

lemma round4_bounds: "s \<le> round4 s" "round4 s \<le> s + 3" "4 dvd round4 s" "0 < s \<Longrightarrow> 4 \<le> round4 s"
  by (simp_all add: round4_def)

lemma round4_idem [simp]: "round4 (round4 s) = round4 s"
  by (simp add: round4_def)

lemma align_up_4:
  assumes "s < 65536"
  shows "align_up (of_nat s) 4 = of_nat (round4 s)"
proof -
  have u: "unat (of_nat s :: u64) = s" using assms by (simp only: unat_of_nat) simp
  have "unat (((of_nat s :: u64) + 4 - 1) AND NOT (4 - 1)) = (s + 3) div 4 * 4"
    using unat_align_up [of 2 "of_nat s :: u64"] u assms by simp
  moreover have "\<not> (- 1 - (4 - 1) < (of_nat s :: u64))" unfolding word_less_nat_alt u using assms by simp
  moreover have "(4 :: u64) \<noteq> 0" by simp
  ultimately have "unat (align_up (of_nat s) 4) = round4 s" unfolding align_up_def round4_def by (simp only: if_False simp_thms)
  moreover have "round4 s < 65540" using assms by (simp add: round4_def)
  ultimately show ?thesis by (simp add: word_unat_eq_iff unat_of_nat take_bit_eq_mod)
qed

lemma u64_small: "s < 65540 \<Longrightarrow> (of_nat s :: u64) = 0 \<longleftrightarrow> s = 0" "s < 65540 \<Longrightarrow> 65535 < (of_nat s :: u64) \<longleftrightarrow> 65535 < s"
  by (simp_all add: word_unat_eq_iff word_less_nat_alt unat_of_nat take_bit_eq_mod)

lemma malloc_unfold:
  assumes ok: "heap_ok n w q a bs" and s: "0 < s" "round4 s < 65536"
  shows "vm_alloc_malloc pad undef q a (of_nat s) t w =
    (case init_heap pad q a t w of
       (ok, w1) \<Rightarrow>
         if \<not> ok then Some (0, w1)
         else find_fit q a (of_nat (round4 s)) t (heap_start w1 a) undef w1 \<bind> (\<lambda>(r, w2).
           case r of
             Walk_Failed \<Rightarrow> Some (0, w2)
           | Walk_Fit c h \<Rightarrow> Some (take_block pad q a (of_nat (round4 s)) t c h w2)
           | Walk_End c h \<Rightarrow>
               (case extend_heap pad q a (of_nat (round4 s)) t c h w2 of
                  (ok1, w3) \<Rightarrow> if \<not> ok1 then Some (0, w3) else vm_alloc_malloc pad undef q a (of_nat (round4 s)) t w3)))"
proof -
  have small: "s < 65536" using s round4_bounds(1) [of s] by simp
  moreover have "round4 s \<noteq> 0" using round4_bounds(4) [OF s(1)] by simp
  moreover obtain vm where "w_vms w a = Some vm" using heap_okD(9) [OF ok] by blast
  ultimately show ?thesis using s
    unfolding vm_alloc_malloc.simps [of pad undef q a "of_nat s" t w] align_up_4 [OF small] by (simp add: u64_small)
qed

lemma malloc_first_use:
  assumes ok: "heap_ok n w q a []" and n: "2 \<le> n" and s: "0 < s" "round4 s < 65536"
  obtains w1 where "vm_alloc_malloc pad undef q a (of_nat s) t w = vm_alloc_malloc pad undef q a (of_nat s) t w1"
    "heap_ok n w1 q a [(504, True)]" "only q (hcells 0x4000 [(504, True)]) w w1"
proof -
  obtain w1 where w1: "init_heap pad q a t w = (True, w1)" "heap_ok n w1 q a [(504, True)]" "only q (hcells 0x4000 [(504, True)]) w w1"
    by (rule init_heap_first [OF ok n])
  have "init_heap pad q a t w1 = (True, w1)" by (rule init_heap_skip [OF w1(2)]) simp
  then have "vm_alloc_malloc pad undef q a (of_nat s) t w = vm_alloc_malloc pad undef q a (of_nat s) t w1"
    using w1(1) unfolding malloc_unfold [OF ok s] malloc_unfold [OF w1(2) s] by simp
  then show ?thesis using that w1 by blast
qed

lemma malloc_fit:
  assumes ok: "heap_ok n w q a (us @ (m, True) # vs)" and us: "\<And>b. b \<in> set us \<Longrightarrow> \<not> fits (round4 s) b"
    and s: "0 < s" "round4 s \<le> m"
    and bs': "bs' = us @ (if round4 s + 12 \<le> m then [(round4 s, False), (m - round4 s - 8, True)] else [(m, False)]) @ vs"
  obtains w' where "vm_alloc_malloc pad undef q a (of_nat s) t w = Some (of_nat (0x4000 + span us + 8), w')"
    "heap_ok n w' q a bs'" "only q (hcells 0x4000 bs') w w'"
proof -
  let ?N = "round4 s" and ?bs = "us @ (m, True) # vs"
  note O = heap_okD [OF ok]
  have N: "?N < 65536" "?N < 65536 \<Longrightarrow> 4 \<le> ?N" "4 dvd ?N" using s O(8) round4_bounds [of s] by simp_all
  let ?h = "mk_hdr m True (if vs = [] then 0 else 0x4000 + span us + 8 + m) (last_at 0 0x4000 us)"
  have ok0: "heap_ok n w q a ([] @ us @ (m, True) # vs)" using ok by simp
  obtain w1 where w1: "content w1 = content w" "heap_ok n w1 q a ?bs"
    "find_fit q a (of_nat ?N) t (of_nat (0x4000 + span [])) undef w = Some (Walk_Fit (of_nat (0x4000 + span us)) ?h, w1)"
    using find_fit_found [OF ok0 N(1) us, of t undef] s(2) by (auto simp: fits_def)
  obtain w' where w': "take_block pad q a (of_nat ?N) t (of_nat (0x4000 + span us)) ?h w1 = (of_nat (0x4000 + span us + 8), w')"
    "heap_ok n w' q a bs'" "only q (hcells 0x4000 bs') w1 w'"
    by (rule take_block_heap [OF w1(2) N(2) N(3) s(2) bs' refl, where t = t and pad = pad]) (use N in auto)
  have "heap_start w a = of_nat (0x4000 + span [])" using O(10) by simp
  then have "vm_alloc_malloc pad undef q a (of_nat s) t w = Some (of_nat (0x4000 + span us + 8), w')"
    unfolding malloc_unfold [OF ok s(1) N(1)] using init_heap_skip [OF ok] w1(3) w'(1) by (simp del: of_nat_add)
  then show ?thesis using that w'(2) only_trans [OF only_content [OF w1(1)] w'(3)] by blast
qed

lemma malloc_no_fit:
  assumes ok: "heap_ok n w q a (us @ [b])" and no: "\<And>y. y \<in> set (us @ [b]) \<Longrightarrow> \<not> fits (round4 s) y" and s: "0 < s" "round4 s < 65536"
  obtains w1 where "content w1 = content w" "heap_ok n w1 q a (us @ [b])"
    "vm_alloc_malloc pad undef q a (of_nat s) t w =
      (case extend_heap pad q a (of_nat (round4 s)) t (of_nat (0x4000 + span us)) (mk_hdr (fst b) (snd b) 0 (last_at 0 0x4000 us)) w1 of
         (ok1, w3) \<Rightarrow> if \<not> ok1 then Some (0, w3) else vm_alloc_malloc pad undef q a (of_nat (round4 s)) t w3)"
proof -
  note O = heap_okD [OF ok]
  have ok0: "heap_ok n w q a ([] @ us @ [b])" using ok by simp
  obtain w1 where w1: "content w1 = content w" "heap_ok n w1 q a (us @ [b])"
    "find_fit q a (of_nat (round4 s)) t (of_nat (0x4000 + span [])) undef w =
       Some (Walk_End (of_nat (0x4000 + span us)) (mk_hdr (fst b) (snd b) 0 (last_at 0 0x4000 us)), w1)"
    using find_fit_none [OF ok0 s(2) no, of t undef] by auto
  have "heap_start w a = of_nat (0x4000 + span [])" using O(10) by simp
  then show ?thesis using that [OF w1(1,2)] unfolding malloc_unfold [OF ok s] using init_heap_skip [OF ok] w1(3) by (simp del: of_nat_add)
qed

lemma malloc_grows:
  assumes ok: "heap_ok n w q a bs" and ne: "bs \<noteq> []" and no: "\<And>y. y \<in> set bs \<Longrightarrow> \<not> fits (round4 s) y" and s: "0 < s" "round4 s < 65536"
    and P: "span bs div 256 + pages_for (round4 s) \<le> n"
  obtains w1 where "vm_alloc_malloc pad undef q a (of_nat s) t w = vm_alloc_malloc pad undef q a (of_nat (round4 s)) t w1"
    "heap_ok n w1 q a (bs @ [(256 * pages_for (round4 s) - 8, True)])" "only q (hcells 0x4000 (bs @ [(256 * pages_for (round4 s) - 8, True)])) w w1"
proof -
  obtain us b where bs: "bs = us @ [b]" using ne by (cases bs rule: rev_cases) auto
  obtain w1 where w1: "content w1 = content w" "heap_ok n w1 q a (us @ [b])"
    "vm_alloc_malloc pad undef q a (of_nat s) t w =
      (case extend_heap pad q a (of_nat (round4 s)) t (of_nat (0x4000 + span us)) (mk_hdr (fst b) (snd b) 0 (last_at 0 0x4000 us)) w1 of
         (ok1, w3) \<Rightarrow> if \<not> ok1 then Some (0, w3) else vm_alloc_malloc pad undef q a (of_nat (round4 s)) t w3)"
    by (rule malloc_no_fit [OF ok [unfolded bs] no [unfolded bs] s])
  obtain w2 where w2: "extend_heap pad q a (of_nat (round4 s)) t (of_nat (0x4000 + span us)) (mk_hdr (fst b) (snd b) 0 (last_at 0 0x4000 us)) w1 = (True, w2)"
    "heap_ok n w2 q a (us @ [b] @ [(256 * pages_for (round4 s) - 8, True)])" "only q (hcells 0x4000 (us @ [b] @ [(256 * pages_for (round4 s) - 8, True)])) w1 w2"
    by (rule extend_heap_ok [OF w1(2) s(2) P [unfolded bs] refl refl])
  show ?thesis using that [of w2] w1(3) w2 only_trans [OF only_content [OF w1(1)] w2(3)] by (simp add: bs)
qed

lemma malloc_no_room:
  assumes ok: "heap_ok n w q a bs" and ne: "bs \<noteq> []" and no: "\<And>y. y \<in> set bs \<Longrightarrow> \<not> fits (round4 s) y" and s: "0 < s" "round4 s < 65536"
    and P: "128 < span bs div 256 + pages_for (round4 s)"
  obtains w' where "vm_alloc_malloc pad undef q a (of_nat s) t w = Some (0, w')" "heap_ok n w' q a bs" "content w' = content w"
proof -
  obtain us b where bs: "bs = us @ [b]" using ne by (cases bs rule: rev_cases) auto
  obtain w1 where w1: "content w1 = content w" "heap_ok n w1 q a (us @ [b])"
    "vm_alloc_malloc pad undef q a (of_nat s) t w =
      (case extend_heap pad q a (of_nat (round4 s)) t (of_nat (0x4000 + span us)) (mk_hdr (fst b) (snd b) 0 (last_at 0 0x4000 us)) w1 of
         (ok1, w3) \<Rightarrow> if \<not> ok1 then Some (0, w3) else vm_alloc_malloc pad undef q a (of_nat (round4 s)) t w3)"
    by (rule malloc_no_fit [OF ok [unfolded bs] no [unfolded bs] s])
  show ?thesis using that [of w1] w1 extend_heap_refused [OF w1(2) s(2) P [unfolded bs], of pad t] by (simp add: bs)
qed


section \<open>Release\<close>

lemma joined_size: "m < 65536 \<Longrightarrow> k < 65536 \<Longrightarrow> ucast (ucast (of_nat m :: u16) + VM_BLOCK_HDR_SIZE + ucast (of_nat k :: u16)) = (of_nat (m + 8 + k) :: u16)"
  using ucast_64_16 [of "m + 8 + k"] by (simp add: ucast_16_64 VM_BLOCK_HDR_SIZE_def)

text \<open>Merging the free block \<open>(m, True)\<close> with a free block \<open>(k, True)\<close> behind it: the two header writes.\<close>

lemma merge_heap:
  assumes ok: "heap_ok n w q a (us @ (m, True) # (k, True) # vs)"
    and nx: "nx = (if vs = [] then 0 else 0x4000 + span us + 16 + m + k)"
    and h: "h = mk_hdr (m + 8 + k) True nx (last_at 0 0x4000 us)"
  obtains w1 w' where "write_hdr pad q a (of_nat (0x4000 + span us)) h t w = (True, w1)"
    "set_prev pad q a (of_nat nx) (of_nat (0x4000 + span us)) t w1 = (True, w')"
    "heap_ok n w' q a (us @ (m + 8 + k, True) # vs)" "only q (hcells 0x4000 (us @ (m + 8 + k, True) # vs)) w w'"
proof -
  let ?bs = "us @ (m, True) # (k, True) # vs" and ?bs' = "us @ (m + 8 + k, True) # vs" and ?c = "0x4000 + span us"
  let ?k = "span ?bs div 256" and ?y = "0x4000 + span us + 16 + m + k"
  note O = heap_okD [OF ok]
  have lim: "?y + span vs \<le> 0x4000 + 256 * ?k" "0x4000 + 256 * ?k \<le> 49152" using O(6,8) by simp_all
  have s: "seg (hdr_at w q) 0 0x4000 ?c us" "seg (hdr_at w q) (?c + 8 + m) ?y 0 vs" "4 dvd m" "4 dvd k" "4 \<le> m"
    using O(5) by (simp_all add: seg_append add.assoc add.left_commute)
  have st: "steady q a (heap_pages n) (heap_pages ?k) w w" using O(2) by (rule steady_refl)
  obtain w1 where w1: "write_hdr pad q a (of_nat ?c) h t w = (True, w1)" "steady q a (heap_pages n) (heap_pages ?k) w w1"
    "only q ({} \<union> {?c..<?c + 8}) w w1" "only q {?c..<?c + 8} w w1" "hdr_at w1 q ?c = h"
    by (rule write_threaded [OF st only_refl _ _ O(7,1), where h = h and t = t and pad = pad and c = ?c]) (use lim in auto)
  have s1: "seg (hdr_at w1 q) 0 0x4000 ?c us" by (rule seg_only [OF s(1) w1(4)]) (use lim in auto)
  have s2: "seg (hdr_at w1 q) (?c + 8 + m) ?y 0 vs" by (rule seg_only [OF s(2) w1(4)]) (use lim in auto)
  obtain w' where w': "set_prev pad q a (of_nat nx) (of_nat ?c) t w1 = (True, w')" "steady q a (heap_pages n) (heap_pages ?k) w w'"
    "only q ({} \<union> {?c..<?c + 8} \<union> hcells ?y vs) w w'" "only q {?y..<?y + 8} w1 w'" "seg (hdr_at w' q) ?c ?y 0 vs"
    by (rule set_prev_threaded [OF w1(2,3) s2 _ lim(1) O(7,1), where nx = nx and p' = ?c and t = t and pad = pad]) (use nx in auto)
  have "seg (hdr_at w' q) 0 0x4000 ?c us" by (rule seg_only [OF s1 w'(4)]) (use lim in auto)
  moreover have "hdr_at w' q ?c = h" using hdr_at_only [OF w'(4), of ?c] w1(5) lim by auto
  ultimately have "seg (hdr_at w' q) 0 0x4000 0 ?bs'" using w'(5) s(3-5) by (simp add: seg_append h nx add.assoc)
  then have "heap_ok n w' q a ?bs'" by (intro heap_ok_after [OF ok w'(2)]) simp_all
  moreover have "only q (hcells 0x4000 ?bs') w w'" by (rule only_mono [OF w'(3)]) (auto simp: add.assoc add.left_commute)
  ultimately show ?thesis using that w1(1) w'(1) by blast
qed

text \<open>The list after a release: the freed block of \<open>m\<close> bytes takes in the next block and is taken in by
  the previous one, where these are free.\<close>

definition absorb_next :: "nat \<Rightarrow> block list \<Rightarrow> nat \<times> block list" where
  "absorb_next m vs = (case vs of (k, True) # r \<Rightarrow> (m + 8 + k, r) | _ \<Rightarrow> (m, vs))"

definition absorb_prev :: "block list \<Rightarrow> nat \<Rightarrow> block list" where
  "absorb_prev us m =
     (if us \<noteq> [] \<and> snd (last us) then butlast us @ [(fst (last us) + 8 + m, True)] else us @ [(m, True)])"

definition freed :: "block list \<Rightarrow> nat \<Rightarrow> block list \<Rightarrow> block list" where
  "freed us m vs = absorb_prev us (fst (absorb_next m vs)) @ snd (absorb_next m vs)"

fun coalesced :: "block list \<Rightarrow> bool" where
  "coalesced (b # c # bs) \<longleftrightarrow> \<not> (snd b \<and> snd c) \<and> coalesced (c # bs)"
| "coalesced bs \<longleftrightarrow> True"

lemma coalesced_append:
  "coalesced (xs @ ys) \<longleftrightarrow> coalesced xs \<and> coalesced ys \<and> (xs = [] \<or> ys = [] \<or> \<not> (snd (last xs) \<and> snd (hd ys)))"
  by (induction xs rule: coalesced.induct; cases ys) auto

lemma coalesced_freed:
  assumes "coalesced (us @ (m, False) # vs)"
  shows "coalesced (freed us m vs)"
proof -
  obtain m' vs' where n: "absorb_next m vs = (m', vs')" by fastforce
  have vs: "coalesced vs" "coalesced us"
    using assms coalesced_append [of us "(m, False) # vs"] coalesced_append [of "[(m, False)]" vs] by simp_all
  have "coalesced vs' \<and> (vs' = [] \<or> \<not> snd (hd vs'))"
    using n vs(1) coalesced_append [of "[hd vs]" "tl vs"] by (auto simp: absorb_next_def split: list.splits prod.splits bool.splits)
  moreover have "coalesced (absorb_prev us m')"
    using vs(2) by (cases us rule: rev_cases) (auto simp: absorb_prev_def coalesced_append)
  moreover have "absorb_prev us m' \<noteq> []" by (simp add: absorb_prev_def)
  ultimately show ?thesis by (simp add: freed_def n coalesced_append)
qed

lemma join_next_heap:
  assumes ok: "heap_ok n w q a (us @ (m, True) # vs)"
    and h: "h = mk_hdr m True (if vs = [] then 0 else 0x4000 + span us + 8 + m) (last_at 0 0x4000 us)"
  obtains w' m' vs' where "join_next pad q a t (of_nat (0x4000 + span us)) h w =
      (True, mk_hdr m' True (if vs' = [] then 0 else 0x4000 + span us + 8 + m') (last_at 0 0x4000 us), w')"
    "heap_ok n w' q a (us @ (m', True) # vs')" "only q (hcells 0x4000 (us @ (m, True) # vs)) w w'"
    "allocated 0x4000 (us @ (m', True) # vs') = allocated 0x4000 (us @ (m, True) # vs)" "hcells 0x4000 (us @ (m', True) # vs') \<subseteq> hcells 0x4000 (us @ (m, True) # vs)"
    "absorb_next m vs = (m', vs')"
proof (cases vs)
  case Nil
  then show ?thesis using that [of m "[]" w] ok h by (simp add: join_next_def only_refl absorb_next_def)
next
  case (Cons b r)
  obtain k fr where b: "b = (k, fr)" by (cases b)
  note O = heap_okD [OF ok]
  have lim: "0x4000 + span us + 8 + m < 65536" "m < 65536" "k < 65536" using O(8) Cons b by simp_all
  have ok1: "heap_ok n w q a ((us @ [(m, True)]) @ (k, fr) # r)" using ok Cons b by simp
  let ?nx = "if r = [] then 0 else 0x4000 + span us + 16 + m + k" and ?c = "0x4000 + span us"
  obtain w1 where R: "read_hdr q a (of_nat (0x4000 + span (us @ [(m, True)]))) t w =
       (Some (mk_hdr (fst (k, fr)) (snd (k, fr)) (if r = [] then 0 else 0x4000 + span (us @ [(m, True)]) + 8 + fst (k, fr)) (last_at 0 0x4000 (us @ [(m, True)]))), w1)"
    and w1: "content w1 = content w" "heap_ok n w1 q a ((us @ [(m, True)]) @ (k, fr) # r)"
    by (rule read_block [OF ok1])
  have e: "(if r = [] then 0 else ?c + 8 + m + 8 + k) = ?nx"
    "last_at 0 0x4000 (us @ [(m, True)]) = ?c" "0x4000 + span (us @ [(m, True)]) = ?c + 8 + m" by simp_all
  have r: "read_hdr q a (of_nat (?c + 8 + m)) t w = (Some (mk_hdr k fr ?nx ?c), w1)" using R unfolding e(2,3) fst_conv snd_conv e(1) .
  have nz: "bh_next h \<noteq> 0" "bh_next h = of_nat (?c + 8 + m)" using u16_eq_0 [OF _ lim(1)] h Cons by simp_all
  show ?thesis
  proof (cases fr)
    case False
    then have "join_next pad q a t (of_nat ?c) h w = (True, h, w1)" using nz r unfolding join_next_def nz(2) by (simp del: of_nat_add)
    then show ?thesis using that [of m vs w1] h w1 ok Cons b False only_content [OF w1(1)] by (simp add: absorb_next_def)
  next
    case True
    have ok2: "heap_ok n w1 q a (us @ (m, True) # (k, True) # r)" using w1(2) True by simp
    let ?h = "mk_hdr (m + 8 + k) True ?nx (last_at 0 0x4000 us)"
    obtain w2 w' where w': "write_hdr pad q a (of_nat ?c) ?h t w1 = (True, w2)" "set_prev pad q a (of_nat ?nx) (of_nat ?c) t w2 = (True, w')"
      "heap_ok n w' q a (us @ (m + 8 + k, True) # r)" "only q (hcells 0x4000 (us @ (m + 8 + k, True) # r)) w1 w'"
      by (rule merge_heap [OF ok2 refl refl])
    have eq: "h\<lparr>bh_size := ucast (ucast (bh_size h) + VM_BLOCK_HDR_SIZE + ucast (bh_size (mk_hdr k fr ?nx ?c))), bh_next := bh_next (mk_hdr k fr ?nx ?c)\<rparr> = ?h"
      unfolding h mk_hdr_simps joined_size [OF lim(2,3)] by (simp add: mk_hdr_def)
    have "join_next pad q a t (of_nat ?c) h w = (True, ?h, w')"
      using nz(1) w'(1,2) True unfolding join_next_def nz(2) r Let_def prod.case option.case eq by (simp del: of_nat_add)
    moreover have "?h = mk_hdr (m + 8 + k) True (if r = [] then 0 else 0x4000 + span us + 8 + (m + 8 + k)) (last_at 0 0x4000 us)"
      by (simp add: add.assoc add.left_commute)
    moreover have "only q (hcells 0x4000 (us @ (m, True) # vs)) w w'"
      by (rule only_trans [OF only_content [OF w1(1)] only_mono [OF w'(4)]]) (use Cons b in \<open>auto simp: add.assoc add.left_commute\<close>)
    moreover have "allocated 0x4000 (us @ (m + 8 + k, True) # r) = allocated 0x4000 (us @ (m, True) # vs)"
      using Cons b True by (simp add: add.assoc add.left_commute)
    moreover have "hcells 0x4000 (us @ (m + 8 + k, True) # r) \<subseteq> hcells 0x4000 (us @ (m, True) # vs)"
      using Cons b by (auto simp: add.assoc add.left_commute)
    moreover have "absorb_next m vs = (m + 8 + k, r)" using Cons b True by (simp add: absorb_next_def)
    ultimately show ?thesis using that w'(3) by metis
  qed
qed

lemma join_prev_heap:
  assumes ok: "heap_ok n w q a (us @ (m, True) # vs)"
    and h: "h = mk_hdr m True (if vs = [] then 0 else 0x4000 + span us + 8 + m) (last_at 0 0x4000 us)"
  obtains bs' where "heap_ok n (join_prev pad q a t h w) q a bs'" "only q (hcells 0x4000 (us @ (m, True) # vs)) w (join_prev pad q a t h w)"
    "allocated 0x4000 bs' = allocated 0x4000 (us @ (m, True) # vs)" "bs' = absorb_prev us m @ vs"
proof (cases us rule: rev_cases)
  case Nil
  then show ?thesis using that [of "us @ (m, True) # vs"] ok h by (simp add: join_prev_def only_refl absorb_prev_def)
next
  case (snoc us' b)
  obtain k fr where b: "b = (k, fr)" by (cases b)
  note O = heap_okD [OF ok]
  let ?c = "0x4000 + span us'"
  have lim: "?c < 65536" "m < 65536" "k < 65536" using O(8) snoc b by simp_all
  have ok1: "heap_ok n w q a (us' @ (k, fr) # (m, True) # vs)" using ok snoc b by simp
  obtain w1 where r: "read_hdr q a (of_nat ?c) t w =
       (Some (mk_hdr (fst (k, fr)) (snd (k, fr)) (if (m, True) # vs = [] then 0 else ?c + 8 + fst (k, fr)) (last_at 0 0x4000 us')), w1)"
    and w1: "content w1 = content w" "heap_ok n w1 q a (us' @ (k, fr) # (m, True) # vs)"
    by (rule read_block [OF ok1])
  let ?ph = "mk_hdr k fr (?c + 8 + k) (last_at 0 0x4000 us')" and ?nx = "if vs = [] then 0 else ?c + 16 + k + m"
  have r: "read_hdr q a (of_nat ?c) t w = (Some ?ph, w1)" using r by simp
  have nz: "bh_prev h \<noteq> 0" "bh_prev h = of_nat ?c" using u16_eq_0 [OF _ lim(1)] h snoc by simp_all
  have nx: "bh_next h = of_nat ?nx" "bh_size h = of_nat m" using h snoc b by (simp_all add: add.assoc add.left_commute)
  show ?thesis
  proof (cases fr)
    case False
    then have "join_prev pad q a t h w = w1" using nz r unfolding join_prev_def nz(2) by (simp del: of_nat_add)
    then show ?thesis using that [of "us @ (m, True) # vs"] w1 snoc b False only_content [OF w1(1)] by (simp add: absorb_prev_def)
  next
    case True
    have ok2: "heap_ok n w1 q a (us' @ (k, True) # (m, True) # vs)" using w1(2) True by simp
    let ?h = "mk_hdr (k + 8 + m) True ?nx (last_at 0 0x4000 us')"
    obtain w2 w' where w': "write_hdr pad q a (of_nat ?c) ?h t w1 = (True, w2)" "set_prev pad q a (of_nat ?nx) (of_nat ?c) t w2 = (True, w')"
      "heap_ok n w' q a (us' @ (k + 8 + m, True) # vs)" "only q (hcells 0x4000 (us' @ (k + 8 + m, True) # vs)) w1 w'"
      by (rule merge_heap [OF ok2 refl refl])
    have eq: "?ph\<lparr>bh_size := ucast (ucast (bh_size ?ph) + VM_BLOCK_HDR_SIZE + ucast (bh_size h)), bh_next := bh_next h\<rparr> = ?h"
      unfolding nx mk_hdr_simps joined_size [OF lim(3,2)] using True by (simp add: mk_hdr_def)
    have "join_prev pad q a t h w = w'"
      using nz(1) w'(1,2) True unfolding join_prev_def nz(2) r Let_def prod.case option.case eq by (simp del: of_nat_add)
    moreover have "only q (hcells 0x4000 (us @ (m, True) # vs)) w w'"
      by (rule only_trans [OF only_content [OF w1(1)] only_mono [OF w'(4)]]) (use snoc b in \<open>auto simp: add.assoc add.left_commute\<close>)
    moreover have "allocated 0x4000 (us' @ (k + 8 + m, True) # vs) = allocated 0x4000 (us @ (m, True) # vs)"
      using snoc b True by (simp add: add.assoc add.left_commute)
    moreover have "us' @ (k + 8 + m, True) # vs = absorb_prev us m @ vs" using snoc b True by (simp add: absorb_prev_def)
    ultimately show ?thesis using that w'(3) by metis
  qed
qed


lemma block_bounds:
  assumes ok: "heap_ok n w q a (us @ b # vs)"
  shows "ucast (of_nat (0x4000 + span us + 8) :: u16) - VM_BLOCK_HDR_SIZE = (of_nat (0x4000 + span us) :: u64)"
    "\<not> ucast (of_nat (0x4000 + span us + 8) :: u16) < (ucast (heap_start w a) + VM_BLOCK_HDR_SIZE :: u64)"
    "\<not> heap_break w a \<le> of_nat (0x4000 + span us + 8)"
proof -
  note O = heap_okD [OF ok]
  define c where "c = 0x4000 + span us"
  have c: "c + 8 < 65536" "0x4000 \<le> c" "c + 8 < 0x4000 + span (us @ b # vs)" "0x4000 + span (us @ b # vs) < 65536"
    using O(8) block_header(3) [OF ok] by (simp_all add: c_def)
  have u: "(ucast (of_nat (c + 8) :: u16) :: u64) = of_nat (c + 8)" by (rule ucast_16_64 [OF c(1)])
  show "ucast (of_nat (0x4000 + span us + 8) :: u16) - VM_BLOCK_HDR_SIZE = (of_nat (0x4000 + span us) :: u64)"
    unfolding c_def [symmetric] u by (simp add: VM_BLOCK_HDR_SIZE_def)
  have "(ucast (heap_start w a) + VM_BLOCK_HDR_SIZE :: u64) = of_nat 0x4008" by (simp add: O(10) VM_BLOCK_HDR_SIZE_def)
  moreover have "(of_nat 0x4008 :: u64) \<le> of_nat (c + 8)" using u64_le [of "0x4008" "c + 8"] c by (simp del: of_nat_add of_nat_numeral)
  ultimately show "\<not> ucast (of_nat (0x4000 + span us + 8) :: u16) < (ucast (heap_start w a) + VM_BLOCK_HDR_SIZE :: u64)"
    unfolding c_def [symmetric] u by (simp only: not_less)
  show "\<not> heap_break w a \<le> of_nat (0x4000 + span us + 8)"
    unfolding c_def [symmetric] O(11) not_le using u16_less [OF c(1) c(4)] c(3) by blast
qed

lemma free_block:
  assumes ok: "heap_ok n w q a (us @ (m, fr) # vs)"
  obtains bs' where "heap_ok n (vm_alloc_free pad q a (of_nat (0x4000 + span us + 8)) t w) q a bs'"
    "only q (if fr then {} else hcells 0x4000 (us @ (m, fr) # vs)) w (vm_alloc_free pad q a (of_nat (0x4000 + span us + 8)) t w)"
    "allocated 0x4000 bs' = allocated 0x4000 (us @ (m, True) # vs)" "bs' = (if fr then us @ (m, fr) # vs else freed us m vs)"
proof -
  note O = heap_okD [OF ok] and B = block_bounds [OF ok]
  let ?c = "0x4000 + span us" and ?nx = "if vs = [] then 0 else 0x4000 + span us + 8 + m" and ?k = "span (us @ (m, fr) # vs) div 256"
  have c: "ucast (ucast (of_nat (?c + 8) :: u16) - VM_BLOCK_HDR_SIZE :: u64) = (of_nat ?c :: u16)" unfolding B(1) by (rule ucast_64_16)
  obtain vm where vm: "w_vms w a = Some vm" using O(9) by blast
  obtain w1 where "read_hdr q a (of_nat ?c) t w = (Some (mk_hdr (fst (m, fr)) (snd (m, fr)) (if vs = [] then 0 else ?c + 8 + fst (m, fr)) (last_at 0 0x4000 us)), w1)"
    and w1: "steady q a (heap_pages n) (heap_pages ?k) w w1" "content w1 = content w" "heap_ok n w1 q a (us @ (m, fr) # vs)"
    by (rule read_block [OF ok])
  then have r: "read_hdr q a (of_nat ?c) t w = (Some (mk_hdr m fr ?nx (last_at 0 0x4000 us)), w1)" unfolding fst_conv snd_conv by simp
  show ?thesis
  proof (cases fr)
    case True
    then have "vm_alloc_free pad q a (of_nat (?c + 8)) t w = w1"
      using B(2,3) vm r unfolding vm_alloc_free_def Let_def c by (simp del: of_nat_add)
    then show ?thesis using that [of "us @ (m, fr) # vs"] w1 True only_content [OF w1(2)] by simp
  next
    case False
    let ?h = "mk_hdr m True ?nx (last_at 0 0x4000 us)" and ?bs = "us @ (m, True) # vs"
    have lim: "?c + 8 \<le> 0x4000 + 256 * ?k" "?c + 8 + m + span vs \<le> 49152" using block_header(2) [OF ok] O(8) by simp_all
    obtain w2 where w2: "write_hdr pad q a (of_nat ?c) ?h t w1 = (True, w2)" "steady q a (heap_pages n) (heap_pages ?k) w w2"
      "only q ({} \<union> {?c..<?c + 8}) w w2" "only q {?c..<?c + 8} w1 w2" "hdr_at w2 q ?c = ?h"
      by (rule write_threaded [OF w1(1) only_content [OF w1(2), of q "{}"] _ lim(1) O(7,1), where h = ?h and t = t and pad = pad]) auto
    have s: "seg (hdr_at w1 q) 0 0x4000 ?c us" "seg (hdr_at w1 q) ?c (?c + 8 + m) 0 vs" "4 dvd m" "4 \<le> m"
      using heap_okD(5) [OF w1(3)] by (simp_all add: seg_append)
    have "seg (hdr_at w2 q) 0 0x4000 ?c us" by (rule seg_only [OF s(1) w2(4)]) (use lim in auto)
    moreover have "seg (hdr_at w2 q) ?c (?c + 8 + m) 0 vs" by (rule seg_only [OF s(2) w2(4)]) (use lim in auto)
    ultimately have "seg (hdr_at w2 q) 0 0x4000 0 ?bs" using w2(5) s(3,4) by (simp add: seg_append)
    then have ok2: "heap_ok n w2 q a ?bs" by (intro heap_ok_after [OF ok w2(2)]) simp_all
    obtain w3 m' vs' where w3: "join_next pad q a t (of_nat ?c) ?h w2 = (True, mk_hdr m' True (if vs' = [] then 0 else ?c + 8 + m') (last_at 0 0x4000 us), w3)"
      "heap_ok n w3 q a (us @ (m', True) # vs')" "only q (hcells 0x4000 ?bs) w2 w3" "allocated 0x4000 (us @ (m', True) # vs') = allocated 0x4000 ?bs"
      "hcells 0x4000 (us @ (m', True) # vs') \<subseteq> hcells 0x4000 ?bs" "absorb_next m vs = (m', vs')"
      by (rule join_next_heap [OF ok2 refl])
    let ?w = "join_prev pad q a t (mk_hdr m' True (if vs' = [] then 0 else ?c + 8 + m') (last_at 0 0x4000 us)) w3"
    obtain bs' where bs': "heap_ok n ?w q a bs'" "only q (hcells 0x4000 (us @ (m', True) # vs')) w3 ?w"
      "allocated 0x4000 bs' = allocated 0x4000 (us @ (m', True) # vs')" "bs' = absorb_prev us m' @ vs'"
      by (rule join_prev_heap [OF w3(2) refl])
    have eq: "(mk_hdr m fr ?nx (last_at 0 0x4000 us))\<lparr>bh_free := True\<rparr> = ?h" by (simp add: mk_hdr_def)
    have "vm_alloc_free pad q a (of_nat (?c + 8)) t w = ?w"
      using B(2,3) vm False unfolding vm_alloc_free_def Let_def c r prod.case option.case eq w2(1) w3(1) by (simp del: of_nat_add)
    moreover have "only q (hcells 0x4000 ?bs) w ?w"
      by (rule only_trans [OF only_mono [OF w2(3)] only_trans [OF w3(3) only_mono [OF bs'(2) w3(5)]]]) auto
    moreover have "bs' = freed us m vs" using bs'(4) w3(6) by (simp add: freed_def)
    ultimately show ?thesis using that [of bs'] bs'(1,3) w3(4) False by simp
  qed
qed


section \<open>Contents of blocks in use\<close>

text \<open>No byte of another process and no byte of a block in use differs.\<close>

definition intact :: "int \<Rightarrow> block list \<Rightarrow> mem \<Rightarrow> mem \<Rightarrow> bool" where
  "intact q bs w w' \<longleftrightarrow> (\<forall>p c. p \<noteq> q \<longrightarrow> mem_byte w' p c = mem_byte w p c) \<and>
     (\<forall>y m c. (y, m) \<in> allocated 0x4000 bs \<longrightarrow> y \<le> unat c \<longrightarrow> unat c < y + m \<longrightarrow> mem_byte w' q c = mem_byte w q c)"

lemma intactI:
  assumes "only q (hcells 0x4000 bs') w w'" "allocated 0x4000 bs \<subseteq> allocated 0x4000 bs'"
  shows "intact q bs w w'"
proof -
  have "unat c \<notin> hcells 0x4000 bs'" if "(y, m) \<in> allocated 0x4000 bs" "y \<le> unat c" "unat c < y + m" for y m and c :: u16
    using payload_not_header [of y m "0x4000" bs'] subsetD [OF assms(2) that(1)] that(2,3) by auto
  then show ?thesis using assms(1) unfolding intact_def only_def by metis
qed

lemma intact_trans: "intact q bs w w1 \<Longrightarrow> intact q bs w1 w2 \<Longrightarrow> intact q bs w w2"
  by (simp add: intact_def)

lemma intact_content: "content w' = content w \<Longrightarrow> intact q bs w w'"
  by (simp add: intact_def mem_byte_def)

lemma seg_span: "seg H p x z bs \<Longrightarrow> 4 dvd span bs"
  by (induction bs arbitrary: p x) auto

text \<open>A block cut out of a free one: what the list of blocks in use gains.\<close>

lemma carve_allocated:
  assumes "bs = us @ (m, True) # vs" "N \<le> m" "bs' = us @ (if N + 12 \<le> m then [(N, False), (m - N - 8, True)] else [(m, False)]) @ vs"
    and "m' = (if N + 12 \<le> m then N else m)"
  shows "allocated x bs' = insert (x + span us + 8, m') (allocated x bs)" "(x + span us + 8, m') \<notin> allocated x bs"
proof -
  show "allocated x bs' = insert (x + span us + 8, m') (allocated x bs)" using assms by (auto simp: add.assoc)
  show "(x + span us + 8, m') \<notin> allocated x bs"
    using allocated_range [of "x + span us + 8" m' x us] allocated_range [of "x + span us + 8" m' "x + span us + 8 + m" vs] assms(1) by auto
qed

definition fresh_block :: "nat \<Rightarrow> block list \<Rightarrow> block list \<Rightarrow> nat \<Rightarrow> bool" where
  "fresh_block N bs bs' y \<longleftrightarrow> 0x4008 \<le> y \<and> y < 65536 \<and> 4 dvd y \<and>
     (\<exists>m. N \<le> m \<and> allocated 0x4000 bs' = insert (y, m) (allocated 0x4000 bs) \<and>
        (\<forall>y' m'. (y', m') \<in> allocated 0x4000 bs \<longrightarrow> {y..<y + m} \<inter> {y'..<y' + m'} = {}))"

lemma fresh_block_cong: "allocated 0x4000 bs1 = allocated 0x4000 bs \<Longrightarrow> fresh_block N bs bs' y = fresh_block N bs1 bs' y"
  by (simp add: fresh_block_def)

lemma malloc_from_free:
  assumes ok: "heap_ok n w q a bs" and f: "\<exists>b \<in> set bs. fits (round4 s) b" and s: "0 < s"
  obtains y w' bs' where "vm_alloc_malloc pad undef q a (of_nat s) t w = Some (of_nat y, w')" "heap_ok n w' q a bs'" "intact q bs w w'"
    "fresh_block (round4 s) bs bs' y"
proof -
  obtain us b vs where bs: "bs = us @ b # vs" "fits (round4 s) b" "\<And>y. y \<in> set us \<Longrightarrow> \<not> fits (round4 s) y"
    using split_list_first_prop [OF f] by blast
  obtain m where b: "b = (m, True)" "round4 s \<le> m" using bs(2) by (cases b) (auto simp: fits_def)
  define bs' where "bs' = us @ (if round4 s + 12 \<le> m then [(round4 s, False), (m - round4 s - 8, True)] else [(m, False)]) @ vs"
  let ?y = "0x4000 + span us + 8"
  have ok1: "heap_ok n w q a (us @ (m, True) # vs)" using ok bs(1) b(1) by simp
  obtain w' where w': "vm_alloc_malloc pad undef q a (of_nat s) t w = Some (of_nat ?y, w')" "heap_ok n w' q a bs'" "only q (hcells 0x4000 bs') w w'"
    by (rule malloc_fit [OF ok1 bs(3) s b(2) bs'_def])
  have bs1: "bs = us @ (m, True) # vs" using bs(1) b(1) by simp
  let ?m = "if round4 s + 12 \<le> m then round4 s else m"
  note C = carve_allocated [OF bs1 b(2) bs'_def refl, of "0x4000"]
  have "intact q bs w w'" by (rule intactI [OF w'(3)]) (use C(1) in blast)
  moreover have "fresh_block (round4 s) bs bs' ?y"
  proof -
    have "4 dvd span us" using heap_okD(5) [OF ok1] seg_span by (auto simp: seg_append)
    then have "4 dvd ?y" by (simp add: dvd_add)
    moreover have "{?y..<?y + ?m} \<inter> {y'..<y' + m'} = {}" if "(y', m') \<in> allocated 0x4000 bs" for y' m'
      by (rule allocated_disjoint [of _ _ "0x4000" bs']) (use C that in auto)
    moreover have "?y < 65536" using heap_okD(8) [OF ok1] by simp
    ultimately show ?thesis using C(1) b(2) unfolding fresh_block_def by (intro conjI exI [of _ ?m]) auto
  qed
  ultimately show ?thesis using that w'(1,2) by blast
qed

lemma malloc_nonempty:
  assumes ok: "heap_ok n w q a bs" and ne: "bs \<noteq> []" and s: "0 < s" "round4 s < 65536"
    and r: "(\<exists>b \<in> set bs. fits (round4 s) b) \<or> span bs div 256 + pages_for (round4 s) \<le> n"
  obtains y w' bs' where "vm_alloc_malloc pad undef q a (of_nat s) t w = Some (of_nat y, w')" "heap_ok n w' q a bs'" "intact q bs w w'"
    "fresh_block (round4 s) bs bs' y"
proof (cases "\<exists>b \<in> set bs. fits (round4 s) b")
  case True
  then show ?thesis using malloc_from_free [OF ok True s(1)] that by metis
next
  case False
  let ?b = "(256 * pages_for (round4 s) - 8, True)"
  have P: "span bs div 256 + pages_for (round4 s) \<le> n" using r False by blast
  obtain w1 where w1: "vm_alloc_malloc pad undef q a (of_nat s) t w = vm_alloc_malloc pad undef q a (of_nat (round4 s)) t w1"
    "heap_ok n w1 q a (bs @ [?b])" "only q (hcells 0x4000 (bs @ [?b])) w w1"
    by (rule malloc_grows [OF ok ne _ s P]) (use False in auto)
  have "\<exists>b \<in> set (bs @ [?b]). fits (round4 (round4 s)) b" using pages_for_bounds(1) [of "round4 s"] by (auto simp: fits_def)
  moreover have "0 < round4 s" using round4_bounds(4) [OF s(1)] by simp
  ultimately obtain y w' bs' where w': "vm_alloc_malloc pad undef q a (of_nat (round4 s)) t w1 = Some (of_nat y, w')" "heap_ok n w' q a bs'"
    "intact q (bs @ [?b]) w1 w'" "fresh_block (round4 s) (bs @ [?b]) bs' y"
    using malloc_from_free [OF w1(2), of "round4 s"] by (metis round4_idem)
  have al: "allocated 0x4000 (bs @ [?b]) = allocated 0x4000 bs" by simp
  have "intact q bs w1 w'" using w'(3) unfolding intact_def al .
  then have "intact q bs w w'" using intact_trans [OF intactI [OF w1(3)]] al by blast
  then show ?thesis using that w1(1) w'(1,2,4) fresh_block_cong [OF al] by metis
qed

lemma malloc_any:
  assumes ok: "heap_ok n w q a bs" and n: "2 \<le> n" and s: "0 < s" "round4 s < 65536" and bs0: "bs0 = (if bs = [] then [(504, True)] else bs)"
    and r: "(\<exists>b \<in> set bs0. fits (round4 s) b) \<or> span bs0 div 256 + pages_for (round4 s) \<le> n"
  obtains y w' bs' where "vm_alloc_malloc pad undef q a (of_nat s) t w = Some (of_nat y, w')" "heap_ok n w' q a bs'" "intact q bs w w'"
    "fresh_block (round4 s) bs bs' y"
proof (cases "bs = []")
  case False
  then show ?thesis using malloc_nonempty [OF ok False s] r bs0 that by metis
next
  case True
  obtain w1 where w1: "vm_alloc_malloc pad undef q a (of_nat s) t w = vm_alloc_malloc pad undef q a (of_nat s) t w1"
    "heap_ok n w1 q a bs0" "only q (hcells 0x4000 bs0) w w1"
    using malloc_first_use [OF ok [unfolded True] n s] bs0 True by metis
  have al: "allocated 0x4000 bs0 = allocated 0x4000 bs" "bs0 \<noteq> []" using bs0 True by simp_all
  obtain y w' bs' where w': "vm_alloc_malloc pad undef q a (of_nat s) t w1 = Some (of_nat y, w')" "heap_ok n w' q a bs'"
    "intact q bs0 w1 w'" "fresh_block (round4 s) bs0 bs' y"
    using malloc_nonempty [OF w1(2) al(2) s r] by metis
  have "intact q bs w1 w'" using w'(3) unfolding intact_def al(1) .
  then have "intact q bs w w'" using intact_trans [OF intactI [OF w1(3)]] al by blast
  then show ?thesis using that w1(1) w'(1,2,4) fresh_block_cong [OF al(1)] by metis
qed


section \<open>Statistics\<close>

lemma count_block_links: "count_block (mk_hdr n fr x y) s = count_block (mk_hdr n fr 0 0) s"
  by (simp add: count_block_def Let_def)

lemma count_blocks_walk:
  assumes "heap_ok n w q a (us @ b # vs)"
  shows "\<exists>w'. content w' = content w \<and> heap_ok n w' q a (us @ b # vs) \<and>
    count_blocks q a t (of_nat (0x4000 + span us)) s w =
      Some (fold (\<lambda>b s. count_block (mk_hdr (fst b) (snd b) 0 0) s) (b # vs) s, w')"
  using assms
proof (induction vs arbitrary: us b s w)
  case Nil
  note O = heap_okD [OF Nil.prems]
  obtain w' where r: "read_hdr q a (of_nat (0x4000 + span us)) t w = (Some (mk_hdr (fst b) (snd b) (if [] = [] then 0 else 0x4000 + span us + 8 + fst b) (last_at 0 0x4000 us)), w')"
    "content w' = content w" "heap_ok n w' q a (us @ [b])"
    by (rule read_block [OF Nil.prems]) simp
  have below: "(of_nat (0x4000 + span us) :: u16) < heap_break w a" unfolding O(11) by (rule iffD2 [OF u16_less]) (use O(8) in auto)
  have "count_blocks q a t (of_nat (0x4000 + span us)) s w = Some (count_block (mk_hdr (fst b) (snd b) 0 0) s, w')"
    unfolding count_blocks.simps [of q a t "of_nat (0x4000 + span us)" s w] r(1) prod.case option.case count_block_links [of "fst b" "snd b" _ "last_at 0 0x4000 us"]
    using below by (simp del: of_nat_add)
  then show ?case using r(2,3) by (intro exI [of _ w']) simp
next
  case (Cons c vs)
  note O = heap_okD [OF Cons.prems]
  let ?h = "mk_hdr (fst b) (snd b) (0x4000 + span us + 8 + fst b) (last_at 0 0x4000 us)"
  obtain w1 where r: "read_hdr q a (of_nat (0x4000 + span us)) t w = (Some ?h, w1)" "content w1 = content w" "heap_ok n w1 q a ((us @ [b]) @ c # vs)"
    by (rule read_block [OF Cons.prems, of t]) simp
  have below: "(of_nat (0x4000 + span us) :: u16) < heap_break w a" unfolding O(11) by (rule iffD2 [OF u16_less]) (use O(8) in auto)
  have nz: "bh_next ?h \<noteq> 0" "bh_next ?h = of_nat (0x4000 + span (us @ [b]))"
    using u16_eq_0 [of "0x4000 + span us + 8 + fst b"] O(8) by (simp_all add: add.assoc)
  have cb: "count_block ?h s = count_block (mk_hdr (fst b) (snd b) 0 0) s" by (rule count_block_links)
  have step: "count_blocks q a t (of_nat (0x4000 + span us)) s w =
      count_blocks q a t (of_nat (0x4000 + span (us @ [b]))) (count_block (mk_hdr (fst b) (snd b) 0 0) s) w1"
    unfolding count_blocks.simps [of q a t "of_nat (0x4000 + span us)" s w] r(1) prod.case option.case cb
    using below nz by (simp del: of_nat_add mk_hdr_simps)
  obtain w' where "content w' = content w1" "heap_ok n w' q a ((us @ [b]) @ c # vs)"
    "count_blocks q a t (of_nat (0x4000 + span (us @ [b]))) (count_block (mk_hdr (fst b) (snd b) 0 0) s) w1 =
      Some (fold (\<lambda>b s. count_block (mk_hdr (fst b) (snd b) 0 0) s) (c # vs) (count_block (mk_hdr (fst b) (snd b) 0 0) s), w')"
    using Cons.IH [OF r(3)] by blast
  then show ?case using step r(2) by (intro exI [of _ w']) simp
qed

lemma fold_count_block:
  "fold (\<lambda>b s. count_block (mk_hdr (fst b) (snd b) 0 0) s) bs s =
     s\<lparr>va_total_blocks := va_total_blocks s + of_nat (length bs),
       va_free_blocks := va_free_blocks s + of_nat (length (filter snd bs)),
       va_allocated_blocks := va_allocated_blocks s + of_nat (length (filter (Not \<circ> snd) bs)),
       va_external_frag_bytes := va_external_frag_bytes s + ucast (0 :: u16) + (\<Sum>b \<leftarrow> filter snd bs. ucast (of_nat (fst b) :: u16))\<rparr>"
  by (induction bs arbitrary: s) (simp_all add: count_block_def Let_def ac_simps)


section \<open>Properties\<close>

text \<open>C9. Allocation works whenever there is room: if physical memory has room for the heap's pages, the
  heap is well formed, and either some free block is large enough or the heap may grow, then
  \<open>vm_malloc\<close> returns an address aligned to 4 of a block of at least the requested size, disjoint
  from every block in use. The blocks in use before stay in use with their contents, no other
  process's memory changes, and the heap is well formed again.\<close>

theorem malloc_correct:
  assumes "heap_ok n w q a bs" "2 \<le> n" "0 < unat sz" "unat sz \<le> 65532" "bs0 = (if bs = [] then [(504, True)] else bs)"
    and "(\<exists>b \<in> set bs0. fits (round4 (unat sz)) b) \<or> span bs0 div 256 + pages_for (round4 (unat sz)) \<le> n"
  shows "\<exists>r w' bs'. vm_malloc pad undef q a sz t w = Some (r, w') \<and> heap_ok n w' q a bs' \<and>
    intact q bs w w' \<and> fresh_block (unat sz) bs bs' (unat r)"
proof -
  have N: "round4 (unat sz) < 65536" "unat sz \<le> round4 (unat sz)" using assms(4) by (simp_all add: round4_def)
  obtain y w' bs' where M: "vm_alloc_malloc pad undef q a (of_nat (unat sz)) t w = Some (of_nat y, w')" "heap_ok n w' q a bs'" "intact q bs w w'"
    "fresh_block (round4 (unat sz)) bs bs' y"
    by (rule malloc_any [OF assms(1-3) N(1) assms(5,6)])
  have "unat (of_nat y :: u16) = y" using M(4) by (intro unat_u16_of_nat) (simp add: fresh_block_def)
  moreover have "fresh_block (unat sz) bs bs' y" using M(4) N(2) unfolding fresh_block_def by (meson order_trans)
  ultimately show ?thesis using M(1-3) by (intro exI [of _ "of_nat y"] exI [of _ w'] exI [of _ bs']) (simp add: vm_malloc_def)
qed

text \<open>C13. Allocation refuses cleanly. In every state a request of no bytes or of more than 65532 bytes
  returns 0 and changes nothing. On a well-formed heap whose pages have room in physical memory,
  a request that no free block can serve and that would take the heap beyond its 128 pages
  returns 0 and leaves the heap well formed: if the heap holds blocks already, no block and no
  byte of memory changes; if it is empty, as in a process that has not allocated yet, and there is
  room for two pages, these have become one free block of 504 bytes and only its header has been
  written.\<close>

theorem malloc_refuses:
  shows "(unat sz = 0 \<or> 65532 < unat sz \<longrightarrow> vm_malloc pad undef q a sz t w = Some (0, w)) \<and>
    (heap_ok n w q a bs \<and> bs \<noteq> [] \<and> 0 < unat sz \<and> unat sz \<le> 65532 \<and> (\<forall>b \<in> set bs. \<not> fits (round4 (unat sz)) b) \<and>
       128 < span bs div 256 + pages_for (round4 (unat sz)) \<longrightarrow>
     (\<exists>w'. vm_malloc pad undef q a sz t w = Some (0, w') \<and> heap_ok n w' q a bs \<and> content w' = content w)) \<and>
    (heap_ok n w q a [] \<and> 2 \<le> n \<and> unat sz \<le> 65532 \<and> 128 < 2 + pages_for (round4 (unat sz)) \<longrightarrow>
     (\<exists>w'. vm_malloc pad undef q a sz t w = Some (0, w') \<and> heap_ok n w' q a [(504, True)] \<and> only q {0x4000..<0x4008} w w'))"
proof (intro conjI impI)
  assume z: "unat sz = 0 \<or> 65532 < unat sz"
  consider "sz = 0" | "65535 < sz" | "65532 < unat sz" "unat sz < 65536" "sz \<noteq> 0"
    using z by (cases "sz = 0"; cases "65535 < unat sz") (auto simp: word_less_nat_alt unat_eq_0)
  then show "vm_malloc pad undef q a sz t w = Some (0, w)"
  proof cases
    case 3
    have r: "round4 (unat sz) = 65536" using 3 by (simp add: round4_def)
    have "align_up sz 4 = of_nat (round4 (unat sz))" using align_up_4 [OF 3(2)] by simp
    then have "65535 < align_up sz 4" unfolding r by simp
    then show ?thesis using 3 by (simp add: vm_malloc_def vm_alloc_malloc.simps)
  qed (simp_all add: vm_malloc_def vm_alloc_malloc.simps)
next
  assume h: "heap_ok n w q a bs \<and> bs \<noteq> [] \<and> 0 < unat sz \<and> unat sz \<le> 65532 \<and> (\<forall>b \<in> set bs. \<not> fits (round4 (unat sz)) b) \<and>
       128 < span bs div 256 + pages_for (round4 (unat sz))"
  then have N: "round4 (unat sz) < 65536" by (auto simp: round4_def)
  obtain w' where "vm_alloc_malloc pad undef q a (of_nat (unat sz)) t w = Some (0, w')" "heap_ok n w' q a bs" "content w' = content w"
    by (rule malloc_no_room [of n w q a bs "unat sz" pad undef t]) (use h N in auto)
  then show "\<exists>w'. vm_malloc pad undef q a sz t w = Some (0, w') \<and> heap_ok n w' q a bs \<and> content w' = content w"
    by (simp add: vm_malloc_def)
next
  assume h: "heap_ok n w q a [] \<and> 2 \<le> n \<and> unat sz \<le> 65532 \<and> 128 < 2 + pages_for (round4 (unat sz))"
  then have N: "round4 (unat sz) < 65536" "504 < round4 (unat sz)" by (auto simp: round4_def pages_for_def)
  then have s: "0 < unat sz" by (simp add: round4_def)
  obtain w1 where w1: "vm_alloc_malloc pad undef q a (of_nat (unat sz)) t w = vm_alloc_malloc pad undef q a (of_nat (unat sz)) t w1"
    "heap_ok n w1 q a [(504, True)]" "only q (hcells 0x4000 [(504, True)]) w w1"
    by (rule malloc_first_use [of n w q a "unat sz" pad undef t]) (use h s N in auto)
  obtain w' where w': "vm_alloc_malloc pad undef q a (of_nat (unat sz)) t w1 = Some (0, w')" "heap_ok n w' q a [(504, True)]" "content w' = content w1"
    by (rule malloc_no_room [OF w1(2), of "unat sz" pad undef t]) (use h s N in \<open>auto simp: fits_def\<close>)
  have "only q {0x4000..<0x4008} w w'" using only_trans [OF w1(3) only_content [OF w'(3)]] by simp
  then show "\<exists>w'. vm_malloc pad undef q a sz t w = Some (0, w') \<and> heap_ok n w' q a [(504, True)] \<and> only q {0x4000..<0x4008} w w'"
    using w1(1) w'(1,2) by (simp add: vm_malloc_def)
qed

text \<open>C10. Release, on a well-formed heap whose pages have room in physical memory. Freeing a block in use
  returns it to the list as one free block together with the next block and the previous block
  where these are free, as \<open>freed\<close> computes the list, so that two free blocks are never adjacent
  if none were before; every other block in use stays in use with its contents. Freeing a block
  that is already free changes neither the blocks nor any byte of memory.\<close>

theorem free_correct:
  assumes "heap_ok n w q a (us @ (m, fr) # vs)" "y = 0x4000 + span us + 8" "w' = vm_free pad q a (of_nat y) t w"
  shows "\<exists>bs'. heap_ok n w' q a bs' \<and> allocated 0x4000 bs' = allocated 0x4000 (us @ (m, fr) # vs) - {(y, m)} \<and> intact q bs' w w' \<and>
    (\<not> fr \<longrightarrow> bs' = freed us m vs) \<and>
    (coalesced (us @ (m, fr) # vs) \<longrightarrow> coalesced bs') \<and>
    (fr \<longrightarrow> bs' = us @ (m, fr) # vs \<and> (\<forall>p c. mem_byte w' p c = mem_byte w p c))"
proof -
  let ?bs = "us @ (m, fr) # vs"
  obtain bs' where F: "heap_ok n w' q a bs'" "only q (if fr then {} else hcells 0x4000 ?bs) w w'"
    "allocated 0x4000 bs' = allocated 0x4000 (us @ (m, True) # vs)" "bs' = (if fr then ?bs else freed us m vs)"
    by (rule free_block [OF assms(1), of pad t]) (use assms(2,3) in \<open>simp add: vm_free_def\<close>)
  have "(y, m) \<notin> allocated 0x4000 (us @ (m, True) # vs)"
    using allocated_range [of y m "0x4000" us] allocated_range [of y m "0x4000 + span us + 8 + m" vs] assms(2) by auto
  then have al: "allocated 0x4000 bs' = allocated 0x4000 ?bs - {(y, m)}" using F(3) assms(2) by (auto simp: add.assoc)
  have "only q (hcells 0x4000 ?bs) w w'" by (rule only_mono [OF F(2)]) simp
  then have "intact q bs' w w'" by (rule intactI) (use al in blast)
  moreover have "fr \<longrightarrow> (\<forall>p c. mem_byte w' p c = mem_byte w p c)" using F(2) by (auto simp: only_def)
  moreover have "coalesced ?bs \<longrightarrow> coalesced bs'" using F(4) coalesced_freed [of us m vs] by (cases fr) simp_all
  ultimately show ?thesis using F(1,4) al by (intro exI [of _ bs']) (cases fr; simp)
qed

text \<open>C15. On a well-formed heap whose pages have room in physical memory, empty or not, the allocator's
  statistics count what is there: the numbers of blocks, of free blocks and of blocks in use,
  and the bytes in free blocks, of the list the headers describe; collecting them terminates,
  changes no byte of memory and leaves the heap well formed.\<close>

theorem alloc_stats_correct:
  assumes "heap_ok n w q a bs"
  shows "\<exists>s w'. vm_alloc_get_stats q a t w = Some (s, w') \<and> heap_ok n w' q a bs \<and> content w' = content w \<and>
    va_total_blocks s = of_nat (length bs) \<and> va_free_blocks s = of_nat (length (filter snd bs)) \<and>
    va_allocated_blocks s = of_nat (card (allocated 0x4000 bs)) \<and>
    va_external_frag_bytes s = of_nat (sum_list (map fst (filter snd bs)))"
proof (cases bs)
  case Nil
  then show ?thesis using assms heap_okD(10,11) [OF assms] by (simp add: vm_alloc_get_stats_def zero_alloc_stats_def)
next
  case (Cons b vs)
  note O = heap_okD [OF assms]
  have ok: "heap_ok n w q a ([] @ b # vs)" using assms Cons by simp
  obtain w' where w': "content w' = content w" "heap_ok n w' q a bs"
    "count_blocks q a t (of_nat (0x4000 + span [])) zero_alloc_stats w =
       Some (fold (\<lambda>b s. count_block (mk_hdr (fst b) (snd b) 0 0) s) bs zero_alloc_stats, w')"
    using count_blocks_walk [OF ok, of t zero_alloc_stats] Cons by auto
  have "heap_break w a \<noteq> heap_start w a" using O(12) Cons unat_u16_of_nat [of "0x4000"] by (auto simp: O(10))
  then have e: "vm_alloc_get_stats q a t w = Some (fold (\<lambda>b s. count_block (mk_hdr (fst b) (snd b) 0 0) s) bs zero_alloc_stats, w')"
    using w'(3) O(9,10) by (auto simp: vm_alloc_get_stats_def)
  have "card (allocated x bs) = length (filter (Not \<circ> snd) bs)" for x
  proof (induction bs arbitrary: x)
    case (Cons b bs)
    have "finite (allocated y cs)" for y and cs :: "block list" by (induction cs arbitrary: y) auto
    moreover have "(x + 8, fst b) \<notin> allocated (x + 8 + fst b) bs" using allocated_range [of "x + 8" "fst b" "x + 8 + fst b" bs] by auto
    ultimately show ?case using Cons by auto
  qed simp
  moreover have "(\<Sum>b \<leftarrow> filter snd bs. ucast (of_nat (fst b) :: u16)) = (of_nat (sum_list (map fst (filter snd bs))) :: u32)"
  proof -
    have "fst c < 65536" if "c \<in> set bs" for c using member_le_sum_list [of "8 + fst c" "map (\<lambda>b. 8 + fst b) bs"] that O(8) by auto
    then show ?thesis by (induction bs) (auto simp: ucast_16_32)
  qed
  ultimately show ?thesis unfolding e fold_count_block using w'(1,2) by (simp add: zero_alloc_stats_def)
qed


text \<open>Growing the heap over a page that is in use.\<close>

lemma grow_page_effect:
  assumes "w_vms w a \<noteq> None"
  shows "frame_owner (grow_page a w) = frame_owner w" "vm_of (grow_page a w) = vm_of w" "w_vms (grow_page a w) a \<noteq> None"
    "pte_at (grow_page a w) a v = (if v = vpn_of (heap_break w a)
       then (pte_at w a v)\<lparr>permissions := VM_PROT_READ OR VM_PROT_WRITE, present := False, in_swap := False\<rparr> else pte_at w a v)"
proof -
  show "frame_owner (grow_page a w) = frame_owner w" "vm_of (grow_page a w) = vm_of w" by (simp_all add: grow_page_def Let_def)
  show "w_vms (grow_page a w) a \<noteq> None" using assms by (auto simp: grow_page_def Let_def upd_vm_def upd_pte_def)
  show "pte_at (grow_page a w) a v = (if v = vpn_of (heap_break w a)
       then (pte_at w a v)\<lparr>permissions := VM_PROT_READ OR VM_PROT_WRITE, present := False, in_swap := False\<rparr> else pte_at w a v)"
    by (simp add: grow_page_def Let_def stats_only pte_at_upd_pte [OF assms])
qed

lemma grow_pages_effect:
  assumes "w_vms w a \<noteq> None" "\<not> present (pte_at w a v)" "\<not> in_swap (pte_at w a v)"
  shows "frame_owner ((grow_page a ^^ p) w) = frame_owner w \<and> vm_of ((grow_page a ^^ p) w) = vm_of w \<and> w_vms ((grow_page a ^^ p) w) a \<noteq> None \<and>
    \<not> present (pte_at ((grow_page a ^^ p) w) a v) \<and> \<not> in_swap (pte_at ((grow_page a ^^ p) w) a v)"
  using assms by (induction p) (simp_all add: grow_page_effect)



section \<open>A fresh process\<close>

lemma card_heap_pages: "card (heap_pages n) \<le> n"
proof -
  have "heap_pages n \<subseteq> of_nat ` {64..<64 + n}"
  proof
    fix v :: u8 assume "v \<in> heap_pages n"
    then have "v = of_nat (unat v)" "unat v \<in> {64..<64 + n}" by (simp_all add: heap_pages_def)
    then show "v \<in> of_nat ` {64..<64 + n}" by blast
  qed
  then have "card (heap_pages n) \<le> card ((of_nat :: nat \<Rightarrow> u8) ` {64..<64 + n})" by (intro card_mono) simp_all
  also have "\<dots> \<le> n" using card_image_le [of "{64..<64 + n}" "of_nat :: nat \<Rightarrow> u8"] by simp
  finally show ?thesis .
qed

lemma card_frames: "64 \<le> card {f :: u8. unat f < 64}"
proof -
  have "inj_on (of_nat :: nat \<Rightarrow> u8) {..<64}"
    by (rule inj_on_inverseI [where g = unat]) (simp add: unat_u8_of_nat)
  then have "card ((of_nat :: nat \<Rightarrow> u8) ` {..<64}) = 64" by (simp add: card_image)
  moreover have "(of_nat :: nat \<Rightarrow> u8) ` {..<64} \<subseteq> {f. unat f < 64}" by (auto simp: unat_u8_of_nat)
  then have "card ((of_nat :: nat \<Rightarrow> u8) ` {..<64}) \<le> card {f :: u8. unat f < 64}" by (intro card_mono) simp_all
  ultimately show ?thesis by linarith
qed

lemma fresh_heap_ok: "heap_ok 60 fresh_mem 1 0 []"
proof -
  have pt: "pte_at fresh_mem 0 v = page_table_init (\<lambda>_. zero_pte) v" for v by (simp add: fresh_mem_def)
  have np: "\<not> present (pte_at fresh_mem 0 v)" "\<not> in_swap (pte_at fresh_mem 0 v)" for v by (simp_all add: pt page_table_init_def)
  have "permissions (pte_at fresh_mem 0 v) = 3" if "v \<in> heap_pages 60" for v
    using that by (auto simp: pt page_table_init_def default_permissions_cases heap_pages_def)
  moreover have "card (absent fresh_mem 0 (heap_pages 60)) \<le> card (free_frames fresh_mem)"
  proof -
    have "free_frames fresh_mem = {f. unat f < 64}" by (simp add: free_frames_def fresh_mem_def)
    moreover have "absent fresh_mem 0 (heap_pages 60) = heap_pages 60" using np by (simp add: absent_def)
    ultimately show ?thesis using card_heap_pages [of 60] card_frames by simp
  qed
  ultimately have "resident fresh_mem 1 0 (heap_pages 60)" using fresh_mem_facts(1-3) by (simp add: resident_def)
  moreover have "limits fresh_mem 0 = Some (0x4000, 0x4000)" by (simp add: limits_def fresh_mem_def one_proc_mem_def VM_SEG_HEAP_START_def)
  ultimately show ?thesis using np by (simp add: heap_ok_def)
qed


text \<open>After a first request of 100 bytes.\<close>

definition no_hdr :: vm_block_hdr where
  "no_hdr = mk_hdr 0 False 0 0"

lemma first_request:
  obtains w1 where "vm_malloc 0 no_hdr 1 0 100 5 fresh_mem = Some (0x4008, w1)" "heap_ok 60 w1 1 0 [(100, False), (396, True)]"
proof -
  have N: "round4 100 = 100" by (simp add: round4_def)
  obtain w0 where w0: "vm_alloc_malloc 0 no_hdr 1 0 (of_nat 100) 5 fresh_mem = vm_alloc_malloc 0 no_hdr 1 0 (of_nat 100) 5 w0"
    "heap_ok 60 w0 1 0 [(504, True)]"
    by (rule malloc_first_use [OF fresh_heap_ok, where s = 100 and t = 5 and pad = 0 and undef = no_hdr]) (simp_all add: N)
  have ok: "heap_ok 60 w0 1 0 ([] @ (504, True) # [])" using w0(2) by simp
  obtain w1 where "vm_alloc_malloc 0 no_hdr 1 0 (of_nat 100) 5 w0 = Some (of_nat (0x4000 + span [] + 8), w1)" "heap_ok 60 w1 1 0 [(100, False), (396, True)]"
    by (rule malloc_fit [OF ok, where s = 100 and t = 5 and pad = 0 and undef = no_hdr]) (simp_all add: N)
  then show ?thesis using that w0(1) by (simp add: vm_malloc_def)
qed

theorem malloc_correct_witness:
  "\<exists>r w' bs'. vm_malloc 0 no_hdr 1 0 100 5 fresh_mem = Some (r, w') \<and> heap_ok 60 w' 1 0 bs' \<and> fresh_block 100 [] bs' (unat r)"
  using malloc_correct [OF fresh_heap_ok, of 100 "[(504, True)]" 0 no_hdr 5] by (auto simp: fits_def round4_def)

theorem malloc_refuses_witness:
  "\<exists>w1 w' w''. vm_malloc 0 no_hdr 1 0 100 5 fresh_mem = Some (0x4008, w1) \<and> vm_malloc 0 no_hdr 1 0 70000 6 w1 = Some (0, w1) \<and>
     vm_malloc 0 no_hdr 1 0 40000 6 w1 = Some (0, w') \<and> content w' = content w1 \<and>
     vm_malloc 0 no_hdr 1 0 40000 5 fresh_mem = Some (0, w'') \<and> heap_ok 60 w'' 1 0 [(504, True)]"
proof -
  obtain w1 where w1: "vm_malloc 0 no_hdr 1 0 100 5 fresh_mem = Some (0x4008, w1)" "heap_ok 60 w1 1 0 [(100, False), (396, True)]" by (rule first_request)
  have "vm_malloc 0 no_hdr 1 0 70000 6 w1 = Some (0, w1)" using malloc_refuses [of 70000 0 no_hdr 1 0 6 w1] by simp
  moreover have "\<exists>w'. vm_malloc 0 no_hdr 1 0 40000 6 w1 = Some (0, w') \<and> content w' = content w1"
    using malloc_refuses [of 40000 0 no_hdr 1 0 6 w1 60 "[(100, False), (396, True)]"] w1(2) by (auto simp: fits_def round4_def pages_for_def)
  moreover have "\<exists>w''. vm_malloc 0 no_hdr 1 0 40000 5 fresh_mem = Some (0, w'') \<and> heap_ok 60 w'' 1 0 [(504, True)]"
    using malloc_refuses [of 40000 0 no_hdr 1 0 5 fresh_mem 60] fresh_heap_ok by (auto simp: round4_def pages_for_def)
  ultimately show ?thesis using w1(1) by blast
qed

theorem free_correct_witness:
  "\<exists>w1. vm_malloc 0 no_hdr 1 0 100 5 fresh_mem = Some (0x4008, w1) \<and> heap_ok 60 (vm_free 0 1 0 0x4008 6 w1) 1 0 [(504, True)]"
proof -
  obtain w1 where w1: "vm_malloc 0 no_hdr 1 0 100 5 fresh_mem = Some (0x4008, w1)" "heap_ok 60 w1 1 0 [(100, False), (396, True)]" by (rule first_request)
  have ok: "heap_ok 60 w1 1 0 ([] @ (100, False) # [(396, True)])" using w1(2) by simp
  have "freed [] 100 [(396, True)] = [(504, True)]" by (simp add: freed_def absorb_next_def absorb_prev_def)
  then show ?thesis using free_correct [OF ok refl refl, of 0 6] w1(1) by auto
qed

theorem alloc_stats_correct_witness:
  "\<exists>w1 s w'. vm_malloc 0 no_hdr 1 0 100 5 fresh_mem = Some (0x4008, w1) \<and> vm_alloc_get_stats 1 0 6 w1 = Some (s, w') \<and>
     va_total_blocks s = 2 \<and> va_free_blocks s = 1 \<and> va_external_frag_bytes s = 396"
proof -
  obtain w1 where w1: "vm_malloc 0 no_hdr 1 0 100 5 fresh_mem = Some (0x4008, w1)" "heap_ok 60 w1 1 0 [(100, False), (396, True)]" by (rule first_request)
  show ?thesis using alloc_stats_correct [OF w1(2), of 6] w1(1) by auto
qed


end
