(* ===== verification/Proc_Life.thy ===== *)
theory Proc_Life
  imports VM
begin

text \<open>
  The operations of \<^verbatim>\<open>proc.c\<close> that give a process's virtual memory back
  (\<^verbatim>\<open>proc_destroy\<close>, \<^verbatim>\<open>proc_table_shutdown\<close>, \<^verbatim>\<open>proc_table_init\<close>), and the life of a
  process as a step relation over the table operations.
\<close>

definition set_entry :: "nat \<Rightarrow> (pcb \<Rightarrow> pcb) \<Rightarrow> mem \<Rightarrow> mem" where
  "set_entry slot f w = w\<lparr>w_pt := (w_pt w)\<lparr>entries := (entries (w_pt w))(slot := f (entries (w_pt w) slot))\<rparr>\<rparr>"

definition release_vm :: "nat \<Rightarrow> mem \<Rightarrow> mem" where
  "release_vm slot w =
     (case p_vm (entries (w_pt w) slot) of
        None \<Rightarrow> w
      | Some a \<Rightarrow> set_entry slot (\<lambda>p. p\<lparr>p_vm := None\<rparr>) (vm_proc_destroy a w))"

definition proc_destroy :: "os_env \<Rightarrow> int \<Rightarrow> int \<Rightarrow> mem \<Rightarrow> mem" where
  "proc_destroy e pid exit_code w =
     (case find_slot_by_pid pid (w_pt w) of
        None \<Rightarrow> w
      | Some slot \<Rightarrow>
          (let w1 = w\<lparr>w_pt := release_stack e slot (w_pt w)\<rparr>;
               w2 = release_vm slot w1;
               w3 = set_entry slot (\<lambda>p. p\<lparr>p_exit_code := exit_code, p_state := PROC_EXITED, p_used := False\<rparr>) w2
           in if 1 \<le> pid \<and> pid \<le> int MOSRT_MAX_PROCS
              then w3\<lparr>w_pt := (w_pt w3)\<lparr>pid_to_slot := (pid_to_slot (w_pt w3))(nat (pid - 1) := -1)\<rparr>\<rparr>
              else w3))"

definition proc_table_shutdown :: "os_env \<Rightarrow> mem \<Rightarrow> mem" where
  "proc_table_shutdown e w =
     fold (\<lambda>i w. release_vm i (w\<lparr>w_pt := release_stack e i (w_pt w)\<rparr>)) [0..<MOSRT_MAX_PROCS] w"

definition proc_table_init :: "os_env \<Rightarrow> mem \<Rightarrow> mem" where
  "proc_table_init e w = (let w1 = proc_table_shutdown e w in w1\<lparr>w_pt := proc_table_clear (w_pt w1)\<rparr>)"


section \<open>Giving memory back\<close>

lemma owner_pt [simp]:
  "frame_owner (w\<lparr>w_pt := t\<rparr>) = frame_owner w" "swap_owner (w\<lparr>w_pt := t\<rparr>) = swap_owner w" "swap_bytes (w\<lparr>w_pt := t\<rparr>) = swap_bytes w"
  "frame_owner (w\<lparr>w_vms := h\<rparr>) = frame_owner w" "swap_owner (w\<lparr>w_vms := h\<rparr>) = swap_owner w" "swap_bytes (w\<lparr>w_vms := h\<rparr>) = swap_bytes w"
  by (simp_all add: frame_owner_def swap_owner_def swap_bytes_def fun_eq_iff)

lemma release_page_simps [simp]:
  "w_pt (release_page e w) = w_pt w" "w_vms (release_page e w) = w_vms w" "w_pager (release_page e w) = w_pager w"
  "w_tlb (release_page e w) = w_tlb w"
  by (simp_all add: release_page_def Let_def)

lemma release_page_frame: "frame_owner (release_page e w) f = (if present e \<and> frame_num e = f then None else frame_owner w f)"
  by (auto simp: release_page_def Let_def frame_owner_free)

lemma release_page_swap: "swap_owner (release_page e w) k = (if in_swap e \<and> unat (swap_slot e) = k then None else swap_owner w k)"
  by (auto simp: release_page_def swap_owner_def swap_free_def)

lemma release_page_bytes:
  "frame_bytes (w_frame (release_page e w)) = frame_bytes (w_frame w)" "swap_bytes (release_page e w) = swap_bytes w"
  by (simp_all add: release_page_def Let_def swap_bytes_def fun_eq_iff)

lemma release_page_inv:
  "frame_inv (w_frame w) \<Longrightarrow> frame_inv (w_frame (release_page e w))" "swap_inv (w_swap w) \<Longrightarrow> swap_inv (w_swap (release_page e w))"
  by (simp_all add: release_page_def Let_def frame_inv_free swap_inv_free)

definition release_pages :: "page_table \<Rightarrow> nat list \<Rightarrow> mem \<Rightarrow> mem" where
  "release_pages pt vs = fold (\<lambda>v. release_page (pt (of_nat v))) vs"

lemma release_pages_facts:
  "w_pt (release_pages pt vs w) = w_pt w" "w_vms (release_pages pt vs w) = w_vms w" "w_pager (release_pages pt vs w) = w_pager w"
  "w_tlb (release_pages pt vs w) = w_tlb w"
  "frame_owner (release_pages pt vs w) f = (if \<exists>v \<in> set vs. present (pt (of_nat v)) \<and> frame_num (pt (of_nat v)) = f then None else frame_owner w f)"
  "swap_owner (release_pages pt vs w) k = (if \<exists>v \<in> set vs. in_swap (pt (of_nat v)) \<and> unat (swap_slot (pt (of_nat v))) = k then None else swap_owner w k)"
  "frame_bytes (w_frame (release_pages pt vs w)) = frame_bytes (w_frame w)" "swap_bytes (release_pages pt vs w) = swap_bytes w"
  "frame_inv (w_frame w) \<Longrightarrow> frame_inv (w_frame (release_pages pt vs w))" "swap_inv (w_swap w) \<Longrightarrow> swap_inv (w_swap (release_pages pt vs w))"
  unfolding release_pages_def
  by (induction vs arbitrary: w) (auto simp: release_page_frame release_page_swap release_page_bytes release_page_inv)

lemma vm_proc_destroy_eq:
  "w_vms w a = Some vm \<Longrightarrow> vm_proc_destroy a w = (release_pages (vs_pt vm) [0..<256] w)\<lparr>w_vms := (w_vms w)(a := None)\<rparr>"
  by (simp add: vm_proc_destroy_def release_pages_def page_table_lookup_def release_pages_facts(2) [unfolded release_pages_def])

lemma all_vpns: "(\<exists>v \<in> {0..<256}. P (of_nat v :: u8)) \<longleftrightarrow> (\<exists>v. P v)"
proof
  assume "\<exists>v. P v"
  then obtain v where "P v" by blast
  then show "\<exists>v \<in> {0..<256}. P (of_nat v)" by (intro bexI [of _ "unat v"]) simp_all
qed blast

text \<open>
  After the memory object of process \<open>q\<close> is gone and its table entry no longer names it, the
  invariant holds again and nobody else's memory has changed.
\<close>

lemma vm_proc_destroy_effect:
  assumes inv: "mem_inv w" and a: "vm_of w q = Some a"
    and w': "w' = (vm_proc_destroy a w)\<lparr>w_pt := t'\<rparr>" and vm': "\<And>p. vm_of w' p = (if p = q then None else vm_of w p)"
  shows "mem_inv w'" "p \<noteq> q \<Longrightarrow> content w' p = content w p"
    "frame_owner w' f = (case frame_owner w f of Some (p, v) \<Rightarrow> if p = q then None else Some (p, v) | None \<Rightarrow> None)"
    "in_swap (pte_at w a v) \<Longrightarrow> swap_owner w' (unat (swap_slot (pte_at w a v))) = None" "w_tlb w' = w_tlb w"
proof -
  have i: "vm_wf w" "frame_inv (w_frame w)" "swap_inv (w_swap w)" "pager_ok (w_pager w)" "pages_ok (ppte w) (frame_owner w) (swap_owner w)"
    using inv by (auto simp: mem_inv_def)
  obtain vm where vm: "w_vms w a = Some vm" by (rule vm_wf_live [OF i(1) a])
  let ?r = "release_pages (vs_pt vm) [0..<256] w"
  have at: "pte_at w a v = vs_pt vm v" for v by (simp add: pte_at_def vm page_table_lookup_def)
  have eq: "ppte w q v = Some (vs_pt vm v)" for v using pte_at_ppte [OF i(1) a, of v] at by simp
  have w'r: "w' = ?r\<lparr>w_vms := (w_vms w)(a := None), w_pt := t'\<rparr>" by (simp add: w' vm_proc_destroy_eq [OF vm])
  have G: "frame_owner w' f = (if \<exists>v. present (vs_pt vm v) \<and> frame_num (vs_pt vm v) = f then None else frame_owner w f)" for f
    using release_pages_facts(5) [of "vs_pt vm" "[0..<256]" w f] all_vpns [of "\<lambda>v. present (vs_pt vm v) \<and> frame_num (vs_pt vm v) = f"]
    by (simp add: w'r)
  have S: "swap_owner w' k = (if \<exists>v. in_swap (vs_pt vm v) \<and> unat (swap_slot (vs_pt vm v)) = k then None else swap_owner w k)" for k
    using release_pages_facts(6) [of "vs_pt vm" "[0..<256]" w k] all_vpns [of "\<lambda>v. in_swap (vs_pt vm v) \<and> unat (swap_slot (vs_pt vm v)) = k"]
    by (simp add: w'r)
  have h: "w_vms w' = (w_vms w)(a := None)" by (simp add: w'r)
  have P: "ppte w' p v = (if p = q then None else ppte w p v)" for p v
  proof (cases "p = q")
    case False
    have "b \<noteq> a" if "vm_of w p = Some b" for b using i(1) a that False unfolding vm_wf_def by blast
    then show ?thesis using False by (auto simp: ppte_def vm' h split: option.splits)
  qed (simp add: ppte_def vm')
  have own: "frame_owner w f = Some (q, v) \<Longrightarrow> present (vs_pt vm v) \<and> frame_num (vs_pt vm v) = f" for f v
    by (rule mem_inv_owner [OF inv, of f q v]) (auto simp: eq)
  have mine: "present (vs_pt vm v) \<Longrightarrow> frame_owner w (frame_num (vs_pt vm v)) = Some (q, v)"
    "in_swap (vs_pt vm v) \<Longrightarrow> swap_owner w (unat (swap_slot (vs_pt vm v))) = Some (q, v)" for v
    using pages_ok_present(2) [OF i(5) eq] pages_ok_swapped [OF i(5) eq] by simp_all
  show "frame_owner w' f = (case frame_owner w f of Some (p, v) \<Rightarrow> if p = q then None else Some (p, v) | None \<Rightarrow> None)" for f
    using own [of f] mine(1) by (auto simp: G split: option.splits)
  show "in_swap (pte_at w a v) \<Longrightarrow> swap_owner w' (unat (swap_slot (pte_at w a v))) = None" by (auto simp: S at)
  show "w_tlb w' = w_tlb w" by (simp add: w'r release_pages_facts)
  have keep: "frame_owner w f = Some (p, v) \<Longrightarrow> p \<noteq> q \<Longrightarrow> frame_owner w' f = Some (p, v)"
    "swap_owner w k = Some (p, v) \<Longrightarrow> p \<noteq> q \<Longrightarrow> swap_owner w' k = Some (p, v)" for f k p v
    using mine by (auto simp: G S)
  have "pages_ok (ppte w') (frame_owner w') (swap_owner w')"
  proof (rule pages_okI)
    fix p v e assume e: "ppte w' p v = Some e"
    then have p: "p \<noteq> q" "ppte w p v = Some e" by (auto simp: P split: if_splits)
    show "present e \<Longrightarrow> \<not> in_swap e \<and> frame_owner w' (frame_num e) = Some (p, v)" "in_swap e \<Longrightarrow> swap_owner w' (unat (swap_slot e)) = Some (p, v)"
      using pages_ok_present [OF i(5) p(2)] pages_ok_swapped [OF i(5) p(2)] keep p(1) by blast+
  next
    fix f p v assume f: "frame_owner w' f = Some (p, v)"
    then have o: "frame_owner w f = Some (p, v)" by (auto simp: G split: if_splits)
    have "p \<noteq> q" using own [of f v] f o by (auto simp: G split: if_splits)
    then show "\<exists>e. ppte w' p v = Some e \<and> present e \<and> frame_num e = f" using pages_ok_owner [OF i(5) o] by (simp add: P)
  qed
  moreover have "vm_wf w'" using i(1) a unfolding vm_wf_def vm' h by (auto split: if_splits)
  ultimately show "mem_inv w'" using i by (simp add: mem_inv_def w'r release_pages_facts)
  show "p \<noteq> q \<Longrightarrow> content w' p = content w p"
    using P by (simp add: content_def fun_eq_iff) (simp add: w'r release_pages_facts)
qed


section \<open>Removing a table entry\<close>

definition dropped :: "process_table \<Rightarrow> int \<Rightarrow> nat \<Rightarrow> process_table \<Rightarrow> bool" where
  "dropped t q i t' \<longleftrightarrow> \<not> p_used (entries t' i) \<and> (\<forall>j. j \<noteq> i \<longrightarrow> entries t' j = entries t j) \<and> next_pid t' = next_pid t \<and>
     pid_to_slot t' = (pid_to_slot t)(nat (q - 1) := -1)"

lemma dropped_get:
  assumes inv: "ptable_inv t" and i: "find_slot_by_pid q t = Some i" and d: "dropped t q i t'"
  shows "ptable_inv t'" "proc_get p t' = (if p = q then None else proc_get p t)"
proof -
  note D = find_slot_SomeD [OF i]
  have e: "entries t' j = entries t j" "p_pid (entries t j) \<noteq> q" if "p_used (entries t' j)" "j < 1024" for j
  proof -
    have "j \<noteq> i" using that d by (auto simp: dropped_def)
    then show "entries t' j = entries t j" using d by (simp add: dropped_def)
    then show "p_pid (entries t j) \<noteq> q" using ptable_inv_unique [OF inv, of j i] D that \<open>j \<noteq> i\<close> by auto
  qed
  have s: "pid_to_slot t' (nat (p - 1)) = pid_to_slot t (nat (p - 1))" if "p \<noteq> q" "1 \<le> p" for p
    using d D(4) that by (auto simp: dropped_def)
  show inv': "ptable_inv t'" unfolding ptable_inv_def
  proof (intro conjI allI impI)
    show "1 \<le> next_pid t'" using inv d by (simp add: ptable_inv_def dropped_def)
    show "slot_ok t' j" if "j < 1024" "p_used (entries t' j)" for j
      using ptable_inv_slot [OF inv, of j] e [OF that(2,1)] that s [of "p_pid (entries t j)"] d by (auto simp: slot_ok_def dropped_def)
    show "j = k" if "j < 1024" "k < 1024" "p_used (entries t' j)" "p_used (entries t' k)" "p_pid (entries t' j) = p_pid (entries t' k)" for j k
      using ptable_inv_unique [OF inv, of j k] e [of j] e [of k] that by auto
  qed
  have "find_slot_by_pid p t' = (if p = q then None else find_slot_by_pid p t)"
  proof (cases "p = q")
    case True
    then show ?thesis using d by (auto simp: find_slot_by_pid_def dropped_def)
  next
    case False
    have "find_slot_by_pid p t' = Some j \<longleftrightarrow> find_slot_by_pid p t = Some j" for j
    proof
      assume "find_slot_by_pid p t' = Some j"
      then have "j < 1024" "p_used (entries t' j)" "p_pid (entries t' j) = p" "p \<le> 1024" by (simp_all add: find_slot_iff [OF inv'])
      then show "find_slot_by_pid p t = Some j" using e(1) [of j] by (simp add: find_slot_iff [OF inv])
    next
      assume f: "find_slot_by_pid p t = Some j"
      then have "j \<noteq> i" using D(3) find_slot_SomeD(3) False by blast
      then have "entries t' j = entries t j" using d by (simp add: dropped_def)
      then show "find_slot_by_pid p t' = Some j" using f by (simp add: find_slot_iff [OF inv] find_slot_iff [OF inv'])
    qed
    then show ?thesis using False by (cases "find_slot_by_pid p t"; cases "find_slot_by_pid p t'") auto
  qed
  moreover have "entries t' j = entries t j" if "find_slot_by_pid p t = Some j" "p \<noteq> q" for j
  proof -
    have "j \<noteq> i" using D(3) find_slot_SomeD(3) [OF that(1)] that(2) by blast
    then show ?thesis using d by (simp add: dropped_def)
  qed
  ultimately show "proc_get p t' = (if p = q then None else proc_get p t)" by (cases "find_slot_by_pid p t") (auto simp: proc_get_def)
qed

lemma vm_proc_destroy_pt [simp]: "w_pt (vm_proc_destroy a w) = w_pt w"
  by (simp add: vm_proc_destroy_def release_pages_def [symmetric] Let_def release_pages_facts split: option.split)

lemma vm_proc_destroy_indep: "vm_proc_destroy a (w\<lparr>w_pt := t\<rparr>) = (vm_proc_destroy a w)\<lparr>w_pt := t\<rparr>"
proof -
  have "release_page e (w\<lparr>w_pt := t\<rparr>) = (release_page e w)\<lparr>w_pt := t\<rparr>" for e w by (simp add: release_page_def Let_def)
  then have "fold (\<lambda>v. release_page (g v)) vs (w\<lparr>w_pt := t\<rparr>) = (fold (\<lambda>v. release_page (g v)) vs w)\<lparr>w_pt := t\<rparr>" for g and vs :: "nat list" and w
    by (induction vs arbitrary: w) simp_all
  then show ?thesis by (simp add: vm_proc_destroy_def Let_def split: option.split)
qed

lemma proc_destroy_table:
  assumes i: "find_slot_by_pid q (w_pt w) = Some i"
  obtains t' where "dropped (w_pt w) q i t'"
    "proc_destroy e q code w = (case vm_of w q of None \<Rightarrow> w | Some a \<Rightarrow> vm_proc_destroy a w)\<lparr>w_pt := t'\<rparr>"
proof -
  note D = find_slot_SomeD [OF i]
  have vm: "vm_of w q = p_vm (entries (w_pt w) i)" by (simp add: vm_of_def proc_get_def i)
  let ?d = "proc_destroy e q code w"
  note defs = proc_destroy_def release_stack_def release_vm_def set_entry_def Let_def vm_proc_destroy_indep
  have "dropped (w_pt w) q i (w_pt ?d)" using D(4,6) by (simp add: dropped_def defs i split: option.split)
  moreover have "?d = (case vm_of w q of None \<Rightarrow> w | Some a \<Rightarrow> vm_proc_destroy a w)\<lparr>w_pt := w_pt ?d\<rparr>"
    using D(4,6) by (simp add: vm defs i split: option.split)
  ultimately show ?thesis by (rule that)
qed


section \<open>The life of a process\<close>

text \<open>The table operations that the runtime applies, as one step each.\<close>

inductive proc_step :: "process_table \<Rightarrow> process_table \<Rightarrow> bool" where
  create: "proc_create e ppid prio now ssize t = (r, t') \<Longrightarrow> proc_step t t'"
| set_state: "proc_set_state pid s now t = (ok, t') \<Longrightarrow> proc_step t t'"
| exit: "proc_mark_exited e pid code now t = (ok, t') \<Longrightarrow> proc_step t t'"

inductive_cases proc_stepE: "proc_step t t'"

abbreviation proc_steps :: "process_table \<Rightarrow> process_table \<Rightarrow> bool" where
  "proc_steps \<equiv> proc_step\<^sup>*\<^sup>*"

lemma proc_step_inv: "proc_step t t' \<Longrightarrow> ptable_inv t \<Longrightarrow> ptable_inv t'"
  by (erule proc_stepE) (metis proc_create_inv proc_set_state_inv proc_mark_exited_inv snd_conv)+

interpretation table_life: transition_invariant proc_step ptable_inv
  by unfold_locales (rule proc_step_inv)

lemma enter_state_exit [simp]: "p_exit_code (enter_state n t p) = p_exit_code p"
  by (simp add: enter_state_def Let_def)

lemma valid_from_exited: "\<not> proc_is_valid_transition PROC_EXITED s"
  by (simp add: proc_is_valid_transition_def)

lemma enter_state_state [simp]: "p_state (enter_state n t p) = n"
  by (simp add: enter_state_def Let_def)

lemma proc_step_get:
  assumes "proc_step t t'" "ptable_inv t" "proc_get q t = Some p"
  shows "\<exists>p'. proc_get q t' = Some p' \<and> (p_state p' = p_state p \<or> proc_is_valid_transition (p_state p) (p_state p')) \<and>
    (p_state p = PROC_EXITED \<longrightarrow> p_exit_code p' = p_exit_code p \<and> p_finish_tick p' = p_finish_tick p)"
  using assms(1)
proof cases
  case (create e ppid prio now ssize r)
  have "proc_get q t' = Some p" using create
  proof (cases rule: proc_create_cases)
    case (fail maps)
    then show ?thesis using assms(3) by simp
  next
    case (made i st sz ms maps)
    have "q < next_pid t" using assms(3) find_slot_SomeD(5) by (auto simp: proc_get_def)
    then show ?thesis
      using proc_get_table_with [OF assms(2), of i _ q maps] find_free_slotD [OF made(1)] made(3) clamp_prio_range(1,2) assms(3)
      by (simp add: prio_ok_def)
  qed
  then show ?thesis by simp
next
  case (set_state pid s now ok)
  have "t' = snd (proc_set_state pid s now t)" "ok = fst (proc_set_state pid s now t)" using set_state by simp_all
  then show ?thesis using proc_get_set_state [of q pid s now t] assms(3) set_state
    by (auto simp: proc_set_state_cases valid_from_exited split: option.splits if_splits)
next
  case (exit e pid code now ok)
  have "t' = snd (proc_mark_exited e pid code now t)" "ok = fst (proc_mark_exited e pid code now t)" using exit by simp_all
  moreover have "ok \<Longrightarrow> q = pid \<Longrightarrow> p_state p \<noteq> PROC_EXITED"
    using exit assms(3) by (auto simp: proc_mark_exited_eq proc_get_def split: if_splits)
  ultimately show ?thesis using proc_mark_exited_get [of q e pid code now t] assms(3)
    by (auto simp: proc_is_valid_transition_def split: proc_state.splits)
qed


section \<open>Properties\<close>

text \<open>C12. The life of processes: whatever sequence of creations, state changes and exits the table goes
  through, it stays well formed, its index answers like a scan of the table, and each process
  follows the state machine; once exited a process stays exited with the same exit code and
  finish time.\<close>

theorem proc_life:
  assumes "proc_steps t t'" "ptable_inv t"
  shows "ptable_inv t' \<and>
    (\<forall>q. find_slot_by_pid q t' =
       (if q \<le> 1024 then first_idx (\<lambda>i. p_used (entries t' i) \<and> p_pid (entries t' i) = q) 0 1024 else None)) \<and>
    (\<forall>q p. proc_get q t = Some p \<longrightarrow>
       (\<exists>p'. proc_get q t' = Some p' \<and> proc_is_valid_transition\<^sup>*\<^sup>* (p_state p) (p_state p') \<and>
          (p_state p = PROC_EXITED \<longrightarrow>
             p_state p' = PROC_EXITED \<and> p_exit_code p' = p_exit_code p \<and> p_finish_tick p' = p_finish_tick p)))"
proof -
  define R where "R a b \<longleftrightarrow> (\<forall>q p. proc_get q a = Some p \<longrightarrow>
       (\<exists>p'. proc_get q b = Some p' \<and> proc_is_valid_transition\<^sup>*\<^sup>* (p_state p) (p_state p') \<and>
          (p_state p = PROC_EXITED \<longrightarrow>
             p_state p' = PROC_EXITED \<and> p_exit_code p' = p_exit_code p \<and> p_finish_tick p' = p_finish_tick p)))" for a b
  have step: "R a c" if ab: "R a b" "ptable_inv b" "proc_step b c" for a b c
    unfolding R_def
  proof (intro allI impI)
    fix q p
    assume "proc_get q a = Some p"
    then obtain p1 where p1: "proc_get q b = Some p1" "proc_is_valid_transition\<^sup>*\<^sup>* (p_state p) (p_state p1)"
        "p_state p = PROC_EXITED \<longrightarrow> p_state p1 = PROC_EXITED \<and> p_exit_code p1 = p_exit_code p \<and> p_finish_tick p1 = p_finish_tick p"
      using ab(1) unfolding R_def by blast
    obtain p2 where "proc_get q c = Some p2" "p_state p2 = p_state p1 \<or> proc_is_valid_transition (p_state p1) (p_state p2)"
        "p_state p1 = PROC_EXITED \<longrightarrow> p_exit_code p2 = p_exit_code p1 \<and> p_finish_tick p2 = p_finish_tick p1"
      using proc_step_get [OF ab(3,2) p1(1)] by blast
    then show "\<exists>p'. proc_get q c = Some p' \<and> proc_is_valid_transition\<^sup>*\<^sup>* (p_state p) (p_state p') \<and>
          (p_state p = PROC_EXITED \<longrightarrow>
             p_state p' = PROC_EXITED \<and> p_exit_code p' = p_exit_code p \<and> p_finish_tick p' = p_finish_tick p)"
      using p1 valid_from_exited by (auto intro: rtranclp.rtrancl_into_rtrancl)
  qed
  have "R t t'"
    by (rule table_life.steps_rel [OF assms _ step]) (auto simp: R_def)
  then show ?thesis using table_life.steps_inv [OF assms] find_slot_eq_scan unfolding R_def by blast
qed

lemma one_proc_inv: "ptable_inv one_proc"
  by (auto simp: ptable_inv_def slot_ok_def one_proc_def zero_pcb_def prio_ok_def)

theorem proc_life_witness:
  "\<exists>p'. proc_get 1 (snd (proc_set_state 1 PROC_READY 4 (snd (proc_mark_exited sample_os 1 7 3 one_proc)))) = Some p' \<and>
     p_state p' = PROC_EXITED \<and> p_exit_code p' = 7"
proof -
  let ?t1 = "snd (proc_mark_exited sample_os 1 7 3 one_proc)"
  obtain p where p: "proc_get 1 ?t1 = Some p" "p_state p = PROC_EXITED" "p_exit_code p = 7"
    by (simp add: proc_mark_exited_eq find_slot_by_pid_def one_proc_def zero_pcb_def proc_get_def)
  have "proc_steps ?t1 (snd (proc_set_state 1 PROC_READY 4 ?t1))"
    by (rule r_into_rtranclp) (rule proc_step.set_state, rule prod.collapse [symmetric])
  then show ?thesis using proc_life [OF _ proc_mark_exited_inv [OF one_proc_inv]] p by fastforce
qed

text \<open>C11. Destroying a process gives back all it had and touches nobody else: its id is no longer found,
  every frame it owned is free, every swap slot its pages were in is free, the bytes, frames and
  table entries of all other processes are unchanged, and the table and paging invariants
  hold.\<close>

theorem proc_destroy_correct:
  assumes "mem_inv w" "ptable_inv (w_pt w)" "vm_of w q = Some a"
  shows "mem_inv (proc_destroy e q code w) \<and> ptable_inv (w_pt (proc_destroy e q code w)) \<and>
    (\<forall>p. proc_get p (w_pt (proc_destroy e q code w)) = (if p = q then None else proc_get p (w_pt w))) \<and>
    (\<forall>p. p \<noteq> q \<longrightarrow> content (proc_destroy e q code w) p = content w p) \<and>
    (\<forall>f. frame_owner (proc_destroy e q code w) f =
       (case frame_owner w f of Some (p, v) \<Rightarrow> if p = q then None else Some (p, v) | None \<Rightarrow> None)) \<and>
    (\<forall>v. in_swap (pte_at w a v) \<longrightarrow> swap_owner (proc_destroy e q code w) (unat (swap_slot (pte_at w a v))) = None)"
proof -
  let ?w = "proc_destroy e q code w"
  obtain i where i: "find_slot_by_pid q (w_pt w) = Some i" using assms(3) by (auto simp: vm_of_def proc_get_def split: option.splits)
  obtain t' where t': "dropped (w_pt w) q i t'" "?w = (vm_proc_destroy a w)\<lparr>w_pt := t'\<rparr>"
    by (rule proc_destroy_table [OF i, of e code]) (simp add: assms(3))
  note G = dropped_get [OF assms(2) i t'(1)]
  have "w_pt ?w = t'" by (simp add: t'(2))
  then have "vm_of ?w p = (if p = q then None else vm_of w p)" for p by (simp add: vm_of_def G(2))
  note E = vm_proc_destroy_effect [OF assms(1,3) t'(2) this]
  show ?thesis using E(1,2,3,4) G \<open>w_pt ?w = t'\<close> by simp
qed

theorem proc_destroy_correct_witness:
  "proc_get 1 (w_pt (proc_destroy sample_os 1 0 swapped_mem)) = None \<and> swap_owner (proc_destroy sample_os 1 0 swapped_mem) 0 = None"
proof -
  have "w_pt swapped_mem = one_proc" by (simp add: swapped_mem_def one_proc_mem_def)
  moreover have "swap_slot (pte_at swapped_mem 0 64) = 0" by (simp add: swapped_mem_def)
  ultimately show ?thesis
    using proc_destroy_correct [OF swapped_mem_facts(1) _ swapped_mem_facts(2), of sample_os 0] one_proc_inv swapped_mem_facts(4)
    by (metis unat_0)
qed

end
