(* ===== verification/C_Text.thy ===== *)
theory C_Text
  imports Mosrt_Prelude
begin

text \<open>
  What MOSRT uses of the C library on text: decimal and hexadecimal conversions of
  \<^verbatim>\<open>printf\<close>, truncation by \<^verbatim>\<open>snprintf\<close>, \<^verbatim>\<open>strtol\<close> and \<^verbatim>\<open>strtoull\<close>, \<^verbatim>\<open>fgets\<close> and \<^verbatim>\<open>strtok\<close>.

  A C string is the list of its characters without the terminating null. A text file is the
  list of its bytes. \<^verbatim>\<open>long\<close> and \<^verbatim>\<open>unsigned long long\<close> have 64 bits.
\<close>

section \<open>Conversions to text\<close>

abbreviation nl :: char where "nl \<equiv> CHR 0x0A"
abbreviation nul :: char where "nul \<equiv> CHR 0x00"

definition digit_char :: "nat \<Rightarrow> char" where
  "digit_char d = (if d < 10 then char_of (48 + d) else char_of (55 + d))"

text \<open>The digits of \<open>n\<close> in base \<open>b + 2\<close>, most significant first.\<close>

function print_base :: "nat \<Rightarrow> nat \<Rightarrow> string" where
  "print_base b n =
     (if n < b + 2 then [digit_char n] else print_base b (n div (b + 2)) @ [digit_char (n mod (b + 2))])"
  by pat_completeness auto
termination
  by (relation "measure snd") auto

declare print_base.simps [simp del]

definition dec_nat :: "nat \<Rightarrow> string" where "dec_nat = print_base 8"
definition hex_nat :: "nat \<Rightarrow> string" where "hex_nat = print_base 14"

definition dec_int :: "int \<Rightarrow> string" where
  "dec_int i = (if i < 0 then CHR ''-'' # dec_nat (nat (- i)) else dec_nat (nat i))"

definition dec_word :: "'a::len word \<Rightarrow> string" where
  "dec_word x = dec_nat (unat x)"

text \<open>Field widths: \<^verbatim>\<open>%4d\<close>, \<^verbatim>\<open>%-8s\<close> and \<^verbatim>\<open>%04X\<close>.\<close>

definition pad_left :: "nat \<Rightarrow> string \<Rightarrow> string" where
  "pad_left n s = replicate (n - length s) (CHR '' '') @ s"

definition pad_right :: "nat \<Rightarrow> string \<Rightarrow> string" where
  "pad_right n s = s @ replicate (n - length s) (CHR '' '')"

definition pad_zero :: "nat \<Rightarrow> string \<Rightarrow> string" where
  "pad_zero n s = replicate (n - length s) (CHR ''0'') @ s"

text \<open>\<^verbatim>\<open>snprintf(buf, size, "%s", s)\<close>: what \<^verbatim>\<open>buf\<close> holds afterwards.\<close>

definition snprintf :: "nat \<Rightarrow> string \<Rightarrow> string" where
  "snprintf bufsz s = take (bufsz - 1) s"

text \<open>The conversion of a \<^verbatim>\<open>uint64_t\<close> to \<^verbatim>\<open>int\<close>.\<close>

definition to_int :: "u64 \<Rightarrow> int" where
  "to_int x = sint (ucast x :: u32)"


section \<open>Conversions from text\<close>

definition isspace :: "char \<Rightarrow> bool" where
  "isspace c \<longleftrightarrow> c \<in> {CHR '' '', CHR 0x09, CHR 0x0A, CHR 0x0B, CHR 0x0C, CHR 0x0D}"

definition isdigit :: "char \<Rightarrow> bool" where
  "isdigit c \<longleftrightarrow> 48 \<le> (of_char c :: nat) \<and> (of_char c :: nat) \<le> 57"

definition digits_value :: "string \<Rightarrow> nat" where
  "digits_value ds = foldl (\<lambda>n c. n * 10 + (of_char c - 48)) 0 ds"

text \<open>
  The subject sequence of \<^verbatim>\<open>strtol\<close> and \<^verbatim>\<open>strtoull\<close> in base 10: white space, a sign, digits.
  The result is whether there is a minus sign, the digits and what follows them. No digits
  means that nothing is converted and the end pointer is the start of the string.
\<close>

definition scan_number :: "string \<Rightarrow> bool \<times> string \<times> string" where
  "scan_number s =
     (let t = dropWhile isspace s;
          neg = (t \<noteq> [] \<and> hd t = CHR ''-'');
          u = (if t \<noteq> [] \<and> (hd t = CHR ''-'' \<or> hd t = CHR ''+'') then tl t else t)
      in (neg, takeWhile isdigit u, dropWhile isdigit u))"

text \<open>
  The result, the text at the end pointer and whether \<^verbatim>\<open>errno\<close> is set to \<^verbatim>\<open>ERANGE\<close>;
  \<open>None\<close> when nothing is converted.
\<close>

definition strtoull :: "string \<Rightarrow> (u64 \<times> string \<times> bool) option" where
  "strtoull s =
     (case scan_number s of (neg, ds, rest) \<Rightarrow>
        if ds = [] then None
        else if 2 ^ 64 \<le> int (digits_value ds) then Some (-1, rest, True)
        else Some (if neg then - of_nat (digits_value ds) else of_nat (digits_value ds), rest, False))"

definition strtol :: "string \<Rightarrow> (int \<times> string \<times> bool) option" where
  "strtol s =
     (case scan_number s of (neg, ds, rest) \<Rightarrow>
        if ds = [] then None
        else let v = (if neg then - int (digits_value ds) else int (digits_value ds))
             in if v < - (2 ^ 63) then Some (- (2 ^ 63), rest, True)
                else if 2 ^ 63 \<le> v then Some (2 ^ 63 - 1, rest, True)
                else Some (v, rest, False))"

definition INT_MIN :: int where "INT_MIN = - (2 ^ 31)"
definition INT_MAX :: int where "INT_MAX = 2 ^ 31 - 1"


section \<open>Lines and tokens\<close>

text \<open>
  \<^verbatim>\<open>fgets(line, size, fp)\<close> on the unread part of a file: at most \<open>size - 1\<close> bytes, up to and
  with the first newline.
\<close>

fun read_line :: "nat \<Rightarrow> string \<Rightarrow> string \<times> string" where
  "read_line 0 s = ([], s)"
| "read_line (Suc n) [] = ([], [])"
| "read_line (Suc n) (c # s) = (if c = nl then ([c], s) else let (l, r) = read_line n s in (c # l, r))"

definition fgets :: "nat \<Rightarrow> string \<Rightarrow> (string \<times> string) option" where
  "fgets bufsz s = (if s = [] then None else Some (read_line (bufsz - 1) s))"

text \<open>The C string in a buffer ends at the first null byte.\<close>

definition c_str :: "string \<Rightarrow> string" where
  "c_str s = takeWhile (\<lambda>c. c \<noteq> nul) s"

text \<open>\<^verbatim>\<open>strtok\<close>: the next token and the text after the delimiter that ends it.\<close>

definition strtok :: "char set \<Rightarrow> string \<Rightarrow> (string \<times> string) option" where
  "strtok delim s =
     (let t = dropWhile (\<lambda>c. c \<in> delim) s
      in if t = [] then None
         else Some (takeWhile (\<lambda>c. c \<notin> delim) t, tl (dropWhile (\<lambda>c. c \<notin> delim) t)))"

lemma strtok_shorter: "strtok delim s = Some (tok, r) \<Longrightarrow> length r < length s"
proof -
  assume "strtok delim s = Some (tok, r)"
  then have r: "r = tl (dropWhile (\<lambda>c. c \<notin> delim) (dropWhile (\<lambda>c. c \<in> delim) s))" "dropWhile (\<lambda>c. c \<in> delim) s \<noteq> []"
    by (auto simp: strtok_def Let_def split: if_splits)
  have "length (tl (dropWhile (\<lambda>c. c \<notin> delim) t)) < length t" if "t \<noteq> []" for t
  proof -
    have "0 < length t" using that by simp
    then show ?thesis using length_dropWhile_le [of "\<lambda>c. c \<notin> delim" t] unfolding length_tl by linarith
  qed
  then show ?thesis using r length_dropWhile_le [of "\<lambda>c. c \<in> delim" s] by (meson less_le_trans)
qed

function tokens :: "char set \<Rightarrow> string \<Rightarrow> string list" where
  "tokens delim s = (case strtok delim s of None \<Rightarrow> [] | Some (tok, r) \<Rightarrow> tok # tokens delim r)"
  by pat_completeness auto
termination
  by (relation "measure (\<lambda>(d, s). length s)") (auto dest: strtok_shorter)

declare tokens.simps [simp del]

text \<open>The delimiters \<^verbatim>\<open>" \t\r\n"\<close>.\<close>

definition blanks :: "char set" where
  "blanks = {CHR '' '', CHR 0x09, CHR 0x0D, CHR 0x0A}"


section \<open>Numbers read back\<close>

lemma digit_char_digit: "d < 10 \<Longrightarrow> isdigit (digit_char d)" "d < 10 \<Longrightarrow> of_char (digit_char d) = 48 + d"
  by (simp_all add: isdigit_def digit_char_def)

lemma digits_value_snoc: "digits_value (ds @ [c]) = digits_value ds * 10 + (of_char c - 48)"
  by (simp add: digits_value_def)

lemma dec_nat_rec: "dec_nat n = (if n < 10 then [digit_char n] else dec_nat (n div 10) @ [digit_char (n mod 10)])"
  using print_base.simps [of 8 n] by (simp add: dec_nat_def)

lemma dec_nat_digits: "dec_nat n \<noteq> [] \<and> list_all isdigit (dec_nat n) \<and> digits_value (dec_nat n) = n"
proof (induction n rule: less_induct)
  case (less n)
  show ?case
  proof (cases "n < 10")
    case True
    then have "dec_nat n = [digit_char n]" by (simp add: dec_nat_rec)
    then show ?thesis using True by (simp add: digit_char_digit digits_value_def)
  next
    case False
    then have "n div 10 < n" by simp
    note IH = less.IH [OF this]
    have e: "dec_nat n = dec_nat (n div 10) @ [digit_char (n mod 10)]" using False by (subst dec_nat_rec) simp
    show ?thesis unfolding e digits_value_snoc using IH digit_char_digit [of "n mod 10"] by simp
  qed
qed

lemma isdigit_not: "isdigit c \<Longrightarrow> \<not> isspace c" "isdigit c \<Longrightarrow> c \<noteq> CHR ''-''" "isdigit c \<Longrightarrow> c \<noteq> CHR ''+''"
  "isdigit c \<Longrightarrow> c \<noteq> CHR ''#''" "isdigit c \<Longrightarrow> c \<noteq> nul" "isdigit c \<Longrightarrow> c \<notin> blanks" "isdigit c \<Longrightarrow> c \<noteq> nl"
  by (auto simp: isdigit_def isspace_def blanks_def)

lemma scan_number_dec:
  "scan_number (dec_int i) = (i < 0, dec_nat (nat \<bar>i\<bar>), [])"
proof -
  have w: "takeWhile isdigit (dec_nat n) = dec_nat n" "dropWhile isdigit (dec_nat n) = []"
    "dropWhile isspace (dec_nat n) = dec_nat n" "hd (dec_nat n) \<noteq> CHR ''-''" "hd (dec_nat n) \<noteq> CHR ''+''" "dec_nat n \<noteq> []" for n
    using dec_nat_digits [of n] isdigit_not [of "hd (dec_nat n)"]
    by (cases "dec_nat n"; auto simp: takeWhile_eq_all_conv dropWhile_eq_Nil_conv list_all_iff)+
  show ?thesis
  proof (cases "i < 0")
    case True
    then have "dropWhile isspace (dec_int i) = CHR ''-'' # dec_nat (nat (- i))" by (simp add: dec_int_def isspace_def)
    then show ?thesis using True w(1,2) by (simp add: scan_number_def Let_def)
  next
    case False
    then show ?thesis using w by (simp add: dec_int_def scan_number_def Let_def)
  qed
qed

lemma strtol_dec: "- (2 ^ 63) \<le> i \<Longrightarrow> i < 2 ^ 63 \<Longrightarrow> strtol (dec_int i) = Some (i, [], False)"
  using dec_nat_digits by (auto simp: strtol_def scan_number_dec Let_def)

lemma strtoull_dec: "strtoull (dec_word (x :: u64)) = Some (x, [], False)"
proof -
  have "dec_word x = dec_int (int (unat x))" by (simp add: dec_word_def dec_int_def)
  then have "scan_number (dec_word x) = (False, dec_nat (unat x), [])" by (simp add: scan_number_dec)
  then show ?thesis using dec_nat_digits [of "unat x"] unsigned_less [of x, where 'a = int] by (simp add: strtoull_def)
qed


section \<open>Lines and tokens read back\<close>

lemma read_line_whole: "nl \<notin> set l \<Longrightarrow> length l < n \<Longrightarrow> read_line n (l @ nl # s) = (l @ [nl], s)"
proof (induction l arbitrary: n)
  case Nil
  then show ?case by (cases n) auto
next
  case (Cons c l)
  then show ?case by (cases n) auto
qed

lemma read_line_shorter: "0 < n \<Longrightarrow> s \<noteq> [] \<Longrightarrow> length (snd (read_line n s)) < length s"
proof -
  have le: "length (snd (read_line n s)) \<le> length s" for n s
    by (induction n s rule: read_line.induct) (auto split: prod.split)
  assume "0 < n" "s \<noteq> []"
  then obtain m c r where "n = Suc m" "s = c # r" by (cases n; cases s) auto
  then show ?thesis using le [of m r] by (auto split: prod.split simp: less_Suc_eq_le)
qed

lemma fgets_line: "nl \<notin> set l \<Longrightarrow> length l < bufsz - 1 \<Longrightarrow> fgets bufsz (l @ nl # s) = Some (l @ [nl], s)"
  by (simp add: fgets_def read_line_whole)

lemma strtok_word:
  assumes "tok \<noteq> []" "set tok \<inter> delim = {}" "b \<in> delim"
  shows "strtok delim (tok @ b # s) = Some (tok, s)" "strtok delim tok = Some (tok, [])"
proof -
  have "dropWhile (\<lambda>c. c \<in> delim) (tok @ r) = tok @ r" for r using assms(1,2) by (cases tok) auto
  note D = this this [of "[]", simplified]
  have "\<forall>x\<in>set tok. x \<notin> delim" using assms(2) by auto
  then have "takeWhile (\<lambda>c. c \<notin> delim) tok = tok" "dropWhile (\<lambda>c. c \<notin> delim) tok = []"
    "takeWhile (\<lambda>c. c \<notin> delim) (tok @ b # s) = tok" "dropWhile (\<lambda>c. c \<notin> delim) (tok @ b # s) = b # s"
    using assms(3) by (simp_all add: takeWhile_append2 dropWhile_append2)
  then show "strtok delim (tok @ b # s) = Some (tok, s)" "strtok delim tok = Some (tok, [])"
    unfolding strtok_def D Let_def using assms(1) by (simp_all only: append_is_Nil_conv if_False simp_thms list.sel)
qed

lemma tokens_Nil [simp]: "tokens delim [] = []"
  by (subst tokens.simps) (simp add: strtok_def)

lemma tokens_Cons:
  assumes "tok \<noteq> []" "set tok \<inter> delim = {}" "b \<in> delim"
  shows "tokens delim (tok @ b # s) = tok # tokens delim s" "tokens delim tok = [tok]"
  by (subst tokens.simps, simp add: strtok_word [OF assms])+

end
