(* ===== verification/Log.thy ===== *)
theory Log
  imports C_Text
begin

text \<open>
  \<^verbatim>\<open>log.c\<close>: the bounded trace log. An operation that prints returns the printed text; the
  caller appends it to the console. Whether \<^verbatim>\<open>fopen\<close> can create a file is a parameter.
\<close>

definition MOSRT_MAX_TRACE_EVENTS :: nat where "MOSRT_MAX_TRACE_EVENTS = 4096"

lemma log_consts [simp]: "MOSRT_MAX_TRACE_EVENTS = 4096"
  by (simp add: MOSRT_MAX_TRACE_EVENTS_def)

record trace_event_t =
  te_tick :: u64
  te_pid :: int
  te_event :: string
  te_detail :: string

record trace_log_t =
  tl_events :: "trace_event_t carray"
  tl_count :: nat
  tl_overflow :: u64
  tl_enabled_all :: bool
  tl_enabled_pid :: int

definition zero_event :: trace_event_t where
  "zero_event = \<lparr>te_tick = 0, te_pid = 0, te_event = [], te_detail = []\<rparr>"

definition trace_init :: trace_log_t where
  "trace_init = \<lparr>tl_events = (\<lambda>_. zero_event), tl_count = 0, tl_overflow = 0, tl_enabled_all = False, tl_enabled_pid = INT_MIN\<rparr>"

definition trace_configure :: "bool \<Rightarrow> int \<Rightarrow> trace_log_t \<Rightarrow> trace_log_t" where
  "trace_configure all pid log = log\<lparr>tl_enabled_all := all, tl_enabled_pid := pid\<rparr>"

text \<open>The line printed for an event, by \<open>trace_event\<close> and by \<open>trace_dump\<close>.\<close>

definition trace_line :: "u64 \<Rightarrow> int \<Rightarrow> string \<Rightarrow> string \<Rightarrow> string" where
  "trace_line tick pid event detail =
     ''[tick='' @ dec_word tick @ ''] pid='' @ dec_int pid @ '' '' @ pad_right 10 event @ '' '' @ detail @ [nl]"

definition trace_event :: "u64 \<Rightarrow> int \<Rightarrow> string \<Rightarrow> string \<Rightarrow> trace_log_t \<Rightarrow> trace_log_t \<times> string" where
  "trace_event tick pid event detail log =
     ((if tl_count log < MOSRT_MAX_TRACE_EVENTS then
         log\<lparr>tl_events := (tl_events log)(tl_count log :=
               \<lparr>te_tick = tick, te_pid = pid, te_event = snprintf 24 event, te_detail = snprintf 96 detail\<rparr>),
             tl_count := tl_count log + 1\<rparr>
       else log\<lparr>tl_overflow := tl_overflow log + 1\<rparr>),
      (if tl_enabled_all log \<or> tl_enabled_pid log = pid then trace_line tick pid event detail else []))"

definition csv_row :: "trace_event_t \<Rightarrow> string" where
  "csv_row e = dec_word (te_tick e) @ '','' @ dec_int (te_pid e) @ '','' @ te_event e @ '','' @
     [CHR 0x22] @ te_detail e @ [CHR 0x22, nl]"

definition trace_export_csv :: "bool \<Rightarrow> trace_log_t \<Rightarrow> int \<times> string option" where
  "trace_export_csv fopen_ok log =
     (if \<not> fopen_ok then (-1, None)
      else (0, Some (''tick,pid,event,detail'' @ [nl] @
              concat (map (\<lambda>i. csv_row (tl_events log i)) [0..<tl_count log]) @
              (if 0 < tl_overflow log
               then ''# '' @ dec_word (tl_overflow log) @ '' trace events dropped due to buffer overflow'' @ [nl] else []))))"

definition trace_dump :: "trace_log_t \<Rightarrow> string" where
  "trace_dump log =
     concat (map (\<lambda>i. let e = tl_events log i in trace_line (te_tick e) (te_pid e) (te_event e) (te_detail e)) [0..<tl_count log])"


section \<open>What the log keeps\<close>

definition log_view :: "trace_log_t \<Rightarrow> trace_event_t list" where
  "log_view log = arr_list (tl_events log) (tl_count log)"

definition stored :: "u64 \<times> int \<times> string \<times> string \<Rightarrow> trace_event_t" where
  "stored x = (case x of (tick, pid, event, detail) \<Rightarrow>
     \<lparr>te_tick = tick, te_pid = pid, te_event = take 23 event, te_detail = take 95 detail\<rparr>)"

definition log_all :: "(u64 \<times> int \<times> string \<times> string) list \<Rightarrow> trace_log_t \<Rightarrow> trace_log_t" where
  "log_all xs = fold (\<lambda>(tick, pid, event, detail) log. fst (trace_event tick pid event detail log)) xs"

lemma trace_event_view:
  assumes "tl_count log \<le> 4096"
  shows "log_view (fst (trace_event tick pid event detail log)) =
      (if tl_count log < 4096 then log_view log @ [stored (tick, pid, event, detail)] else log_view log)"
    "tl_count (fst (trace_event tick pid event detail log)) = min 4096 (tl_count log + 1)"
    "tl_overflow (fst (trace_event tick pid event detail log)) = tl_overflow log + (if tl_count log < 4096 then 0 else 1)"
  using assms by (simp_all add: trace_event_def log_view_def arr_list_def stored_def snprintf_def)

lemma log_all_view:
  assumes "tl_count log \<le> 4096"
  shows "log_view (log_all xs log) = log_view log @ take (4096 - tl_count log) (map stored xs) \<and>
    tl_overflow (log_all xs log) = tl_overflow log + of_nat (length xs - (4096 - tl_count log)) \<and>
    tl_count (log_all xs log) = min 4096 (tl_count log + length xs)"
  using assms
proof (induction xs arbitrary: log)
  case Nil
  then show ?case by (simp add: log_all_def)
next
  case (Cons x xs)
  obtain a b c d where x: "x = (a, b, c, d)" by (cases x)
  let ?l = "fst (trace_event a b c d log)"
  have e: "log_all (x # xs) log = log_all xs ?l" by (simp add: log_all_def x)
  note V = trace_event_view [OF Cons.prems, of a b c d]
  have "tl_count ?l \<le> 4096" using V(2) by simp
  note IH = Cons.IH [OF this]
  show ?case
  proof (cases "tl_count log < 4096")
    case True
    then obtain m where m: "4096 - tl_count log = Suc m" "4096 - (tl_count log + 1) = m" by (metis Suc_diff_Suc Suc_eq_plus1)
    then show ?thesis unfolding e using IH V True x by auto
  next
    case False
    then show ?thesis unfolding e using IH V Cons.prems by (simp add: not_less)
  qed
qed


section \<open>Properties\<close>

text \<open>The trace log keeps a prefix of the history: whatever events are recorded, the log holds the first
  4096 of them in order, the name cut to 23 and the detail to 95 characters, and counts
  exactly the events it had to drop.\<close>

lemma trace_keeps_prefix:
  "log_view (log_all xs trace_init) = take 4096 (map stored xs) \<and>
   tl_overflow (log_all xs trace_init) = of_nat (length xs - 4096)"
proof -
  have "tl_count trace_init = 0" "tl_overflow trace_init = 0" "log_view trace_init = []"
    by (simp_all add: trace_init_def log_view_def arr_list_def)
  then show ?thesis using log_all_view [of trace_init xs] by simp
qed

end
