(* ===== verification/Timer.thy ===== *)
theory Timer
  imports Mosrt_Prelude
begin

text \<open>
  \<^verbatim>\<open>timer.c\<close>: the interval timer that asks for rescheduling. The two signal-safe variables,
  whether the handler is installed and the armed interval are the state. \<open>on_sigalrm\<close> is the
  delivery of a signal; whether \<^verbatim>\<open>setitimer\<close> succeeds is a parameter.
\<close>

record timer_state =
  tm_need_resched :: bool
  tm_signal_ticks :: int
  tm_handler :: bool
  tm_interval :: "(u32 \<times> u32) option"

definition zero_timer :: timer_state where
  "zero_timer = \<lparr>tm_need_resched = False, tm_signal_ticks = 0, tm_handler = False, tm_interval = None\<rparr>"

definition on_sigalrm :: "timer_state \<Rightarrow> timer_state" where
  "on_sigalrm g = g\<lparr>tm_need_resched := True, tm_signal_ticks := tm_signal_ticks g + 1\<rparr>"

definition timer_init :: "timer_state \<Rightarrow> timer_state" where
  "timer_init g = g\<lparr>tm_need_resched := False, tm_signal_ticks := 0, tm_handler := True\<rparr>"

definition timer_start :: "bool \<Rightarrow> u32 \<Rightarrow> timer_state \<Rightarrow> bool \<times> timer_state" where
  "timer_start setitimer_ok tick_ms g =
     (let ms = (if tick_ms = 0 then 1 else tick_ms); g1 = timer_init g
      in (setitimer_ok,
          if setitimer_ok then g1\<lparr>tm_interval := Some (ms div 1000, (ms mod 1000) * 1000)\<rparr> else g1))"

definition timer_stop :: "bool \<Rightarrow> timer_state \<Rightarrow> timer_state" where
  "timer_stop setitimer_ok g = (if setitimer_ok then g\<lparr>tm_interval := None\<rparr> else g)"

definition timer_need_resched :: "timer_state \<Rightarrow> bool" where
  "timer_need_resched g = tm_need_resched g"

definition timer_clear_resched :: "timer_state \<Rightarrow> timer_state" where
  "timer_clear_resched g = g\<lparr>tm_need_resched := False\<rparr>"

definition timer_signal_ticks :: "timer_state \<Rightarrow> u64" where
  "timer_signal_ticks g = of_int (tm_signal_ticks g)"

text \<open>The armed interval is a valid \<^verbatim>\<open>timeval\<close> of exactly the requested milliseconds.\<close>

lemma timer_start_interval:
  assumes "timer_start True tick_ms g = (ok, g')"
  obtains sec usec where "tm_interval g' = Some (sec, usec)" "unat usec < 1000000"
    "unat sec * 1000000 + unat usec = (if tick_ms = 0 then 1 else unat tick_ms) * 1000"
proof -
  define ms where "ms = (if tick_ms = 0 then 1 else tick_ms)"
  have i: "tm_interval g' = Some (ms div 1000, (ms mod 1000) * 1000)"
    using assms by (auto simp: timer_start_def Let_def ms_def)
  have m: "unat (ms mod 1000) = unat ms mod 1000" "unat (ms div 1000) = unat ms div 1000"
    by (simp_all add: unat_mod unat_div)
  have u: "unat ((ms mod 1000) * 1000) = unat ms mod 1000 * 1000"
    using m(1) by (subst unat_mult_lem [THEN iffD1]) simp_all
  have "unat ms div 1000 * 1000000 + unat ms mod 1000 * 1000 = unat ms * 1000"
    using div_mult_mod_eq [of "unat ms" 1000] by linarith
  moreover have "unat ms = (if tick_ms = 0 then 1 else unat tick_ms)" by (simp add: ms_def)
  ultimately show ?thesis using that [OF i] m(2) u by simp
qed

end
