(* ===== verification/Workload.thy ===== *)
theory Workload
  imports C_Text
begin

text \<open>
  \<^verbatim>\<open>workload.c\<close>: the parser of workload scripts. The file system is the parameter \<open>files\<close>,
  the bytes of each readable path. A failing load returns the text of the caller's error
  buffer; a successful one the workload. The output parameter is only read after success.
\<close>

definition MOSRT_MAX_WORKLOAD_INSNS :: nat where "MOSRT_MAX_WORKLOAD_INSNS = 128"

lemma workload_consts [simp]: "MOSRT_MAX_WORKLOAD_INSNS = 128"
  by (simp add: MOSRT_MAX_WORKLOAD_INSNS_def)

datatype workload_op =
    WORKLOAD_CPU | WORKLOAD_IO | WORKLOAD_SEND | WORKLOAD_RECV | WORKLOAD_SEM_WAIT | WORKLOAD_SEM_POST
  | WORKLOAD_LOCK | WORKLOAD_UNLOCK | WORKLOAD_MMAP | WORKLOAD_ACCESS | WORKLOAD_MFREE | WORKLOAD_EXIT

record workload_insn =
  wi_op :: workload_op
  wi_arg0 :: int
  wi_arg1 :: int
  wi_ticks :: u64

record workload_t =
  wl_name :: string
  wl_insns :: "workload_insn carray"
  wl_count :: nat

definition zero_insn :: workload_insn where
  "zero_insn = \<lparr>wi_op = WORKLOAD_CPU, wi_arg0 = 0, wi_arg1 = 0, wi_ticks = 0\<rparr>"

definition zero_workload :: workload_t where
  "zero_workload = \<lparr>wl_name = [], wl_insns = (\<lambda>_. zero_insn), wl_count = 0\<rparr>"


section \<open>Fields\<close>

definition is_space :: "char \<Rightarrow> bool" where
  "is_space c \<longleftrightarrow> c = CHR '' '' \<or> c = CHR 0x09 \<or> c = nl \<or> c = CHR 0x0D \<or> c = CHR 0x0B \<or> c = CHR 0x0C"

definition trim :: "string \<Rightarrow> string" where
  "trim s = rev (dropWhile is_space (rev (dropWhile is_space s)))"

definition parse_u64 :: "string \<Rightarrow> u64 option" where
  "parse_u64 s =
     (case strtoull s of
        None \<Rightarrow> None
      | Some (v, end, erange) \<Rightarrow> if end \<noteq> [] \<or> erange then None else Some v)"

definition parse_i32 :: "string \<Rightarrow> int option" where
  "parse_i32 s =
     (case strtol s of
        None \<Rightarrow> None
      | Some (v, end, erange) \<Rightarrow> if end \<noteq> [] \<or> erange \<or> v < INT_MIN \<or> INT_MAX < v then None else Some v)"

definition add_insn :: "workload_t \<Rightarrow> workload_insn \<Rightarrow> nat \<Rightarrow> string + workload_t" where
  "add_insn w insn errsz =
     (if MOSRT_MAX_WORKLOAD_INSNS \<le> wl_count w then Inl (snprintf errsz ''too many workload instructions'')
      else Inr (w\<lparr>wl_insns := (wl_insns w)(wl_count w := insn), wl_count := wl_count w + 1\<rparr>))"


section \<open>Loading\<close>

definition at_line :: "string \<Rightarrow> u32 \<Rightarrow> string \<Rightarrow> string" where
  "at_line path lineno msg = path @ '':'' @ dec_word lineno @ '': '' @ msg"

text \<open>The chain of conditions on the fields \<^verbatim>\<open>argv[0..argc-1]\<close> of a line.\<close>

definition parse_fields :: "string \<Rightarrow> u32 \<Rightarrow> string list \<Rightarrow> nat \<Rightarrow> string + workload_insn" where
  "parse_fields path lineno argv errsz =
     (let argc = length argv;
          i32 = (\<lambda>k. parse_i32 (argv ! k));
          one = (\<lambda>op. Inr (zero_insn\<lparr>wi_op := op, wi_arg0 := the (i32 1)\<rparr>));
          two = (\<lambda>op. Inr (zero_insn\<lparr>wi_op := op, wi_arg0 := the (i32 1), wi_arg1 := the (i32 2)\<rparr>));
          burst = (\<lambda>op msg.
            (let t = the (parse_u64 (argv ! 1))
             in if t = 0 then Inl (snprintf errsz (at_line path lineno msg))
                else Inr (zero_insn\<lparr>wi_op := op, wi_ticks := t\<rparr>)))
      in if argv ! 0 = ''CPU'' \<and> argc = 2 \<and> parse_u64 (argv ! 1) \<noteq> None then
           burst WORKLOAD_CPU ''CPU burst must be greater than zero''
         else if argv ! 0 = ''IO'' \<and> argc = 2 \<and> parse_u64 (argv ! 1) \<noteq> None then
           burst WORKLOAD_IO ''IO burst must be greater than zero''
         else if argv ! 0 = ''SEND'' \<and> argc = 3 \<and> i32 1 \<noteq> None \<and> i32 2 \<noteq> None then two WORKLOAD_SEND
         else if argv ! 0 = ''RECV'' \<and> argc = 2 \<and> i32 1 \<noteq> None then one WORKLOAD_RECV
         else if argv ! 0 = ''SEM_WAIT'' \<and> argc = 2 \<and> i32 1 \<noteq> None then one WORKLOAD_SEM_WAIT
         else if argv ! 0 = ''SEM_POST'' \<and> argc = 2 \<and> i32 1 \<noteq> None then one WORKLOAD_SEM_POST
         else if argv ! 0 = ''LOCK'' \<and> argc = 2 \<and> i32 1 \<noteq> None then one WORKLOAD_LOCK
         else if argv ! 0 = ''UNLOCK'' \<and> argc = 2 \<and> i32 1 \<noteq> None then one WORKLOAD_UNLOCK
         else if argv ! 0 = ''MMAP'' \<and> argc = 2 \<and> i32 1 \<noteq> None then one WORKLOAD_MMAP
         else if argv ! 0 = ''ACCESS'' \<and> argc = 3 \<and> i32 1 \<noteq> None \<and> i32 2 \<noteq> None then two WORKLOAD_ACCESS
         else if argv ! 0 = ''MFREE'' \<and> argc = 1 then Inr (zero_insn\<lparr>wi_op := WORKLOAD_MFREE\<rparr>)
         else if argv ! 0 = ''EXIT'' \<and> argc = 1 then Inr (zero_insn\<lparr>wi_op := WORKLOAD_EXIT\<rparr>)
         else Inl (snprintf errsz (at_line path lineno ''invalid instruction'')))"

text \<open>The body of the reading loop for one buffer of text.\<close>

definition load_line :: "string \<Rightarrow> u32 \<Rightarrow> string \<Rightarrow> nat \<Rightarrow> workload_t \<Rightarrow> string + workload_t" where
  "load_line path lineno line errsz out =
     (let body = trim (takeWhile (\<lambda>c. c \<noteq> CHR ''#'') (c_str line)); toks = tokens blanks body; argv = take 4 toks
      in if body = [] then Inr out
         else if 4 < length toks then Inl (snprintf errsz (at_line path lineno ''too many instruction fields''))
         else if length argv = 0 then Inr out
         else case parse_fields path lineno argv errsz of
                Inl err \<Rightarrow> Inl err
              | Inr insn \<Rightarrow> add_insn out insn errsz)"

function load_lines :: "string \<Rightarrow> u32 \<Rightarrow> nat \<Rightarrow> workload_t \<Rightarrow> string \<Rightarrow> string + workload_t" where
  "load_lines path lineno errsz out fp =
     (case fgets 256 fp of
        None \<Rightarrow> Inr out
      | Some (line, fp') \<Rightarrow>
          (case load_line path (lineno + 1) line errsz out of
             Inl err \<Rightarrow> Inl err
           | Inr out' \<Rightarrow> load_lines path (lineno + 1) errsz out' fp'))"
  by pat_completeness auto
termination
  by (relation "measure (\<lambda>(p, l, e, out, fp). length fp)")
     (auto simp: fgets_def split: if_splits dest!: sym [where t = "read_line _ _"], metis read_line_shorter snd_conv zero_less_numeral)

declare load_lines.simps [simp del]

definition workload_load :: "(string \<Rightarrow> string option) \<Rightarrow> string \<Rightarrow> nat \<Rightarrow> string + workload_t" where
  "workload_load files path errsz =
     (if errsz = 0 then Inl []
      else case files path of
             None \<Rightarrow> Inl (snprintf errsz (''failed to open workload '' @ [CHR 0x27] @ path @ [CHR 0x27]))
           | Some fp \<Rightarrow>
               (case load_lines path 0 errsz (zero_workload\<lparr>wl_name := snprintf 128 path\<rparr>) fp of
                  Inl err \<Rightarrow> Inl err
                | Inr out \<Rightarrow>
                    if wl_count out = 0 \<or> wi_op (wl_insns out (wl_count out - 1)) \<noteq> WORKLOAD_EXIT
                    then add_insn out (zero_insn\<lparr>wi_op := WORKLOAD_EXIT\<rparr>) errsz
                    else Inr out))"

definition workload_op_name :: "workload_op \<Rightarrow> string" where
  "workload_op_name op =
     (case op of
        WORKLOAD_CPU \<Rightarrow> ''CPU'' | WORKLOAD_IO \<Rightarrow> ''IO'' | WORKLOAD_SEND \<Rightarrow> ''SEND'' | WORKLOAD_RECV \<Rightarrow> ''RECV''
      | WORKLOAD_SEM_WAIT \<Rightarrow> ''SEM_WAIT'' | WORKLOAD_SEM_POST \<Rightarrow> ''SEM_POST'' | WORKLOAD_LOCK \<Rightarrow> ''LOCK''
      | WORKLOAD_UNLOCK \<Rightarrow> ''UNLOCK'' | WORKLOAD_MMAP \<Rightarrow> ''MMAP'' | WORKLOAD_ACCESS \<Rightarrow> ''ACCESS''
      | WORKLOAD_MFREE \<Rightarrow> ''MFREE'' | WORKLOAD_EXIT \<Rightarrow> ''EXIT'')"


section \<open>Well-typed workloads\<close>

definition is_i32 :: "int \<Rightarrow> bool" where
  "is_i32 i \<longleftrightarrow> INT_MIN \<le> i \<and> i \<le> INT_MAX"

text \<open>The operands of an instruction are those of its operation code, within their C types.\<close>

definition insn_wf :: "workload_insn \<Rightarrow> bool" where
  "insn_wf i \<longleftrightarrow>
     (if wi_op i \<in> {WORKLOAD_CPU, WORKLOAD_IO} then wi_ticks i \<noteq> 0 \<and> wi_arg0 i = 0 \<and> wi_arg1 i = 0
      else wi_ticks i = 0 \<and>
        (if wi_op i \<in> {WORKLOAD_SEND, WORKLOAD_ACCESS} then is_i32 (wi_arg0 i) \<and> is_i32 (wi_arg1 i)
         else wi_arg1 i = 0 \<and> (if wi_op i \<in> {WORKLOAD_MFREE, WORKLOAD_EXIT} then wi_arg0 i = 0 else is_i32 (wi_arg0 i))))"

definition workload_wf :: "workload_t \<Rightarrow> bool" where
  "workload_wf w \<longleftrightarrow>
     0 < wl_count w \<and> wl_count w \<le> 128 \<and> (\<forall>i < wl_count w. insn_wf (wl_insns w i)) \<and>
     wi_op (wl_insns w (wl_count w - 1)) = WORKLOAD_EXIT"

definition insns_wf :: "workload_t \<Rightarrow> bool" where
  "insns_wf w \<longleftrightarrow> wl_count w \<le> 128 \<and> (\<forall>i < wl_count w. insn_wf (wl_insns w i))"

lemma parse_i32_range: "parse_i32 s = Some v \<Longrightarrow> is_i32 v"
  by (auto simp: parse_i32_def is_i32_def split: option.splits if_splits)

lemma parse_fields_wf: "parse_fields path lineno argv errsz = Inr i \<Longrightarrow> insn_wf i"
  by (auto simp: parse_fields_def Let_def insn_wf_def zero_insn_def dest: parse_i32_range split: if_splits)

lemma add_insn_wf:
  "add_insn w i errsz = Inr w' \<Longrightarrow> insns_wf w \<Longrightarrow> insn_wf i \<Longrightarrow> insns_wf w' \<and> wl_count w' = wl_count w + 1 \<and>
     wl_insns w' (wl_count w) = i \<and> wl_name w' = wl_name w"
  by (auto simp: add_insn_def insns_wf_def less_Suc_eq split: if_splits)

lemma load_line_wf: "load_line path lineno line errsz w = Inr w' \<Longrightarrow> insns_wf w \<Longrightarrow> insns_wf w' \<and> wl_name w' = wl_name w"
  by (auto simp: load_line_def Let_def dest: parse_fields_wf add_insn_wf split: if_splits sum.splits)

lemma load_lines_wf:
  "load_lines path lineno errsz w fp = Inr w' \<Longrightarrow> insns_wf w \<Longrightarrow> insns_wf w' \<and> wl_name w' = wl_name w"
proof (induction path lineno errsz w fp rule: load_lines.induct)
  case (1 path lineno errsz out fp)
  show ?case
  proof (cases "fgets 256 fp")
    case None
    then show ?thesis using 1(2,3) by (simp add: load_lines.simps [of path lineno])
  next
    case (Some x)
    obtain line fp' where x: "x = (line, fp')" by fastforce
    obtain o' where o: "load_line path (lineno + 1) line errsz out = Inr o'" "load_lines path (lineno + 1) errsz o' fp' = Inr w'"
      using 1(2) by (auto simp: load_lines.simps [of path lineno] Some x split: sum.splits)
    then show ?thesis using 1(1) [OF Some x [symmetric] o(1) o(2)] load_line_wf [OF o(1) 1(3)] by simp
  qed
qed

lemma workload_load_cases:
  assumes "workload_load files path errsz = Inr w"
  obtains fp out where "files path = Some fp" "load_lines path 0 errsz (zero_workload\<lparr>wl_name := snprintf 128 path\<rparr>) fp = Inr out"
    "(if wl_count out = 0 \<or> wi_op (wl_insns out (wl_count out - 1)) \<noteq> WORKLOAD_EXIT
      then add_insn out (zero_insn\<lparr>wi_op := WORKLOAD_EXIT\<rparr>) errsz else Inr out) = Inr w"
  using assms by (auto simp: workload_load_def split: if_splits option.splits sum.splits)

lemma workload_load_type:
  assumes "workload_load files path errsz = Inr w"
  shows "workload_wf w \<and> wl_name w = take 127 path"
proof -
  obtain fp out where o: "load_lines path 0 errsz (zero_workload\<lparr>wl_name := snprintf 128 path\<rparr>) fp = Inr out"
    "(if wl_count out = 0 \<or> wi_op (wl_insns out (wl_count out - 1)) \<noteq> WORKLOAD_EXIT
      then add_insn out (zero_insn\<lparr>wi_op := WORKLOAD_EXIT\<rparr>) errsz else Inr out) = Inr w"
    by (rule workload_load_cases [OF assms])
  have "insns_wf out \<and> wl_name out = snprintf 128 path"
    using load_lines_wf [OF o(1)] by (simp add: insns_wf_def zero_workload_def)
  moreover have "insn_wf (zero_insn\<lparr>wi_op := WORKLOAD_EXIT\<rparr>)" by (simp add: insn_wf_def zero_insn_def)
  ultimately show ?thesis
    using o(2) add_insn_wf [of out "zero_insn\<lparr>wi_op := WORKLOAD_EXIT\<rparr>" errsz w]
    by (auto simp: workload_wf_def insns_wf_def snprintf_def split: if_splits)
qed


section \<open>Scripts\<close>

text \<open>A workload written as a script, one instruction per line.\<close>

definition operands :: "workload_insn \<Rightarrow> string list" where
  "operands i =
     (if wi_op i \<in> {WORKLOAD_CPU, WORKLOAD_IO} then [dec_word (wi_ticks i)]
      else if wi_op i \<in> {WORKLOAD_SEND, WORKLOAD_ACCESS} then [dec_int (wi_arg0 i), dec_int (wi_arg1 i)]
      else if wi_op i \<in> {WORKLOAD_MFREE, WORKLOAD_EXIT} then []
      else [dec_int (wi_arg0 i)])"

definition insn_fields :: "workload_insn \<Rightarrow> string list" where
  "insn_fields i = workload_op_name (wi_op i) # operands i"

fun join_fields :: "string list \<Rightarrow> string" where
  "join_fields [] = []"
| "join_fields [f] = f"
| "join_fields (f # fs) = f @ CHR '' '' # join_fields fs"

definition script :: "workload_insn list \<Rightarrow> string" where
  "script is = concat (map (\<lambda>i. join_fields (insn_fields i) @ [nl]) is)"

definition insn_list :: "workload_t \<Rightarrow> workload_insn list" where
  "insn_list w = arr_list (wl_insns w) (wl_count w)"

definition plain :: "char \<Rightarrow> bool" where
  "plain c \<longleftrightarrow> \<not> is_space c \<and> c \<noteq> CHR ''#'' \<and> c \<noteq> nul"

definition plain_word :: "string \<Rightarrow> bool" where
  "plain_word f \<longleftrightarrow> f \<noteq> [] \<and> list_all plain f"

lemma plain_digit: "isdigit c \<Longrightarrow> plain c"
  using isdigit_not(1,4,5) [of c] by (auto simp: plain_def is_space_def isspace_def)

lemma plain_dec [simp]: "plain_word (dec_nat n)" "plain_word (dec_int i)" "plain_word (dec_word x)"
proof -
  show n: "plain_word (dec_nat n)" for n using dec_nat_digits [of n] plain_digit by (auto simp: plain_word_def list_all_iff)
  show "plain_word (dec_word x)" by (simp add: dec_word_def n)
  show "plain_word (dec_int i)" using n [of "nat (- i)"] n [of "nat i"] by (simp add: dec_int_def plain_word_def) (simp add: plain_def is_space_def)
qed

lemma plain_op_name [simp]: "plain_word (workload_op_name op)"
  by (cases op) (simp_all add: workload_op_name_def plain_word_def plain_def is_space_def)

lemma plain_fields: "list_all plain_word (insn_fields i)" "insn_fields i \<noteq> []" "length (insn_fields i) \<le> 3"
  by (simp_all add: insn_fields_def operands_def)

lemma blanks_space: "c \<in> blanks \<Longrightarrow> is_space c"
  by (auto simp: blanks_def is_space_def)

lemma tokens_join:
  "list_all plain_word fs \<Longrightarrow> tokens blanks (join_fields fs) = fs"
proof (induction fs rule: join_fields.induct)
  case 1
  then show ?case by simp
next
  have d: "f \<noteq> [] \<and> set f \<inter> blanks = {}" if "plain_word f" for f
    using that blanks_space by (auto simp: plain_word_def plain_def list_all_iff)
  have b: "CHR '' '' \<in> blanks" by (simp add: blanks_def)
  {
    case (2 f)
    then show ?case using d [of f] tokens_Cons(2) [of f blanks, OF _ _ b] by simp
  next
    case (3 f g fs)
    then show ?case using d [of f] tokens_Cons(1) [of f blanks, OF _ _ b] by simp
  }
qed

text \<open>The characters of joined fields; the first and the last are not white space.\<close>

lemma join_chars:
  assumes "list_all plain_word fs"
  shows "c \<in> set (join_fields fs) \<Longrightarrow> plain c \<or> c = CHR '' ''"
    and "fs \<noteq> [] \<Longrightarrow> join_fields fs \<noteq> [] \<and> plain (hd (join_fields fs)) \<and> plain (last (join_fields fs))"
proof -
  have ends: "f \<noteq> []" "plain (hd f)" "plain (last f)" if "plain_word f" for f
    using that by (auto simp: plain_word_def list_all_iff)
  have "(c \<in> set (join_fields fs) \<longrightarrow> plain c \<or> c = CHR '' '') \<and>
    (fs \<noteq> [] \<longrightarrow> join_fields fs \<noteq> [] \<and> plain (hd (join_fields fs)) \<and> plain (last (join_fields fs)))"
    using assms
  proof (induction fs rule: join_fields.induct)
    case (2 f)
    then show ?case using ends [of f] by (auto simp: plain_word_def list_all_iff)
  next
    case (3 f g fs)
    then show ?case using ends [of f] by (auto simp: plain_word_def list_all_iff)
  qed simp
  then show "c \<in> set (join_fields fs) \<Longrightarrow> plain c \<or> c = CHR '' ''"
    "fs \<noteq> [] \<Longrightarrow> join_fields fs \<noteq> [] \<and> plain (hd (join_fields fs)) \<and> plain (last (join_fields fs))" by blast+
qed

lemma trim_line:
  assumes "s \<noteq> []" "\<not> is_space (hd s)" "\<not> is_space (last s)"
  shows "trim (s @ [nl]) = s"
proof -
  have "dropWhile is_space (s @ [nl]) = s @ [nl]" using assms(1,2) by (cases s) auto
  moreover have "dropWhile is_space (rev s) = rev s" using assms(1,3) by (cases s rule: rev_cases) auto
  moreover have "is_space nl" by (simp add: is_space_def)
  ultimately show ?thesis by (simp add: trim_def)
qed

lemma parse_fields_render:
  assumes "insn_wf i"
  shows "parse_fields path lineno (insn_fields i) errsz = Inr i"
proof -
  have u: "parse_u64 (dec_word x) = Some x" for x by (simp add: parse_u64_def strtoull_dec)
  have s: "parse_i32 (dec_int v) = Some v" if "is_i32 v" for v
    using that by (subst parse_i32_def, subst strtol_dec) (auto simp: is_i32_def INT_MIN_def INT_MAX_def)
  show ?thesis
    using assms by (cases i, cases "wi_op i")
      (simp_all add: insn_wf_def insn_fields_def operands_def workload_op_name_def parse_fields_def zero_insn_def u s)
qed

lemma load_line_render:
  assumes "insn_wf i"
  shows "load_line path lineno (join_fields (insn_fields i) @ [nl]) errsz out = add_insn out i errsz"
proof -
  let ?s = "join_fields (insn_fields i)"
  note F = plain_fields [of i]
  note J = join_chars [OF F(1)]
  have "c \<noteq> nul \<and> c \<noteq> CHR ''#''" if "c \<in> set (?s @ [nl])" for c
    using J(1) [of c] that by (auto simp: plain_def)
  then have "takeWhile (\<lambda>c. c \<noteq> nul) (?s @ [nl]) = ?s @ [nl]" "takeWhile (\<lambda>c. c \<noteq> CHR ''#'') (?s @ [nl]) = ?s @ [nl]"
    by (blast intro: takeWhile_eq_all_conv [THEN iffD2])+
  then have "takeWhile (\<lambda>c. c \<noteq> CHR ''#'') (c_str (?s @ [nl])) = ?s @ [nl]" unfolding c_str_def by metis
  moreover have "trim (?s @ [nl]) = ?s"
    using J(2) [OF F(2)] by (intro trim_line) (simp_all add: plain_def)
  ultimately show ?thesis
    using J(2) [OF F(2)] F(2,3) parse_fields_render [OF assms] by (simp add: load_line_def tokens_join [OF F(1)])
qed

lemma dec_nat_length: "n < 10 ^ k \<Longrightarrow> 0 < k \<Longrightarrow> length (dec_nat n) \<le> k"
proof (induction k arbitrary: n)
  case (Suc k)
  show ?case
  proof (cases "n < 10")
    case True
    then show ?thesis by (subst dec_nat_rec) simp
  next
    case False
    then have "k \<noteq> 0" "n div 10 < 10 ^ k" using Suc.prems(1) by (auto intro!: Suc_leI gr0I simp: less_mult_imp_div_less mult.commute)
    then show ?thesis using Suc.IH [of "n div 10"] False by (subst dec_nat_rec) simp
  qed
qed simp


lemma insn_line_length: "length (join_fields (insn_fields i)) < 255" if "insn_wf i"
proof -
  have w: "length (dec_word (x :: u64)) \<le> 20" for x
    using unsigned_less [of x, where 'a = nat] by (auto simp: dec_word_def intro!: dec_nat_length)
  have d: "length (dec_int v) \<le> 12" if "is_i32 v" for v
  proof -
    have "nat (- v) < 10 ^ 10" "nat v < 10 ^ 10" using that by (auto simp: is_i32_def INT_MIN_def INT_MAX_def nat_less_iff)
    then show ?thesis using dec_nat_length [of "nat (- v)" 10] dec_nat_length [of "nat v" 10] by (simp add: dec_int_def)
  qed
  have "length (workload_op_name (wi_op i)) \<le> 8" by (cases "wi_op i") (simp_all add: workload_op_name_def)
  then show ?thesis using that w [of "wi_ticks i"] d [of "wi_arg0 i"] d [of "wi_arg1 i"]
    by (auto simp: insn_fields_def operands_def insn_wf_def split: if_splits)
qed

lemma insn_line_no_nl: "nl \<notin> set (join_fields (insn_fields i))"
  using join_chars(1) [OF plain_fields(1), of nl i] by (auto simp: plain_def is_space_def)

lemma load_script:
  assumes "list_all insn_wf is" "wl_count out + length is \<le> 128"
  shows "\<exists>w. load_lines path lineno errsz out (script is) = Inr w \<and> insn_list w = insn_list out @ is \<and> wl_name w = wl_name out"
  using assms
proof (induction "is" arbitrary: out lineno)
  case Nil
  then show ?case by (simp add: script_def load_lines.simps [of path lineno] fgets_def)
next
  case (Cons i "is")
  let ?o = "out\<lparr>wl_insns := (wl_insns out)(wl_count out := i), wl_count := wl_count out + 1\<rparr>"
  have s: "script (i # is) = join_fields (insn_fields i) @ nl # script is" by (simp add: script_def)
  have wf: "insn_wf i" using Cons.prems(1) by simp
  have "fgets 256 (script (i # is)) = Some (join_fields (insn_fields i) @ [nl], script is)"
    unfolding s by (rule fgets_line [OF insn_line_no_nl]) (use insn_line_length [OF wf] in simp)
  moreover have "load_line path (lineno + 1) (join_fields (insn_fields i) @ [nl]) errsz out = Inr ?o"
    using Cons.prems(2) by (simp add: load_line_render [OF wf] add_insn_def)
  ultimately have "load_lines path lineno errsz out (script (i # is)) = load_lines path (lineno + 1) errsz ?o (script is)"
    by (simp add: load_lines.simps [of path lineno])
  moreover have "insn_list ?o = insn_list out @ [i]" by (simp add: insn_list_def arr_list_def)
  ultimately show ?case using Cons.IH [of ?o "lineno + 1"] Cons.prems by simp
qed

lemma workload_wf_list:
  assumes "workload_wf w"
  shows "list_all insn_wf (insn_list w)" "length (insn_list w) = wl_count w" "wl_count w \<le> 128"
  using assms by (auto simp: workload_wf_def insn_list_def list_all_iff set_arr_list)

lemma workload_reload:
  assumes "workload_wf w" "files path = Some (script (insn_list w))" "0 < errsz"
  shows "\<exists>w'. workload_load files path errsz = Inr w' \<and> insn_list w' = insn_list w \<and> wl_name w' = take 127 path"
proof -
  let ?z = "zero_workload\<lparr>wl_name := snprintf 128 path\<rparr>"
  have z: "insn_list ?z = []" "wl_count ?z = 0" by (simp_all add: insn_list_def zero_workload_def arr_list_def)
  obtain w' where w': "load_lines path 0 errsz ?z (script (insn_list w)) = Inr w'" "insn_list w' = insn_list w" "wl_name w' = take 127 path"
    using load_script [of "insn_list w" ?z path 0 errsz] workload_wf_list [OF assms(1)] z by (auto simp: snprintf_def)
  have c: "wl_count w' = wl_count w" using arg_cong [OF w'(2), of length] by (simp add: insn_list_def)
  have "wl_insns w' (wl_count w - 1) = wl_insns w (wl_count w - 1)"
    using arg_cong [OF w'(2), of "\<lambda>l. l ! (wl_count w - 1)"] assms(1) c by (simp add: insn_list_def workload_wf_def)
  then show ?thesis using assms w' c by (auto simp: workload_load_def workload_wf_def)
qed


section \<open>Properties\<close>

text \<open>C38. Type safety of loading: a workload the parser accepts has between 1 and 128 instructions, ends with
  EXIT, and each instruction has exactly the operands of its operation code, every burst
  greater than zero and every integer within the range of its C type.\<close>

theorem workload_load_well_typed:
  assumes "workload_load files path errsz = Inr w"
  shows "workload_wf w \<and> wl_name w = take 127 path"
  using assms by (rule workload_load_type)

text \<open>C39. Workload scripts round-trip: the script of a loaded workload, one instruction per line, loads again
  and gives the same instructions in the same order.\<close>

theorem workload_script_roundtrip:
  assumes "workload_load files path errsz = Inr w" "files' path' = Some (script (insn_list w))" "0 < errsz'"
  shows "\<exists>w'. workload_load files' path' errsz' = Inr w' \<and> insn_list w' = insn_list w \<and> wl_count w' = wl_count w"
proof -
  have "workload_wf w" using workload_load_type [OF assms(1)] ..
  then obtain w' where w': "workload_load files' path' errsz' = Inr w'" "insn_list w' = insn_list w"
    using workload_reload [of w files' path' errsz'] assms(2,3) by blast
  have "wl_count w' = wl_count w" using arg_cong [OF w'(2), of length] by (simp add: insn_list_def)
  then show ?thesis using w' by blast
qed

text \<open>A minus sign in a burst is not refused: \<^verbatim>\<open>strtoull\<close> negates modulo \<open>2 ^ 64\<close>, so \<^verbatim>\<open>CPU -n\<close> is a
  burst of \<open>2 ^ 64 - n\<close> ticks.\<close>

lemma negative_burst_accepted:
  assumes "0 < n" "n < 2 ^ 64"
  shows "parse_fields path lineno [''CPU'', CHR ''-'' # dec_nat n] errsz =
    Inr (zero_insn\<lparr>wi_op := WORKLOAD_CPU, wi_ticks := of_nat (2 ^ 64 - n)\<rparr>)"
proof -
  have "dec_int (- int n) = CHR ''-'' # dec_nat n" using assms(1) by (simp add: dec_int_def)
  then have "scan_number (CHR ''-'' # dec_nat n) = (True, dec_nat n, [])"
    using scan_number_dec [of "- int n"] assms(1) by simp
  moreover have "- of_nat n = (of_nat (2 ^ 64 - n) :: u64)"
  proof -
    have "of_nat n + of_nat (2 ^ 64 - n) = (of_nat (2 ^ 64) :: u64)" using assms(2) by (simp flip: of_nat_add)
    also have "\<dots> = 0" by simp
    finally show ?thesis by (simp add: add_eq_0_iff2 minus_equation_iff)
  qed
  ultimately have p: "parse_u64 (CHR ''-'' # dec_nat n) = Some (of_nat (2 ^ 64 - n))"
    using dec_nat_digits [of n] assms(2) by (simp add: parse_u64_def strtoull_def)
  have "(of_nat (2 ^ 64 - n) :: u64) \<noteq> 0"
  proof -
    obtain k where k: "k = 2 ^ 64 - n" by blast
    then have "0 < k" "k < 2 ^ 64" using assms by simp_all
    then show ?thesis unfolding k [symmetric] word_of_nat_eq_0_iff by (simp add: nat_dvd_not_less)
  qed
  then show ?thesis using p by (simp add: parse_fields_def)
qed

definition sample_files :: "string \<Rightarrow> string option" where
  "sample_files path = (if path = ''a.wl'' then Some (''CPU 3 # burst'' @ [nl] @ ''SEND 1 -7'' @ [nl]) else None)"

lemma sample_load:
  "(case workload_load sample_files ''a.wl'' 160 of Inl err \<Rightarrow> None | Inr w \<Rightarrow> Some (wl_name w, insn_list w)) =
     Some (''a.wl'',
       [zero_insn\<lparr>wi_ticks := 3\<rparr>, zero_insn\<lparr>wi_op := WORKLOAD_SEND, wi_arg0 := 1, wi_arg1 := -7\<rparr>,
        zero_insn\<lparr>wi_op := WORKLOAD_EXIT\<rparr>])"
  by code_simp

theorem workload_load_well_typed_witness:
  "\<exists>w. workload_load sample_files ''a.wl'' 160 = Inr w \<and> workload_wf w"
  using sample_load workload_load_well_typed [of sample_files "''a.wl''" 160] by (auto split: sum.splits)

theorem workload_script_roundtrip_witness:
  "\<exists>w'. workload_load (\<lambda>_. Some (''CPU 3'' @ [nl] @ ''SEND 1 -7'' @ [nl] @ ''EXIT'' @ [nl])) ''b.wl'' 160 = Inr w' \<and> wl_count w' = 3"
proof -
  obtain w where w: "workload_load sample_files ''a.wl'' 160 = Inr w"
    "insn_list w = [zero_insn\<lparr>wi_ticks := 3\<rparr>, zero_insn\<lparr>wi_op := WORKLOAD_SEND, wi_arg0 := 1, wi_arg1 := -7\<rparr>, zero_insn\<lparr>wi_op := WORKLOAD_EXIT\<rparr>]"
    using sample_load by (auto split: sum.splits)
  have "script (insn_list w) = ''CPU 3'' @ [nl] @ ''SEND 1 -7'' @ [nl] @ ''EXIT'' @ [nl]"
    unfolding w(2) by code_simp
  moreover have "wl_count w = 3" using arg_cong [OF w(2), of length] by (simp add: insn_list_def)
  ultimately show ?thesis
    using workload_script_roundtrip [OF w(1), of "\<lambda>_. Some (''CPU 3'' @ [nl] @ ''SEND 1 -7'' @ [nl] @ ''EXIT'' @ [nl])" "''b.wl''" 160]
    by auto
qed

end
