(* ===== verification/Report.thy ===== *)
theory Report
  imports VM Sched C_Text
begin

text \<open>
  The functions that print the state: \<^verbatim>\<open>proc_dump\<close>, \<^verbatim>\<open>sched_dump\<close>, \<^verbatim>\<open>page_table_dump\<close>,
  \<^verbatim>\<open>tlb_dump\<close> and the \<^verbatim>\<open>vm_dump_*\<close> functions. Each returns the text it writes to its stream.
\<close>

section \<open>Processes and ready queues\<close>

definition proc_dump_row :: "pcb \<Rightarrow> string" where
  "proc_dump_row p =
     pad_left 3 (dec_int (p_pid p)) @ '' '' @ pad_left 4 (dec_int (p_ppid p)) @ '' '' @
     pad_right 8 (proc_state_to_string (p_state p)) @ '' '' @ pad_left 4 (dec_int (p_priority p)) @ '' '' @
     pad_left 1 (dec_word (p_mlfq_level p)) @ '' '' @ pad_left 3 (dec_word (p_cpu_time p)) @ '' '' @
     pad_left 4 (dec_word (p_wait_time p)) @ '' '' @
     (if p_response_time p = UINT64_MAX then ''  NA '' else pad_left 4 (dec_word (p_response_time p)) @ '' '') @
     pad_left 5 (dec_word (p_start_tick p)) @ '' '' @ pad_left 6 (dec_word (p_finish_tick p)) @ '' '' @
     pad_left 4 (dec_word (p_wakeup_tick p)) @ '' '' @ pad_left 4 (dec_int (p_exit_code p)) @ [nl]"

definition proc_dump :: "process_table \<Rightarrow> string" where
  "proc_dump t =
     ''PID PPID STATE    PRIO Q CPU WAIT RESP START FINISH WAKE EXIT'' @ [nl] @
     concat (map (\<lambda>i. if p_used (entries t i) then proc_dump_row (entries t i) else []) [0..<MOSRT_MAX_PROCS])"

definition dump_ring :: "ring \<Rightarrow> string" where
  "dump_ring r =
     concat (map (\<lambda>i. '' '' @ dec_int (r_items r ((r_head r + i) mod MOSRT_MAX_PROCS))) [0..<r_len r])"

definition sched_dump :: "scheduler \<Rightarrow> string" where
  "sched_dump s =
     ''scheduler='' @ sched_algo_name (s_algo s) @ '' quantum='' @ dec_word (s_quantum_ticks s) @
     '' current='' @ dec_int (s_current_pid s) @ [nl] @
     (if s_algo s = SCHED_MLFQ then
        concat (map (\<lambda>q. ''Q'' @ dec_nat q @ '':'' @ dump_ring (s_mlfq s q) @ [nl]) [0..<MOSRT_MLFQ_LEVELS])
      else if s_algo s = SCHED_PRIO then
        ''heap:'' @ concat (map (\<lambda>i. '' '' @ dec_int (s_heap s i)) [0..<s_heap_len s]) @ [nl]
      else ''ready:'' @ dump_ring (s_rr s) @ [nl])"


section \<open>Memory\<close>

definition VM_SEG_TEXT_START :: nat where "VM_SEG_TEXT_START = 0x0000"
definition VM_SEG_RODATA_START :: nat where "VM_SEG_RODATA_START = 0x1000"
definition VM_SEG_DATA_START :: nat where "VM_SEG_DATA_START = 0x2000"
definition VM_SEG_BSS_START :: nat where "VM_SEG_BSS_START = 0x3000"

text \<open>\<^verbatim>\<open>%02X\<close> and \<^verbatim>\<open>%04X\<close>.\<close>

definition hex2 :: "'a::len word \<Rightarrow> string" where "hex2 x = ''0x'' @ pad_zero 2 (hex_nat (unat x))"
definition hex4 :: "'a::len word \<Rightarrow> string" where "hex4 x = ''0x'' @ pad_zero 4 (hex_nat (unat x))"

definition yes_no :: "bool \<Rightarrow> string" where "yes_no b = (if b then ''yes'' else ''no'')"

definition page_table_dump :: "page_table \<Rightarrow> string" where
  "page_table_dump pt =
     pad_right 5 ''VPN'' @ '' '' @ pad_right 8 ''Segment'' @ '' '' @ pad_right 5 ''PFN'' @ '' '' @ pad_right 7 ''Present'' @ '' '' @
     pad_right 5 ''Dirty'' @ '' '' @ pad_right 5 ''Access'' @ '' '' @ pad_right 5 ''Swap'' @ [nl] @
     concat (map (\<lambda>vpn. let e = pt (of_nat vpn)
       in if present e \<or> in_swap e then
            hex2 (of_nat vpn :: u32) @ ''  '' @ pad_right 8 (page_table_get_segment_name (of_nat vpn)) @ '' '' @
            hex2 (frame_num e) @ ''  '' @ pad_right 7 (yes_no (present e)) @ '' '' @ pad_right 5 (yes_no (dirty e)) @ '' '' @
            pad_right 5 (yes_no (accessed e)) @ '' '' @ pad_right 5 (yes_no (in_swap e)) @
            '' (slot:'' @ dec_word (swap_slot e) @ '')'' @ [nl]
          else []) [0..<VM_NUM_PAGES])"

definition tlb_dump :: "tlb_state \<Rightarrow> string" where
  "tlb_dump s =
     pad_right 5 ''Entry'' @ '' '' @ pad_right 5 ''VPN'' @ '' '' @ pad_right 5 ''PFN'' @ '' '' @ pad_right 5 ''Valid'' @ '' '' @
     pad_right 5 ''Dirty'' @ '' '' @ pad_right 10 ''Last Used'' @ [nl] @
     concat (map (\<lambda>i. let e = g_tlb s i
       in if te_valid e then
            ''['' @ pad_zero 2 (dec_nat i) @ '']  '' @ hex2 (te_vpn e) @ ''  '' @ hex2 (te_pfn e) @ ''  '' @
            pad_right 5 (yes_no (te_valid e)) @ '' '' @ pad_right 5 (yes_no (te_dirty e)) @ '' '' @
            pad_right 10 (dec_word (te_last_used_tick e)) @ [nl]
          else []) [0..<VM_TLB_SIZE])"

definition dump_segment :: "string \<Rightarrow> nat \<Rightarrow> nat \<Rightarrow> string" where
  "dump_segment name start pages =
     ''  '' @ pad_right 10 name @ '' : '' @ hex4 (of_nat start :: u32) @ '' - '' @
     hex4 (of_nat (start + pages * VM_PAGE_SIZE - 1) :: u32) @ [nl]"

definition vm_dump_proc_map :: "vm_state \<Rightarrow> string" where
  "vm_dump_proc_map vm =
     ''Virtual Memory Map for PID '' @ dec_int (vs_pid vm) @ '':'' @ [nl] @
     dump_segment ''TEXT'' VM_SEG_TEXT_START VM_SEG_TEXT_PAGES @
     dump_segment ''RODATA'' VM_SEG_RODATA_START VM_SEG_RODATA_PAGES @
     dump_segment ''DATA'' VM_SEG_DATA_START VM_SEG_DATA_PAGES @
     dump_segment ''BSS'' VM_SEG_BSS_START VM_SEG_BSS_PAGES @
     ''  '' @ pad_right 10 ''HEAP'' @ '' : '' @ hex4 (vst_heap_start (vs_stats vm)) @ '' - '' @
     hex4 (ucast (vst_heap_break (vs_stats vm)) - 1 :: u32) @ '' (max limit: '' @
     hex4 (ucast (vst_heap_start (vs_stats vm)) + of_nat (VM_SEG_HEAP_MAX_PAGES * VM_PAGE_SIZE) - 1 :: u32) @ '')'' @ [nl] @
     ''  '' @ pad_right 10 ''STACK'' @ '' : '' @ hex4 (ucast (vst_stack_limit (vs_stats vm)) * of_nat VM_PAGE_SIZE :: u32) @
     '' - 0xFFFF (max limit: '' @ hex4 (ucast (vst_stack_limit (vs_stats vm)) * of_nat VM_PAGE_SIZE :: u32) @ '')'' @ [nl]"

definition vm_dump_proc_pte :: "vm_state \<Rightarrow> string" where
  "vm_dump_proc_pte vm = page_table_dump (vs_pt vm)"

definition vm_dump_global_frames :: "frame_state \<Rightarrow> string" where
  "vm_dump_global_frames F =
     (let stats = frame_get_stats F
      in ''Physical Frame Allocator Stats:'' @ [nl] @
         ''  Allocated frames : '' @ dec_word (fs_allocated stats) @ '' / '' @ dec_nat VM_NUM_FRAMES @ [nl] @
         ''  Free frames      : '' @ dec_word (fs_free stats) @ '' / '' @ dec_nat VM_NUM_FRAMES @ [nl] @
         [nl] @ ''Frame ownership:'' @ [nl] @
         pad_right 7 ''Frame'' @ '' '' @ pad_right 5 ''PID'' @ '' '' @ pad_right 5 ''VPN'' @ [nl] @
         concat (map (\<lambda>pfn. case frame_get_owner (of_nat pfn) F of
             Some (pid, vpn) \<Rightarrow> hex2 (of_nat pfn :: u8) @ ''    '' @ pad_right 5 (dec_int pid) @ '' '' @ hex2 vpn @ [nl]
           | None \<Rightarrow> []) [0..<VM_NUM_FRAMES]))"

definition vm_dump_global_tlb :: "tlb_state \<Rightarrow> string" where
  "vm_dump_global_tlb s = tlb_dump s"

definition vm_dump_global_faults :: "pager_state \<Rightarrow> swap_state \<Rightarrow> string" where
  "vm_dump_global_faults P S =
     (let p_stats = pager_get_stats P; s_stats = swap_get_stats S
      in ''Global Paging & Fault Stats:'' @ [nl] @
         ''  Minor faults    : '' @ dec_word (ps_minor_faults p_stats) @ [nl] @
         ''  Major faults    : '' @ dec_word (ps_major_faults p_stats) @ [nl] @
         ''  Evictions       : '' @ dec_word (ps_evictions p_stats) @ [nl] @
         ''  Swap slots used : '' @ dec_word (ss_allocated_slots s_stats) @ '' / '' @ dec_nat VM_NUM_SWAP_SLOTS @ [nl] @
         ''  Swap In count   : '' @ dec_word (ss_swap_ins s_stats) @ [nl] @
         ''  Swap Out count  : '' @ dec_word (ss_swap_outs s_stats) @ [nl])"

end
