(* ===== verification/Runtime.thy ===== *)
theory Runtime
  imports Sched IPC Sync VM_Malloc Proc_Life Log Timer Workload Report
begin

text \<open>
  \<^verbatim>\<open>runtime.c\<close>: the dispatcher that runs workloads on simulated processes.

  \<open>runtime\<close> is \<^verbatim>\<open>struct runtime\<close>. The record \<open>sys\<close> extends it with the static variables of
  the other files: the process table and memory, the message queues, the semaphores, the
  timer, the index \<^verbatim>\<open>g_slot_by_pid\<close> and the text written to the console so far. What the
  environment decides is the parameter \<open>host\<close>: results of \<^verbatim>\<open>mmap\<close> and \<^verbatim>\<open>malloc\<close>,
  the readable files, whether a file can be created, the success of \<^verbatim>\<open>setitimer\<close>.

  A switch to the context of a process runs \<open>process_context_trampoline\<close> up to its switch
  back, which is the trace event it emits; register contents are not modelled.
  A call that does not return (a cyclic heap list in \<^verbatim>\<open>vm_malloc\<close>) is \<open>None\<close>.
\<close>

definition MLFQ_BOOST_INTERVAL :: u64 where "MLFQ_BOOST_INTERVAL = 50"
definition DEFAULT_QUANTUM :: u32 where "DEFAULT_QUANTUM = 10"
definition MAX_DISPATCH_GUARD :: nat where "MAX_DISPATCH_GUARD = 1024"
definition ERR_BUF_SIZE :: nat where "ERR_BUF_SIZE = 160"

record workload_slot =
  sl_used :: bool
  sl_pid :: int
  sl_workload :: workload_t
  sl_pc :: nat
  sl_remaining :: u64

record runtime =
  rt_tick :: u64
  rt_started :: bool
  rt_need_resched :: bool
  rt_current_pid :: int
  rt_busy_ticks :: u64
  rt_idle_ticks :: u64
  rt_completed :: u32
  rt_scheduler :: scheduler
  rt_trace :: trace_log_t
  rt_slots :: "workload_slot carray"

record sys = runtime +
  sy_slot_by_pid :: "int carray"
  sy_mem :: mem
  sy_ipc :: ipc_state
  sy_sync :: sync_state
  sy_timer :: timer_state
  sy_out :: string

record host =
  h_os :: os_env
  h_vm_alloc :: "vm_ptr option"
  h_policy_alloc :: bool
  h_pad :: u8
  h_undef :: vm_block_hdr
  h_files :: "string \<Rightarrow> string option"
  h_create :: "string \<Rightarrow> bool"
  h_setitimer :: bool

definition zero_slot :: workload_slot where
  "zero_slot = \<lparr>sl_used = False, sl_pid = 0, sl_workload = zero_workload, sl_pc = 0, sl_remaining = 0\<rparr>"

abbreviation ptable :: "sys \<Rightarrow> process_table" where
  "ptable S \<equiv> w_pt (sy_mem S)"

definition set_ptable :: "process_table \<Rightarrow> sys \<Rightarrow> sys" where
  "set_ptable t S = S\<lparr>sy_mem := (sy_mem S)\<lparr>w_pt := t\<rparr>\<rparr>"

definition set_slot :: "nat \<Rightarrow> (workload_slot \<Rightarrow> workload_slot) \<Rightarrow> sys \<Rightarrow> sys" where
  "set_slot i f S = S\<lparr>rt_slots := (rt_slots S)(i := f (rt_slots S i))\<rparr>"

definition print :: "string \<Rightarrow> sys \<Rightarrow> sys" where
  "print s S = S\<lparr>sy_out := sy_out S @ s\<rparr>"

text \<open>\<^verbatim>\<open>trace_event(&rt->trace, rt->tick, pid, event, detail)\<close>.\<close>

definition trace :: "int \<Rightarrow> string \<Rightarrow> string \<Rightarrow> sys \<Rightarrow> sys" where
  "trace pid event detail S =
     (let (log, txt) = trace_event (rt_tick S) pid event detail (rt_trace S) in print txt (S\<lparr>rt_trace := log\<rparr>))"

definition process_context_trampoline :: "int \<Rightarrow> sys \<Rightarrow> sys" where
  "process_context_trampoline pid S =
     (if proc_get pid (ptable S) = None then S else trace pid ''CTXSW'' ''swapcontext'' S)"

definition make_detail :: "nat \<Rightarrow> string \<Rightarrow> int \<Rightarrow> string" where
  "make_detail bufsz txt v = snprintf bufsz (txt @ '' '' @ dec_int v)"


section \<open>Workload slots\<close>

definition slot_index :: "int \<Rightarrow> sys \<Rightarrow> nat option" where
  "slot_index pid S =
     (if 1 \<le> pid \<and> pid \<le> int MOSRT_MAX_PROCS then
        (let idx = sy_slot_by_pid S (nat (pid - 1))
         in if 0 \<le> idx \<and> idx < int MOSRT_MAX_PROCS \<and> sl_used (rt_slots S (nat idx)) \<and> sl_pid (rt_slots S (nat idx)) = pid
            then Some (nat idx) else None)
      else None)"

definition alloc_slot :: "int \<Rightarrow> sys \<Rightarrow> nat option \<times> sys" where
  "alloc_slot pid S =
     (case first_idx (\<lambda>i. \<not> sl_used (rt_slots S i)) 0 MOSRT_MAX_PROCS of
        None \<Rightarrow> (None, S)
      | Some i \<Rightarrow>
          (let S1 = set_slot i (\<lambda>_. zero_slot\<lparr>sl_used := True, sl_pid := pid\<rparr>) S
           in (Some i,
               if 1 \<le> pid \<and> pid \<le> int MOSRT_MAX_PROCS
               then S1\<lparr>sy_slot_by_pid := (sy_slot_by_pid S1)(nat (pid - 1) := int i)\<rparr> else S1)))"


section \<open>Ready, waiting, dispatch\<close>

definition runtime_scheduler_name :: "sys \<Rightarrow> string" where
  "runtime_scheduler_name S = sched_algo_name (sched_algo (rt_scheduler S))"

definition enqueue_ready :: "int \<Rightarrow> sys \<Rightarrow> sys" where
  "enqueue_ready pid S =
     (let (ok, t) = proc_set_state pid PROC_READY (rt_tick S) (ptable S); S1 = set_ptable t S
      in if ok then trace pid ''READY'' (runtime_scheduler_name S1)
                      (S1\<lparr>rt_scheduler := snd (sched_enqueue t (rt_scheduler S1) pid)\<rparr>)
         else S1)"

definition wake_pid :: "int \<Rightarrow> string \<Rightarrow> sys \<Rightarrow> sys" where
  "wake_pid pid why S =
     (case proc_get pid (ptable S) of
        None \<Rightarrow> S
      | Some p \<Rightarrow> if p_state p = PROC_BLOCKED then trace pid ''WAKE'' why (enqueue_ready pid S) else S)"

definition wake_blocked_by_time :: "nat \<Rightarrow> sys \<Rightarrow> sys" where
  "wake_blocked_by_time slot S =
     (let p = entries (ptable S) slot
      in if p_state p = PROC_BLOCKED \<and> 0 < p_wakeup_tick p \<and> p_wakeup_tick p \<le> rt_tick S
         then wake_pid (p_pid p) ''timer''
                (set_ptable ((ptable S)\<lparr>entries := (entries (ptable S))(slot := p\<lparr>p_wakeup_tick := 0\<rparr>)\<rparr>) S)
         else S)"

definition account_ready_wait :: "pcb \<Rightarrow> pcb" where
  "account_ready_wait p = (if p_state p = PROC_READY then p\<lparr>p_wait_time := p_wait_time p + 1\<rparr> else p)"

definition rebuild_one_ready :: "nat \<Rightarrow> sys \<Rightarrow> sys" where
  "rebuild_one_ready slot S =
     (let p = entries (ptable S) slot
      in if p_state p = PROC_READY
         then S\<lparr>rt_scheduler := snd (sched_enqueue (ptable S) (rt_scheduler S) (p_pid p))\<rparr> else S)"

definition rebuild_ready_queues :: "sys \<Rightarrow> sys" where
  "rebuild_ready_queues S =
     (let current_pid = s_current_pid (rt_scheduler S); consumed_ticks = s_consumed_ticks (rt_scheduler S);
          S1 = S\<lparr>rt_scheduler := sched_clear (rt_scheduler S)\<rparr>;
          S2 = proc_fold ptable rebuild_one_ready S1
      in S2\<lparr>rt_scheduler := (rt_scheduler S2)\<lparr>s_current_pid := current_pid, s_consumed_ticks := consumed_ticks\<rparr>\<rparr>)"

definition dispatch :: "sys \<Rightarrow> bool \<times> sys" where
  "dispatch S =
     (if 0 \<le> rt_current_pid S then (True, S)
      else
        (let (pid, sch) = sched_pick_next (ptable S) (rt_scheduler S); S1 = S\<lparr>rt_scheduler := sch\<rparr>
         in if pid < 0 then (False, S1)
            else
              (let (ok, t) = proc_set_state pid PROC_RUNNING (rt_tick S1) (ptable S1); S2 = set_ptable t S1
               in if \<not> ok then (False, S2)
                  else
                    (let S3 = trace pid ''DISPATCH'' (runtime_scheduler_name S2) (S2\<lparr>rt_current_pid := pid\<rparr>)
                     in (True,
                         if proc_get pid (ptable S3) \<noteq> None
                         then process_context_trampoline pid
                                (S3\<lparr>sy_mem := (sy_mem S3)\<lparr>w_tlb := tlb_flush (w_tlb (sy_mem S3))\<rparr>\<rparr>)
                         else S3)))))"

definition exit_current :: "os_env \<Rightarrow> int \<Rightarrow> sys \<Rightarrow> sys" where
  "exit_current e code S =
     (let pid = rt_current_pid S
      in if pid < 0 then S
         else
           (let (ok, t) = proc_mark_exited e pid code (rt_tick S) (ptable S); S1 = set_ptable t S;
                S2 = (if ok then trace pid ''EXIT'' ''workload complete'' (S1\<lparr>rt_completed := rt_completed S1 + 1\<rparr>) else S1)
            in S2\<lparr>rt_current_pid := -1\<rparr>))"

definition block_current :: "string \<Rightarrow> sys \<Rightarrow> sys" where
  "block_current why S =
     (let pid = rt_current_pid S
      in if pid < 0 then S
         else
           (let (ok, t) = proc_set_state pid PROC_BLOCKED (rt_tick S) (ptable S); S1 = set_ptable t S;
                S2 = (if ok then trace pid ''BLOCK'' why S1 else S1)
            in S2\<lparr>rt_current_pid := -1\<rparr>))"

definition maybe_preempt :: "sys \<Rightarrow> sys" where
  "maybe_preempt S =
     (let pid = rt_current_pid S
      in if pid < 0 then S
         else if \<not> (rt_need_resched S \<or> timer_need_resched (sy_timer S) \<or>
                    sched_should_preempt (ptable S) (rt_scheduler S) pid) then S
         else
           (let S1 = (if sched_algo (rt_scheduler S) = SCHED_MLFQ
                      then set_ptable (sched_demote_after_quantum (rt_scheduler S) pid (ptable S)) S else S);
                S2 = S1\<lparr>rt_need_resched := False, sy_timer := timer_clear_resched (sy_timer S1)\<rparr>;
                S3 = trace pid ''YIELD'' ''quantum/preempt'' (enqueue_ready pid S2)
            in S3\<lparr>rt_current_pid := -1\<rparr>))"

definition complete_immediate :: "nat \<Rightarrow> sys \<Rightarrow> sys" where
  "complete_immediate idx S = set_slot idx (\<lambda>s. s\<lparr>sl_pc := sl_pc s + 1, sl_remaining := 0\<rparr>) S"


section \<open>Instructions\<close>

text \<open>One definition per case of the \<^verbatim>\<open>switch\<close>; the result says whether a tick was consumed.\<close>

definition exec_cpu :: "os_env \<Rightarrow> int \<Rightarrow> nat \<Rightarrow> workload_insn \<Rightarrow> sys \<Rightarrow> bool \<times> sys" where
  "exec_cpu e pid idx insn S =
     (let S1 = (if sl_remaining (rt_slots S idx) = 0 then set_slot idx (\<lambda>s. s\<lparr>sl_remaining := wi_ticks insn\<rparr>) S else S)
      in if proc_get pid (ptable S1) = None \<or> sl_remaining (rt_slots S1 idx) = 0 then (False, exit_current e 1 S1)
         else
           (let S2 = set_ptable (proc_upd pid (\<lambda>p. p\<lparr>p_cpu_time := p_cpu_time p + 1\<rparr>)
                                   (proc_for_each account_ready_wait (ptable S1))) S1;
                S3 = set_slot idx (\<lambda>s. s\<lparr>sl_remaining := sl_remaining s - 1\<rparr>) (S2\<lparr>rt_busy_ticks := rt_busy_ticks S2 + 1\<rparr>);
                S4 = S3\<lparr>rt_tick := rt_tick S3 + 1, rt_scheduler := sched_on_tick (rt_scheduler S3) pid\<rparr>;
                S5 = (if sl_remaining (rt_slots S4 idx) = 0 then set_slot idx (\<lambda>s. s\<lparr>sl_pc := sl_pc s + 1\<rparr>) S4 else S4)
            in (True, maybe_preempt (trace pid ''CPU'' ''tick'' S5))))"

definition exec_io :: "os_env \<Rightarrow> int \<Rightarrow> nat \<Rightarrow> workload_insn \<Rightarrow> sys \<Rightarrow> bool \<times> sys" where
  "exec_io e pid idx insn S =
     (if proc_get pid (ptable S) = None then (False, exit_current e 1 S)
      else
        (let wakeup_tick = rt_tick S + wi_ticks insn;
             S1 = set_ptable (proc_upd pid (\<lambda>p. p\<lparr>p_wakeup_tick := wakeup_tick\<rparr>) (ptable S)) S
         in (False, block_current (make_detail 96 ''until'' (to_int wakeup_tick)) (complete_immediate idx S1))))"

definition exec_send :: "os_env \<Rightarrow> int \<Rightarrow> nat \<Rightarrow> workload_insn \<Rightarrow> sys \<Rightarrow> bool \<times> sys" where
  "exec_send e pid idx insn S =
     (let (r, g) = ipc_send (wi_arg0 insn) pid (wi_arg1 insn) (sy_ipc S); S1 = S\<lparr>sy_ipc := g\<rparr>
      in if r = IPC_ERROR then (False, exit_current e 3 S1)
         else if r = IPC_WOULD_BLOCK then
           (False, block_current ''send full'' (S1\<lparr>sy_ipc := ipc_wait_sender (wi_arg0 insn) pid (sy_ipc S1)\<rparr>))
         else
           (let (wake, g2) = ipc_pop_receiver_waiter (wi_arg0 insn) (sy_ipc S1); S2 = S1\<lparr>sy_ipc := g2\<rparr>
            in (False, complete_immediate idx (if 0 \<le> wake then wake_pid wake ''message'' S2 else S2))))"

definition exec_recv :: "os_env \<Rightarrow> int \<Rightarrow> nat \<Rightarrow> workload_insn \<Rightarrow> sys \<Rightarrow> bool \<times> sys" where
  "exec_recv e pid idx insn S =
     (let (r, msg, g) = ipc_recv (wi_arg0 insn) pid (sy_ipc S); S1 = S\<lparr>sy_ipc := g\<rparr>
      in if r = IPC_ERROR then (False, exit_current e 3 S1)
         else if r = IPC_WOULD_BLOCK then
           (False, block_current ''recv empty'' (S1\<lparr>sy_ipc := ipc_wait_receiver (wi_arg0 insn) pid (sy_ipc S1)\<rparr>))
         else
           (let (wake, g2) = ipc_pop_sender_waiter (wi_arg0 insn) (sy_ipc S1); S2 = S1\<lparr>sy_ipc := g2\<rparr>
            in (False, complete_immediate idx (if 0 \<le> wake then wake_pid wake ''queue space'' S2 else S2))))"

definition exec_sem_wait :: "os_env \<Rightarrow> int \<Rightarrow> nat \<Rightarrow> workload_insn \<Rightarrow> sys \<Rightarrow> bool \<times> sys" where
  "exec_sem_wait e pid idx insn S =
     (let (r, g) = sync_wait (wi_arg0 insn) pid (sy_sync S); S1 = S\<lparr>sy_sync := g\<rparr>
      in if r = SYNC_ERROR then (False, exit_current e 4 S1)
         else if r = SYNC_WOULD_BLOCK then (False, block_current ''sem wait'' S1)
         else (False, complete_immediate idx S1))"

definition exec_sem_post :: "os_env \<Rightarrow> int \<Rightarrow> nat \<Rightarrow> workload_insn \<Rightarrow> sys \<Rightarrow> bool \<times> sys" where
  "exec_sem_post e pid idx insn S =
     (let (r, wake, g) = sync_post (wi_arg0 insn) pid (sy_sync S); S1 = S\<lparr>sy_sync := g\<rparr>
      in if r = SYNC_ERROR then (False, exit_current e 4 S1)
         else (False, complete_immediate idx (if 0 \<le> wake then wake_pid wake ''sem post'' S1 else S1)))"

definition exec_lock :: "os_env \<Rightarrow> int \<Rightarrow> nat \<Rightarrow> workload_insn \<Rightarrow> sys \<Rightarrow> bool \<times> sys" where
  "exec_lock e pid idx insn S =
     (let (r, g) = sync_mutex_lock (wi_arg0 insn) pid (sy_sync S); S1 = S\<lparr>sy_sync := g\<rparr>
      in if r = SYNC_ERROR then (False, exit_current e 4 S1)
         else if r = SYNC_WOULD_BLOCK then (False, block_current ''mutex lock'' S1)
         else (False, complete_immediate idx S1))"

definition exec_unlock :: "os_env \<Rightarrow> int \<Rightarrow> nat \<Rightarrow> workload_insn \<Rightarrow> sys \<Rightarrow> bool \<times> sys" where
  "exec_unlock e pid idx insn S =
     (let (r, wake, g) = sync_mutex_unlock (wi_arg0 insn) pid (sy_sync S); S1 = S\<lparr>sy_sync := g\<rparr>
      in if r = SYNC_ERROR then (False, exit_current e 4 S1)
         else (False, complete_immediate idx (if 0 \<le> wake then wake_pid wake ''mutex unlock'' S1 else S1)))"

definition exec_mmap :: "host \<Rightarrow> int \<Rightarrow> nat \<Rightarrow> workload_insn \<Rightarrow> sys \<Rightarrow> (bool \<times> sys) option" where
  "exec_mmap h pid idx insn S =
     (case proc_get pid (ptable S) of
        None \<Rightarrow> Some (False, exit_current (h_os h) 5 S)
      | Some p \<Rightarrow>
          (case p_vm p of
             None \<Rightarrow> Some (False, exit_current (h_os h) 5 S)
           | Some a \<Rightarrow>
               (case vm_malloc (h_pad h) (h_undef h) pid a (of_int (wi_arg0 insn)) (rt_tick S) (sy_mem S) of
                  None \<Rightarrow> None
                | Some (addr, w) \<Rightarrow>
                    (let S1 = S\<lparr>sy_mem := w\<rparr>
                     in if addr = 0 then Some (False, exit_current (h_os h) 5 S1)
                        else
                          (let S2 = set_ptable (proc_upd pid (\<lambda>p. p\<lparr>p_vm_last_alloc := addr\<rparr>) (ptable S1)) S1;
                               detail = snprintf 96 (''size='' @ dec_int (wi_arg0 insn) @ '' addr='' @ hex4 addr)
                           in Some (False, complete_immediate idx (trace pid ''MMAP'' detail S2)))))))"

definition exec_access :: "os_env \<Rightarrow> int \<Rightarrow> nat \<Rightarrow> workload_insn \<Rightarrow> sys \<Rightarrow> bool \<times> sys" where
  "exec_access e pid idx insn S =
     (case proc_get pid (ptable S) of
        None \<Rightarrow> (False, exit_current e 5 S)
      | Some p \<Rightarrow>
          (case p_vm p of
             None \<Rightarrow> (False, exit_current e 5 S)
           | Some a \<Rightarrow>
               (let addr = (if wi_arg0 insn < 0 then of_int (int (unat (p_vm_last_alloc p)) - wi_arg0 insn)
                            else of_int (wi_arg0 insn) :: u16);
                    is_write = (wi_arg1 insn \<noteq> 0);
                    tlb_before = tlb_get_stats (w_tlb (sy_mem S));
                    pager_before = pager_get_stats (w_pager (sy_mem S));
                    (status, w) =
                      (if is_write then vm_write_mem pid a addr (\<lambda>_. 0xAA) 1 (rt_tick S) (sy_mem S)
                       else (let (st, bs, w1) = vm_read_mem pid a addr 1 (rt_tick S) (sy_mem S) in (st, w1)));
                    S1 = S\<lparr>sy_mem := w\<rparr>
                in if status < 0 then (False, exit_current e 6 S1)
                   else
                     (let pager_after = pager_get_stats (w_pager w);
                          tlb_after = tlb_get_stats (w_tlb w);
                          hit_tlb = (ts_hits tlb_before < ts_hits tlb_after);
                          minor_fault = (ps_minor_faults pager_before < ps_minor_faults pager_after);
                          major_fault = (ps_major_faults pager_before < ps_major_faults pager_after);
                          detail = snprintf 96 ((if is_write then ''write'' else ''read'') @ '' addr='' @ hex4 addr @ '' '' @
                            (if hit_tlb then ''TLB-hit'' else if minor_fault then ''minor-fault''
                             else if major_fault then ''major-fault'' else ''page-hit''));
                          S2 = trace pid ''ACCESS'' detail S1
                      in if major_fault then
                           (False, block_current ''page fault''
                              (set_ptable (proc_upd pid (\<lambda>p. p\<lparr>p_wakeup_tick := rt_tick S2 + VM_PAGE_FAULT_LATENCY\<rparr>) (ptable S2)) S2))
                         else (False, complete_immediate idx S2)))))"

definition exec_mfree :: "host \<Rightarrow> int \<Rightarrow> nat \<Rightarrow> sys \<Rightarrow> bool \<times> sys" where
  "exec_mfree h pid idx S =
     (case proc_get pid (ptable S) of
        None \<Rightarrow> (False, exit_current (h_os h) 5 S)
      | Some p \<Rightarrow>
          (case p_vm p of
             None \<Rightarrow> (False, exit_current (h_os h) 5 S)
           | Some a \<Rightarrow>
               (let S1 = S\<lparr>sy_mem := vm_free (h_pad h) pid a (p_vm_last_alloc p) (rt_tick S) (sy_mem S)\<rparr>;
                    detail = snprintf 96 (''addr='' @ hex4 (p_vm_last_alloc p));
                    S2 = trace pid ''MFREE'' detail S1;
                    S3 = set_ptable (proc_upd pid (\<lambda>p. p\<lparr>p_vm_last_alloc := 0\<rparr>) (ptable S2)) S2
                in (False, complete_immediate idx S3))))"

definition execute_instruction :: "host \<Rightarrow> sys \<Rightarrow> (bool \<times> sys) option" where
  "execute_instruction h S =
     (let pid = rt_current_pid S
      in case slot_index pid S of
           None \<Rightarrow> Some (False, exit_current (h_os h) 1 S)
         | Some idx \<Rightarrow>
             (let sl = rt_slots S idx
              in if wl_count (sl_workload sl) \<le> sl_pc sl then Some (False, exit_current (h_os h) 0 S)
                 else
                   (let insn = wl_insns (sl_workload sl) (sl_pc sl)
                    in case wi_op insn of
                         WORKLOAD_CPU \<Rightarrow> Some (exec_cpu (h_os h) pid idx insn S)
                       | WORKLOAD_IO \<Rightarrow> Some (exec_io (h_os h) pid idx insn S)
                       | WORKLOAD_SEND \<Rightarrow> Some (exec_send (h_os h) pid idx insn S)
                       | WORKLOAD_RECV \<Rightarrow> Some (exec_recv (h_os h) pid idx insn S)
                       | WORKLOAD_SEM_WAIT \<Rightarrow> Some (exec_sem_wait (h_os h) pid idx insn S)
                       | WORKLOAD_SEM_POST \<Rightarrow> Some (exec_sem_post (h_os h) pid idx insn S)
                       | WORKLOAD_LOCK \<Rightarrow> Some (exec_lock (h_os h) pid idx insn S)
                       | WORKLOAD_UNLOCK \<Rightarrow> Some (exec_unlock (h_os h) pid idx insn S)
                       | WORKLOAD_MMAP \<Rightarrow> exec_mmap h pid idx insn S
                       | WORKLOAD_ACCESS \<Rightarrow> Some (exec_access (h_os h) pid idx insn S)
                       | WORKLOAD_MFREE \<Rightarrow> Some (exec_mfree h pid idx S)
                       | WORKLOAD_EXIT \<Rightarrow> Some (False, exit_current (h_os h) 0 S))))"


section \<open>The interface\<close>

definition runtime_init :: "host \<Rightarrow> sys \<Rightarrow> sys" where
  "runtime_init h S =
     \<lparr>rt_tick = 0, rt_started = False, rt_need_resched = False, rt_current_pid = -1, rt_busy_ticks = 0, rt_idle_ticks = 0,
      rt_completed = 0, rt_scheduler = sched_init SCHED_RR DEFAULT_QUANTUM, rt_trace = trace_init,
      rt_slots = (\<lambda>_. zero_slot), sy_slot_by_pid = (\<lambda>_. -1),
      sy_mem = vm_init (h_policy_alloc h) (proc_table_init (h_os h) (sy_mem S)),
      sy_ipc = ipc_init (sy_ipc S), sy_sync = sync_init (sy_sync S), sy_timer = timer_init (sy_timer S), sy_out = sy_out S\<rparr>"

definition runtime_shutdown :: "host \<Rightarrow> sys \<Rightarrow> sys" where
  "runtime_shutdown h S =
     S\<lparr>rt_started := False, rt_current_pid := -1, sy_timer := timer_stop (h_setitimer h) (sy_timer S),
       sy_mem := vm_shutdown (proc_table_shutdown (h_os h) (sy_mem S))\<rparr>"

definition workloads_prefix :: string where "workloads_prefix = ''workloads/''"

definition strip_prefix :: "string \<Rightarrow> string \<Rightarrow> string" where
  "strip_prefix pre s = (if take (length pre) s = pre then drop (length pre) s else s)"

text \<open>The three paths tried in turn.\<close>

definition load_candidates :: "(string \<Rightarrow> string option) \<Rightarrow> string \<Rightarrow> workload_t option" where
  "load_candidates files path =
     (let trimmed = strip_prefix workloads_prefix path;
          candidate1 = snprintf 256 (''workloads/'' @ trimmed);
          candidate2 = snprintf 256 (''mosrt/workloads/'' @ trimmed)
      in case workload_load files path ERR_BUF_SIZE of
           Inr w \<Rightarrow> Some w
         | Inl _ \<Rightarrow>
             (case workload_load files candidate1 ERR_BUF_SIZE of
                Inr w \<Rightarrow> Some w
              | Inl _ \<Rightarrow>
                  (case workload_load files candidate2 ERR_BUF_SIZE of Inr w \<Rightarrow> Some w | Inl _ \<Rightarrow> None)))"

text \<open>The part of \<open>runtime_run_workload\<close> after the process has been created.\<close>

definition install_workload :: "host \<Rightarrow> int \<Rightarrow> workload_t \<Rightarrow> sys \<Rightarrow> int \<times> sys" where
  "install_workload h pid workload S =
     (case alloc_slot pid S of
        (None, S1) \<Rightarrow> (-1, S1\<lparr>sy_mem := proc_destroy (h_os h) pid 1 (sy_mem S1)\<rparr>)
      | (Some idx, S1) \<Rightarrow>
          (pid, trace pid ''CREATE'' (wl_name workload)
                  (enqueue_ready pid (set_slot idx (\<lambda>s. s\<lparr>sl_workload := workload\<rparr>) S1))))"

definition runtime_run_workload :: "host \<Rightarrow> string \<Rightarrow> int \<Rightarrow> sys \<Rightarrow> int \<times> sys" where
  "runtime_run_workload h path priority S =
     (case load_candidates (h_files h) path of
        None \<Rightarrow>
          (-1, print (''error: failed to open workload '' @ [CHR 0x27] @ path @ [CHR 0x27, nl] @
                      ''hint: try run mixed.wl, run workloads/mixed.wl, or run mosrt/workloads/mixed.wl'' @ [nl]) S)
      | Some workload \<Rightarrow>
          (let (pid, t) = proc_create (h_os h) 0 priority (rt_tick S) 0 (ptable S); S1 = set_ptable t S
           in if pid < 0 then (-1, S1)
              else if proc_get pid (ptable S1) = None then install_workload h pid workload S1
              else
                (let (vm, w) = vm_proc_init (h_vm_alloc h) pid (sy_mem S1);
                     S2 = S1\<lparr>sy_mem := w\<lparr>w_pt := proc_upd pid (\<lambda>p. p\<lparr>p_vm := vm\<rparr>) (w_pt w)\<rparr>\<rparr>
                 in if vm = None then (-1, S2\<lparr>sy_mem := proc_destroy (h_os h) pid 1 (sy_mem S2)\<rparr>)
                    else install_workload h pid workload S2)))"

text \<open>One round of the inner loop of \<open>runtime_step\<close>.\<close>

definition boost_due :: "sys \<Rightarrow> bool" where
  "boost_due S \<longleftrightarrow> sched_algo (rt_scheduler S) = SCHED_MLFQ \<and>
     MLFQ_BOOST_INTERVAL \<le> rt_tick S - s_last_boost_tick (rt_scheduler S)"

definition boost_queues :: "sys \<Rightarrow> sys" where
  "boost_queues S =
     (if boost_due S then
        (let S1 = set_ptable (sched_priority_boost (rt_scheduler S) (ptable S)) S;
             S2 = S1\<lparr>rt_scheduler := (rt_scheduler S1)\<lparr>s_last_boost_tick := rt_tick S1\<rparr>\<rparr>
         in trace (-1) ''BOOST'' ''mlfq'' (rebuild_ready_queues S2))
      else S)"

definition refresh_queues :: "sys \<Rightarrow> sys" where
  "refresh_queues S =
     (let S1 = proc_fold ptable wake_blocked_by_time S;
          S2 = set_ptable (sched_age_ready (rt_scheduler S1) (rt_tick S1) (ptable S1)) S1;
          S3 = (if sched_algo (rt_scheduler S2) = SCHED_PRIO then rebuild_ready_queues S2 else S2)
      in boost_queues S3)"

definition idle_tick :: "sys \<Rightarrow> sys" where
  "idle_tick S =
     trace (-1) ''IDLE'' ''no ready process''
       ((set_ptable (proc_for_each account_ready_wait (ptable S)) S)
        \<lparr>rt_idle_ticks := rt_idle_ticks S + 1, rt_tick := rt_tick S + 1\<rparr>)"

definition step_round :: "host \<Rightarrow> sys \<Rightarrow> (bool \<times> sys) option" where
  "step_round h S =
     (case dispatch (refresh_queues S) of
        (ok, S1) \<Rightarrow> if \<not> ok then Some (True, idle_tick S1) else execute_instruction h S1)"

text \<open>The inner loop, with the rounds left to the guard, and the outer loop.\<close>

fun step_loop :: "host \<Rightarrow> nat \<Rightarrow> sys \<Rightarrow> sys option" where
  "step_loop h 0 S = Some S"
| "step_loop h (Suc guard) S =
     (case step_round h S of
        None \<Rightarrow> None
      | Some (consumed, S1) \<Rightarrow> if consumed then Some S1 else step_loop h guard S1)"

fun step_ticks :: "host \<Rightarrow> nat \<Rightarrow> sys \<Rightarrow> sys option" where
  "step_ticks h 0 S = Some S"
| "step_ticks h (Suc n) S =
     (case step_loop h MAX_DISPATCH_GUARD S of None \<Rightarrow> None | Some S1 \<Rightarrow> step_ticks h n S1)"

definition runtime_step :: "host \<Rightarrow> u32 \<Rightarrow> sys \<Rightarrow> sys option" where
  "runtime_step h ticks S = step_ticks h (unat ticks) S"

definition runtime_kill :: "host \<Rightarrow> int \<Rightarrow> sys \<Rightarrow> bool \<times> sys" where
  "runtime_kill h pid S =
     (if proc_get pid (ptable S) = None then (False, S)
      else
        (let S1 = (if rt_current_pid S = pid then S\<lparr>rt_current_pid := -1\<rparr> else S);
             (ok, t) = proc_mark_exited (h_os h) pid 130 (rt_tick S1) (ptable S1); S2 = set_ptable t S1
         in if \<not> ok then (False, S2)
            else
              (let S3 = (case slot_index pid S2 of
                           None \<Rightarrow> S2
                         | Some idx \<Rightarrow>
                             (let Sa = set_slot idx (\<lambda>_. zero_slot) S2
                              in if 1 \<le> pid \<and> pid \<le> int MOSRT_MAX_PROCS
                                 then Sa\<lparr>sy_slot_by_pid := (sy_slot_by_pid Sa)(nat (pid - 1) := -1)\<rparr> else Sa))
               in (True, rebuild_ready_queues (trace pid ''KILL'' ''requested'' S3)))))"

definition runtime_start :: "host \<Rightarrow> sys \<Rightarrow> bool \<times> sys" where
  "runtime_start h S =
     (let (ok, g) = timer_start (h_setitimer h) (s_quantum_ticks (rt_scheduler S)) (sy_timer S)
      in (ok, S\<lparr>rt_started := True, sy_timer := g\<rparr>))"

definition runtime_stop :: "host \<Rightarrow> sys \<Rightarrow> sys" where
  "runtime_stop h S = S\<lparr>rt_started := False, sy_timer := timer_stop (h_setitimer h) (sy_timer S)\<rparr>"

definition runtime_yield :: "sys \<Rightarrow> sys" where
  "runtime_yield S = S\<lparr>rt_need_resched := True\<rparr>"

definition runtime_set_scheduler :: "sched_algo \<Rightarrow> sys \<Rightarrow> sys" where
  "runtime_set_scheduler algo S = rebuild_ready_queues (S\<lparr>rt_scheduler := sched_set_algo (rt_scheduler S) algo\<rparr>)"

definition runtime_set_quantum :: "u32 \<Rightarrow> sys \<Rightarrow> sys" where
  "runtime_set_quantum ticks S = S\<lparr>rt_scheduler := sched_set_quantum (rt_scheduler S) ticks\<rparr>"

definition runtime_trace :: "bool \<Rightarrow> int \<Rightarrow> sys \<Rightarrow> sys" where
  "runtime_trace all pid S = S\<lparr>rt_trace := trace_configure all pid (rt_trace S)\<rparr>"

definition runtime_dump_queues :: "sys \<Rightarrow> string" where
  "runtime_dump_queues S = sched_dump (rt_scheduler S)"

definition runtime_set_nice :: "int \<Rightarrow> int \<Rightarrow> sys \<Rightarrow> bool \<times> sys" where
  "runtime_set_nice pid nice_value S =
     (case proc_get pid (ptable S) of
        None \<Rightarrow> (False, S)
      | Some p \<Rightarrow>
          (let nv = (if nice_value < -20 then -20 else if 19 < nice_value then 19 else nice_value);
               prio = p_base_priority p + nv;
               prio' = (if prio < MOSRT_MIN_PRIO then MOSRT_MIN_PRIO else if MOSRT_MAX_PRIO < prio then MOSRT_MAX_PRIO else prio)
           in (True, set_ptable (proc_upd pid (\<lambda>p. p\<lparr>p_nice := nv, p_priority := prio'\<rparr>) (ptable S)) S)))"

definition runtime_set_priority :: "int \<Rightarrow> int \<Rightarrow> sys \<Rightarrow> bool \<times> sys" where
  "runtime_set_priority pid priority S =
     (case proc_get pid (ptable S) of
        None \<Rightarrow> (False, S)
      | Some p \<Rightarrow>
          (let prio = (if priority < MOSRT_MIN_PRIO then MOSRT_MIN_PRIO
                       else if MOSRT_MAX_PRIO < priority then MOSRT_MAX_PRIO else priority)
           in (True, set_ptable (proc_upd pid (\<lambda>p. p\<lparr>p_base_priority := prio, p_priority := prio\<rparr>) (ptable S)) S)))"

definition runtime_tick :: "sys \<Rightarrow> u64" where
  "runtime_tick S = rt_tick S"


text \<open>Static storage before any call; the fields of \<open>runtime\<close> are all overwritten by \<open>runtime_init\<close>.\<close>

definition zero_mem :: mem where
  "zero_mem = \<lparr>w_frame = zero_frame_state, w_swap = zero_swap_state, w_tlb = zero_tlb_state,
     w_pager = \<lparr>g_policy = None, g_policy_state = None, g_pager_stats = zero_pager_stats\<rparr>,
     w_pt = zero_table, w_vms = Map.empty\<rparr>"

definition zero_sys :: sys where
  "zero_sys = \<lparr>rt_tick = 0, rt_started = False, rt_need_resched = False, rt_current_pid = 0, rt_busy_ticks = 0, rt_idle_ticks = 0,
     rt_completed = 0, rt_scheduler = sched_init SCHED_FCFS 0, rt_trace = trace_init\<lparr>tl_enabled_pid := 0\<rparr>,
     rt_slots = (\<lambda>_. zero_slot), sy_slot_by_pid = (\<lambda>_. 0), sy_mem = zero_mem, sy_ipc = (\<lambda>_. zero_queue),
     sy_sync = (\<lambda>_. zero_sem), sy_timer = zero_timer, sy_out = []\<rparr>"

end
