(* ===== verification/Runtime_Inv.thy ===== *)
theory Runtime_Inv
  imports Runtime
begin

text \<open>
  The invariant of the runtime: at most one process runs and it is the current one, the
  scheduler holds exactly the ready processes, every live process has a well-typed program,
  and the clock counts busy and idle ticks. It is kept by every operation of \<^verbatim>\<open>runtime.c\<close>.
\<close>

section \<open>Memory accesses leave the process table alone\<close>

lemma snd_tableD: "r = (x, w') \<Longrightarrow> w_pt (snd r) = t \<Longrightarrow> w_pt w' = t"
  by simp

lemma pager_keeps_table [simp]:
  "w_pt (pager_hit a v b t w) = w_pt w" "w_pt (snd (evict_victim f p v c w)) = w_pt w"
  by (simp_all add: pager_hit_def policy_apply_def evict_victim_def unmap_victim_def Let_def split: prod.split option.split)

lemma pager_evict_table [simp]: "w_pt (snd (pager_evict a w)) = w_pt w"
  by (simp add: pager_evict_def Let_def split: prod.split option.split)

lemma pager_get_frame_table [simp]: "w_pt (snd (pager_get_frame pid a vpn w)) = w_pt w"
proof -
  have "w_pt w1 = w_pt w" if "pager_evict a (w\<lparr>w_frame := f\<rparr>) = (ok, w1)" for f ok w1
    using pager_evict_table [of a "w\<lparr>w_frame := f\<rparr>"] that by simp
  then show ?thesis by (auto simp: pager_get_frame_def Let_def split: prod.split option.split)
qed

lemma pager_access_table: "pager_access_page pid a vpn b t w = (r, f, w') \<Longrightarrow> w_pt w' = w_pt w"
proof -
  assume "pager_access_page pid a vpn b t w = (r, f, w')"
  moreover have "w_pt w1 = w_pt w" if "pager_get_frame pid a vpn w = (x, w1)" for x w1
    using pager_get_frame_table [of pid a vpn w] that by simp
  ultimately show ?thesis
    by (auto simp: pager_access_page_def Let_def pager_fill_def pager_map_def policy_apply_def split: prod.splits option.splits if_splits)
qed

lemma vm_miss_table [simp]: "w_pt (snd (vm_miss pid a vpn b t w)) = w_pt w"
  by (auto simp: vm_miss_def Let_def dest: pager_access_table split: prod.split option.split)

lemma vm_page_table [simp]:
  "w_pt (snd (vm_read_page pid a vpn t w)) = w_pt w" "w_pt (snd (vm_write_page pid a vpn t w)) = w_pt w"
  by (simp_all add: vm_read_page_def vm_write_page_def Let_def split: prod.split option.split)

lemma vm_byte_table [simp]:
  "w_pt (snd (vm_read_byte pid a x t w)) = w_pt w" "w_pt (snd (vm_write_byte pid a x b t w)) = w_pt w"
  by (auto simp: vm_read_byte_def vm_write_byte_def split: prod.splits option.splits
      dest: snd_tableD [OF _ vm_page_table(1)] snd_tableD [OF _ vm_page_table(2)])

lemma vm_loop_table [simp]:
  "w_pt (snd (snd (vm_read_loop pid a t n x w))) = w_pt w" "w_pt (snd (vm_write_loop pid a t bs x w)) = w_pt w"
proof -
  show "w_pt (snd (snd (vm_read_loop pid a t n x w))) = w_pt w"
  proof (induction n arbitrary: x w)
    case (Suc n)
    show ?case using Suc.IH snd_tableD [OF _ vm_byte_table(1)] by (auto simp: split_beta split: prod.splits option.splits)
  qed simp
  show "w_pt (snd (vm_write_loop pid a t bs x w)) = w_pt w"
  proof (induction bs arbitrary: x w)
    case (Cons b bs)
    show ?case using Cons.IH snd_tableD [OF _ vm_byte_table(2)] by (auto split: prod.splits bool.splits)
  qed simp
qed

lemma add_tlb_stats_table [simp]: "w_pt (add_tlb_stats a s w) = w_pt w"
  by (simp add: add_tlb_stats_def Let_def)

lemma vm_mem_table [simp]:
  "w_pt (snd (snd (vm_read_mem pid a x n t w))) = w_pt w" "w_pt (snd (vm_write_mem pid a x src n t w)) = w_pt w"
  by (simp_all add: vm_read_mem_def vm_write_mem_def Let_def split_beta)

lemma hdr_table [simp]:
  "w_pt (snd (read_hdr pid a x t w)) = w_pt w" "w_pt (snd (write_hdr pad pid a x h t w)) = w_pt w"
  by (simp_all add: read_hdr_def write_hdr_def Let_def split_beta)

lemma hdr_tableD:
  "read_hdr pid a x t w = (r, w') \<Longrightarrow> w_pt w' = w_pt w" "write_hdr pad pid a x h t w = (b, w') \<Longrightarrow> w_pt w' = w_pt w"
  by (rule snd_tableD [OF _ hdr_table(1)], assumption, rule snd_tableD [OF _ hdr_table(2)], assumption)

lemma set_prev_table [simp]: "w_pt (snd (set_prev pad pid a n p t w)) = w_pt w"
  by (auto simp: set_prev_def dest: hdr_tableD split: prod.splits option.splits)

lemma heap_grow_table [simp]: "w_pt (snd (heap_grow a n w)) = w_pt w"
proof -
  have "w_pt ((grow_page a ^^ k) w) = w_pt w" for k by (induction k) (simp_all add: grow_page_def Let_def)
  then show ?thesis by (simp add: heap_grow_def Let_def)
qed

lemma init_heap_table [simp]: "w_pt (snd (init_heap pad pid a t w)) = w_pt w"
  by (simp add: init_heap_def Let_def split_beta)

lemma extend_heap_table [simp]: "w_pt (snd (extend_heap pad pid a n t x h w)) = w_pt w"
  by (simp add: extend_heap_def Let_def split_beta)

lemma take_block_table [simp]: "w_pt (snd (take_block pad pid a n t x h w)) = w_pt w"
  by (simp add: take_block_def Let_def split_beta)

lemma find_fit_table:
  assumes "find_fit pid a n t x h w = Some r"
  shows "w_pt (snd r) = w_pt w"
proof (rule find_fit.raw_induct [OF _ assms, where P = "\<lambda>pid a n t x h w r. w_pt (snd r) = w_pt w"], goal_cases)
  case (1 ff pid a n t x h w r)
  show ?case using 1(2)
    by (auto dest!: hdr_tableD 1(1) split: if_splits prod.splits option.splits)
qed

lemma vm_malloc_table: "vm_malloc pad undef pid a n t w = Some (x, w') \<Longrightarrow> w_pt w' = w_pt w"
proof -
  have "w_pt (snd r) = w_pt w" if "vm_alloc_malloc pad undef pid a n t w = Some r" for r
  proof (rule vm_alloc_malloc.raw_induct [OF _ that, where P = "\<lambda>pad undef pid a n t w r. w_pt (snd r) = w_pt w"], goal_cases)
    case (1 mm pad undef pid a n t w r)
    obtain ok w1 where i: "init_heap pad pid a t w = (ok, w1)" by fastforce
    then have w1: "w_pt w1 = w_pt w" using init_heap_table [of pad pid a t w] by simp
    have e: "w_pt w3 = w_pt w2" if "extend_heap pad pid a m t x h w2 = (b, w3)" for m x h b w2 w3
      using extend_heap_table [of pad pid a m t x h w2] that by simp
    show ?case
    proof (cases "(w_vms w a = None \<or> n = 0 \<or> 65535 < n) \<or> (align_up n 4 = 0 \<or> 65535 < align_up n 4) \<or> \<not> ok")
      case True
      then show ?thesis using 1(2) w1 i by (auto split: if_splits)
    next
      case False
      then obtain k w2 where k: "find_fit pid a (align_up n 4) t (heap_start w1 a) undef w1 = Some (k, w2)"
        "(case k of Walk_Failed \<Rightarrow> Some (0, w2)
          | Walk_Fit x h \<Rightarrow> Some (take_block pad pid a (align_up n 4) t x h w2)
          | Walk_End x h \<Rightarrow> (case extend_heap pad pid a (align_up n 4) t x h w2 of
              (ok1, w3) \<Rightarrow> if \<not> ok1 then Some (0, w3) else mm pad undef pid a (align_up n 4) t w3)) = Some r"
        using 1(2) i by (auto simp: bind_eq_Some_conv)
      have "w_pt w2 = w_pt w" using find_fit_table [OF k(1)] w1 by simp
      then show ?thesis using k(2) by (auto dest!: e 1(1) split: walk.splits prod.splits if_splits)
    qed
  qed
  then show "vm_malloc pad undef pid a n t w = Some (x, w') \<Longrightarrow> w_pt w' = w_pt w" by (fastforce simp: vm_malloc_def)
qed

lemma vm_free_table [simp]: "w_pt (vm_free pad pid a x t w) = w_pt w"
proof -
  have n: "w_pt w3 = w_pt w2" if "join_next pad pid a t c h w2 = (ok, h', w3)" for c h w2 ok h' w3
    using that by (auto simp: join_next_def Let_def split_beta dest!: hdr_tableD split: prod.splits option.splits if_splits)
  have p: "w_pt (join_prev pad pid a t h w2) = w_pt w2" for h w2
    by (auto simp: join_prev_def Let_def split_beta dest!: hdr_tableD split: prod.splits option.splits if_splits)
  show ?thesis
    by (auto simp: vm_free_def vm_alloc_free_def Let_def p dest!: n hdr_tableD split: prod.split option.split)
qed


section \<open>What the runtime needs to know of the process table\<close>

definition pstate :: "process_table \<Rightarrow> int \<Rightarrow> proc_state option" where
  "pstate t q = map_option p_state (proc_get q t)"

definition cpu_of :: "pcb \<Rightarrow> u64" where
  "cpu_of p = (if p_used p then p_cpu_time p else 0)"

definition cpu_total :: "process_table \<Rightarrow> u64" where
  "cpu_total t = (\<Sum>i<1024. cpu_of (entries t i))"

text \<open>From \<open>t\<close> to \<open>t'\<close> the state of process \<open>q\<close> becomes \<open>s\<close>, or no state changes.\<close>

definition moves :: "process_table \<Rightarrow> int \<Rightarrow> proc_state \<Rightarrow> process_table \<Rightarrow> bool" where
  "moves t q s t' \<longleftrightarrow> ptable_inv t' \<and> next_pid t' = next_pid t \<and> cpu_total t' = cpu_total t \<and>
     (\<forall>p. pstate t' p = (if p = q then Some s else pstate t p))"

definition keeps_states :: "process_table \<Rightarrow> process_table \<Rightarrow> bool" where
  "keeps_states t t' \<longleftrightarrow> ptable_inv t' \<and> next_pid t' = next_pid t \<and> cpu_total t' = cpu_total t \<and> pstate t' = pstate t"

lemma keeps_states_refl: "ptable_inv t \<Longrightarrow> keeps_states t t"
  by (simp add: keeps_states_def)

lemma is_ready_pstate: "is_ready t q \<longleftrightarrow> pstate t q = Some PROC_READY"
  by (auto simp: is_ready_def pstate_def split: option.splits)

lemma pstate_range: "pstate t q = Some s \<Longrightarrow> 1 \<le> q \<and> q \<le> 1024"
  using proc_get_SomeD(3,4) by (auto simp: pstate_def)

lemma pstate_next: "pstate t q = Some s \<Longrightarrow> q < next_pid t"
  using find_slot_SomeD(5) by (auto simp: pstate_def proc_get_def)

lemma cpu_total_cong: "(\<And>i. i < 1024 \<Longrightarrow> cpu_of (entries t' i) = cpu_of (entries t i)) \<Longrightarrow> cpu_total t' = cpu_total t"
  by (simp add: cpu_total_def)

lemma keeps_states_upd:
  assumes "ptable_inv t" "keeps_id f" "\<And>p. prio_ok p \<Longrightarrow> prio_ok (f p)" "\<And>p. p_state (f p) = p_state p" "\<And>p. p_cpu_time (f p) = p_cpu_time p"
  shows "keeps_states t (proc_upd q f t)"
proof -
  have "cpu_total (proc_upd q f t) = cpu_total t"
    using assms(2,5) by (intro cpu_total_cong) (auto simp: proc_upd_def cpu_of_def keeps_id_def split: option.split)
  moreover have "pstate (proc_upd q f t) = pstate t"
    using assms(4) by (auto simp: fun_eq_iff pstate_def proc_get_upd [OF assms(2)] option.map_comp o_def)
  ultimately show ?thesis using assms(1-3) by (simp add: keeps_states_def ptable_inv_upd)
qed

lemma keeps_states_for_each:
  assumes "ptable_inv t" "keeps_id f" "\<And>p. prio_ok p \<Longrightarrow> prio_ok (f p)" "\<And>p. p_state (f p) = p_state p" "\<And>p. p_cpu_time (f p) = p_cpu_time p"
  shows "keeps_states t (proc_for_each f t)"
proof -
  have "cpu_total (proc_for_each f t) = cpu_total t"
    using assms(2,5) by (intro cpu_total_cong) (auto simp: proc_for_each_def cpu_of_def keeps_id_def)
  moreover have "pstate (proc_for_each f t) = pstate t"
    using assms(4) by (auto simp: fun_eq_iff pstate_def proc_get_for_each [OF assms(2)] option.map_comp o_def)
  moreover have "next_pid (proc_for_each f t) = next_pid t" by (simp add: proc_for_each_def)
  ultimately show ?thesis using assms(1-3) by (simp add: keeps_states_def ptable_inv_for_each)
qed

text \<open>The updates of \<^verbatim>\<open>runtime.c\<close> and \<^verbatim>\<open>sched.c\<close> that change no state.\<close>

lemma keeps_states_updates:
  assumes "ptable_inv t"
  shows "keeps_states t (proc_upd q (\<lambda>p. p\<lparr>p_wakeup_tick := x\<rparr>) t)"
    "keeps_states t (proc_upd q (\<lambda>p. p\<lparr>p_vm_last_alloc := y\<rparr>) t)"
    "keeps_states t (proc_upd q (\<lambda>p. p\<lparr>p_vm := z\<rparr>) t)"
    "keeps_states t (proc_for_each account_ready_wait t)"
    "keeps_states t (sched_age_ready s now t)"
    "keeps_states t (sched_priority_boost s t)"
    "keeps_states t (sched_demote_after_quantum s q t)"
  using assms unfolding sched_age_ready_def sched_priority_boost_def sched_demote_after_quantum_def
  by (auto intro!: keeps_states_upd keeps_states_for_each keeps_states_refl
      simp: keeps_id_def prio_ok_def account_ready_wait_def age_one_def boost_one_def)

lemma moves_set_state:
  assumes "ptable_inv t" "pstate t q = Some s0" "proc_is_valid_transition s0 s"
  obtains t' where "proc_set_state q s now t = (True, t')" "moves t q s t'"
proof -
  let ?t = "proc_upd q (enter_state s now) t"
  obtain p where p: "proc_get q t = Some p" "p_state p = s0" using assms(2) by (auto simp: pstate_def)
  have "proc_set_state q s now t = (True, ?t)" using p assms(3) by (simp add: proc_set_state_cases)
  moreover have "cpu_total ?t = cpu_total t"
    by (intro cpu_total_cong) (auto simp: proc_upd_def cpu_of_def split: option.split)
  moreover have "ptable_inv ?t" using assms(1) by (intro ptable_inv_upd) (auto simp: prio_ok_def)
  moreover have "pstate ?t x = (if x = q then Some s else pstate t x)" for x
    using p by (simp add: pstate_def proc_get_upd)
  ultimately show ?thesis using that by (simp add: moves_def)
qed

lemma set_state_refused:
  "\<nexists>s0. pstate t q = Some s0 \<and> proc_is_valid_transition s0 s \<Longrightarrow> proc_set_state q s now t = (False, t)"
  by (auto simp: proc_set_state_cases pstate_def split: option.splits)

lemma moves_mark_exited:
  assumes "ptable_inv t" "pstate t q = Some s0" "s0 \<noteq> PROC_EXITED"
  obtains t' where "proc_mark_exited e q code now t = (True, t')" "moves t q PROC_EXITED t'"
proof -
  obtain i where i: "find_slot_by_pid q t = Some i" "p_state (entries t i) = s0"
    using assms(2) by (auto simp: pstate_def proc_get_def)
  obtain t' where t': "proc_mark_exited e q code now t = (True, t')"
    using i assms(3) by (simp add: proc_mark_exited_eq)
  have "pstate t' x = (if x = q then Some PROC_EXITED else pstate t x)" for x
    using proc_mark_exited_get [of x e q code now t] t' i by (simp add: pstate_def proc_get_def)
  moreover have "ptable_inv t'" using proc_mark_exited_inv [OF assms(1), of e q code now] t' by simp
  moreover have "next_pid t' = next_pid t" using t' i assms(3) by (auto simp: proc_mark_exited_eq)
  moreover have "cpu_total t' = cpu_total t"
    using t' i assms(3) by (intro cpu_total_cong) (auto simp: proc_mark_exited_eq cpu_of_def split: if_splits)
  ultimately show ?thesis using that t' by (simp add: moves_def)
qed

lemma mark_exited_refused:
  "pstate t q \<in> {None, Some PROC_EXITED} \<Longrightarrow> proc_mark_exited e q code now t = (False, t)"
  by (auto simp: proc_mark_exited_eq pstate_def proc_get_def split: option.splits)


section \<open>The invariant\<close>

text \<open>
  The slot \<open>i\<close> holds a well-typed program, its program counter is within it, it belongs to a
  process id that was handed out, and the index finds it.
\<close>

definition slot_wf :: "int \<Rightarrow> int carray \<Rightarrow> nat \<Rightarrow> workload_slot \<Rightarrow> bool" where
  "slot_wf next ix i sl \<longleftrightarrow> workload_wf (sl_workload sl) \<and> sl_pc sl < wl_count (sl_workload sl) \<and>
     1 \<le> sl_pid sl \<and> sl_pid sl < next \<and> (sl_pid sl \<le> 1024 \<longrightarrow> ix (nat (sl_pid sl - 1)) = int i)"

definition has_slot :: "workload_slot carray \<Rightarrow> int carray \<Rightarrow> int \<Rightarrow> bool" where
  "has_slot sl ix q \<longleftrightarrow> (\<exists>i < 1024. sl_used (sl i) \<and> sl_pid (sl i) = q \<and> ix (nat (q - 1)) = int i)"

definition sched_exact :: "process_table \<Rightarrow> scheduler \<Rightarrow> bool" where
  "sched_exact t sch \<longleftrightarrow> sched_inv sch \<and> s_last_boost_tick sch = 0 \<and> pool sch = mset_set {q. is_ready t q}"

definition one_running :: "process_table \<Rightarrow> int \<Rightarrow> bool" where
  "one_running t cur \<longleftrightarrow> -1 \<le> cur \<and> (\<forall>q. pstate t q = Some PROC_RUNNING \<longleftrightarrow> q = cur \<and> 0 \<le> cur)"

definition programs :: "process_table \<Rightarrow> workload_slot carray \<Rightarrow> int carray \<Rightarrow> bool" where
  "programs t sl ix \<longleftrightarrow> (\<forall>i < 1024. sl_used (sl i) \<longrightarrow> slot_wf (next_pid t) ix i (sl i)) \<and>
     (\<forall>q s. pstate t q = Some s \<longrightarrow> s \<noteq> PROC_EXITED \<longrightarrow> has_slot sl ix q)"

definition core_inv ::
  "process_table \<Rightarrow> scheduler \<Rightarrow> int \<Rightarrow> workload_slot carray \<Rightarrow> int carray \<Rightarrow> u64 \<Rightarrow> u64 \<Rightarrow> u64 \<Rightarrow> bool" where
  "core_inv t sch cur sl ix tick busy idle \<longleftrightarrow>
     ptable_inv t \<and> sched_exact t sch \<and> one_running t cur \<and> programs t sl ix \<and> tick = busy + idle \<and> busy = cpu_total t"

definition rt_inv :: "sys \<Rightarrow> bool" where
  "rt_inv S \<longleftrightarrow> core_inv (ptable S) (rt_scheduler S) (rt_current_pid S) (rt_slots S) (sy_slot_by_pid S)
     (rt_tick S) (rt_busy_ticks S) (rt_idle_ticks S)"

lemma rt_invD:
  assumes "rt_inv S"
  shows "ptable_inv (ptable S)" "sched_exact (ptable S) (rt_scheduler S)" "one_running (ptable S) (rt_current_pid S)"
    "programs (ptable S) (rt_slots S) (sy_slot_by_pid S)" "rt_tick S = rt_busy_ticks S + rt_idle_ticks S" "rt_busy_ticks S = cpu_total (ptable S)"
  using assms by (simp_all add: rt_inv_def core_inv_def)

lemma finite_ready [simp]: "finite {q. is_ready t q}"
proof (rule finite_subset)
  show "{q. is_ready t q} \<subseteq> {1..1024}" using pstate_range by (auto simp: is_ready_pstate)
qed simp

lemma card_ready_less:
  assumes "1 \<le> q" "q \<le> 1024" "\<not> is_ready t q"
  shows "card {p. is_ready t p} < 1024"
proof -
  have "{p. is_ready t p} \<subset> {1..1024}" using assms pstate_range by (auto simp: is_ready_pstate)
  from psubset_card_mono [OF _ this] show ?thesis by simp
qed

lemma sched_keeps_boost [simp]:
  "s_last_boost_tick (snd (sched_enqueue t s q)) = s_last_boost_tick s" "s_last_boost_tick (snd (sched_pick_next t s)) = s_last_boost_tick s"
proof -
  show "s_last_boost_tick (snd (sched_enqueue t s q)) = s_last_boost_tick s"
    by (simp add: sched_enqueue_def heap_push_def Let_def split_beta split: option.split)
  have h: "s_last_boost_tick (snd (heap_pop t s)) = s_last_boost_tick s" using heap_pop_picks [of t s] by auto
  have m: "s_last_boost_tick (snd (mlfq_pick t l s)) = s_last_boost_tick s" for l s
  proof (induction t l s rule: mlfq_pick.induct)
    case (1 t q s)
    obtain p r where pop: "queue_pop t (s_mlfq s q) = (p, r)" by fastforce
    show ?case
    proof (cases "q < 4 \<and> \<not> 0 \<le> p")
      case True
      then show ?thesis using 1 [OF _ refl pop [symmetric] refl] pop by (subst mlfq_pick.simps) simp
    next
      case False
      then show ?thesis using pop by (subst mlfq_pick.simps) auto
    qed
  qed
  show "s_last_boost_tick (snd (sched_pick_next t s)) = s_last_boost_tick s"
    using h m by (simp add: sched_pick_next_def Let_def split_beta)
qed

lemma sched_exact_keeps: "sched_exact t sch \<Longrightarrow> pstate t' = pstate t \<Longrightarrow> sched_exact t' sch"
  by (simp add: sched_exact_def is_ready_pstate)

lemma sched_exact_enqueue:
  assumes "sched_exact t sch" "moves t q PROC_READY t'" "\<not> is_ready t q"
  shows "sched_exact t' (snd (sched_enqueue t' sch q))"
proof -
  have r: "is_ready t' p \<longleftrightarrow> p = q \<or> is_ready t p" for p using assms(2) by (simp add: moves_def is_ready_pstate)
  have q: "1 \<le> q" "q \<le> 1024" using assms(2) pstate_range [of t' q PROC_READY] by (simp_all add: moves_def)
  have inv: "sched_inv sch" and P: "pool sch = mset_set {p. is_ready t p}" using assms(1) by (simp_all add: sched_exact_def)
  have "fst (sched_enqueue t' sch q)"
    using inv r assms(3) card_ready_less [OF q assms(3)] by (intro sched.enqueue_accepts) (simp_all add: P)
  then have "pool (snd (sched_enqueue t' sch q)) = add_mset q (mset_set {p. is_ready t p})"
    using sched.enqueue_content [OF inv, of t' q] P by simp
  also have "\<dots> = mset_set (insert q {p. is_ready t p})" using assms(3) by simp
  also have "insert q {p. is_ready t p} = {p. is_ready t' p}" using r by auto
  finally show ?thesis using assms(1) inv by (simp add: sched_exact_def sched.enqueue_wf)
qed

lemma sched_exact_pick:
  assumes "sched_exact t sch" "sched_pick_next t sch = (q, sch')"
  shows "q = -1 \<Longrightarrow> {p. is_ready t p} = {} \<and> sched_exact t sch'"
    and "q \<noteq> -1 \<Longrightarrow> is_ready t q \<and> (moves t q PROC_RUNNING t' \<longrightarrow> sched_exact t' sch')"
proof -
  have inv: "sched_inv sch" and P: "pool sch = mset_set {p. is_ready t p}" using assms(1) by (simp_all add: sched_exact_def)
  have i': "sched_inv sch'" "s_last_boost_tick sch' = 0"
    using sched.pick_wf [OF inv, of t] sched_keeps_boost(2) [of t sch] assms by (simp_all add: sched_exact_def)
  have all: "filter_mset (is_ready t) M = M" if "M \<subseteq># pool sch" for M
    using that P by (auto simp: filter_mset_eq_conv dest: mset_subset_eqD)
  show "q = -1 \<Longrightarrow> {p. is_ready t p} = {} \<and> sched_exact t sch'"
  proof -
    assume "q = -1"
    then have n: "filter_mset (is_ready t) (pool sch) = {#} \<and> pool sch' \<subseteq># pool sch"
      using sched.pick_none [OF inv, of t] assms(2) by simp
    then have e: "pool sch = {#}" using all [of "pool sch"] by simp
    then have "pool sch' = {#}" using n by simp
    then show ?thesis using i' P e by (simp add: sched_exact_def mset_set_empty_iff)
  qed
  assume "q \<noteq> -1"
  then have s: "is_ready t q" "add_mset q (pool sch') \<subseteq># pool sch"
    "filter_mset (is_ready t) (pool sch) = add_mset q (filter_mset (is_ready t) (pool sch'))"
    using sched.pick_some [OF inv, of t] assms(2) by simp_all
  have sub: "pool sch' \<subseteq># pool sch" using s(2) by (metis mset_subset_eq_insertD subset_mset.less_imp_le)
  have e: "pool sch = add_mset q (pool sch')" using s(3) all [OF sub] all [of "pool sch"] by simp
  show "is_ready t q \<and> (moves t q PROC_RUNNING t' \<longrightarrow> sched_exact t' sch')"
  proof (intro conjI impI)
    assume "moves t q PROC_RUNNING t'"
    then have "{p. is_ready t' p} = {p. is_ready t p} - {q}" by (auto simp: moves_def is_ready_pstate)
    moreover have "pool sch' = mset_set ({p. is_ready t p} - {q})"
      using e P s(1) by (simp add: mset_set_Diff)
    ultimately show "sched_exact t' sch'" using i' by (simp add: sched_exact_def)
  qed (rule s(1))
qed


section \<open>Rebuilding the ready queues\<close>

lemma set_ptable_simps [simp]:
  "ptable (set_ptable t S) = t" "rt_scheduler (set_ptable t S) = rt_scheduler S" "rt_current_pid (set_ptable t S) = rt_current_pid S"
  "rt_slots (set_ptable t S) = rt_slots S" "sy_slot_by_pid (set_ptable t S) = sy_slot_by_pid S" "rt_tick (set_ptable t S) = rt_tick S"
  "rt_busy_ticks (set_ptable t S) = rt_busy_ticks S" "rt_idle_ticks (set_ptable t S) = rt_idle_ticks S"
  "set_ptable (ptable S) S = S" "set_ptable t (set_ptable t' S) = set_ptable t S" "rt_need_resched (set_ptable t S) = rt_need_resched S"
  "sy_timer (set_ptable t S) = sy_timer S"
  by (simp_all add: set_ptable_def)

lemma set_slot_simps [simp]:
  "ptable (set_slot i f S) = ptable S" "rt_scheduler (set_slot i f S) = rt_scheduler S" "rt_current_pid (set_slot i f S) = rt_current_pid S"
  "rt_slots (set_slot i f S) = (rt_slots S)(i := f (rt_slots S i))" "sy_slot_by_pid (set_slot i f S) = sy_slot_by_pid S"
  "rt_tick (set_slot i f S) = rt_tick S" "rt_busy_ticks (set_slot i f S) = rt_busy_ticks S" "rt_idle_ticks (set_slot i f S) = rt_idle_ticks S"
  by (simp_all add: set_slot_def)

lemma trace_simps [simp]:
  "ptable (trace p e d S) = ptable S" "rt_scheduler (trace p e d S) = rt_scheduler S" "rt_current_pid (trace p e d S) = rt_current_pid S"
  "rt_slots (trace p e d S) = rt_slots S" "sy_slot_by_pid (trace p e d S) = sy_slot_by_pid S" "rt_tick (trace p e d S) = rt_tick S"
  "rt_busy_ticks (trace p e d S) = rt_busy_ticks S" "rt_idle_ticks (trace p e d S) = rt_idle_ticks S"
  by (simp_all add: trace_def print_def split_beta)

definition ready_list :: "process_table \<Rightarrow> int list" where
  "ready_list t = map (\<lambda>i. p_pid (entries t i)) (filter (\<lambda>i. p_used (entries t i) \<and> p_state (entries t i) = PROC_READY) [0..<1024])"

definition known_ready :: "process_table \<Rightarrow> int list" where
  "known_ready t = filter (\<lambda>q. proc_get q t \<noteq> None) (ready_list t)"

lemma rebuild_fold:
  "proc_fold ptable rebuild_one_ready S = S\<lparr>rt_scheduler := enqueue_all (ptable S) (ready_list (ptable S)) (rt_scheduler S)\<rparr>"
proof -
  have "fold (\<lambda>i S. if p_used (entries (ptable S) i) then rebuild_one_ready i S else S) xs S =
    S\<lparr>rt_scheduler := enqueue_all (ptable S)
        (map (\<lambda>i. p_pid (entries (ptable S) i)) (filter (\<lambda>i. p_used (entries (ptable S) i) \<and> p_state (entries (ptable S) i) = PROC_READY) xs)) (rt_scheduler S)\<rparr>" for xs
    by (induction xs arbitrary: S) (simp_all add: enqueue_all_def rebuild_one_ready_def Let_def)
  then show ?thesis by (simp add: proc_fold_def ready_list_def)
qed

lemma enqueue_all_known: "enqueue_all t pids s = enqueue_all t (filter (\<lambda>q. proc_get q t \<noteq> None) pids) s"
proof (induction pids arbitrary: s)
  case (Cons p pids)
  have "snd (sched_enqueue t s p) = s" if "proc_get p t = None" using that by (simp add: sched_enqueue_def)
  then show ?case using Cons.IH by (auto simp: enqueue_all_def)
qed simp

lemma known_ready_facts:
  assumes "ptable_inv t"
  shows "set (known_ready t) = {q. is_ready t q}" "distinct (known_ready t)" "length (known_ready t) \<le> 1024"
proof -
  show s: "set (known_ready t) = {q. is_ready t q}"
  proof (intro set_eqI iffI)
    fix q assume "q \<in> set (known_ready t)"
    then obtain i p where i: "i < 1024" "p_used (entries t i)" "p_state (entries t i) = PROC_READY" "q = p_pid (entries t i)" "proc_get q t = Some p"
      by (auto simp: known_ready_def ready_list_def)
    moreover have "find_slot_by_pid q t = Some i" using i find_slot_iff [OF assms, of q i] proc_get_SomeD(4) [OF i(5)] by simp
    ultimately show "q \<in> {q. is_ready t q}" by (simp add: is_ready_def proc_get_def)
  next
    fix q assume "q \<in> {q. is_ready t q}"
    then obtain p where p: "proc_get q t = Some p" "p_state p = PROC_READY" by (auto simp: is_ready_def split: option.splits)
    then obtain i where "i < 1024" "find_slot_by_pid q t = Some i" "entries t i = p" using proc_get_SomeD(5) by blast
    then show "q \<in> set (known_ready t)" using p find_slot_SomeD(2,3) [of q t i]
      by (auto simp: known_ready_def ready_list_def image_iff intro!: exI [of _ i])
  qed
  have "inj_on (\<lambda>i. p_pid (entries t i)) {i. i < 1024 \<and> p_used (entries t i)}"
    using ptable_inv_unique [OF assms] by (auto intro!: inj_onI)
  then show d: "distinct (known_ready t)"
    unfolding known_ready_def ready_list_def
    by (intro distinct_filter) (auto simp: distinct_map intro: inj_on_subset)
  have "card (set (known_ready t)) \<le> card {1..1024 :: int}"
    using s pstate_range by (intro card_mono) (auto simp: is_ready_pstate)
  then show "length (known_ready t) \<le> 1024" by (simp add: distinct_card [OF d])
qed

text \<open>A rebuild queues exactly the ready processes, in the order of their table slots.\<close>

lemma rebuild_eq:
  "rebuild_ready_queues S =
     S\<lparr>rt_scheduler := (enqueue_all (ptable S) (known_ready (ptable S)) (sched_clear (rt_scheduler S)))
        \<lparr>s_current_pid := s_current_pid (rt_scheduler S), s_consumed_ticks := s_consumed_ticks (rt_scheduler S)\<rparr>\<rparr>"
  unfolding rebuild_ready_queues_def Let_def rebuild_fold known_ready_def by (subst enqueue_all_known) simp

lemma enqueue_all_boost [simp]: "s_last_boost_tick (enqueue_all t pids s) = s_last_boost_tick s"
  by (induction pids arbitrary: s) (simp_all add: enqueue_all_def)

lemma rebuild_exact:
  assumes "ptable_inv (ptable S)"
  shows "sched_exact (ptable S) (rt_scheduler (rebuild_ready_queues S))"
proof -
  let ?t = "ptable S" and ?c = "sched_clear (rt_scheduler S)"
  have c: "sched_inv ?c" "pool ?c = {#}" "s_last_boost_tick ?c = 0" by (simp_all add: sched_clear_def sched_inv_init) (simp add: sched_init_def)
  note K = known_ready_facts [OF assms]
  have "pool (enqueue_all ?t (known_ready ?t) ?c) = mset (known_ready ?t)"
    using pool_enqueue_all [OF c(1), of "known_ready ?t" ?t] K c(2) by simp
  also have "\<dots> = mset_set {q. is_ready ?t q}" using K(1,2) by (metis mset_set_set)
  finally show ?thesis using sched_inv_enqueue_all [OF c(1)] c(3) by (simp add: rebuild_eq sched_exact_def)
qed

lemma rebuild_simps [simp]:
  "ptable (rebuild_ready_queues S) = ptable S" "rt_current_pid (rebuild_ready_queues S) = rt_current_pid S"
  "rt_slots (rebuild_ready_queues S) = rt_slots S" "sy_slot_by_pid (rebuild_ready_queues S) = sy_slot_by_pid S"
  "rt_tick (rebuild_ready_queues S) = rt_tick S" "rt_busy_ticks (rebuild_ready_queues S) = rt_busy_ticks S"
  "rt_idle_ticks (rebuild_ready_queues S) = rt_idle_ticks S"
  by (simp_all add: rebuild_eq)


section \<open>The steps of the dispatcher keep the invariant\<close>

lemma programs_moves:
  assumes "programs t sl ix" "moves t q s t'" "s = PROC_EXITED \<or> (\<exists>s0. pstate t q = Some s0 \<and> s0 \<noteq> PROC_EXITED)"
  shows "programs t' sl ix"
  using assms by (auto simp: programs_def moves_def)

lemma programs_keeps: "programs t sl ix \<Longrightarrow> keeps_states t t' \<Longrightarrow> programs t' sl ix"
  by (simp add: programs_def keeps_states_def)

lemma one_running_current: "one_running t cur \<Longrightarrow> 0 \<le> cur \<Longrightarrow> pstate t cur = Some PROC_RUNNING"
  by (simp add: one_running_def)

lemma rt_inv_keeps:
  assumes "rt_inv S" "keeps_states (ptable S) t'"
  shows "rt_inv (set_ptable t' S)"
  using rt_invD [OF assms(1)] assms(2) programs_keeps [OF _ assms(2)] sched_exact_keeps [of "ptable S" _ t']
  by (simp add: rt_inv_def core_inv_def keeps_states_def one_running_def)

text \<open>\<open>rt_inv\<close> reads only the fields of \<open>core_inv\<close>.\<close>

lemma rt_inv_other [simp]:
  "rt_inv (S\<lparr>rt_need_resched := b\<rparr>) = rt_inv S" "rt_inv (S\<lparr>rt_started := b\<rparr>) = rt_inv S" "rt_inv (S\<lparr>rt_completed := c\<rparr>) = rt_inv S"
  "rt_inv (S\<lparr>rt_trace := l\<rparr>) = rt_inv S" "rt_inv (S\<lparr>sy_ipc := g\<rparr>) = rt_inv S" "rt_inv (S\<lparr>sy_sync := k\<rparr>) = rt_inv S"
  "rt_inv (S\<lparr>sy_timer := m\<rparr>) = rt_inv S" "rt_inv (print x S) = rt_inv S" "rt_inv (trace p e d S) = rt_inv S"
  by (simp_all add: rt_inv_def print_def trace_def split_beta)

lemma rt_inv_mem: "w_pt w = ptable S \<Longrightarrow> rt_inv (S\<lparr>sy_mem := w\<rparr>) = rt_inv S"
  by (simp add: rt_inv_def)

lemma enqueue_ready_simps [simp]:
  "rt_current_pid (enqueue_ready q S) = rt_current_pid S" "rt_slots (enqueue_ready q S) = rt_slots S"
  "sy_slot_by_pid (enqueue_ready q S) = sy_slot_by_pid S" "rt_tick (enqueue_ready q S) = rt_tick S"
  "rt_busy_ticks (enqueue_ready q S) = rt_busy_ticks S" "rt_idle_ticks (enqueue_ready q S) = rt_idle_ticks S"
  by (simp_all add: enqueue_ready_def Let_def split_beta)

lemma enqueue_ready_moves:
  assumes "ptable_inv (ptable S)" "pstate (ptable S) q = Some s0" "proc_is_valid_transition s0 PROC_READY"
  obtains t' where "moves (ptable S) q PROC_READY t'" "ptable (enqueue_ready q S) = t'"
    "rt_scheduler (enqueue_ready q S) = snd (sched_enqueue t' (rt_scheduler S) q)"
proof -
  obtain t' where "proc_set_state q PROC_READY (rt_tick S) (ptable S) = (True, t')" "moves (ptable S) q PROC_READY t'"
    by (rule moves_set_state [OF assms])
  then show ?thesis using that [of t'] by (simp add: enqueue_ready_def Let_def)
qed

lemma enqueue_ready_refused: "pstate (ptable S) q = None \<Longrightarrow> enqueue_ready q S = S"
  by (simp add: enqueue_ready_def set_state_refused)

text \<open>A process that is neither ready nor running becomes ready.\<close>

lemma rt_inv_enqueue:
  assumes "rt_inv S" "pstate (ptable S) q = Some s0" "s0 \<in> {PROC_NEW, PROC_BLOCKED}"
  shows "rt_inv (enqueue_ready q S)"
proof -
  note I = rt_invD [OF assms(1)]
  have v: "proc_is_valid_transition s0 PROC_READY" using assms(3) by (auto simp: proc_is_valid_transition_def)
  obtain t' where t': "moves (ptable S) q PROC_READY t'" "ptable (enqueue_ready q S) = t'"
    "rt_scheduler (enqueue_ready q S) = snd (sched_enqueue t' (rt_scheduler S) q)"
    by (rule enqueue_ready_moves [OF I(1) assms(2) v])
  have "\<not> is_ready (ptable S) q" "q \<noteq> rt_current_pid S \<or> rt_current_pid S < 0"
    using assms(2,3) one_running_current [OF I(3)] by (auto simp: is_ready_pstate not_le [symmetric])
  then show ?thesis
    using I t' sched_exact_enqueue [OF I(2) t'(1)] programs_moves [OF I(4) t'(1)] assms(2,3)
    by (auto simp: rt_inv_def core_inv_def one_running_def moves_def)
qed

lemma rt_inv_wake [inv_intros]: "rt_inv S \<Longrightarrow> rt_inv (wake_pid q why S)"
  using rt_inv_enqueue [of S q PROC_BLOCKED] by (auto simp: wake_pid_def pstate_def split: option.split)

lemma keeps_states_entry:
  assumes "ptable_inv t" "keeps_id f" "\<And>p. prio_ok p \<Longrightarrow> prio_ok (f p)" "\<And>p. p_state (f p) = p_state p" "\<And>p. p_cpu_time (f p) = p_cpu_time p"
  shows "keeps_states t (t\<lparr>entries := (entries t)(i := f (entries t i))\<rparr>)" (is "keeps_states t ?t")
proof -
  have e: "entries ?t j = (if j = i then f (entries t i) else entries t j)" for j by simp
  have "find_slot_by_pid q ?t = find_slot_by_pid q t" for q
    using assms(2) by (intro find_slot_cong) (auto simp: keeps_id_def)
  then have "pstate ?t q = pstate t q" for q
    using assms(4) by (cases "find_slot_by_pid q t") (auto simp: pstate_def proc_get_def)
  moreover have "ptable_inv ?t" using assms(2,3) by (intro ptable_inv_entries [OF assms(1)]) (auto simp: keeps_id_def)
  moreover have "cpu_total ?t = cpu_total t" using assms(2,5) by (intro cpu_total_cong) (auto simp: keeps_id_def cpu_of_def)
  ultimately show ?thesis by (simp add: keeps_states_def fun_eq_iff)
qed

lemma rt_inv_wake_by_time [inv_intros]:
  assumes "rt_inv S"
  shows "rt_inv (wake_blocked_by_time i S)"
proof -
  have "keeps_states (ptable S) ((ptable S)\<lparr>entries := (entries (ptable S))(i := (entries (ptable S) i)\<lparr>p_wakeup_tick := 0\<rparr>)\<rparr>)"
    using keeps_states_entry [OF rt_invD(1) [OF assms], of "\<lambda>p. p\<lparr>p_wakeup_tick := 0\<rparr>" i] by (simp add: keeps_id_def prio_ok_def)
  from rt_inv_wake [OF rt_inv_keeps [OF assms this]] show ?thesis using assms by (simp add: wake_blocked_by_time_def Let_def)
qed

lemma proc_fold_inv:
  assumes "\<And>i s. P s \<Longrightarrow> i < 1024 \<Longrightarrow> p_used (entries (table s) i) \<Longrightarrow> P (fn i s)" "P s"
  shows "P (proc_fold table fn s)"
proof -
  have "P (fold (\<lambda>i s. if p_used (entries (table s) i) then fn i s else s) xs s)" if "set xs \<subseteq> {..<1024}" for xs
    using that assms(2) by (induction xs arbitrary: s) (auto intro: assms(1))
  from this [of "[0..<1024]"] show ?thesis by (simp add: proc_fold_def atLeast0LessThan)
qed

lemma rt_inv_rebuild [inv_intros]: "rt_inv S \<Longrightarrow> rt_inv (rebuild_ready_queues S)"
  using rebuild_exact [OF rt_invD(1)] by (simp add: rt_inv_def core_inv_def)

lemma rt_inv_boost [inv_intros]:
  assumes "rt_inv S"
  shows "rt_inv (boost_queues S)"
proof -
  let ?t = "sched_priority_boost (rt_scheduler S) (ptable S)"
  let ?S2 = "(set_ptable ?t S)\<lparr>rt_scheduler := (rt_scheduler S)\<lparr>s_last_boost_tick := rt_tick S\<rparr>\<rparr>"
  have "rt_inv (set_ptable ?t S)" by (rule rt_inv_keeps [OF assms keeps_states_updates(6) [OF rt_invD(1) [OF assms]]])
  then have "rt_inv (rebuild_ready_queues ?S2)"
    using rebuild_exact [of ?S2] rt_invD [of "set_ptable ?t S"] by (simp add: rt_inv_def core_inv_def)
  then show ?thesis using assms by (simp add: boost_queues_def)
qed

lemma rt_inv_refresh [inv_intros]:
  assumes "rt_inv S"
  shows "rt_inv (refresh_queues S)"
proof -
  let ?S1 = "proc_fold ptable wake_blocked_by_time S"
  have 1: "rt_inv ?S1" by (rule proc_fold_inv [where P = rt_inv]) (use assms in \<open>simp_all add: rt_inv_wake_by_time\<close>)
  have 2: "rt_inv (set_ptable (sched_age_ready (rt_scheduler ?S1) (rt_tick ?S1) (ptable ?S1)) ?S1)"
    by (rule rt_inv_keeps [OF 1 keeps_states_updates(5) [OF rt_invD(1) [OF 1]]])
  show ?thesis unfolding refresh_queues_def Let_def
    by (rule rt_inv_boost) (use 2 rt_inv_rebuild [OF 2] in simp)
qed


subsection \<open>The current process\<close>

lemma valid_moves:
  "proc_is_valid_transition PROC_RUNNING PROC_BLOCKED" "proc_is_valid_transition PROC_RUNNING PROC_READY"
  "proc_is_valid_transition PROC_READY PROC_RUNNING"
  by (simp_all add: proc_is_valid_transition_def)

lemma rt_inv_leave:
  assumes "rt_inv S" "0 \<le> rt_current_pid S" "moves (ptable S) (rt_current_pid S) s t'" "s \<in> {PROC_BLOCKED, PROC_EXITED}"
  shows "rt_inv ((set_ptable t' S)\<lparr>rt_current_pid := -1\<rparr>)"
proof -
  note I = rt_invD [OF assms(1)]
  have r: "pstate (ptable S) (rt_current_pid S) = Some PROC_RUNNING" using I(3) assms(2) by (rule one_running_current)
  have "is_ready t' = is_ready (ptable S)" using assms(3,4) r by (auto simp: fun_eq_iff moves_def is_ready_pstate)
  then have "sched_exact t' (rt_scheduler S)" using I(2) by (simp add: sched_exact_def)
  moreover have "programs t' (rt_slots S) (sy_slot_by_pid S)" using r by (intro programs_moves [OF I(4) assms(3)]) auto
  moreover have "one_running t' (-1)" using I(3) assms(3,4) by (auto simp: one_running_def moves_def)
  ultimately show ?thesis using I assms(3) by (simp add: rt_inv_def core_inv_def moves_def)
qed

lemma exit_current_eq:
  assumes "rt_inv S" "0 \<le> rt_current_pid S"
  obtains t' where "moves (ptable S) (rt_current_pid S) PROC_EXITED t'"
    "exit_current e code S = (trace (rt_current_pid S) ''EXIT'' ''workload complete''
       ((set_ptable t' S)\<lparr>rt_completed := rt_completed S + 1\<rparr>))\<lparr>rt_current_pid := -1\<rparr>"
proof -
  have "pstate (ptable S) (rt_current_pid S) = Some PROC_RUNNING" using rt_invD(3) [OF assms(1)] assms(2) by (rule one_running_current)
  then obtain t' where "proc_mark_exited e (rt_current_pid S) code (rt_tick S) (ptable S) = (True, t')"
    "moves (ptable S) (rt_current_pid S) PROC_EXITED t'"
    by (rule moves_mark_exited [OF rt_invD(1) [OF assms(1)]]) simp
  then show ?thesis using that [of t'] assms(2) by (simp add: exit_current_def set_ptable_def Let_def)
qed

lemma rt_inv_cur_trace: "rt_inv ((trace p e d S)\<lparr>rt_current_pid := c\<rparr>) = rt_inv (S\<lparr>rt_current_pid := c\<rparr>)"
  by (simp add: rt_inv_def)

lemma rt_inv_exit [inv_intros]:
  assumes "rt_inv S"
  shows "rt_inv (exit_current e code S)"
proof (cases "0 \<le> rt_current_pid S")
  case True
  obtain t' where t': "moves (ptable S) (rt_current_pid S) PROC_EXITED t'"
    "exit_current e code S = (trace (rt_current_pid S) ''EXIT'' ''workload complete''
       ((set_ptable t' S)\<lparr>rt_completed := rt_completed S + 1\<rparr>))\<lparr>rt_current_pid := -1\<rparr>"
    by (rule exit_current_eq [OF assms True])
  then show ?thesis using rt_inv_leave [OF assms True t'(1)] unfolding t'(2) rt_inv_cur_trace by (simp add: rt_inv_def)
qed (use assms in \<open>simp add: exit_current_def\<close>)

lemma block_current_eq:
  assumes "rt_inv S" "0 \<le> rt_current_pid S"
  obtains t' where "moves (ptable S) (rt_current_pid S) PROC_BLOCKED t'"
    "block_current why S = (trace (rt_current_pid S) ''BLOCK'' why (set_ptable t' S))\<lparr>rt_current_pid := -1\<rparr>"
proof -
  have "pstate (ptable S) (rt_current_pid S) = Some PROC_RUNNING" using rt_invD(3) [OF assms(1)] assms(2) by (rule one_running_current)
  then obtain t' where "proc_set_state (rt_current_pid S) PROC_BLOCKED (rt_tick S) (ptable S) = (True, t')"
    "moves (ptable S) (rt_current_pid S) PROC_BLOCKED t'"
    by (rule moves_set_state [OF rt_invD(1) [OF assms(1)] _ valid_moves(1)])
  then show ?thesis using that [of t'] assms(2) by (simp add: block_current_def Let_def)
qed

lemma rt_inv_block [inv_intros]:
  assumes "rt_inv S"
  shows "rt_inv (block_current why S)"
proof (cases "0 \<le> rt_current_pid S")
  case True
  obtain t' where t': "moves (ptable S) (rt_current_pid S) PROC_BLOCKED t'"
    "block_current why S = (trace (rt_current_pid S) ''BLOCK'' why (set_ptable t' S))\<lparr>rt_current_pid := -1\<rparr>"
    by (rule block_current_eq [OF assms True])
  then show ?thesis using rt_inv_leave [OF assms True t'(1)] by (simp add: rt_inv_cur_trace)
qed (use assms in \<open>simp add: block_current_def\<close>)

lemma rt_inv_requeue:
  assumes "rt_inv S" "0 \<le> rt_current_pid S"
  shows "rt_inv ((enqueue_ready (rt_current_pid S) S)\<lparr>rt_current_pid := -1\<rparr>)"
proof -
  note I = rt_invD [OF assms(1)]
  let ?c = "rt_current_pid S"
  have r: "pstate (ptable S) ?c = Some PROC_RUNNING" using I(3) assms(2) by (rule one_running_current)
  obtain t' where t': "moves (ptable S) ?c PROC_READY t'" "ptable (enqueue_ready ?c S) = t'"
    "rt_scheduler (enqueue_ready ?c S) = snd (sched_enqueue t' (rt_scheduler S) ?c)"
    by (rule enqueue_ready_moves [OF I(1) r valid_moves(2)])
  have "sched_exact t' (snd (sched_enqueue t' (rt_scheduler S) ?c))"
    by (rule sched_exact_enqueue [OF I(2) t'(1)]) (simp add: is_ready_pstate r)
  moreover have "programs t' (rt_slots S) (sy_slot_by_pid S)" using r by (intro programs_moves [OF I(4) t'(1)]) auto
  moreover have "one_running t' (-1)" using I(3) t'(1) by (auto simp: one_running_def moves_def)
  ultimately show ?thesis using I t' by (simp add: rt_inv_def core_inv_def moves_def)
qed

lemma rt_inv_preempt [inv_intros]:
  assumes "rt_inv S"
  shows "rt_inv (maybe_preempt S)"
proof -
  let ?S1 = "if sched_algo (rt_scheduler S) = SCHED_MLFQ
             then set_ptable (sched_demote_after_quantum (rt_scheduler S) (rt_current_pid S) (ptable S)) S else S"
  have 1: "rt_inv ?S1" using rt_inv_keeps [OF assms keeps_states_updates(7) [OF rt_invD(1) [OF assms]]] assms by simp
  have c: "rt_current_pid ?S1 = rt_current_pid S" by simp
  let ?S2 = "?S1\<lparr>rt_need_resched := False, sy_timer := timer_clear_resched (sy_timer ?S1)\<rparr>"
  have "rt_inv ?S2" "rt_current_pid ?S2 = rt_current_pid S" using 1 c by simp_all
  then have "rt_inv ((enqueue_ready (rt_current_pid S) ?S2)\<lparr>rt_current_pid := -1\<rparr>)" if "0 \<le> rt_current_pid S"
    using rt_inv_requeue [of ?S2] that by simp
  then show ?thesis using assms unfolding maybe_preempt_def Let_def rt_inv_cur_trace by (simp add: rt_inv_cur_trace)
qed

text \<open>Dispatching: either there was a current process, or a ready one is started, or none is ready.\<close>

lemma dispatch_cases:
  assumes "rt_inv S"
  obtains (running) "0 \<le> rt_current_pid S" "dispatch S = (True, S)"
  | (idle) sch where "rt_current_pid S = -1" "{q. is_ready (ptable S) q} = {}" "dispatch S = (False, S\<lparr>rt_scheduler := sch\<rparr>)" "sched_exact (ptable S) sch"
  | (start) q sch t' S' where "rt_current_pid S = -1" "is_ready (ptable S) q" "sched_pick_next (ptable S) (rt_scheduler S) = (q, sch)"
      "moves (ptable S) q PROC_RUNNING t'" "sched_exact t' sch" "dispatch S = (True, S')" "ptable S' = t'" "rt_scheduler S' = sch" "rt_current_pid S' = q"
      "rt_slots S' = rt_slots S" "sy_slot_by_pid S' = sy_slot_by_pid S" "rt_tick S' = rt_tick S" "rt_busy_ticks S' = rt_busy_ticks S"
      "rt_idle_ticks S' = rt_idle_ticks S"
proof (cases "0 \<le> rt_current_pid S")
  case True
  then show ?thesis by (intro running) (simp_all add: dispatch_def)
next
  case False
  note I = rt_invD [OF assms]
  have c: "rt_current_pid S = -1" using False I(3) by (simp add: one_running_def)
  obtain q sch where p: "sched_pick_next (ptable S) (rt_scheduler S) = (q, sch)" by fastforce
  note P = sched_exact_pick [OF I(2) p]
  show ?thesis
  proof (cases "q = -1")
    case True
    then show ?thesis using P(1) c p by (intro idle [of sch]) (simp_all add: dispatch_def)
  next
    case q: False
    have r: "is_ready (ptable S) q" using P(2) [OF q] by simp
    obtain t' where t': "proc_set_state q PROC_RUNNING (rt_tick S) (ptable S) = (True, t')" "moves (ptable S) q PROC_RUNNING t'"
      by (rule moves_set_state [OF I(1) _ valid_moves(3)]) (use r in \<open>simp add: is_ready_pstate\<close>)
    have "0 \<le> q" using is_ready_pos [OF r] by simp
    moreover have "proc_get q t' \<noteq> None" using t'(2) by (auto simp: moves_def pstate_def split: if_splits dest: spec [of _ q])
    moreover define S3 where
      "S3 = trace q ''DISPATCH'' (runtime_scheduler_name (set_ptable t' (S\<lparr>rt_scheduler := sch\<rparr>))) ((set_ptable t' (S\<lparr>rt_scheduler := sch\<rparr>))\<lparr>rt_current_pid := q\<rparr>)"
    moreover define S' where "S' = process_context_trampoline q (S3\<lparr>sy_mem := (sy_mem S3)\<lparr>w_tlb := tlb_flush (w_tlb (sy_mem S3))\<rparr>\<rparr>)"
    ultimately have d: "dispatch S = (True, S')" using c p t'(1) by (auto simp: dispatch_def Let_def)
    show ?thesis
      by (rule start [OF c r p t'(2) P(2) [OF q, THEN conjunct2, rule_format, OF t'(2)] d])
         (simp_all add: S'_def S3_def process_context_trampoline_def)
  qed
qed


lemma rt_inv_dispatch [inv_intros]:
  assumes "rt_inv S"
  shows "rt_inv (snd (dispatch S))"
  using assms
proof (cases rule: dispatch_cases)
  case running
  then show ?thesis using assms by simp
next
  case (idle sch)
  then show ?thesis using rt_invD [OF assms] by (simp add: rt_inv_def core_inv_def)
next
  case (start q sch t' S')
  note I = rt_invD [OF assms]
  have "programs t' (rt_slots S) (sy_slot_by_pid S)"
    using start(2) by (intro programs_moves [OF I(4) start(4)]) (auto simp: is_ready_pstate)
  moreover have "one_running t' q" using I(3) start(1,4) is_ready_pos [OF start(2)] by (auto simp: one_running_def moves_def)
  ultimately show ?thesis using I start by (simp add: rt_inv_def core_inv_def moves_def)
qed


subsection \<open>Instructions\<close>

lemma slot_indexD:
  assumes "slot_index q S = Some i"
  shows "i < 1024" "sl_used (rt_slots S i)" "sl_pid (rt_slots S i) = q" "1 \<le> q" "q \<le> 1024"
  using assms by (auto simp: slot_index_def Let_def split: if_splits)

lemma has_slot_index: "has_slot (rt_slots S) (sy_slot_by_pid S) q \<Longrightarrow> 1 \<le> q \<Longrightarrow> q \<le> 1024 \<Longrightarrow> \<exists>i. slot_index q S = Some i"
  by (auto simp: has_slot_def slot_index_def)

lemma rt_inv_slot:
  assumes "rt_inv S" "i < 1024" "sl_used (rt_slots S i)"
    and f: "sl_used (f (rt_slots S i))" "sl_pid (f (rt_slots S i)) = sl_pid (rt_slots S i)"
      "sl_workload (f (rt_slots S i)) = sl_workload (rt_slots S i)" "sl_pc (f (rt_slots S i)) < wl_count (sl_workload (rt_slots S i))"
  shows "rt_inv (set_slot i f S)"
proof -
  have "slot_wf n ix i (f (rt_slots S i)) \<longleftrightarrow> slot_wf n ix i (rt_slots S i) \<or>
    slot_wf n ix i (rt_slots S i\<lparr>sl_pc := sl_pc (f (rt_slots S i))\<rparr>)" for n ix
    using f by (auto simp: slot_wf_def)
  moreover have "has_slot ((rt_slots S)(i := f (rt_slots S i))) ix q" if "has_slot (rt_slots S) ix q" for ix q
    using that f(1,2) unfolding has_slot_def by (metis fun_upd_apply)
  ultimately have "programs (ptable S) ((rt_slots S)(i := f (rt_slots S i))) (sy_slot_by_pid S)"
    using rt_invD(4) [OF assms(1)] assms(2,3) by (simp add: programs_def)
  then show ?thesis using rt_invD [OF assms(1)] by (simp add: rt_inv_def core_inv_def)
qed

lemma rt_inv_complete:
  assumes "rt_inv S" "i < 1024" "sl_used (rt_slots S i)" "sl_pc (rt_slots S i) + 1 < wl_count (sl_workload (rt_slots S i))"
  shows "rt_inv (complete_immediate i S)"
  unfolding complete_immediate_def using assms by (intro rt_inv_slot) simp_all

text \<open>What \<open>execute_instruction\<close> establishes before the \<^verbatim>\<open>switch\<close>.\<close>

definition at_insn :: "sys \<Rightarrow> nat \<Rightarrow> workload_insn \<Rightarrow> bool" where
  "at_insn S i insn \<longleftrightarrow> rt_inv S \<and> 0 \<le> rt_current_pid S \<and> slot_index (rt_current_pid S) S = Some i \<and>
     insn = wl_insns (sl_workload (rt_slots S i)) (sl_pc (rt_slots S i)) \<and> wi_op insn \<noteq> WORKLOAD_EXIT"

lemma at_insnD:
  assumes "at_insn S i insn"
  shows "rt_inv S" "0 \<le> rt_current_pid S" "i < 1024" "sl_used (rt_slots S i)" "sl_pc (rt_slots S i) + 1 < wl_count (sl_workload (rt_slots S i))"
    "insn_wf insn" "pstate (ptable S) (rt_current_pid S) = Some PROC_RUNNING"
proof -
  show S: "rt_inv S" "0 \<le> rt_current_pid S" using assms by (simp_all add: at_insn_def)
  have i: "slot_index (rt_current_pid S) S = Some i" using assms by (simp add: at_insn_def)
  show s: "i < 1024" "sl_used (rt_slots S i)" using slot_indexD [OF i] by simp_all
  then have "slot_wf (next_pid (ptable S)) (sy_slot_by_pid S) i (rt_slots S i)" using rt_invD(4) [OF S(1)] by (simp add: programs_def)
  then have w: "workload_wf (sl_workload (rt_slots S i))" "sl_pc (rt_slots S i) < wl_count (sl_workload (rt_slots S i))"
    by (simp_all add: slot_wf_def)
  moreover have "sl_pc (rt_slots S i) \<noteq> wl_count (sl_workload (rt_slots S i)) - 1"
    using assms w(1) by (auto simp: at_insn_def workload_wf_def)
  ultimately show "sl_pc (rt_slots S i) + 1 < wl_count (sl_workload (rt_slots S i))" by simp
  show "insn_wf insn" using assms w by (simp add: at_insn_def workload_wf_def)
  show "pstate (ptable S) (rt_current_pid S) = Some PROC_RUNNING" using rt_invD(3) [OF S(1)] S(2) by (rule one_running_current)
qed

lemma wake_pid_simps [simp]:
  "rt_current_pid (wake_pid q why S) = rt_current_pid S" "rt_slots (wake_pid q why S) = rt_slots S"
  "sy_slot_by_pid (wake_pid q why S) = sy_slot_by_pid S" "rt_tick (wake_pid q why S) = rt_tick S"
  "rt_busy_ticks (wake_pid q why S) = rt_busy_ticks S" "rt_idle_ticks (wake_pid q why S) = rt_idle_ticks S"
  by (simp_all add: wake_pid_def split: option.split)

text \<open>Completing an instruction in a state with the same slots.\<close>

lemma rt_inv_done:
  assumes "at_insn S i insn" "rt_inv S'" "rt_slots S' = rt_slots S"
  shows "rt_inv (complete_immediate i S')"
  using at_insnD(3-5) [OF assms(1)] assms(2,3) by (simp add: rt_inv_complete)

lemma rt_inv_ipc:
  assumes "at_insn S i insn"
  shows "rt_inv (snd (exec_send e (rt_current_pid S) i insn S))" "rt_inv (snd (exec_recv e (rt_current_pid S) i insn S))"
  using at_insnD(1) [OF assms] rt_inv_done [OF assms]
  by (simp_all add: exec_send_def exec_recv_def Let_def split_beta rt_inv_exit rt_inv_block rt_inv_wake)

lemma rt_inv_sync:
  assumes "at_insn S i insn"
  shows "rt_inv (snd (exec_sem_wait e (rt_current_pid S) i insn S))" "rt_inv (snd (exec_sem_post e (rt_current_pid S) i insn S))"
    "rt_inv (snd (exec_lock e (rt_current_pid S) i insn S))" "rt_inv (snd (exec_unlock e (rt_current_pid S) i insn S))"
  using at_insnD(1) [OF assms] rt_inv_done [OF assms]
  by (simp_all add: exec_sem_wait_def exec_sem_post_def exec_lock_def exec_unlock_def Let_def split_beta rt_inv_exit rt_inv_block rt_inv_wake)

lemma rt_inv_io:
  assumes "at_insn S i insn"
  shows "rt_inv (snd (exec_io e (rt_current_pid S) i insn S))"
proof -
  note A = at_insnD [OF assms]
  let ?S1 = "set_ptable (proc_upd (rt_current_pid S) (\<lambda>p. p\<lparr>p_wakeup_tick := rt_tick S + wi_ticks insn\<rparr>) (ptable S)) S"
  have "rt_inv ?S1" by (rule rt_inv_keeps [OF A(1) keeps_states_updates(1) [OF rt_invD(1) [OF A(1)]]])
  then have "rt_inv (complete_immediate i ?S1)" by (rule rt_inv_done [OF assms]) simp
  then show ?thesis using A(1) by (simp add: exec_io_def Let_def rt_inv_exit rt_inv_block)
qed

lemma rt_inv_mmap:
  assumes "at_insn S i insn" "exec_mmap h (rt_current_pid S) i insn S = Some (b, S')"
  shows "rt_inv S'"
proof -
  note A = at_insnD [OF assms(1)]
  let ?q = "rt_current_pid S"
  have f: "rt_inv (exit_current (h_os h) 5 S)" using A(1) by (rule rt_inv_exit)
  show ?thesis
  proof (cases "\<exists>p a. proc_get ?q (ptable S) = Some p \<and> p_vm p = Some a")
    case False
    then show ?thesis using assms(2) f by (auto simp: exec_mmap_def split: option.splits)
  next
    case True
    then obtain p a where p: "proc_get ?q (ptable S) = Some p" "p_vm p = Some a" by blast
    then obtain x w where m: "vm_malloc (h_pad h) (h_undef h) ?q a (of_int (wi_arg0 insn)) (rt_tick S) (sy_mem S) = Some (x, w)"
      using assms(2) by (auto simp: exec_mmap_def split: option.splits)
    have w: "w_pt w = ptable S" by (rule vm_malloc_table [OF m])
    then have 1: "rt_inv (S\<lparr>sy_mem := w\<rparr>)" using A(1) by (simp add: rt_inv_mem)
    have "keeps_states (ptable (S\<lparr>sy_mem := w\<rparr>)) (proc_upd ?q (\<lambda>p. p\<lparr>p_vm_last_alloc := x\<rparr>) (w_pt w))"
      using keeps_states_updates(2) [OF rt_invD(1) [OF 1]] by simp
    then have 2: "rt_inv (set_ptable (proc_upd ?q (\<lambda>p. p\<lparr>p_vm_last_alloc := x\<rparr>) (w_pt w)) (S\<lparr>sy_mem := w\<rparr>))" (is "rt_inv ?S2")
      by (rule rt_inv_keeps [OF 1])
    have "rt_inv (complete_immediate i (trace ?q ev d ?S2))" for ev d
      by (rule rt_inv_done [OF assms(1)]) (use 2 in simp_all)
    then show ?thesis using assms(2) p m rt_inv_exit [OF 1] by (auto simp: exec_mmap_def Let_def split: if_splits)
  qed
qed


lemma rt_inv_mfree:
  assumes "at_insn S i insn"
  shows "rt_inv (snd (exec_mfree h (rt_current_pid S) i S))"
proof -
  note A = at_insnD [OF assms]
  let ?q = "rt_current_pid S"
  have "rt_inv (complete_immediate i (set_ptable (proc_upd ?q (\<lambda>p. p\<lparr>p_vm_last_alloc := 0\<rparr>) (ptable S))
      (trace ?q ev d (S\<lparr>sy_mem := w\<rparr>))))" if w: "w_pt w = ptable S" for w ev d
  proof (rule rt_inv_done [OF assms])
    have 1: "rt_inv (trace ?q ev d (S\<lparr>sy_mem := w\<rparr>))" using A(1) w by (simp add: rt_inv_mem)
    have "keeps_states (ptable (trace ?q ev d (S\<lparr>sy_mem := w\<rparr>))) (proc_upd ?q (\<lambda>p. p\<lparr>p_vm_last_alloc := 0\<rparr>) (ptable S))"
      using keeps_states_updates(2) [OF rt_invD(1) [OF A(1)]] w by simp
    then show "rt_inv (set_ptable (proc_upd ?q (\<lambda>p. p\<lparr>p_vm_last_alloc := 0\<rparr>) (ptable S)) (trace ?q ev d (S\<lparr>sy_mem := w\<rparr>)))"
      by (rule rt_inv_keeps [OF 1])
  qed simp
  then show ?thesis using A(1) by (auto simp: exec_mfree_def Let_def rt_inv_exit split: option.split)
qed

text \<open>The end of a memory access: the process is charged for a major fault or goes on.\<close>

lemma rt_inv_accessed:
  assumes "at_insn S i insn" "w_pt w = ptable S"
  shows "rt_inv (exit_current e 6 (S\<lparr>sy_mem := w\<rparr>))"
    "rt_inv (complete_immediate i (trace q ev d (S\<lparr>sy_mem := w\<rparr>)))"
    "rt_inv (block_current why (set_ptable (proc_upd q (\<lambda>p. p\<lparr>p_wakeup_tick := x\<rparr>) (ptable S)) (trace q ev d (S\<lparr>sy_mem := w\<rparr>))))"
proof -
  note A = at_insnD [OF assms(1)]
  have 1: "rt_inv (S\<lparr>sy_mem := w\<rparr>)" using A(1) assms(2) by (simp add: rt_inv_mem)
  then show "rt_inv (exit_current e 6 (S\<lparr>sy_mem := w\<rparr>))" by (rule rt_inv_exit)
  show "rt_inv (complete_immediate i (trace q ev d (S\<lparr>sy_mem := w\<rparr>)))" by (rule rt_inv_done [OF assms(1)]) (use 1 in simp_all)
  have "keeps_states (ptable (trace q ev d (S\<lparr>sy_mem := w\<rparr>))) (proc_upd q (\<lambda>p. p\<lparr>p_wakeup_tick := x\<rparr>) (ptable S))"
    using keeps_states_updates(1) [OF rt_invD(1) [OF A(1)]] assms(2) by simp
  from rt_inv_block [OF rt_inv_keeps [OF _ this]] 1
  show "rt_inv (block_current why (set_ptable (proc_upd q (\<lambda>p. p\<lparr>p_wakeup_tick := x\<rparr>) (ptable S)) (trace q ev d (S\<lparr>sy_mem := w\<rparr>))))"
    by simp
qed

lemma rt_inv_access:
  assumes "at_insn S i insn"
  shows "rt_inv (snd (exec_access e (rt_current_pid S) i insn S))"
proof -
  let ?q = "rt_current_pid S"
  have f: "rt_inv (exit_current e 5 S)" using at_insnD(1) [OF assms] by (rule rt_inv_exit)
  show ?thesis
  proof (cases "\<exists>p a. proc_get ?q (ptable S) = Some p \<and> p_vm p = Some a")
    case False
    then show ?thesis using f by (auto simp: exec_access_def split: option.splits)
  next
    case True
    then obtain p a where p: "proc_get ?q (ptable S) = Some p" "p_vm p = Some a" by blast
    define addr :: u16 where "addr = (if wi_arg0 insn < 0 then of_int (int (unat (p_vm_last_alloc p)) - wi_arg0 insn) else of_int (wi_arg0 insn))"
    obtain st w where r: "(if wi_arg1 insn \<noteq> 0 then vm_write_mem ?q a addr (\<lambda>_. 0xAA) 1 (rt_tick S) (sy_mem S)
        else (let (st, bs, w1) = vm_read_mem ?q a addr 1 (rt_tick S) (sy_mem S) in (st, w1))) = (st, w)" by fastforce
    have w: "w_pt w = ptable S"
      using arg_cong [OF r, of "\<lambda>x. w_pt (snd x)"] by (simp add: Let_def split_beta split: if_splits)
    note F = rt_inv_accessed [OF assms w]
    show ?thesis unfolding exec_access_def p option.case addr_def [symmetric] Let_def r [unfolded Let_def] prod.case
      using F w by simp
  qed
qed

lemma cpu_total_tick:
  assumes "proc_get q t = Some p"
  shows "cpu_total (proc_upd q (\<lambda>p. p\<lparr>p_cpu_time := p_cpu_time p + 1\<rparr>) t) = cpu_total t + 1"
proof -
  obtain i where i: "i < 1024" "find_slot_by_pid q t = Some i" using proc_get_SomeD(5) [OF assms] by blast
  let ?t = "proc_upd q (\<lambda>p. p\<lparr>p_cpu_time := p_cpu_time p + 1\<rparr>) t"
  have e: "entries ?t j = (if j = i then (entries t i)\<lparr>p_cpu_time := p_cpu_time (entries t i) + 1\<rparr> else entries t j)" for j
    using i(2) by (simp add: proc_upd_def)
  have "cpu_of (entries ?t i) = cpu_of (entries t i) + 1" using find_slot_SomeD(2) [OF i(2)] by (simp add: e cpu_of_def)
  moreover have "(\<Sum>j\<in>{..<1024} - {i}. cpu_of (entries ?t j)) = (\<Sum>j\<in>{..<1024} - {i}. cpu_of (entries t j))"
    by (intro sum.cong) (auto simp: e)
  ultimately show ?thesis using i(1) by (simp add: cpu_total_def sum.remove [of "{..<1024}" i])
qed

lemma rt_inv_tick:
  assumes "rt_inv S" "pstate (ptable S) q \<noteq> None"
  shows "rt_inv ((set_ptable (proc_upd q (\<lambda>p. p\<lparr>p_cpu_time := p_cpu_time p + 1\<rparr>) (proc_for_each account_ready_wait (ptable S))) S)
      \<lparr>rt_busy_ticks := rt_busy_ticks S + 1, rt_tick := rt_tick S + 1, rt_scheduler := sched_on_tick (rt_scheduler S) q\<rparr>)"
proof -
  note I = rt_invD [OF assms(1)]
  let ?f = "\<lambda>p. p\<lparr>p_cpu_time := p_cpu_time p + 1\<rparr>" and ?t1 = "proc_for_each account_ready_wait (ptable S)"
  let ?t = "proc_upd q ?f ?t1"
  note K = keeps_states_updates(4) [OF I(1)]
  have p: "proc_get q ?t1 \<noteq> None" using assms(2) K by (auto simp: keeps_states_def pstate_def fun_eq_iff dest!: spec [of _ q])
  have kf: "keeps_id ?f" by (simp add: keeps_id_def)
  have st: "pstate ?t = pstate (ptable S)"
    using K by (auto simp: keeps_states_def fun_eq_iff pstate_def proc_get_upd [OF kf] option.map_comp o_def)
  have "ptable_inv ?t" using K by (intro ptable_inv_upd [OF _ kf]) (auto simp: keeps_states_def prio_ok_def)
  moreover have "cpu_total ?t = cpu_total (ptable S) + 1" using cpu_total_tick p K by (auto simp: keeps_states_def)
  moreover have "sched_exact ?t (sched_on_tick (rt_scheduler S) q)"
    using sched_exact_keeps [OF I(2) st] by (simp add: sched_exact_def sched_on_tick_def)
  moreover have "programs ?t (rt_slots S) (sy_slot_by_pid S)" "one_running ?t (rt_current_pid S)"
    using I(3,4) st K by (simp_all add: programs_def one_running_def keeps_states_def)
  ultimately show ?thesis using I(5,6) by (simp add: rt_inv_def core_inv_def)
qed


text \<open>A tick of a CPU burst, as a change of the table and clocks followed by changes of the slot.\<close>

definition cpu_ticked :: "int \<Rightarrow> sys \<Rightarrow> sys" where
  "cpu_ticked q S =
     (set_ptable (proc_upd q (\<lambda>p. p\<lparr>p_cpu_time := p_cpu_time p + 1\<rparr>) (proc_for_each account_ready_wait (ptable S))) S)
      \<lparr>rt_busy_ticks := rt_busy_ticks S + 1, rt_tick := rt_tick S + 1, rt_scheduler := sched_on_tick (rt_scheduler S) q\<rparr>"

lemma exec_cpu_eq:
  assumes "at_insn S i insn" "wi_op insn = WORKLOAD_CPU"
  obtains S1 S5 where "rt_inv S1" "rt_tick S1 = rt_tick S" "rt_current_pid S1 = rt_current_pid S"
    "rt_inv S5" "rt_tick S5 = rt_tick S + 1" "rt_current_pid S5 = rt_current_pid S" "ptable S5 = ptable (cpu_ticked (rt_current_pid S) S)"
    "rt_scheduler S5 = sched_on_tick (rt_scheduler S) (rt_current_pid S)"
    "rt_busy_ticks S5 = rt_busy_ticks S + 1" "rt_idle_ticks S5 = rt_idle_ticks S"
    "exec_cpu e (rt_current_pid S) i insn S = (True, maybe_preempt (trace (rt_current_pid S) ''CPU'' ''tick'' S5))"
proof -
  note A = at_insnD [OF assms(1)]
  let ?q = "rt_current_pid S"
  define S1 where "S1 = (if sl_remaining (rt_slots S i) = 0 then set_slot i (\<lambda>s. s\<lparr>sl_remaining := wi_ticks insn\<rparr>) S else S)"
  have s1: "ptable S1 = ptable S" "rt_tick S1 = rt_tick S" "rt_current_pid S1 = ?q" "rt_scheduler S1 = rt_scheduler S"
    "rt_busy_ticks S1 = rt_busy_ticks S" "rt_idle_ticks S1 = rt_idle_ticks S"
    "sl_used (rt_slots S1 i)" "sl_pc (rt_slots S1 i) = sl_pc (rt_slots S i)" "sl_workload (rt_slots S1 i) = sl_workload (rt_slots S i)"
    using A(4) by (simp_all add: S1_def)
  have 1: "rt_inv S1" using A rt_inv_slot [of S i "\<lambda>s. s\<lparr>sl_remaining := wi_ticks insn\<rparr>"] by (simp add: S1_def)
  have r: "sl_remaining (rt_slots S1 i) \<noteq> 0" using A(6) assms(2) by (simp add: S1_def insn_wf_def)
  have p: "proc_get ?q (ptable S1) \<noteq> None" using A(7) s1(1) by (auto simp: pstate_def)
  let ?T = "cpu_ticked ?q S1"
  have T: "rt_inv ?T" unfolding cpu_ticked_def using rt_inv_tick [OF 1, of ?q] p by (simp add: pstate_def)
  have t: "rt_slots ?T = rt_slots S1" "rt_tick ?T = rt_tick S + 1" "rt_current_pid ?T = ?q" using s1 by (simp_all add: cpu_ticked_def)
  define S4 where "S4 = set_slot i (\<lambda>s. s\<lparr>sl_remaining := sl_remaining s - 1\<rparr>) ?T"
  have 4: "rt_inv S4" unfolding S4_def by (rule rt_inv_slot [OF T A(3)]) (use s1 t A(5) in simp_all)
  have s4: "sl_used (rt_slots S4 i)" "sl_pc (rt_slots S4 i) = sl_pc (rt_slots S i)" "sl_workload (rt_slots S4 i) = sl_workload (rt_slots S i)"
    using s1 t by (simp_all add: S4_def)
  define S5 where "S5 = (if sl_remaining (rt_slots S4 i) = 0 then set_slot i (\<lambda>s. s\<lparr>sl_pc := sl_pc s + 1\<rparr>) S4 else S4)"
  have "rt_inv (set_slot i (\<lambda>s. s\<lparr>sl_pc := sl_pc s + 1\<rparr>) S4)" by (rule rt_inv_slot [OF 4 A(3)]) (use s4 A(5) in simp_all)
  then have 5: "rt_inv S5" using 4 by (simp add: S5_def)
  have s5: "rt_tick S5 = rt_tick S + 1" "rt_current_pid S5 = ?q" "ptable S5 = ptable (cpu_ticked ?q S)"
    "rt_scheduler S5 = sched_on_tick (rt_scheduler S) ?q" "rt_busy_ticks S5 = rt_busy_ticks S + 1" "rt_idle_ticks S5 = rt_idle_ticks S"
    using t s1 by (simp_all add: S5_def S4_def cpu_ticked_def)
  have "S4 = (set_slot i (\<lambda>s. s\<lparr>sl_remaining := sl_remaining s - 1\<rparr>)
      ((set_ptable (proc_upd ?q (\<lambda>p. p\<lparr>p_cpu_time := p_cpu_time p + 1\<rparr>) (proc_for_each account_ready_wait (ptable S1))) S1)
       \<lparr>rt_busy_ticks := rt_busy_ticks S1 + 1\<rparr>))\<lparr>rt_tick := rt_tick S1 + 1, rt_scheduler := sched_on_tick (rt_scheduler S1) ?q\<rparr>"
    by (simp add: S4_def cpu_ticked_def set_slot_def set_ptable_def)
  then have "exec_cpu e ?q i insn S = (True, maybe_preempt (trace ?q ''CPU'' ''tick'' S5))"
    unfolding exec_cpu_def Let_def S1_def [symmetric] using p r by (simp add: S5_def)
  then show ?thesis by (intro that [OF 1 s1(2,3) 5 s5])
qed

lemma maybe_preempt_simps [simp]:
  "rt_tick (maybe_preempt S) = rt_tick S" "rt_busy_ticks (maybe_preempt S) = rt_busy_ticks S"
  "rt_idle_ticks (maybe_preempt S) = rt_idle_ticks S" "rt_slots (maybe_preempt S) = rt_slots S"
  by (simp_all add: maybe_preempt_def Let_def)

lemma leave_simps [simp]:
  "rt_tick (exit_current e c S) = rt_tick S" "rt_busy_ticks (exit_current e c S) = rt_busy_ticks S" "rt_idle_ticks (exit_current e c S) = rt_idle_ticks S"
  "rt_tick (block_current why S) = rt_tick S" "rt_busy_ticks (block_current why S) = rt_busy_ticks S" "rt_idle_ticks (block_current why S) = rt_idle_ticks S"
  "rt_slots (exit_current e c S) = rt_slots S" "rt_slots (block_current why S) = rt_slots S"
  by (simp_all add: exit_current_def block_current_def Let_def split_beta)

lemma complete_simps [simp]:
  "rt_tick (complete_immediate i S) = rt_tick S" "rt_busy_ticks (complete_immediate i S) = rt_busy_ticks S"
  "rt_idle_ticks (complete_immediate i S) = rt_idle_ticks S" "ptable (complete_immediate i S) = ptable S"
  by (simp_all add: complete_immediate_def)

text \<open>Only a CPU burst takes time.\<close>

lemma exec_no_time:
  "exec_io e q i insn S = (b, S') \<Longrightarrow> \<not> b \<and> rt_tick S' = rt_tick S"
  "exec_send e q i insn S = (b, S') \<Longrightarrow> \<not> b \<and> rt_tick S' = rt_tick S"
  "exec_recv e q i insn S = (b, S') \<Longrightarrow> \<not> b \<and> rt_tick S' = rt_tick S"
  "exec_sem_wait e q i insn S = (b, S') \<Longrightarrow> \<not> b \<and> rt_tick S' = rt_tick S"
  "exec_sem_post e q i insn S = (b, S') \<Longrightarrow> \<not> b \<and> rt_tick S' = rt_tick S"
  "exec_lock e q i insn S = (b, S') \<Longrightarrow> \<not> b \<and> rt_tick S' = rt_tick S"
  "exec_unlock e q i insn S = (b, S') \<Longrightarrow> \<not> b \<and> rt_tick S' = rt_tick S"
  "exec_mmap h q i insn S = Some (b, S') \<Longrightarrow> \<not> b \<and> rt_tick S' = rt_tick S"
  "exec_access e q i insn S = (b, S') \<Longrightarrow> \<not> b \<and> rt_tick S' = rt_tick S"
  "exec_mfree h q i S = (b, S') \<Longrightarrow> \<not> b \<and> rt_tick S' = rt_tick S"
  by (auto simp: exec_io_def exec_send_def exec_recv_def exec_sem_wait_def exec_sem_post_def exec_lock_def exec_unlock_def
      exec_mmap_def exec_access_def exec_mfree_def Let_def split_beta split: option.splits if_splits prod.splits)


lemma current_insn:
  assumes "rt_inv S" "0 \<le> rt_current_pid S"
  obtains i where "slot_index (rt_current_pid S) S = Some i" "sl_pc (rt_slots S i) < wl_count (sl_workload (rt_slots S i))"
    "insn_wf (wl_insns (sl_workload (rt_slots S i)) (sl_pc (rt_slots S i)))"
proof -
  note I = rt_invD [OF assms(1)]
  have r: "pstate (ptable S) (rt_current_pid S) = Some PROC_RUNNING" using I(3) assms(2) by (rule one_running_current)
  then have "has_slot (rt_slots S) (sy_slot_by_pid S) (rt_current_pid S)" using I(4) unfolding programs_def by blast
  then obtain i where i: "slot_index (rt_current_pid S) S = Some i" using has_slot_index pstate_range [OF r] by blast
  have "slot_wf (next_pid (ptable S)) (sy_slot_by_pid S) i (rt_slots S i)"
    using I(4) slot_indexD(1,2) [OF i] by (simp add: programs_def)
  then show ?thesis using that [OF i] by (simp add: slot_wf_def workload_wf_def)
qed

lemma execute_cases:
  assumes "rt_inv S" "0 \<le> rt_current_pid S"
  obtains (exit) "execute_instruction h S = Some (False, exit_current (h_os h) 0 S)"
  | (insn) i insn where "at_insn S i insn" "execute_instruction h S =
      (case wi_op insn of
         WORKLOAD_CPU \<Rightarrow> Some (exec_cpu (h_os h) (rt_current_pid S) i insn S)
       | WORKLOAD_IO \<Rightarrow> Some (exec_io (h_os h) (rt_current_pid S) i insn S)
       | WORKLOAD_SEND \<Rightarrow> Some (exec_send (h_os h) (rt_current_pid S) i insn S)
       | WORKLOAD_RECV \<Rightarrow> Some (exec_recv (h_os h) (rt_current_pid S) i insn S)
       | WORKLOAD_SEM_WAIT \<Rightarrow> Some (exec_sem_wait (h_os h) (rt_current_pid S) i insn S)
       | WORKLOAD_SEM_POST \<Rightarrow> Some (exec_sem_post (h_os h) (rt_current_pid S) i insn S)
       | WORKLOAD_LOCK \<Rightarrow> Some (exec_lock (h_os h) (rt_current_pid S) i insn S)
       | WORKLOAD_UNLOCK \<Rightarrow> Some (exec_unlock (h_os h) (rt_current_pid S) i insn S)
       | WORKLOAD_MMAP \<Rightarrow> exec_mmap h (rt_current_pid S) i insn S
       | WORKLOAD_ACCESS \<Rightarrow> Some (exec_access (h_os h) (rt_current_pid S) i insn S)
       | WORKLOAD_MFREE \<Rightarrow> Some (exec_mfree h (rt_current_pid S) i S)
       | WORKLOAD_EXIT \<Rightarrow> None)"
proof -
  obtain i where i: "slot_index (rt_current_pid S) S = Some i" "sl_pc (rt_slots S i) < wl_count (sl_workload (rt_slots S i))"
    by (rule current_insn [OF assms])
  let ?insn = "wl_insns (sl_workload (rt_slots S i)) (sl_pc (rt_slots S i))"
  show ?thesis
  proof (cases "wi_op ?insn = WORKLOAD_EXIT")
    case True
    then show ?thesis using i exit by (simp add: execute_instruction_def)
  next
    case False
    then have "at_insn S i ?insn" using assms i by (simp add: at_insn_def)
    then show ?thesis by (rule insn) (use i False in \<open>cases "wi_op ?insn"; simp add: execute_instruction_def Let_def\<close>)
  qed
qed

lemma execute_inv:
  assumes "rt_inv S" "0 \<le> rt_current_pid S" "execute_instruction h S = Some (b, S')"
  shows "rt_inv S' \<and> rt_tick S' = rt_tick S + (if b then 1 else 0)"
  using assms(1,2)
proof (cases rule: execute_cases [where h = h])
  case exit
  then show ?thesis using assms(1,3) by (auto simp: rt_inv_exit)
next
  case (insn i insn)
  note P = insn(2) [symmetric, unfolded assms(3)]
  show ?thesis
  proof (cases "wi_op insn = WORKLOAD_CPU")
    case True
    obtain S5 where "rt_inv S5" "rt_tick S5 = rt_tick S + 1"
      "exec_cpu (h_os h) (rt_current_pid S) i insn S = (True, maybe_preempt (trace (rt_current_pid S) ''CPU'' ''tick'' S5))"
      by (rule exec_cpu_eq [OF insn(1) True])
    then show ?thesis using P True by (auto simp: rt_inv_preempt)
  next
    case False
    have "rt_inv S'"
      using P False rt_inv_ipc [OF insn(1), of "h_os h"] rt_inv_sync [OF insn(1), of "h_os h"] rt_inv_io [OF insn(1), of "h_os h"]
        rt_inv_mmap [OF insn(1)] rt_inv_access [OF insn(1), of "h_os h"] rt_inv_mfree [OF insn(1), of h]
      by (auto split: workload_op.splits)
    moreover have "\<not> b \<and> rt_tick S' = rt_tick S"
      using P False by (auto split: workload_op.splits dest: exec_no_time)
    ultimately show ?thesis by simp
  qed
qed

lemma boost_simps [simp]:
  "rt_tick (boost_queues S) = rt_tick S" "rt_current_pid (boost_queues S) = rt_current_pid S" "rt_slots (boost_queues S) = rt_slots S"
  by (simp_all add: boost_queues_def)

lemma wake_by_time_simps [simp]:
  "rt_tick (wake_blocked_by_time i S) = rt_tick S" "rt_current_pid (wake_blocked_by_time i S) = rt_current_pid S"
  "rt_slots (wake_blocked_by_time i S) = rt_slots S"
  by (simp_all add: wake_blocked_by_time_def Let_def)

lemma refresh_simps [simp]:
  "rt_tick (refresh_queues S) = rt_tick S" "rt_current_pid (refresh_queues S) = rt_current_pid S" "rt_slots (refresh_queues S) = rt_slots S"
proof -
  have "rt_tick (proc_fold ptable wake_blocked_by_time S) = rt_tick S \<and>
    rt_current_pid (proc_fold ptable wake_blocked_by_time S) = rt_current_pid S \<and> rt_slots (proc_fold ptable wake_blocked_by_time S) = rt_slots S"
    by (rule proc_fold_inv [where P = "\<lambda>S'. rt_tick S' = rt_tick S \<and> rt_current_pid S' = rt_current_pid S \<and> rt_slots S' = rt_slots S"]) simp_all
  then show "rt_tick (refresh_queues S) = rt_tick S" "rt_current_pid (refresh_queues S) = rt_current_pid S" "rt_slots (refresh_queues S) = rt_slots S"
    by (simp_all add: refresh_queues_def Let_def)
qed

lemma rt_inv_idle [inv_intros]:
  assumes "rt_inv S"
  shows "rt_inv (idle_tick S)"
  using rt_inv_keeps [OF assms keeps_states_updates(4) [OF rt_invD(1) [OF assms]]]
  by (simp add: idle_tick_def rt_inv_def core_inv_def)

lemma step_round_inv:
  assumes "rt_inv S" "step_round h S = Some (b, S')"
  shows "rt_inv S' \<and> rt_tick S' = rt_tick S + (if b then 1 else 0)"
  using rt_inv_refresh [OF assms(1)]
proof (cases rule: dispatch_cases)
  case running
  then have "execute_instruction h (refresh_queues S) = Some (b, S')" using assms(2) by (simp add: step_round_def)
  from execute_inv [OF rt_inv_refresh [OF assms(1)] running(1) this] show ?thesis by simp
next
  case (idle sch)
  have "rt_inv ((refresh_queues S)\<lparr>rt_scheduler := sch\<rparr>)"
    using rt_inv_dispatch [OF rt_inv_refresh [OF assms(1)]] idle(3) by simp
  then show ?thesis using assms(2) idle(3) rt_inv_idle by (auto simp: step_round_def) (simp add: idle_tick_def)
next
  case (start q sch t' S1)
  have "rt_inv S1" using rt_inv_dispatch [OF rt_inv_refresh [OF assms(1)]] start(6) by simp
  moreover have "0 \<le> rt_current_pid S1" using start(2,9) is_ready_pos by fastforce
  moreover have "execute_instruction h S1 = Some (b, S')" using assms(2) start(6) by (simp add: step_round_def)
  ultimately show ?thesis using execute_inv start(12) by fastforce
qed

lemma step_loop_inv:
  "rt_inv S \<Longrightarrow> step_loop h n S = Some S' \<Longrightarrow> rt_inv S' \<and> (rt_tick S' = rt_tick S \<or> rt_tick S' = rt_tick S + 1)"
proof (induction n arbitrary: S)
  case (Suc n)
  then obtain b S1 where r: "step_round h S = Some (b, S1)" "(if b then Some S1 else step_loop h n S1) = Some S'"
    by (auto split: option.splits)
  then show ?case using step_round_inv [OF Suc.prems(1) r(1)] Suc.IH [of S1] by (auto split: if_splits)
qed simp

lemma step_ticks_inv:
  "rt_inv S \<Longrightarrow> step_ticks h n S = Some S' \<Longrightarrow> rt_inv S' \<and> (\<exists>k \<le> n. rt_tick S' = rt_tick S + of_nat k)"
proof (induction n arbitrary: S)
  case (Suc n)
  then obtain S1 where r: "step_loop h MAX_DISPATCH_GUARD S = Some S1" "step_ticks h n S1 = Some S'"
    by (auto split: option.splits)
  note L = step_loop_inv [OF Suc.prems(1) r(1)]
  then obtain k where k: "rt_inv S'" "k \<le> n" "rt_tick S' = rt_tick S1 + of_nat k" using Suc.IH [OF _ r(2)] by blast
  then have "rt_tick S' = rt_tick S + of_nat k \<or> rt_tick S' = rt_tick S + of_nat (Suc k)" using L by (auto simp: add.assoc)
  then show ?case using k(1,2) by (meson Suc_le_mono le_SucI)
qed simp


section \<open>The interface keeps the invariant\<close>

subsection \<open>Starting a workload\<close>

text \<open>Process \<open>q\<close> has just been created and has no program yet.\<close>

definition new_proc :: "int \<Rightarrow> sys \<Rightarrow> bool" where
  "new_proc q S \<longleftrightarrow> ptable_inv (ptable S) \<and> sched_exact (ptable S) (rt_scheduler S) \<and> one_running (ptable S) (rt_current_pid S) \<and>
     rt_tick S = rt_busy_ticks S + rt_idle_ticks S \<and> rt_busy_ticks S = cpu_total (ptable S) \<and>
     1 \<le> q \<and> q < next_pid (ptable S) \<and> (\<forall>p. proc_get q (ptable S) = Some p \<longrightarrow> p_state p = PROC_NEW \<and> p_cpu_time p = 0) \<and>
     (\<forall>i < 1024. sl_used (rt_slots S i) \<longrightarrow> slot_wf (next_pid (ptable S)) (sy_slot_by_pid S) i (rt_slots S i) \<and> sl_pid (rt_slots S i) \<noteq> q) \<and>
     (\<forall>p s. p \<noteq> q \<longrightarrow> pstate (ptable S) p = Some s \<longrightarrow> s \<noteq> PROC_EXITED \<longrightarrow> has_slot (rt_slots S) (sy_slot_by_pid S) p)"

lemma slot_wf_mono: "slot_wf n ix i sl \<Longrightarrow> n \<le> m \<Longrightarrow> slot_wf m ix i sl"
  by (simp add: slot_wf_def)

lemma create_new_proc:
  assumes "rt_inv S" "proc_create e ppid prio now ssize (ptable S) = (q, t')"
  shows "q < 0 \<Longrightarrow> rt_inv (set_ptable t' S)" "0 \<le> q \<Longrightarrow> new_proc q (set_ptable t' S)"
proof -
  note I = rt_invD [OF assms(1)]
  have n: "1 \<le> next_pid (ptable S)" using I(1) by (simp add: ptable_inv_def)
  have "(q < 0 \<longrightarrow> rt_inv (set_ptable t' S)) \<and> (0 \<le> q \<longrightarrow> new_proc q (set_ptable t' S))"
    using assms(2)
  proof (cases rule: proc_create_cases)
    case (fail maps)
    have "keeps_states (ptable S) t'"
      using fail(2) proc_create_inv [OF I(1) assms(2)] by (simp add: keeps_states_def pstate_def fun_eq_iff cpu_total_def)
    then show ?thesis using fail(1) rt_inv_keeps [OF assms(1)] by simp
  next
    case (made i st sz ms maps)
    let ?p = "new_pcb (next_pid (ptable S)) ppid (clamp_prio prio) now st sz ms"
    note F = find_free_slotD [OF made(1)]
    have g: "proc_get x t' = (if x = q then (if x \<le> 1024 then Some ?p else None) else proc_get x (ptable S))" for x
      using proc_get_table_with [OF I(1), of i ?p x maps] F made clamp_prio_range(1,2) [of prio] by (simp add: prio_ok_def)
    have ps: "pstate t' x = (if x = q then (if x \<le> 1024 then Some PROC_NEW else None) else pstate (ptable S) x)" for x
      using g [of x] by (simp add: pstate_def)
    have nx: "next_pid t' = next_pid (ptable S) + 1" by (simp add: made(3) table_with_def)
    have c: "p_cpu_time ?p = 0" by (simp add: new_pcb_def zero_pcb_def)
    have "cpu_total t' = cpu_total (ptable S)"
      using F c by (intro cpu_total_cong) (auto simp: made(3) table_with_def cpu_of_def)
    moreover have q: "pstate (ptable S) q = None"
      using pstate_next [of "ptable S" q] made(2) by (cases "pstate (ptable S) q") auto
    have "is_ready t' = is_ready (ptable S)" using q by (auto simp: fun_eq_iff is_ready_pstate ps)
    then have "sched_exact t' (rt_scheduler S)" using I(2) by (simp add: sched_exact_def)
    moreover have "0 \<le> rt_current_pid S \<Longrightarrow> rt_current_pid S \<noteq> q" using q one_running_current [OF I(3)] by auto
    then have "one_running t' (rt_current_pid S)"
      using I(3) q by (cases "0 \<le> rt_current_pid S") (simp_all add: one_running_def ps)
    moreover have "slot_wf (next_pid t') (sy_slot_by_pid S) j (rt_slots S j) \<and> sl_pid (rt_slots S j) \<noteq> q"
      if "j < 1024" "sl_used (rt_slots S j)" for j
    proof -
      have "slot_wf (next_pid (ptable S)) (sy_slot_by_pid S) j (rt_slots S j)" using I(4) that by (simp add: programs_def)
      then show ?thesis using made(2) nx by (simp add: slot_wf_def)
    qed
    moreover have "has_slot (rt_slots S) (sy_slot_by_pid S) x" if "x \<noteq> q" "pstate t' x = Some s" "s \<noteq> PROC_EXITED" for x s
      using I(4) that ps [of x] by (auto simp: programs_def)
    ultimately show ?thesis
      using I(5,6) n made(2) nx g [of q] c proc_create_inv [OF I(1) assms(2)] by (auto simp: new_proc_def split: if_splits)
  qed
  then show "q < 0 \<Longrightarrow> rt_inv (set_ptable t' S)" "0 \<le> q \<Longrightarrow> new_proc q (set_ptable t' S)" by blast+
qed

lemma new_proc_vm:
  assumes "new_proc q S" "w_pt w = ptable S"
  shows "new_proc q (S\<lparr>sy_mem := w\<lparr>w_pt := proc_upd q (\<lambda>p. p\<lparr>p_vm := v\<rparr>) (w_pt w)\<rparr>\<rparr>)"
proof -
  let ?t = "proc_upd q (\<lambda>p. p\<lparr>p_vm := v\<rparr>) (ptable S)"
  have k: "keeps_states (ptable S) ?t" using assms(1) by (intro keeps_states_updates) (simp add: new_proc_def)
  have "proc_get q ?t = map_option (\<lambda>p. p\<lparr>p_vm := v\<rparr>) (proc_get q (ptable S))"
    by (simp add: proc_get_upd keeps_id_def)
  then show ?thesis using assms k sched_exact_keeps [of "ptable S" "rt_scheduler S" ?t]
    by (auto simp: new_proc_def keeps_states_def one_running_def)
qed

lemma new_proc_destroy:
  assumes "new_proc q S"
  shows "rt_inv (S\<lparr>sy_mem := proc_destroy e q code (sy_mem S)\<rparr>)"
proof -
  let ?t = "ptable S" and ?w = "proc_destroy e q code (sy_mem S)"
  note N = assms [unfolded new_proc_def]
  have t: "ptable_inv (w_pt ?w)" "next_pid (w_pt ?w) = next_pid ?t" "cpu_total (w_pt ?w) = cpu_total ?t"
    "pstate (w_pt ?w) p = (if p = q then None else pstate ?t p)" for p
  proof -
    have "ptable_inv (w_pt ?w) \<and> next_pid (w_pt ?w) = next_pid ?t \<and> cpu_total (w_pt ?w) = cpu_total ?t \<and>
      pstate (w_pt ?w) p = (if p = q then None else pstate ?t p)" for p
    proof (cases "find_slot_by_pid q ?t")
      case None
      then show ?thesis using N by (simp add: proc_destroy_def pstate_def proc_get_def)
    next
      case (Some i)
      obtain t' where t': "dropped ?t q i t'"
        "?w = (case vm_of (sy_mem S) q of None \<Rightarrow> sy_mem S | Some a \<Rightarrow> vm_proc_destroy a (sy_mem S))\<lparr>w_pt := t'\<rparr>"
        by (rule proc_destroy_table [OF Some, of e code])
      have "p_cpu_time (entries ?t i) = 0" using N Some by (simp add: proc_get_def)
      then have "cpu_total t' = cpu_total ?t"
        using t'(1) by (intro cpu_total_cong) (metis (no_types, lifting) cpu_of_def dropped_def)
      then show ?thesis using dropped_get [OF _ Some t'(1)] N t' by (simp add: pstate_def dropped_def)
    qed
    then show "ptable_inv (w_pt ?w)" "next_pid (w_pt ?w) = next_pid ?t" "cpu_total (w_pt ?w) = cpu_total ?t"
      "pstate (w_pt ?w) p = (if p = q then None else pstate ?t p)" by blast+
  qed
  have q: "pstate ?t q = None \<or> pstate ?t q = Some PROC_NEW" using N by (cases "proc_get q ?t") (auto simp: pstate_def)
  then have "is_ready (w_pt ?w) = is_ready ?t" by (auto simp: fun_eq_iff is_ready_pstate t)
  then have "sched_exact (w_pt ?w) (rt_scheduler S)" using N by (simp add: sched_exact_def)
  moreover have "0 \<le> rt_current_pid S \<Longrightarrow> rt_current_pid S \<noteq> q" using q N one_running_current [of ?t "rt_current_pid S"] by auto
  then have "one_running (w_pt ?w) (rt_current_pid S)"
    using N by (cases "0 \<le> rt_current_pid S") (simp_all add: one_running_def t)
  moreover have "programs (w_pt ?w) (rt_slots S) (sy_slot_by_pid S)" using N by (auto simp: programs_def t)
  ultimately show ?thesis using N t by (simp add: rt_inv_def core_inv_def)
qed


lemma new_proc_alloc:
  assumes "new_proc q S" "alloc_slot q S = (Some i, S1)" "workload_wf w"
  shows "rt_inv (set_slot i (\<lambda>s. s\<lparr>sl_workload := w\<rparr>) S1)"
proof -
  note N = assms(1) [unfolded new_proc_def]
  let ?s = "zero_slot\<lparr>sl_used := True, sl_pid := q, sl_workload := w\<rparr>"
  define T where "T = set_slot i (\<lambda>s. s\<lparr>sl_workload := w\<rparr>) S1"
  have i: "i < 1024" "\<not> sl_used (rt_slots S i)" using assms(2) by (auto simp: alloc_slot_def Let_def first_idx_Some_iff split: option.splits)
  have f: "rt_slots T = (rt_slots S)(i := ?s)"
    "sy_slot_by_pid T = (if q \<le> 1024 then (sy_slot_by_pid S)(nat (q - 1) := int i) else sy_slot_by_pid S)"
    "ptable T = ptable S" "rt_scheduler T = rt_scheduler S" "rt_current_pid T = rt_current_pid S" "rt_tick T = rt_tick S"
    "rt_busy_ticks T = rt_busy_ticks S" "rt_idle_ticks T = rt_idle_ticks S"
    using assms(2) N by (auto simp: T_def alloc_slot_def Let_def split: option.splits)
  have other: "sy_slot_by_pid T (nat (p - 1)) = sy_slot_by_pid S (nat (p - 1))" if "p \<noteq> q" "1 \<le> p" for p
    using that N by (auto simp: f(2))
  have "slot_wf (next_pid (ptable S)) (sy_slot_by_pid T) j (rt_slots T j)" if j: "j < 1024" "sl_used (rt_slots T j)" for j
  proof (cases "j = i")
    case True
    then show ?thesis using N assms(3) by (simp add: f slot_wf_def zero_slot_def workload_wf_def)
  next
    case False
    then have "slot_wf (next_pid (ptable S)) (sy_slot_by_pid S) j (rt_slots S j)" "sl_pid (rt_slots S j) \<noteq> q" using j N by (auto simp: f(1))
    then show ?thesis using False other [of "sl_pid (rt_slots S j)"] by (simp add: slot_wf_def f(1))
  qed
  moreover have "has_slot (rt_slots T) (sy_slot_by_pid T) p" if p: "pstate (ptable S) p = Some s" "s \<noteq> PROC_EXITED" for p s
  proof (cases "p = q")
    case True
    then show ?thesis using i pstate_range [OF p(1)] by (auto simp: has_slot_def f intro!: exI [of _ i])
  next
    case False
    then have "has_slot (rt_slots S) (sy_slot_by_pid S) p" using N p by blast
    then obtain j where "j < 1024" "sl_used (rt_slots S j)" "sl_pid (rt_slots S j) = p" "sy_slot_by_pid S (nat (p - 1)) = int j"
      by (auto simp: has_slot_def)
    moreover from this have "j \<noteq> i" using i(2) by auto
    ultimately show ?thesis using other [OF False] pstate_range [OF p(1)] by (auto simp: has_slot_def f(1) intro!: exI [of _ j])
  qed
  ultimately have "programs (ptable S) (rt_slots T) (sy_slot_by_pid T)" by (simp add: programs_def)
  then show ?thesis using N unfolding rt_inv_def core_inv_def T_def [symmetric] f(3-8) by simp
qed

lemma alloc_slot_table: "alloc_slot q S = (r, S1) \<Longrightarrow> ptable S1 = ptable S \<and> (r = None \<longrightarrow> S1 = S)"
  by (auto simp: alloc_slot_def Let_def split: option.splits)

lemma rt_inv_install:
  assumes "new_proc q S" "workload_wf w"
  shows "rt_inv (snd (install_workload h q w S))"
proof (cases "alloc_slot q S")
  case (Pair r S1)
  show ?thesis
  proof (cases r)
    case None
    then show ?thesis using Pair alloc_slot_table [OF Pair] new_proc_destroy [OF assms(1)] by (simp add: install_workload_def)
  next
    case (Some i)
    let ?S = "set_slot i (\<lambda>s. s\<lparr>sl_workload := w\<rparr>) S1"
    have inv: "rt_inv ?S" using Pair Some by (intro new_proc_alloc [OF assms(1) _ assms(2)]) simp
    have t: "ptable ?S = ptable S" using alloc_slot_table [OF Pair] by simp
    have "rt_inv (enqueue_ready q ?S)"
    proof (cases "proc_get q (ptable S)")
      case None
      then show ?thesis using inv t enqueue_ready_refused [of ?S q] by (simp add: pstate_def)
    next
      case (Some p)
      then have "pstate (ptable ?S) q = Some PROC_NEW" using assms(1) t by (simp add: new_proc_def pstate_def)
      then show ?thesis by (rule rt_inv_enqueue [OF inv]) simp
    qed
    then show ?thesis using Pair Some by (simp add: install_workload_def)
  qed
qed

lemma load_candidates_wf: "load_candidates files path = Some w \<Longrightarrow> workload_wf w"
  by (auto simp: load_candidates_def Let_def dest!: workload_load_type split: sum.splits)

lemma rt_inv_run [inv_intros]:
  assumes "rt_inv S"
  shows "rt_inv (snd (runtime_run_workload h path prio S))"
proof (cases "load_candidates (h_files h) path")
  case None
  then show ?thesis using assms by (simp add: runtime_run_workload_def)
next
  case (Some w)
  note W = load_candidates_wf [OF Some]
  obtain q t where c: "proc_create (h_os h) 0 prio (rt_tick S) 0 (ptable S) = (q, t)" by fastforce
  note N = create_new_proc [OF assms c]
  show ?thesis
  proof (cases "q < 0 \<or> proc_get q t = None")
    case True
    then show ?thesis using N Some c rt_inv_install [OF N(2) W] by (auto simp: runtime_run_workload_def Let_def)
  next
    case False
    obtain v m where v: "vm_proc_init (h_vm_alloc h) q (sy_mem (set_ptable t S)) = (v, m)" by fastforce
    have "w_pt m = ptable (set_ptable t S)" using v by (auto simp: vm_proc_init_def split: option.splits)
    note V = new_proc_vm [OF N(2) this]
    show ?thesis using False Some c v V [of v] new_proc_destroy [OF V [of v]] rt_inv_install [OF V [of v] W]
      by (auto simp: runtime_run_workload_def Let_def)
  qed
qed


subsection \<open>Killing and administration\<close>

lemma programs_kill:
  assumes "programs t sl ix" "moves t q PROC_EXITED t'" "i < 1024" "sl_used (sl i)" "sl_pid (sl i) = q" "1 \<le> q"
  shows "programs t' (sl(i := zero_slot)) (ix(nat (q - 1) := -1))"
proof -
  have u: "\<not> sl_used zero_slot" by (simp add: zero_slot_def)
  have n: "next_pid t' = next_pid t" using assms(2) by (simp add: moves_def)
  have wf: "slot_wf (next_pid t) ix j (sl j)" if "j < 1024" "sl_used (sl j)" for j using assms(1) that by (simp add: programs_def)
  have ne: "sl_pid (sl j) \<noteq> q \<or> 1024 < q" if "j < 1024" "sl_used (sl j)" "j \<noteq> i" for j
    using wf [OF that(1,2)] wf [OF assms(3,4)] that(3) assms(5) by (auto simp: slot_wf_def)
  have "slot_wf (next_pid t') (ix(nat (q - 1) := -1)) j ((sl(i := zero_slot)) j)" if "j < 1024" "sl_used ((sl(i := zero_slot)) j)" for j
  proof -
    have j: "j \<noteq> i" "sl_used (sl j)" using that(2) u by (auto split: if_splits)
    have "1 \<le> sl_pid (sl j)" using wf [OF that(1) j(2)] by (simp add: slot_wf_def)
    then have "nat (sl_pid (sl j) - 1) \<noteq> nat (q - 1)" if "sl_pid (sl j) \<le> 1024"
      using ne [OF \<open>j < 1024\<close> j(2,1)] assms(6) that by auto
    then show ?thesis using wf [OF that(1) j(2)] j(1) n by (auto simp: slot_wf_def)
  qed
  moreover have "has_slot (sl(i := zero_slot)) (ix(nat (q - 1) := -1)) p" if p: "pstate t' p = Some s" "s \<noteq> PROC_EXITED" for p s
  proof -
    have pq: "p \<noteq> q" "pstate t p = Some s" using p assms(2) by (auto simp: moves_def split: if_splits)
    then obtain j where j: "j < 1024" "sl_used (sl j)" "sl_pid (sl j) = p" "ix (nat (p - 1)) = int j"
      using assms(1) p(2) unfolding programs_def has_slot_def by blast
    moreover have "j \<noteq> i" using j(3) assms(5) pq(1) by auto
    moreover have "nat (p - 1) \<noteq> nat (q - 1)" using pq(1) pstate_range [OF pq(2)] assms(6) by auto
    ultimately show ?thesis by (auto simp: has_slot_def intro!: exI [of _ j])
  qed
  ultimately show ?thesis by (simp add: programs_def)
qed

text \<open>The state after a successful kill, before the queues are rebuilt.\<close>

lemma kill_cases:
  assumes "rt_inv S"
  obtains (gone) "pstate (ptable S) q = None" "runtime_kill h q S = (False, S)"
  | (exited) "pstate (ptable S) q = Some PROC_EXITED" "runtime_kill h q S = (False, S)"
  | (killed) s t' i S3 where "pstate (ptable S) q = Some s" "s \<noteq> PROC_EXITED" "moves (ptable S) q PROC_EXITED t'"
      "proc_mark_exited (h_os h) q 130 (rt_tick S) (ptable S) = (True, t')"
      "slot_index q S = Some i" "runtime_kill h q S = (True, rebuild_ready_queues S3)" "ptable S3 = t'"
      "rt_slots S3 = (rt_slots S)(i := zero_slot)" "sy_slot_by_pid S3 = (sy_slot_by_pid S)(nat (q - 1) := -1)"
      "rt_current_pid S3 = (if rt_current_pid S = q then -1 else rt_current_pid S)" "rt_tick S3 = rt_tick S"
      "rt_busy_ticks S3 = rt_busy_ticks S" "rt_idle_ticks S3 = rt_idle_ticks S" "rt_scheduler S3 = rt_scheduler S"
proof -
  note I = rt_invD [OF assms]
  show ?thesis
  proof (cases "pstate (ptable S) q")
    case None
    then show ?thesis using gone by (simp add: runtime_kill_def pstate_def)
  next
    case (Some s)
    then have p: "proc_get q (ptable S) \<noteq> None" by (auto simp: pstate_def)
    note R = pstate_range [OF Some]
    define S1 where "S1 = (if rt_current_pid S = q then S\<lparr>rt_current_pid := -1\<rparr> else S)"
    have S1: "ptable S1 = ptable S" "rt_tick S1 = rt_tick S" by (simp_all add: S1_def)
    show ?thesis
    proof (cases "s = PROC_EXITED")
      case True
      then have "rt_current_pid S \<noteq> q" using Some one_running_current [OF I(3)] R by auto
      moreover have "proc_mark_exited (h_os h) q 130 (rt_tick S) (ptable S) = (False, ptable S)"
        using Some True by (intro mark_exited_refused) simp
      ultimately show ?thesis using exited Some True p by (simp add: runtime_kill_def)
    next
      case False
      obtain t' where t': "proc_mark_exited (h_os h) q 130 (rt_tick S) (ptable S) = (True, t')" "moves (ptable S) q PROC_EXITED t'"
        by (rule moves_mark_exited [OF I(1) Some False])
      have "has_slot (rt_slots S) (sy_slot_by_pid S) q" using I(4) Some False by (simp add: programs_def)
      then obtain i where i: "slot_index q S = Some i" using has_slot_index R by blast
      have "slot_index q (set_ptable t' S1) = slot_index q S" by (simp add: S1_def slot_index_def)
      then have i1: "slot_index q (set_ptable t' S1) = Some i" using i by simp
      define S3 where "S3 = trace q ''KILL'' ''requested'' ((set_slot i (\<lambda>_. zero_slot) (set_ptable t' S1))
        \<lparr>sy_slot_by_pid := (sy_slot_by_pid S)(nat (q - 1) := -1)\<rparr>)"
      have "runtime_kill h q S = (True, rebuild_ready_queues S3)"
        unfolding runtime_kill_def Let_def S1_def [symmetric] using p t'(1) i1 R S1 by (simp add: S3_def) (simp add: S1_def)
      then show ?thesis by (rule killed [OF Some False t'(2,1) i]) (simp_all add: S3_def S1_def)
    qed
  qed
qed

lemma rt_inv_kill [inv_intros]:
  assumes "rt_inv S"
  shows "rt_inv (snd (runtime_kill h q S))"
  using assms
proof (cases rule: kill_cases [where q = q and h = h])
  case (killed s t' i S3)
  note I = rt_invD [OF assms]
  note R = pstate_range [OF killed(1)]
  have "programs t' ((rt_slots S)(i := zero_slot)) ((sy_slot_by_pid S)(nat (q - 1) := -1))"
    using slot_indexD [OF killed(5)] by (intro programs_kill [OF I(4) killed(3)]) simp_all
  moreover have "one_running t' (if rt_current_pid S = q then -1 else rt_current_pid S)"
    using I(3) killed(3) by (auto simp: one_running_def moves_def)
  moreover have "sched_exact t' (rt_scheduler (rebuild_ready_queues S3))"
    using rebuild_exact [of S3] killed(3,7) by (simp add: moves_def)
  ultimately show ?thesis using I killed by (simp add: rt_inv_def core_inv_def moves_def)
qed (use assms in simp_all)

lemma rt_inv_set_scheduler [inv_intros]: "rt_inv S \<Longrightarrow> rt_inv (runtime_set_scheduler algo S)"
  using rebuild_exact [of "S\<lparr>rt_scheduler := sched_set_algo (rt_scheduler S) algo\<rparr>"]
  by (simp add: runtime_set_scheduler_def rt_inv_def core_inv_def)

lemma rt_inv_set_quantum [inv_intros]: "rt_inv S \<Longrightarrow> rt_inv (runtime_set_quantum q S)"
  by (simp add: runtime_set_quantum_def rt_inv_def core_inv_def sched_exact_def sched_set_quantum_def sched_inv_def)

lemma rt_inv_priority [inv_intros]:
  assumes "rt_inv S"
  shows "rt_inv (snd (runtime_set_nice q v S))" "rt_inv (snd (runtime_set_priority q v S))"
proof -
  have k: "keeps_states (ptable S) (proc_upd q f (ptable S))"
    if "keeps_id f" "\<And>p. prio_ok p \<Longrightarrow> prio_ok (f p)" "\<And>p. p_state (f p) = p_state p" "\<And>p. p_cpu_time (f p) = p_cpu_time p" for f
    using that by (rule keeps_states_upd [OF rt_invD(1) [OF assms]])
  show "rt_inv (snd (runtime_set_nice q v S))" "rt_inv (snd (runtime_set_priority q v S))"
    using assms unfolding runtime_set_nice_def runtime_set_priority_def Let_def
    by (auto intro!: rt_inv_keeps k simp: keeps_id_def prio_ok_def split: option.split)
qed

lemma init_table: "ptable (runtime_init h S) = proc_table_clear (w_pt (proc_table_shutdown (h_os h) (sy_mem S)))"
  by (simp add: runtime_init_def vm_init_def proc_table_init_def Let_def)

lemma rt_inv_init [inv_intros]: "rt_inv (runtime_init h S)"
proof -
  let ?t = "ptable (runtime_init h S)"
  have e: "entries ?t i = zero_pcb" "next_pid ?t = 1" for i by (simp_all add: init_table proc_table_clear_def)
  have ps: "pstate ?t q = None" for q by (simp add: pstate_def proc_get_def find_slot_by_pid_def e)
  have "ptable_inv ?t" unfolding init_table by (rule ptable_inv_clear)
  moreover have "cpu_total ?t = 0" by (simp add: cpu_total_def cpu_of_def e) (simp add: zero_pcb_def)
  moreover have "sched_exact ?t (sched_init SCHED_RR DEFAULT_QUANTUM)"
    by (simp add: sched_exact_def is_ready_pstate ps sched_inv_init) (simp add: sched_init_def)
  ultimately show ?thesis
    by (simp add: rt_inv_def core_inv_def one_running_def programs_def ps) (simp add: runtime_init_def zero_slot_def)
qed

end
