(* ===== verification/Runtime_Steps.thy ===== *)
theory Runtime_Steps
  imports Runtime_Inv
begin

text \<open>
  The runtime as a transition system: every transition keeps the invariant of
  \<^verbatim>\<open>Runtime_Inv\<close>, stepping is a sequence of transitions, and it returns.
\<close>

section \<open>Transitions\<close>

text \<open>
  One transition per call of the interface (\<open>admin_step\<close> has those that neither start nor run a
  program); stepping is one transition per round of its inner loop, so that a timer signal can
  arrive between rounds. Within a round the signal flag is
  read once, by \<open>maybe_preempt\<close>, which also clears it.
\<close>

inductive admin_step :: "sys \<Rightarrow> sys \<Rightarrow> bool" where
  alarm: "admin_step S (S\<lparr>sy_timer := on_sigalrm (sy_timer S)\<rparr>)"
| kill: "admin_step S (snd (runtime_kill h q S))"
| start: "admin_step S (snd (runtime_start h S))"
| stop: "admin_step S (runtime_stop h S)"
| yield: "admin_step S (runtime_yield S)"
| set_scheduler: "admin_step S (runtime_set_scheduler algo S)"
| set_quantum: "admin_step S (runtime_set_quantum n S)"
| set_trace: "admin_step S (runtime_trace all q S)"
| nice: "admin_step S (snd (runtime_set_nice q v S))"
| priority: "admin_step S (snd (runtime_set_priority q v S))"
| policy: "admin_step S (S\<lparr>sy_mem := (sy_mem S)\<lparr>w_pager := snd (pager_set_policy name ok (w_frame (sy_mem S)) (w_pager (sy_mem S)))\<rparr>\<rparr>)"
| reset: "admin_step S (runtime_init h (runtime_shutdown h' S))"
| printed: "admin_step S (print txt S)"

inductive sys_step :: "sys \<Rightarrow> sys \<Rightarrow> bool" where
  run: "sys_step S (snd (runtime_run_workload h path prio S))"
| round: "step_round h S = Some (b, S') \<Longrightarrow> sys_step S S'"
| admin: "admin_step S S' \<Longrightarrow> sys_step S S'"

inductive_cases admin_stepE: "admin_step S S'"
inductive_cases sys_stepE: "sys_step S S'"

definition reachable :: "sys \<Rightarrow> bool" where
  "reachable S \<longleftrightarrow> (\<exists>h S0. sys_step\<^sup>*\<^sup>* (runtime_init h S0) S)"

lemma admin_step_inv: "admin_step S S' \<Longrightarrow> rt_inv S \<Longrightarrow> rt_inv S'"
  by (induction rule: admin_step.induct)
     (auto intro: inv_intros simp: runtime_start_def runtime_stop_def runtime_yield_def runtime_trace_def rt_inv_mem split_beta)

lemma sys_step_inv: "sys_step S S' \<Longrightarrow> rt_inv S \<Longrightarrow> rt_inv S'"
proof (induction rule: sys_step.induct)
  case (round h S b S')
  then show ?case using step_round_inv by blast
qed (auto intro: inv_intros admin_step_inv)

interpretation runtime_life: transition_invariant sys_step rt_inv
  by unfold_locales (rule sys_step_inv)

lemma reachable_inv: "reachable S \<Longrightarrow> rt_inv S"
  using runtime_life.steps_inv rt_inv_init by (auto simp: reachable_def)

lemma step_loop_steps: "step_loop h n S = Some S' \<Longrightarrow> sys_step\<^sup>*\<^sup>* S S'"
proof (induction n arbitrary: S)
  case (Suc n)
  then obtain b S1 where r: "step_round h S = Some (b, S1)" "(if b then Some S1 else step_loop h n S1) = Some S'"
    by (auto split: option.splits)
  then have "sys_step\<^sup>*\<^sup>* S1 S'" using Suc.IH [of S1] by (auto split: if_splits)
  then show ?case using sys_step.round [OF r(1)] by (rule converse_rtranclp_into_rtranclp [rotated])
qed simp

lemma runtime_step_steps: "runtime_step h n S = Some S' \<Longrightarrow> sys_step\<^sup>*\<^sup>* S S'"
proof -
  have "step_ticks h k S = Some S' \<Longrightarrow> sys_step\<^sup>*\<^sup>* S S'" for k
    by (induction k arbitrary: S) (auto split: option.splits dest!: step_loop_steps intro: rtranclp_trans)
  then show "runtime_step h n S = Some S' \<Longrightarrow> sys_step\<^sup>*\<^sup>* S S'" by (simp add: runtime_step_def)
qed


section \<open>Returning\<close>

text \<open>The programs in the slots do not change while stepping.\<close>

definition same_programs :: "sys \<Rightarrow> sys \<Rightarrow> bool" where
  "same_programs S S' \<longleftrightarrow> (\<forall>j. sl_workload (rt_slots S' j) = sl_workload (rt_slots S j) \<and> sl_used (rt_slots S' j) = sl_used (rt_slots S j))"

lemma same_programs_refl [simp]: "same_programs S S"
  by (simp add: same_programs_def)

lemma same_programs_trans: "same_programs S S1 \<Longrightarrow> same_programs S1 S2 \<Longrightarrow> same_programs S S2"
  by (simp add: same_programs_def)

lemma same_programs_slots: "rt_slots S' = rt_slots S \<Longrightarrow> same_programs S S'"
  by (simp add: same_programs_def)

lemma exec_programs:
  "exec_io e q i insn S = (b, S') \<Longrightarrow> same_programs S S'"
  "exec_send e q i insn S = (b, S') \<Longrightarrow> same_programs S S'"
  "exec_recv e q i insn S = (b, S') \<Longrightarrow> same_programs S S'"
  "exec_sem_wait e q i insn S = (b, S') \<Longrightarrow> same_programs S S'"
  "exec_sem_post e q i insn S = (b, S') \<Longrightarrow> same_programs S S'"
  "exec_lock e q i insn S = (b, S') \<Longrightarrow> same_programs S S'"
  "exec_unlock e q i insn S = (b, S') \<Longrightarrow> same_programs S S'"
  "exec_mfree h q i S = (b, S') \<Longrightarrow> same_programs S S'"
  by (auto simp: exec_io_def exec_send_def exec_recv_def exec_sem_wait_def exec_sem_post_def exec_lock_def exec_unlock_def
      exec_mfree_def complete_immediate_def same_programs_def Let_def split_beta split: option.splits if_splits)

lemma exec_programs_mem:
  "exec_access e q i insn S = (b, S') \<Longrightarrow> same_programs S S'" "exec_mmap h q i insn S = Some (b, S') \<Longrightarrow> same_programs S S'"
  by (auto simp: exec_mmap_def exec_access_def complete_immediate_def same_programs_def Let_def split_beta split: option.splits if_splits)

lemma exec_programs_cpu: "exec_cpu e q i insn S = (b, S') \<Longrightarrow> same_programs S S'"
  unfolding exec_cpu_def Let_def by (auto simp: same_programs_def split: if_splits)

lemma execute_programs: "execute_instruction h S = Some (b, S') \<Longrightarrow> same_programs S S'"
  by (auto simp: execute_instruction_def Let_def dest: exec_programs exec_programs_mem exec_programs_cpu split: option.splits if_splits workload_op.splits
      intro: same_programs_slots)

lemma dispatch_slots: "rt_slots (snd (dispatch S)) = rt_slots S"
  by (simp add: dispatch_def process_context_trampoline_def Let_def split_beta)

lemma round_programs: "step_round h S = Some (b, S') \<Longrightarrow> same_programs S S'"
proof -
  obtain ok S1 where d: "dispatch (refresh_queues S) = (ok, S1)" by fastforce
  then have s: "same_programs S S1" using dispatch_slots [of "refresh_queues S"] by (intro same_programs_slots) simp
  have "same_programs S1 (idle_tick S1)" by (rule same_programs_slots) (simp add: idle_tick_def)
  then show "step_round h S = Some (b, S') \<Longrightarrow> same_programs S S'"
    using s d execute_programs same_programs_trans by (auto simp: step_round_def split: if_splits)
qed

definition no_mmap :: "sys \<Rightarrow> bool" where
  "no_mmap S \<longleftrightarrow> (\<forall>i < 1024. sl_used (rt_slots S i) \<longrightarrow>
     (\<forall>k < wl_count (sl_workload (rt_slots S i)). wi_op (wl_insns (sl_workload (rt_slots S i)) k) \<noteq> WORKLOAD_MMAP))"

lemma no_mmap_programs: "no_mmap S \<Longrightarrow> same_programs S S' \<Longrightarrow> no_mmap S'"
  by (simp add: no_mmap_def same_programs_def)

lemma execute_returns:
  assumes "no_mmap S"
  shows "execute_instruction h S \<noteq> None"
proof (cases "slot_index (rt_current_pid S) S")
  case (Some i)
  then show ?thesis using assms slot_indexD(1,2) [OF Some]
    by (auto simp: execute_instruction_def no_mmap_def Let_def split: workload_op.split)
qed (simp add: execute_instruction_def)

lemma round_returns:
  assumes "no_mmap S"
  shows "step_round h S \<noteq> None"
proof -
  obtain ok S1 where d: "dispatch (refresh_queues S) = (ok, S1)" by fastforce
  then have "same_programs S S1" using dispatch_slots [of "refresh_queues S"] by (intro same_programs_slots) simp
  then have "execute_instruction h S1 \<noteq> None" by (rule execute_returns [OF no_mmap_programs [OF assms]])
  then show ?thesis using d by (auto simp: step_round_def)
qed

lemma loop_returns: "no_mmap S \<Longrightarrow> \<exists>S'. step_loop h n S = Some S' \<and> same_programs S S'"
proof (induction n arbitrary: S)
  case (Suc n)
  obtain b S1 where r: "step_round h S = Some (b, S1)" using round_returns [OF Suc.prems] by fastforce
  note P = round_programs [OF r]
  show ?case
    using r P Suc.IH [OF no_mmap_programs [OF Suc.prems P]] same_programs_trans [OF P] by (cases b) auto
qed simp

lemma ticks_return: "no_mmap S \<Longrightarrow> \<exists>S'. step_ticks h n S = Some S' \<and> same_programs S S'"
proof (induction n arbitrary: S)
  case (Suc n)
  obtain S1 where r: "step_loop h MAX_DISPATCH_GUARD S = Some S1" "same_programs S S1" using loop_returns [OF Suc.prems] by blast
  then show ?case using Suc.IH [OF no_mmap_programs [OF Suc.prems r(2)]] same_programs_trans [OF r(2)] by auto
qed simp

end
