(* ===== verification/Runtime_Props.thy ===== *)
theory Runtime_Props
  imports Runtime_Steps
begin

text \<open>
  Properties of the runtime: what holds in every reachable state, that stepping takes at most
  the time asked for and returns, that the processor is not left idle while a process can run,
  what starting and killing a workload do, and how the multi-level queue behaves once the first
  boost is due.
\<close>

section \<open>Waking and dispatching\<close>

text \<open>A blocked process is due when its wake-up time has come.\<close>

definition due_pcb :: "u64 \<Rightarrow> pcb \<Rightarrow> bool" where
  "due_pcb now p \<longleftrightarrow> p_state p = PROC_BLOCKED \<and> 0 < p_wakeup_tick p \<and> p_wakeup_tick p \<le> now"

definition due :: "sys \<Rightarrow> int \<Rightarrow> bool" where
  "due S q \<longleftrightarrow> (\<exists>p. proc_get q (ptable S) = Some p \<and> due_pcb (rt_tick S) p)"

definition woken :: "u64 \<Rightarrow> pcb \<Rightarrow> pcb \<Rightarrow> bool" where
  "woken now p p' \<longleftrightarrow> p_used p' = p_used p \<and> p_pid p' = p_pid p \<and>
     p_state p' = (if p_used p \<and> p_pid p \<le> 1024 \<and> due_pcb now p then PROC_READY else p_state p)"

lemma proc_get_iff:
  assumes "ptable_inv t"
  shows "proc_get q t = Some p \<longleftrightarrow> (\<exists>i < 1024. entries t i = p \<and> p_used p \<and> p_pid p = q \<and> q \<le> 1024)"
  using find_slot_iff [OF assms, of q] by (auto simp: proc_get_def)

lemma wake_entry:
  assumes "rt_inv S" "i < 1024" "p_used (entries (ptable S) i)"
  obtains p' where "entries (ptable (wake_blocked_by_time i S)) = (entries (ptable S))(i := p')" "woken (rt_tick S) (entries (ptable S) i) p'"
proof (cases "due_pcb (rt_tick S) (entries (ptable S) i)")
  case False
  then have "wake_blocked_by_time i S = S" by (auto simp: wake_blocked_by_time_def due_pcb_def Let_def)
  then show ?thesis using False by (intro that [of "entries (ptable S) i"]) (simp_all add: woken_def)
next
  case True
  let ?p = "entries (ptable S) i"
  define T where "T = set_ptable ((ptable S)\<lparr>entries := (entries (ptable S))(i := ?p\<lparr>p_wakeup_tick := 0\<rparr>)\<rparr>) S"
  have w: "wake_blocked_by_time i S = wake_pid (p_pid ?p) ''timer'' T"
    using True by (simp add: wake_blocked_by_time_def due_pcb_def Let_def T_def)
  have "keeps_states (ptable S) (ptable T)"
    using keeps_states_entry [OF rt_invD(1) [OF assms(1)], of "\<lambda>p. p\<lparr>p_wakeup_tick := 0\<rparr>" i] by (simp add: T_def keeps_id_def prio_ok_def)
  then have inv: "ptable_inv (ptable T)" by (simp add: keeps_states_def)
  have eT: "entries (ptable T) = (entries (ptable S))(i := ?p\<lparr>p_wakeup_tick := 0\<rparr>)" by (simp add: T_def)
  show ?thesis
  proof (cases "p_pid ?p \<le> 1024")
    case False
    then have "proc_get (p_pid ?p) (ptable T) = None" using proc_get_SomeD(4) by fastforce
    then have "wake_blocked_by_time i S = T" by (simp add: w wake_pid_def)
    then show ?thesis using False eT by (intro that [of "?p\<lparr>p_wakeup_tick := 0\<rparr>"]) (simp_all add: woken_def)
  next
    case le: True
    have f: "find_slot_by_pid (p_pid ?p) (ptable T) = Some i" using find_slot_iff [OF inv, of "p_pid ?p" i] assms le by (simp add: eT)
    then have g: "proc_get (p_pid ?p) (ptable T) = Some (?p\<lparr>p_wakeup_tick := 0\<rparr>)" by (simp add: proc_get_def eT)
    let ?p' = "enter_state PROC_READY (rt_tick T) (?p\<lparr>p_wakeup_tick := 0\<rparr>)"
    have b: "p_state ?p = PROC_BLOCKED" using True by (simp add: due_pcb_def)
    have "proc_set_state (p_pid ?p) PROC_READY (rt_tick T) (ptable T) = (True, proc_upd (p_pid ?p) (enter_state PROC_READY (rt_tick T)) (ptable T))"
      using g b by (simp add: proc_set_state_def proc_is_valid_transition_def)
    then have "ptable (wake_blocked_by_time i S) = proc_upd (p_pid ?p) (enter_state PROC_READY (rt_tick T)) (ptable T)"
      using g b by (simp add: w wake_pid_def enqueue_ready_def Let_def)
    then have "entries (ptable (wake_blocked_by_time i S)) = (entries (ptable S))(i := ?p')"
      using f by (simp add: proc_upd_def eT)
    then show ?thesis using True le assms(3) by (intro that [of ?p']) (simp_all add: woken_def)
  qed
qed

lemma wake_fold:
  assumes "rt_inv S"
  shows "woken (rt_tick S) (entries (ptable S) j) (entries (ptable (proc_fold ptable wake_blocked_by_time S)) j) \<or> 1024 \<le> j"
proof -
  let ?f = "\<lambda>i S. if p_used (entries (ptable S) i) then wake_blocked_by_time i S else S"
  have "(j \<in> set xs \<longrightarrow> woken (rt_tick S) (entries (ptable S) j) (entries (ptable (fold ?f xs S)) j)) \<and>
     (j \<notin> set xs \<longrightarrow> entries (ptable (fold ?f xs S)) j = entries (ptable S) j)"
    if "distinct xs" "set xs \<subseteq> {..<1024}" for xs
    using that assms
  proof (induction xs arbitrary: S)
    case (Cons i xs)
    then have i: "i < 1024" by simp
    define T where "T = ?f i S"
    have inv: "rt_inv T" "rt_tick T = rt_tick S" using Cons.prems(3) by (simp_all add: T_def rt_inv_wake_by_time)
    obtain p' where p': "entries (ptable T) = (entries (ptable S))(i := p')" "woken (rt_tick S) (entries (ptable S) i) p'"
    proof (cases "p_used (entries (ptable S) i)")
      case True
      from wake_entry [OF Cons.prems(3) i True] show ?thesis using True that by (auto simp: T_def)
    next
      case False
      then show ?thesis by (intro that [of "entries (ptable S) i"]) (simp_all add: T_def woken_def)
    qed
    note IH = Cons.IH [OF _ _ inv(1)]
    show ?case using IH Cons.prems p' inv(2) by (auto simp: T_def [symmetric] split: if_splits)
  qed simp
  from this [of "[0..<1024]"] show ?thesis by (auto simp: proc_fold_def atLeast0LessThan)
qed

lemma boost_states: "rt_inv S \<Longrightarrow> pstate (ptable (boost_queues S)) = pstate (ptable S)"
  using keeps_states_updates(6) [OF rt_invD(1)] by (simp add: boost_queues_def Let_def keeps_states_def)

text \<open>Refreshing the queues changes the states of the due processes, to ready, and no other.\<close>

lemma refresh_states:
  assumes "rt_inv S"
  shows "pstate (ptable (refresh_queues S)) q = (if due S q then Some PROC_READY else pstate (ptable S) q)"
proof -
  define T where "T = proc_fold ptable wake_blocked_by_time S"
  define U where "U = set_ptable (sched_age_ready (rt_scheduler T) (rt_tick T) (ptable T)) T"
  have T: "rt_inv T" unfolding T_def by (rule proc_fold_inv [where P = rt_inv]) (use assms in \<open>simp_all add: rt_inv_wake_by_time\<close>)
  have k: "keeps_states (ptable T) (ptable U)" using keeps_states_updates(5) [OF rt_invD(1) [OF T]] by (simp add: U_def)
  have U: "rt_inv U" using rt_inv_keeps [OF T k] by (simp add: U_def)
  have W: "woken (rt_tick S) (entries (ptable S) j) (entries (ptable T) j)" if "j < 1024" for j
    using wake_fold [OF assms, of j] that by (auto simp: T_def)
  note G = proc_get_iff [OF rt_invD(1) [OF T]] proc_get_iff [OF rt_invD(1) [OF assms]]
  have "pstate (ptable T) q = (if due S q then Some PROC_READY else pstate (ptable S) q)"
  proof (cases "proc_get q (ptable S)")
    case None
    have "proc_get q (ptable T) = None"
    proof (rule ccontr)
      assume "proc_get q (ptable T) \<noteq> None"
      then obtain i where "i < 1024" "p_used (entries (ptable T) i)" "p_pid (entries (ptable T) i) = q" "q \<le> 1024" using G(1) by auto
      then have "\<exists>p. proc_get q (ptable S) = Some p" using W [of i] G(2) [of q] by (auto simp: woken_def)
      then show False using None by simp
    qed
    then show ?thesis using None by (simp add: pstate_def due_def)
  next
    case (Some p)
    then obtain i where i: "i < 1024" "entries (ptable S) i = p" "p_used p" "p_pid p = q" "q \<le> 1024" using G(2) by auto
    then have "proc_get q (ptable T) = Some (entries (ptable T) i)" using W [of i] G(1) [of q] by (auto simp: woken_def)
    then show ?thesis using Some W [OF i(1)] i by (simp add: pstate_def due_def woken_def)
  qed
  moreover have "pstate (ptable U) = pstate (ptable T)" using k by (simp add: keeps_states_def)
  moreover have "pstate (ptable (refresh_queues S)) = pstate (ptable U)"
    using boost_states [OF U] boost_states [OF rt_inv_rebuild [OF U]]
    by (simp add: refresh_queues_def Let_def T_def [symmetric] U_def [symmetric])
  ultimately show ?thesis by simp
qed

lemma boost_idle [simp]: "rt_idle_ticks (boost_queues S) = rt_idle_ticks S"
  by (simp add: boost_queues_def)

lemma refresh_idle [simp]: "rt_idle_ticks (refresh_queues S) = rt_idle_ticks S"
proof -
  have "rt_idle_ticks (proc_fold ptable wake_blocked_by_time S) = rt_idle_ticks S"
    by (rule proc_fold_inv [where P = "\<lambda>S'. rt_idle_ticks S' = rt_idle_ticks S"]) (simp_all add: wake_blocked_by_time_def Let_def)
  then show ?thesis by (simp add: refresh_queues_def Let_def)
qed

text \<open>Some process can use the next tick.\<close>

definition runnable :: "sys \<Rightarrow> bool" where
  "runnable S \<longleftrightarrow> 0 \<le> rt_current_pid S \<or> (\<exists>q. pstate (ptable S) q = Some PROC_READY \<or> due S q)"

lemma round_runnable:
  assumes "rt_inv S" "runnable S"
  shows "\<exists>S1. dispatch (refresh_queues S) = (True, S1) \<and> pstate (ptable S1) (rt_current_pid S1) = Some PROC_RUNNING \<and>
    step_round h S = execute_instruction h S1"
  using rt_inv_refresh [OF assms(1)]
proof (cases rule: dispatch_cases)
  case running
  then show ?thesis using one_running_current [OF rt_invD(3) [OF rt_inv_refresh [OF assms(1)]]] by (simp add: step_round_def)
next
  case (idle sch)
  then show ?thesis using assms(2) refresh_states [OF assms(1)] by (auto simp: runnable_def is_ready_pstate split: if_splits)
next
  case (start q sch t' S')
  then show ?thesis by (simp add: step_round_def moves_def)
qed

lemma round_idle:
  assumes "rt_inv S" "\<not> runnable S"
  shows "\<exists>S'. step_round h S = Some (True, S') \<and> rt_tick S' = rt_tick S + 1 \<and> rt_idle_ticks S' = rt_idle_ticks S + 1"
  using rt_inv_refresh [OF assms(1)]
proof (cases rule: dispatch_cases)
  case running
  then show ?thesis using assms(2) by (simp add: runnable_def)
next
  case (idle sch)
  then show ?thesis by (simp add: step_round_def idle_tick_def)
next
  case (start q sch t' S')
  then show ?thesis using assms(2) refresh_states [OF assms(1)] by (auto simp: runnable_def is_ready_pstate split: if_splits)
qed


section \<open>The multi-level queue after the first boost\<close>

lemma enqueue_algo [simp]: "s_algo (snd (sched_enqueue t s q)) = s_algo s"
  by (simp add: sched_enqueue_def heap_push_def Let_def split_beta split: option.split)

lemma wake_algo [simp]: "s_algo (rt_scheduler (wake_blocked_by_time i S)) = s_algo (rt_scheduler S)"
  by (simp add: wake_blocked_by_time_def wake_pid_def enqueue_ready_def Let_def split_beta split: option.split)

lemma enqueue_all_level0:
  assumes "s_algo s = SCHED_MLFQ" "\<And>q. q \<in> set pids \<Longrightarrow> \<exists>p. proc_get q t = Some p \<and> p_mlfq_level p = 0"
    "ring_ok (s_mlfq s 0)" "distinct pids" "set pids \<inter> set (ring_view (s_mlfq s 0)) = {}" "length pids + r_len (s_mlfq s 0) \<le> 1024"
  shows "ring_view (s_mlfq (enqueue_all t pids s) 0) = ring_view (s_mlfq s 0) @ pids \<and> ring_ok (s_mlfq (enqueue_all t pids s) 0) \<and>
    s_algo (enqueue_all t pids s) = SCHED_MLFQ"
  using assms
proof (induction pids arbitrary: s)
  case (Cons q pids)
  let ?r = "snd (queue_push (s_mlfq s 0) q)" and ?s = "snd (sched_enqueue t s q)"
  obtain p where p: "proc_get q t = Some p" "p_mlfq_level p = 0" using Cons.prems(2) [of q] by auto
  have r: "ring_view ?r = ring_view (s_mlfq s 0) @ [q]" "ring_ok ?r"
    using queue_push_view [OF Cons.prems(3), of q] Cons.prems(5,6) by simp_all
  have s: "s_mlfq ?s 0 = ?r" using p Cons.prems(1) by (simp add: sched_enqueue_def mlfq_level_of_def Let_def split_beta)
  have len: "r_len ?r = Suc (r_len (s_mlfq s 0))" using arg_cong [OF r(1), of length] by simp
  have "ring_view (s_mlfq (enqueue_all t pids ?s) 0) = ring_view (s_mlfq ?s 0) @ pids \<and> ring_ok (s_mlfq (enqueue_all t pids ?s) 0) \<and>
    s_algo (enqueue_all t pids ?s) = SCHED_MLFQ"
    by (rule Cons.IH) (use Cons.prems r s len in auto)
  then show ?case using r s by (simp add: enqueue_all_def)
qed (simp add: enqueue_all_def)

lemma mlfq_pick_level0:
  assumes "s_algo s = SCHED_MLFQ" "ring_ok (s_mlfq s 0)" "ring_view (s_mlfq s 0) = q # qs" "is_ready t q"
  shows "fst (sched_pick_next t s) = q"
proof -
  obtain p r where pop: "queue_pop t (s_mlfq s 0) = (p, r)" by fastforce
  then have "p = q" using queue_pop_view [OF assms(2), of t] assms(3,4) by simp
  then show ?thesis using pop is_ready_pos [OF assms(4)] assms(1)
    by (simp add: sched_pick_next_def mlfq_pick.simps [of t 0 s] Let_def split_beta)
qed

text \<open>Rebuilding the queue when all ready processes are at the top level.\<close>

lemma rebuild_level0:
  assumes "ptable_inv (ptable S)" "s_algo (rt_scheduler S) = SCHED_MLFQ"
    "\<And>q p. proc_get q (ptable S) = Some p \<Longrightarrow> p_state p = PROC_READY \<Longrightarrow> p_mlfq_level p = 0"
  shows "ring_view (s_mlfq (rt_scheduler (rebuild_ready_queues S)) 0) = known_ready (ptable S)"
    "ring_ok (s_mlfq (rt_scheduler (rebuild_ready_queues S)) 0)" "s_algo (rt_scheduler (rebuild_ready_queues S)) = SCHED_MLFQ"
proof -
  let ?c = "sched_clear (rt_scheduler S)"
  note K = known_ready_facts [OF assms(1)]
  have c: "s_algo ?c = SCHED_MLFQ" "s_mlfq ?c 0 = zero_ring" using assms(2) by (simp_all add: sched_clear_def sched_init_def)
  have z: "ring_view zero_ring = []" "ring_ok zero_ring" "r_len zero_ring = 0" by (simp_all add: ring_view_def zero_ring_def ring_list_def ring_ok_def)
  have "\<exists>p. proc_get q (ptable S) = Some p \<and> p_mlfq_level p = 0" if "q \<in> set (known_ready (ptable S))" for q
    using that assms(3) K(1) by (auto simp: is_ready_def split: option.splits)
  note E = enqueue_all_level0 [OF c(1), of "known_ready (ptable S)" "ptable S", OF this, unfolded c(2) z, OF _ _ K(2)]
  show "ring_view (s_mlfq (rt_scheduler (rebuild_ready_queues S)) 0) = known_ready (ptable S)"
    "ring_ok (s_mlfq (rt_scheduler (rebuild_ready_queues S)) 0)" "s_algo (rt_scheduler (rebuild_ready_queues S)) = SCHED_MLFQ"
    using E z(2) K(3) by (simp_all add: rebuild_eq)
qed

lemma boost_picks_first:
  assumes "rt_inv S" "s_algo (rt_scheduler S) = SCHED_MLFQ" "50 \<le> rt_tick S" "is_ready (ptable S) q"
  defines "T \<equiv> boost_queues S"
  shows "fst (sched_pick_next (ptable T) (rt_scheduler T)) = hd (known_ready (ptable T))"
proof -
  note I = rt_invD [OF assms(1)]
  define U where "U = (set_ptable (sched_priority_boost (rt_scheduler S) (ptable S)) S)
    \<lparr>rt_scheduler := (rt_scheduler S)\<lparr>s_last_boost_tick := rt_tick S\<rparr>\<rparr>"
  have "boost_due S" using I(2) assms(2,3) by (simp add: boost_due_def sched_algo_def sched_exact_def MLFQ_BOOST_INTERVAL_def)
  then have T: "T = trace (-1) ''BOOST'' ''mlfq'' (rebuild_ready_queues U)"
    by (simp add: T_def boost_queues_def Let_def U_def)
  have k: "keeps_states (ptable S) (ptable U)" using keeps_states_updates(6) [OF I(1)] by (simp add: U_def)
  have b: "keeps_id boost_one" by (simp add: keeps_id_def boost_one_def)
  have lvl: "p_mlfq_level p = 0" if u: "proc_get x (ptable U) = Some p" "p_state p = PROC_READY" for x p
  proof -
    obtain p0 where "p = boost_one p0" using u(1) assms(2) by (auto simp: U_def sched_priority_boost_def proc_get_for_each [OF b])
    then show ?thesis using u(2) by (simp add: boost_one_def split: if_splits)
  qed
  have inv: "ptable_inv (ptable U)" using k by (simp add: keeps_states_def)
  have algo: "s_algo (rt_scheduler U) = SCHED_MLFQ" using assms(2) by (simp add: U_def)
  note R = rebuild_level0 [OF inv algo lvl]
  note K = known_ready_facts [OF inv]
  have "q \<in> set (known_ready (ptable U))" using assms(4) k K(1) by (simp add: is_ready_pstate keeps_states_def)
  then obtain x xs where x: "known_ready (ptable U) = x # xs" by (cases "known_ready (ptable U)") auto
  have "is_ready (ptable U) x" using K(1) x by auto
  from mlfq_pick_level0 [OF R(3,2) _ this, where qs = xs] show ?thesis using x R(1) by (simp add: T)
qed

text \<open>The first of the ready processes is the one in the lowest table slot.\<close>

definition lowest_ready :: "process_table \<Rightarrow> int \<Rightarrow> bool" where
  "lowest_ready t q \<longleftrightarrow> (\<exists>i < 1024. p_used (entries t i) \<and> p_state (entries t i) = PROC_READY \<and> p_pid (entries t i) = q \<and> q \<le> 1024 \<and>
     (\<forall>j < i. \<not> (p_used (entries t j) \<and> p_state (entries t j) = PROC_READY \<and> p_pid (entries t j) \<le> 1024)))"

lemma hd_filter_upt:
  assumes "filter R [0..<n] = x # xs"
  shows "x < n" "R x" "\<And>j. j < x \<Longrightarrow> \<not> R j"
proof -
  obtain us vs where u: "[0..<n] = us @ x # vs" "\<forall>u \<in> set us. \<not> R u" "R x" using filter_eq_ConsD [OF assms] by blast
  have l: "length us < n" using arg_cong [OF u(1), of length] by simp
  then have x: "x = length us" using arg_cong [OF u(1), of "\<lambda>l. l ! length us"] by simp
  show "x < n" "R x" using x l u(3) by simp_all
  show "\<not> R j" if "j < x" for j
  proof -
    have "us ! j = j" using arg_cong [OF u(1), of "\<lambda>l. l ! j"] that x l by (simp add: nth_append)
    then show ?thesis using u(2) that x nth_mem [of j us] by auto
  qed
qed

lemma known_ready_lowest:
  assumes "ptable_inv t" "known_ready t \<noteq> []"
  shows "lowest_ready t (hd (known_ready t))"
proof -
  let ?R = "\<lambda>i. proc_get (p_pid (entries t i)) t \<noteq> None \<and> p_used (entries t i) \<and> p_state (entries t i) = PROC_READY"
  have k: "known_ready t = map (\<lambda>i. p_pid (entries t i)) (filter ?R [0..<1024])"
    by (simp add: known_ready_def ready_list_def filter_map comp_def conj_commute)
  then obtain i xs where f: "filter ?R [0..<1024] = i # xs" using assms(2) by (cases "filter ?R [0..<1024]") auto
  note H = hd_filter_upt [OF f]
  have g: "proc_get (p_pid (entries t j)) t \<noteq> None \<longleftrightarrow> p_pid (entries t j) \<le> 1024" if "j < 1024" "p_used (entries t j)" for j
    using that find_slot_iff [OF assms(1), of "p_pid (entries t j)" j] by (auto simp: proc_get_def dest: find_slot_SomeD)
  have h: "hd (known_ready t) = p_pid (entries t i)" unfolding k f by simp
  have "\<not> (p_used (entries t j) \<and> p_state (entries t j) = PROC_READY \<and> p_pid (entries t j) \<le> 1024)" if "j < i" for j
    using H(1) H(3) [OF that] g [of j] that by fastforce
  then show ?thesis unfolding lowest_ready_def h using H(1,2) g [of i] by blast
qed

lemma mlfq_dispatch:
  assumes "rt_inv S" "s_algo (rt_scheduler S) = SCHED_MLFQ" "50 \<le> rt_tick S" "rt_current_pid S = -1"
    "dispatch (refresh_queues S) = (True, S1)"
  shows "lowest_ready (ptable (refresh_queues S)) (rt_current_pid S1)"
proof -
  define U where "U = proc_fold ptable wake_blocked_by_time S"
  have "rt_inv U \<and> s_algo (rt_scheduler U) = SCHED_MLFQ \<and> rt_tick U = rt_tick S"
    unfolding U_def by (rule proc_fold_inv [where P = "\<lambda>U. rt_inv U \<and> s_algo (rt_scheduler U) = SCHED_MLFQ \<and> rt_tick U = rt_tick S"])
      (use assms in \<open>simp_all add: rt_inv_wake_by_time\<close>)
  moreover from this have r: "refresh_queues S = boost_queues U"
    by (simp add: refresh_queues_def Let_def U_def [symmetric] sched_age_ready_def sched_algo_def set_ptable_def)
  ultimately have U: "rt_inv U" "s_algo (rt_scheduler U) = SCHED_MLFQ" "50 \<le> rt_tick U" using assms(3) by simp_all
  have inv: "rt_inv (boost_queues U)" by (rule rt_inv_boost [OF U(1)])
  from rt_inv_refresh [OF assms(1)] show ?thesis
  proof (cases rule: dispatch_cases)
    case (start q sch t' S')
    have q: "is_ready (ptable (boost_queues U)) q" using start(2) r by simp
    then have "is_ready (ptable U) q" using boost_states [OF U(1)] by (simp add: is_ready_pstate)
    then have "q = hd (known_ready (ptable (boost_queues U)))"
      using boost_picks_first [OF U] start(3) r by simp
    moreover have "known_ready (ptable (boost_queues U)) \<noteq> []"
      using q known_ready_facts(1) [OF rt_invD(1) [OF inv]] by fastforce
    ultimately show ?thesis using known_ready_lowest [OF rt_invD(1) [OF inv]] start(6,9) assms(5) r by simp
  qed (use assms in simp_all)
qed


section \<open>Starting and killing a workload\<close>

lemma install_result:
  assumes "new_proc q S" "workload_wf w" "install_workload h q w S = (q', S')" "0 \<le> q'"
  shows "q' = q" "q \<le> 1024 \<Longrightarrow> \<exists>i. slot_index q S' = Some i \<and> sl_workload (rt_slots S' i) = w \<and> sl_pc (rt_slots S' i) = 0"
    "proc_get q (ptable S) \<noteq> None \<Longrightarrow> moves (ptable S) q PROC_READY (ptable S')"
    "proc_get q (ptable S) = None \<Longrightarrow> ptable S' = ptable S" "rt_current_pid S' = rt_current_pid S"
proof -
  note N = assms(1) [unfolded new_proc_def]
  obtain r S1 where a: "alloc_slot q S = (r, S1)" by fastforce
  then obtain i where i: "r = Some i" using assms(3,4) by (cases r) (simp_all add: install_workload_def)
  define T where "T = set_slot i (\<lambda>s. s\<lparr>sl_workload := w\<rparr>) S1"
  have S': "q' = q" "S' = trace q ''CREATE'' (wl_name w) (enqueue_ready q T)"
    using assms(3) a i by (auto simp: install_workload_def T_def)
  have t: "ptable T = ptable S" using alloc_slot_table [OF a] by (simp add: T_def)
  have f: "i < 1024" "rt_slots T i = zero_slot\<lparr>sl_used := True, sl_pid := q, sl_workload := w\<rparr>"
    "q \<le> 1024 \<Longrightarrow> sy_slot_by_pid T (nat (q - 1)) = int i" "rt_current_pid T = rt_current_pid S"
    using a i N by (auto simp: T_def alloc_slot_def Let_def first_idx_Some_iff split: option.splits)
  show "q' = q" by (rule S')
  show "q \<le> 1024 \<Longrightarrow> \<exists>i. slot_index q S' = Some i \<and> sl_workload (rt_slots S' i) = w \<and> sl_pc (rt_slots S' i) = 0"
    using f N by (simp add: S'(2) slot_index_def zero_slot_def)
  show "rt_current_pid S' = rt_current_pid S" using f by (simp add: S'(2))
  show "ptable S' = ptable S" if "proc_get q (ptable S) = None"
    using enqueue_ready_refused [of T q] that t by (simp add: S'(2) pstate_def)
  show "moves (ptable S) q PROC_READY (ptable S')" if "proc_get q (ptable S) \<noteq> None"
  proof -
    have p: "pstate (ptable T) q = Some PROC_NEW" using that N t by (auto simp: pstate_def)
    have v: "proc_is_valid_transition PROC_NEW PROC_READY" by (simp add: proc_is_valid_transition_def)
    have iT: "ptable_inv (ptable T)" using N t by simp
    obtain t' where "moves (ptable T) q PROC_READY t'" "ptable (enqueue_ready q T) = t'" by (rule enqueue_ready_moves [OF iT p v])
    then show ?thesis using t by (simp add: S'(2))
  qed
qed

lemma create_states:
  assumes "ptable_inv t" "proc_create e ppid prio now ssize t = (r, t')" "0 \<le> r"
  shows "r = next_pid t \<and> pstate t' x = (if x = r then (if x \<le> 1024 then Some PROC_NEW else None) else pstate t x)"
  using assms(2)
proof (cases rule: proc_create_cases)
  case (made i st sz ms maps)
  let ?p = "new_pcb (next_pid t) ppid (clamp_prio prio) now st sz ms"
  have "proc_get x t' = (if x = r then (if x \<le> 1024 then Some ?p else None) else proc_get x t)"
    using proc_get_table_with [OF assms(1), of i ?p x maps] find_free_slotD [OF made(1)] made clamp_prio_range(1,2) [of prio] by (simp add: prio_ok_def)
  then show ?thesis using made(2) by (simp add: pstate_def)
qed (use assms(3) in simp)

lemma run_result:
  assumes "rt_inv S" "runtime_run_workload h path prio S = (q, S')" "0 \<le> q"
  shows "q = next_pid (ptable S)" "rt_current_pid S' = rt_current_pid S"
    "\<And>p. pstate (ptable S') p = (if p = q \<and> q \<le> 1024 then Some PROC_READY else pstate (ptable S) p)"
    "q \<le> 1024 \<Longrightarrow> \<exists>i. slot_index q S' = Some i \<and> load_candidates (h_files h) path = Some (sl_workload (rt_slots S' i)) \<and> sl_pc (rt_slots S' i) = 0"
proof -
  obtain w where w: "load_candidates (h_files h) path = Some w"
    using assms(2,3) by (cases "load_candidates (h_files h) path") (auto simp: runtime_run_workload_def)
  obtain q0 t where c: "proc_create (h_os h) 0 prio (rt_tick S) 0 (ptable S) = (q0, t)" by fastforce
  have q0: "0 \<le> q0" using assms(2,3) w c by (auto simp: runtime_run_workload_def Let_def split: if_splits)
  have ps: "q0 = next_pid (ptable S)" "\<And>p. pstate t p = (if p = q0 then (if p \<le> 1024 then Some PROC_NEW else None) else pstate (ptable S) p)"
    using create_states [OF rt_invD(1) [OF assms(1)] c q0] by blast+
  note N = create_new_proc(2) [OF assms(1) c q0]
  obtain T where T: "new_proc q0 T" "install_workload h q0 w T = (q, S')" "pstate (ptable T) = pstate t" "rt_current_pid T = rt_current_pid S"
  proof (cases "proc_get q0 t = None")
    case True
    then show ?thesis using assms(2) w c q0 N by (intro that [of "set_ptable t S"]) (simp_all add: runtime_run_workload_def Let_def)
  next
    case False
    obtain v m where v: "vm_proc_init (h_vm_alloc h) q0 (sy_mem (set_ptable t S)) = (v, m)" by fastforce
    have m: "w_pt m = ptable (set_ptable t S)" using v by (auto simp: vm_proc_init_def split: option.splits)
    have k: "keeps_states t (proc_upd q0 (\<lambda>p. p\<lparr>p_vm := v\<rparr>) t)" using N by (intro keeps_states_updates) (simp add: new_proc_def)
    show ?thesis
      using assms(2,3) w c q0 v m False new_proc_vm [OF N m, of v] k
      by (intro that [of "(set_ptable t S)\<lparr>sy_mem := m\<lparr>w_pt := proc_upd q0 (\<lambda>p. p\<lparr>p_vm := v\<rparr>) (w_pt m)\<rparr>\<rparr>"])
        (auto simp: runtime_run_workload_def Let_def keeps_states_def split: if_splits)
  qed
  note I = install_result [OF T(1) load_candidates_wf [OF w] T(2) assms(3)]
  have g: "proc_get q0 (ptable T) = None \<longleftrightarrow> 1024 < q0" using ps(2) [of q0] by (auto simp: T(3) [symmetric] pstate_def split: if_splits)
  show "q = next_pid (ptable S)" using I(1) ps(1) by simp
  show "rt_current_pid S' = rt_current_pid S" using I(5) T(4) by simp
  show "pstate (ptable S') p = (if p = q \<and> q \<le> 1024 then Some PROC_READY else pstate (ptable S) p)" for p
  proof (cases "q0 \<le> 1024")
    case True
    then show ?thesis using I(3) g T(3) ps(2) [of p] I(1) by (simp add: moves_def)
  next
    case False
    then have "pstate (ptable S) q0 = None" using pstate_range [of "ptable S" q0] by (cases "pstate (ptable S) q0") auto
    then show ?thesis using False I(1) I(4) g T(3) ps(2) [of p] by simp
  qed
  show "\<exists>i. slot_index q S' = Some i \<and> load_candidates (h_files h) path = Some (sl_workload (rt_slots S' i)) \<and> sl_pc (rt_slots S' i) = 0"
    if "q \<le> 1024" using I(1,2) that w by auto
qed

lemma kill_keeps: "sy_ipc (snd (runtime_kill h q S)) = sy_ipc S" "sy_sync (snd (runtime_kill h q S)) = sy_sync S"
  "w_frame (sy_mem (snd (runtime_kill h q S))) = w_frame (sy_mem S)" "w_swap (sy_mem (snd (runtime_kill h q S))) = w_swap (sy_mem S)"
  by (auto simp: runtime_kill_def Let_def split_beta rebuild_eq trace_def print_def set_ptable_def set_slot_def split: option.split)

lemma kill_result:
  assumes "rt_inv S" "pstate (ptable S) q = Some s" "s \<noteq> PROC_EXITED"
  obtains S' p where "runtime_kill h q S = (True, S')" "proc_get q (ptable S') = Some p" "p_state p = PROC_EXITED" "p_exit_code p = 130"
    "p_finish_tick p = rt_tick S" "\<And>r. r \<noteq> q \<Longrightarrow> proc_get r (ptable S') = proc_get r (ptable S)" "slot_index q S' = None"
    "rt_current_pid S' = (if rt_current_pid S = q then -1 else rt_current_pid S)" "q \<notin># pool (rt_scheduler S')"
  using assms(1)
proof (cases rule: kill_cases [where q = q and h = h])
  case (killed s t' i S3)
  define S' where "S' = rebuild_ready_queues S3"
  have inv: "rt_inv S'" using rt_inv_kill [OF assms(1), of h q] killed(6) by (simp add: S'_def)
  obtain p where p: "proc_get q (ptable S) = Some p" using assms(2) by (auto simp: pstate_def)
  have t': "ptable S' = snd (proc_mark_exited (h_os h) q 130 (rt_tick S) (ptable S))" "fst (proc_mark_exited (h_os h) q 130 (rt_tick S) (ptable S))"
    using killed(4,7) by (simp_all add: S'_def)
  note G = proc_mark_exited_get [of _ "h_os h" q 130 "rt_tick S" "ptable S"]
  have "\<not> is_ready (ptable S') q" using killed(3,7) by (simp add: S'_def moves_def is_ready_pstate)
  then have "q \<notin># pool (rt_scheduler S')" using rt_invD(2) [OF inv] by (simp add: sched_exact_def)
  moreover have "slot_index q S' = None" using killed(8,9) by (auto simp: S'_def slot_index_def Let_def)
  moreover have "rt_current_pid S' = (if rt_current_pid S = q then -1 else rt_current_pid S)" using killed(10) by (simp add: S'_def)
  moreover define p' where "p' = p\<lparr>p_exit_code := 130, p_finish_tick := rt_tick S, p_state := PROC_EXITED, p_wakeup_tick := 0,
    p_stack := None, p_stack_size := 0, p_stack_mapping_size := 0\<rparr>"
  moreover have "proc_get q (ptable S') = Some p'" "r \<noteq> q \<Longrightarrow> proc_get r (ptable S') = proc_get r (ptable S)" for r
    using G p t' by (simp_all add: p'_def)
  ultimately show ?thesis using killed(6) by (intro that [of S' p']) (simp_all add: S'_def [symmetric])
qed (use assms in simp_all)


section \<open>A small system\<close>

definition sample_host :: host where
  "sample_host = \<lparr>h_os = sample_os, h_vm_alloc = Some 0, h_policy_alloc = True, h_pad = 0,
     h_undef = \<lparr>bh_size = 0, bh_free = False, bh_next = 0, bh_prev = 0\<rparr>,
     h_files = sample_files, h_create = (\<lambda>_. True), h_setitimer = True\<rparr>"

definition booted :: sys where
  "booted = runtime_init sample_host zero_sys"

definition loaded :: sys where
  "loaded = snd (runtime_run_workload sample_host ''a.wl'' 5 booted)"

lemma booted_reachable: "reachable booted"
  unfolding booted_def reachable_def by blast

lemma sample_candidates: "load_candidates sample_files ''a.wl'' \<noteq> None"
proof -
  obtain w where "workload_load sample_files ''a.wl'' 160 = Inr w" using sample_load by (auto split: sum.splits)
  then show ?thesis by (simp add: load_candidates_def ERR_BUF_SIZE_def Let_def)
qed

lemma loaded_result: "runtime_run_workload sample_host ''a.wl'' 5 booted = (1, loaded)"
proof -
  obtain w where w: "load_candidates sample_files ''a.wl'' = Some w" using sample_candidates by blast
  have t: "\<And>i. entries (ptable booted) i = zero_pcb" "next_pid (ptable booted) = 1"
    by (simp_all add: booted_def init_table proc_table_clear_def)
  obtain r t' where c: "proc_create sample_os 0 5 (rt_tick booted) 0 (ptable booted) = (r, t')" by fastforce
  have r: "r = 1"
    using c by (simp add: proc_create_def t find_free_slot_def first_idx.simps zero_pcb_def stack_alloc_def sample_os_def page_size_def
        round_up_def MOSRT_DEFAULT_STACK_SIZE_def Let_def split: if_splits)
  have s: "\<And>i. rt_slots booted i = zero_slot" by (simp add: booted_def runtime_init_def)
  have "fst (runtime_run_workload sample_host ''a.wl'' 5 booted) = 1"
    using w c r by (simp add: runtime_run_workload_def sample_host_def Let_def vm_proc_init_def install_workload_def alloc_slot_def s
        first_idx.simps zero_slot_def)
  then show ?thesis by (simp add: loaded_def prod_eq_iff)
qed

lemma loaded_facts: "rt_inv loaded" "reachable loaded" "pstate (ptable loaded) 1 = Some PROC_READY" "rt_current_pid loaded = -1"
proof -
  have b: "rt_inv booted" by (rule reachable_inv [OF booted_reachable])
  note R = run_result [OF b loaded_result]
  show "rt_inv loaded" unfolding loaded_def by (rule rt_inv_run [OF b])
  have "sys_step booted loaded" unfolding loaded_def by (rule sys_step.run)
  then show "reachable loaded" using booted_reachable unfolding reachable_def by (meson rtranclp.rtrancl_into_rtrancl)
  show "pstate (ptable loaded) 1 = Some PROC_READY" using R(3) by simp
  show "rt_current_pid loaded = -1" using R(2) by (simp add: booted_def runtime_init_def)
qed


section \<open>Properties\<close>

text \<open>C1. The runtime invariant: in every state reached from initialisation by any sequence of interface calls, rounds
  of stepping and timer signals, the process table is well formed; the running process is
  exactly the current one, so at most one process runs; the ready queues hold exactly the
  ready processes, each once; every process that has not exited has a slot with a well-typed
  program and a program counter inside it; and the clock is the sum of busy and idle ticks, the
  busy ticks being the processor time charged to processes.\<close>

theorem runtime_invariant:
  assumes "reachable S"
  shows "ptable_inv (ptable S) \<and>
    (\<forall>q. pstate (ptable S) q = Some PROC_RUNNING \<longleftrightarrow> q = rt_current_pid S \<and> 0 \<le> rt_current_pid S) \<and>
    pool (rt_scheduler S) = mset_set {q. pstate (ptable S) q = Some PROC_READY} \<and>
    (\<forall>q s. pstate (ptable S) q = Some s \<and> s \<noteq> PROC_EXITED \<longrightarrow>
       (\<exists>i. slot_index q S = Some i \<and> workload_wf (sl_workload (rt_slots S i)) \<and>
          sl_pc (rt_slots S i) < wl_count (sl_workload (rt_slots S i)))) \<and>
    rt_tick S = rt_busy_ticks S + rt_idle_ticks S \<and> rt_busy_ticks S = cpu_total (ptable S)"
proof -
  note I = rt_invD [OF reachable_inv [OF assms]]
  have "\<exists>i. slot_index q S = Some i \<and> workload_wf (sl_workload (rt_slots S i)) \<and> sl_pc (rt_slots S i) < wl_count (sl_workload (rt_slots S i))"
    if p: "pstate (ptable S) q = Some s" "s \<noteq> PROC_EXITED" for q s
  proof -
    have "has_slot (rt_slots S) (sy_slot_by_pid S) q" using I(4) p by (simp add: programs_def)
    then obtain i where i: "slot_index q S = Some i" using has_slot_index pstate_range [OF p(1)] by blast
    then have "slot_wf (next_pid (ptable S)) (sy_slot_by_pid S) i (rt_slots S i)" using I(4) slot_indexD [OF i] by (simp add: programs_def)
    then show ?thesis using i by (simp add: slot_wf_def)
  qed
  then show ?thesis using I by (auto simp: one_running_def sched_exact_def is_ready_pstate)
qed

theorem runtime_invariant_witness: "reachable loaded \<and> 1 \<in># pool (rt_scheduler loaded)"
  using runtime_invariant [OF loaded_facts(2)] loaded_facts(2,3) finite_ready [of "ptable loaded"] by (simp add: is_ready_pstate)

text \<open>C21. Stepping returns and keeps time: while no program in the slots contains \<^verbatim>\<open>MMAP\<close>, a call to step \<open>n\<close>
  ticks returns, whatever the environment answers; the clock has then advanced by at most \<open>n\<close>,
  and the state is again a reachable one. (\<^verbatim>\<open>MMAP\<close> walks the block list in the process's own
  memory, which the process can make cyclic.)\<close>

theorem runtime_step_returns:
  assumes "reachable S" "no_mmap S"
  shows "\<exists>S' k. runtime_step h n S = Some S' \<and> reachable S' \<and> no_mmap S' \<and> k \<le> unat n \<and> rt_tick S' = rt_tick S + of_nat k"
proof -
  obtain S' where S': "step_ticks h (unat n) S = Some S'" "same_programs S S'" using ticks_return [OF assms(2)] by blast
  then have s: "runtime_step h n S = Some S'" by (simp add: runtime_step_def)
  have "reachable S'" using assms(1) runtime_step_steps [OF s] by (auto simp: reachable_def intro: rtranclp_trans)
  then show ?thesis
    using s step_ticks_inv [OF reachable_inv [OF assms(1)] S'(1)] no_mmap_programs [OF assms(2) S'(2)] by blast
qed

theorem runtime_step_returns_witness:
  "\<exists>S' k. runtime_step sample_host 3 booted = Some S' \<and> k \<le> 3 \<and> rt_tick S' = of_nat k"
proof -
  have "no_mmap booted" by (simp add: no_mmap_def booted_def runtime_init_def zero_slot_def)
  from runtime_step_returns [OF booted_reachable this, of sample_host 3] show ?thesis
    by (simp add: booted_def runtime_init_def) blast
qed

text \<open>C20. The processor is never idle while a process can run: when some process is current, ready, or blocked with
  its wake-up time reached, a round executes an instruction of a running process; otherwise it
  is an idle tick.\<close>

theorem runtime_work_conserving:
  assumes "reachable S"
  shows "if runnable S
    then \<exists>S1. dispatch (refresh_queues S) = (True, S1) \<and> pstate (ptable S1) (rt_current_pid S1) = Some PROC_RUNNING \<and>
           step_round h S = execute_instruction h S1
    else \<exists>S'. step_round h S = Some (True, S') \<and> rt_tick S' = rt_tick S + 1 \<and> rt_idle_ticks S' = rt_idle_ticks S + 1"
  using round_runnable [OF reachable_inv [OF assms]] round_idle [OF reachable_inv [OF assms]] by simp

theorem runtime_work_conserving_witness:
  "runnable loaded \<and> (\<exists>S1. dispatch (refresh_queues loaded) = (True, S1) \<and> step_round sample_host loaded = execute_instruction sample_host S1)"
proof -
  have "runnable loaded" using loaded_facts(3) by (auto simp: runnable_def)
  then show ?thesis using runtime_work_conserving [OF loaded_facts(2), of sample_host] by auto
qed

text \<open>C22. The multi-level queue degenerates after 50 ticks: the time of the last boost is set to zero by the rebuild
  that follows the boost, so from tick 50 on every round boosts again, undoing every demotion,
  and queues the ready processes in the order of their table slots. Whenever a process is
  dispatched it is then the ready one in the lowest slot, however long the others have
  waited.\<close>

theorem mlfq_boost_starves:
  assumes "rt_inv S" "sched_algo (rt_scheduler S) = SCHED_MLFQ" "50 \<le> rt_tick S" "rt_current_pid S = -1"
    "dispatch (refresh_queues S) = (True, S1)"
  shows "lowest_ready (ptable (refresh_queues S)) (rt_current_pid S1)"
  using mlfq_dispatch [OF assms(1) _ assms(3-5)] assms(2) by (simp add: sched_algo_def)

theorem mlfq_boost_starves_witness:
  "\<exists>S S1. rt_inv S \<and> sched_algo (rt_scheduler S) = SCHED_MLFQ \<and> rt_tick S = 50 \<and> dispatch (refresh_queues S) = (True, S1) \<and>
     lowest_ready (ptable (refresh_queues S)) (rt_current_pid S1)"
proof -
  let ?L = "runtime_set_scheduler SCHED_MLFQ loaded"
  define S where "S = ?L\<lparr>rt_tick := 50, rt_idle_ticks := 50 - rt_busy_ticks ?L\<rparr>"
  have inv: "rt_inv S" using rt_inv_set_scheduler [OF loaded_facts(1), of SCHED_MLFQ] by (simp add: S_def rt_inv_def core_inv_def)
  have algo: "sched_algo (rt_scheduler S) = SCHED_MLFQ"
  proof -
    have "s_algo (enqueue_all t pids s) = s_algo s" for t pids s
      by (induction pids arbitrary: s) (simp_all add: enqueue_all_def)
    then show ?thesis by (simp add: S_def runtime_set_scheduler_def rebuild_eq sched_algo_def sched_set_algo_def sched_clear_def sched_init_def)
  qed
  have f: "rt_current_pid S = -1" "rt_tick S = 50" "pstate (ptable S) 1 = Some PROC_READY"
    using loaded_facts(3,4) by (simp_all add: S_def runtime_set_scheduler_def)
  then have "runnable S" by (auto simp: runnable_def)
  then obtain S1 where d: "dispatch (refresh_queues S) = (True, S1)" using round_runnable [OF inv] by blast
  show ?thesis using mlfq_boost_starves [OF inv algo _ f(1) d] inv algo f(2) d by auto
qed

text \<open>C23. Killing: a process that does not exist or has exited cannot be killed, and the attempt changes nothing. Any
  other process is killed: it has exited with code 130 at the current tick, is in no ready
  queue, has no program slot and is not current; every other process is as it was. The message
  queues, semaphores, frames and swap slots are left as they are: a mutex the process holds
  stays held and its memory stays allocated.\<close>

theorem runtime_kill_correct:
  assumes "reachable S"
  shows "if pstate (ptable S) q \<in> {None, Some PROC_EXITED} then runtime_kill h q S = (False, S)
    else \<exists>S' p. runtime_kill h q S = (True, S') \<and> reachable S' \<and>
      proc_get q (ptable S') = Some p \<and> p_state p = PROC_EXITED \<and> p_exit_code p = 130 \<and> p_finish_tick p = rt_tick S \<and>
      q \<notin># pool (rt_scheduler S') \<and> slot_index q S' = None \<and>
      rt_current_pid S' = (if rt_current_pid S = q then -1 else rt_current_pid S) \<and>
      (\<forall>r. r \<noteq> q \<longrightarrow> proc_get r (ptable S') = proc_get r (ptable S)) \<and> sy_ipc S' = sy_ipc S \<and> sy_sync S' = sy_sync S \<and>
      w_frame (sy_mem S') = w_frame (sy_mem S) \<and> w_swap (sy_mem S') = w_swap (sy_mem S)"
proof -
  note inv = reachable_inv [OF assms]
  show ?thesis
  proof (cases "pstate (ptable S) q \<in> {None, Some PROC_EXITED}")
    case True
    from inv show ?thesis by (cases rule: kill_cases [where q = q and h = h]) (use True in auto)
  next
    case False
    then obtain s where s: "pstate (ptable S) q = Some s" "s \<noteq> PROC_EXITED" by auto
    obtain S' p where K: "runtime_kill h q S = (True, S')" "proc_get q (ptable S') = Some p" "p_state p = PROC_EXITED" "p_exit_code p = 130"
      "p_finish_tick p = rt_tick S" "\<And>r. r \<noteq> q \<Longrightarrow> proc_get r (ptable S') = proc_get r (ptable S)" "slot_index q S' = None"
      "rt_current_pid S' = (if rt_current_pid S = q then -1 else rt_current_pid S)" "q \<notin># pool (rt_scheduler S')"
      by (rule kill_result [OF inv s, where h = h]) blast
    have "sys_step S S'" using sys_step.admin [OF admin_step.kill [of S h q]] K(1) by simp
    then have "reachable S'" using assms unfolding reachable_def by (meson rtranclp.rtrancl_into_rtrancl)
    then show ?thesis using False K kill_keeps [of h q S] by auto
  qed
qed

theorem runtime_kill_correct_witness:
  "\<exists>S' p. runtime_kill sample_host 1 loaded = (True, S') \<and> proc_get 1 (ptable S') = Some p \<and> p_state p = PROC_EXITED \<and> p_exit_code p = 130"
  using runtime_kill_correct [OF loaded_facts(2), of 1 sample_host] loaded_facts(3) by auto

end
