(* ===== verification/Runtime_Memory.thy ===== *)
theory Runtime_Memory
  imports Runtime_Props
begin

text \<open>
  Memory under the runtime. As long as no program contains \<^verbatim>\<open>MMAP\<close>, whose growth of the heap can
  leave a frame without a page, and \<^verbatim>\<open>malloc\<close> returns memory that is not in use, every state the
  runtime reaches satisfies the paging invariant, and the TLB holds translations of the current
  process only.
\<close>

named_theorems mem_keeps \<open>operations that change neither frames, swap, TLB nor address spaces\<close>


section \<open>What the heap operations inherit from the byte accesses\<close>

locale byte_access =
  fixes pid :: int and a :: vm_ptr and t :: u64 and P :: "mem \<Rightarrow> bool"
  assumes read_mem: "\<And>w x n r bs w'. P w \<Longrightarrow> unat n \<le> 65536 \<Longrightarrow> vm_read_mem pid a x n t w = (r, bs, w') \<Longrightarrow> P w'"
    and write_mem: "\<And>w x src n r w'. P w \<Longrightarrow> unat n \<le> 65536 \<Longrightarrow> vm_write_mem pid a x src n t w = (r, w') \<Longrightarrow> P w'"
begin

lemma hdr_len_bound: "unat VM_BLOCK_HDR_SIZE \<le> 65536"
  by (simp add: VM_BLOCK_HDR_SIZE_def)

lemma read_hdr: "read_hdr pid a x t w = (r, w') \<Longrightarrow> P w \<Longrightarrow> P w'"
  using read_mem [OF _ hdr_len_bound] by (auto simp: read_hdr_def split: prod.splits if_splits)

lemma write_hdr: "write_hdr pad pid a x h t w = (r, w') \<Longrightarrow> P w \<Longrightarrow> P w'"
  using write_mem [OF _ hdr_len_bound] by (auto simp: write_hdr_def split: prod.splits)

lemma set_prev: "set_prev pad pid a n p t w = (r, w') \<Longrightarrow> P w \<Longrightarrow> P w'"
  by (auto simp: set_prev_def split: if_splits prod.splits option.splits; blast intro: read_hdr write_hdr)

lemma join_next: "join_next pad pid a t x h w = (r, h', w') \<Longrightarrow> P w \<Longrightarrow> P w'"
  by (auto simp: join_next_def Let_def split: if_splits prod.splits option.splits; blast intro: read_hdr write_hdr set_prev)

lemma join_prev: "P w \<Longrightarrow> P (join_prev pad pid a t h w)"
  by (auto simp: join_prev_def Let_def split: prod.split option.split; metis read_hdr write_hdr set_prev surjective_pairing)

lemma vm_free: "P w \<Longrightarrow> P (vm_free pad pid a x t w)"
  by (auto simp: vm_free_def vm_alloc_free_def Let_def split: prod.split option.split; blast intro: read_hdr write_hdr join_next join_prev)

end

definition own_memory :: "(int \<Rightarrow> vm_ptr option) \<Rightarrow> int \<Rightarrow> vm_ptr \<Rightarrow> mem \<Rightarrow> bool" where
  "own_memory V q a w \<longleftrightarrow> mem_inv w \<and> vm_of w = V \<and> V q = Some a \<and> tlb_coherent w a"

interpretation own: byte_access q a t "own_memory V q a" for q a t V
  by unfold_locales (auto simp: own_memory_def dest: vm_read_mem_effect(1-3) [rotated 4] vm_write_mem_effect(1-3) [rotated 4])


section \<open>Steps that leave memory alone\<close>

definition vms_of :: "process_table \<Rightarrow> int \<Rightarrow> vm_ptr option" where
  "vms_of t q = (case proc_get q t of Some p \<Rightarrow> p_vm p | None \<Rightarrow> None)"

lemma vm_of_vms: "vm_of w = vms_of (w_pt w)"
  by (simp add: vm_of_def vms_of_def fun_eq_iff)

lemma vms_upd: "keeps_id f \<Longrightarrow> (\<And>p. p_vm (f p) = p_vm p) \<Longrightarrow> vms_of (proc_upd q f t) = vms_of t"
  by (auto simp: vms_of_def fun_eq_iff proc_get_upd split: option.split)

lemma vms_for_each: "keeps_id f \<Longrightarrow> (\<And>p. p_vm (f p) = p_vm p) \<Longrightarrow> vms_of (proc_for_each f t) = vms_of t"
  by (auto simp: vms_of_def fun_eq_iff proc_get_for_each split: option.split)

lemma vms_entry:
  assumes "keeps_id f" "\<And>p. p_vm (f p) = p_vm p"
  shows "vms_of (t\<lparr>entries := (entries t)(i := f (entries t i))\<rparr>) = vms_of t" (is "vms_of ?t = _")
proof -
  have "find_slot_by_pid q ?t = find_slot_by_pid q t" for q using assms(1) by (intro find_slot_cong) (auto simp: keeps_id_def)
  then show ?thesis using assms(2) by (auto simp: vms_of_def proc_get_def fun_eq_iff split: option.split)
qed

lemma vms_simps [simp]:
  "vms_of (snd (proc_set_state q s now t)) = vms_of t" "vms_of (snd (proc_mark_exited e q code now t)) = vms_of t"
  "vms_of (sched_age_ready sch now t) = vms_of t" "vms_of (sched_priority_boost sch t) = vms_of t"
  "vms_of (sched_demote_after_quantum sch q t) = vms_of t" "vms_of (proc_for_each account_ready_wait t) = vms_of t"
proof -
  show "vms_of (snd (proc_set_state q s now t)) = vms_of t"
    by (auto simp: proc_set_state_def vms_upd keeps_id_def enter_state_def Let_def split: option.split)
  show "vms_of (snd (proc_mark_exited e q code now t)) = vms_of t"
    by (auto simp: vms_of_def fun_eq_iff proc_mark_exited_get split: option.split)
  show "vms_of (sched_age_ready sch now t) = vms_of t" "vms_of (sched_priority_boost sch t) = vms_of t"
    "vms_of (sched_demote_after_quantum sch q t) = vms_of t" "vms_of (proc_for_each account_ready_wait t) = vms_of t"
    by (auto simp: sched_age_ready_def sched_priority_boost_def sched_demote_after_quantum_def age_one_def boost_one_def account_ready_wait_def
        keeps_id_def intro!: vms_for_each vms_upd)
qed

definition keeps_mem :: "sys \<Rightarrow> sys \<Rightarrow> bool" where
  "keeps_mem S S' \<longleftrightarrow> w_frame (sy_mem S') = w_frame (sy_mem S) \<and> w_swap (sy_mem S') = w_swap (sy_mem S) \<and> w_tlb (sy_mem S') = w_tlb (sy_mem S) \<and>
     w_pager (sy_mem S') = w_pager (sy_mem S) \<and> w_vms (sy_mem S') = w_vms (sy_mem S) \<and> vms_of (ptable S') = vms_of (ptable S) \<and>
     (rt_current_pid S' = rt_current_pid S \<or> rt_current_pid S' = -1)"

lemma keeps_mem_eq: "keeps_mem S S' \<Longrightarrow> sy_mem S' = (sy_mem S)\<lparr>w_pt := ptable S'\<rparr>"
  by (auto simp: keeps_mem_def intro!: mem.equality)

lemma keeps_mem_refl [mem_keeps]: "keeps_mem S S"
  by (simp add: keeps_mem_def)

lemma keeps_mem_trans: "keeps_mem S T \<Longrightarrow> keeps_mem T U \<Longrightarrow> keeps_mem S U"
  by (auto simp: keeps_mem_def)

lemma keeps_mem_table [mem_keeps]: "keeps_mem S T \<Longrightarrow> vms_of t = vms_of (ptable T) \<Longrightarrow> keeps_mem S (set_ptable t T)"
  by (simp add: keeps_mem_def set_ptable_def)

lemma keeps_mem_cong: "keeps_mem S T \<Longrightarrow> sy_mem U = sy_mem T \<Longrightarrow> rt_current_pid U = rt_current_pid T \<Longrightarrow> keeps_mem S U"
  by (simp add: keeps_mem_def)

lemma keeps_mem_fields [mem_keeps]:
  assumes "keeps_mem S T"
  shows "keeps_mem S (trace q e d T)" "keeps_mem S (print txt T)" "keeps_mem S (set_slot i f T)" "keeps_mem S (complete_immediate i T)"
    "keeps_mem S (T\<lparr>sy_ipc := g\<rparr>)" "keeps_mem S (T\<lparr>sy_sync := y\<rparr>)" "keeps_mem S (T\<lparr>sy_timer := tm\<rparr>)" "keeps_mem S (T\<lparr>rt_scheduler := sch\<rparr>)"
    "keeps_mem S (T\<lparr>rt_need_resched := b\<rparr>)" "keeps_mem S (T\<lparr>rt_completed := k\<rparr>)" "keeps_mem S (T\<lparr>rt_busy_ticks := m\<rparr>)"
    "keeps_mem S (T\<lparr>sy_slot_by_pid := ix\<rparr>)" "keeps_mem S (T\<lparr>rt_idle_ticks := m\<rparr>)" "keeps_mem S (T\<lparr>rt_tick := m\<rparr>)" "keeps_mem S (T\<lparr>rt_started := b\<rparr>)" "keeps_mem S (T\<lparr>rt_trace := l\<rparr>)"
  by (rule keeps_mem_cong [OF assms]; simp add: trace_def print_def set_slot_def complete_immediate_def split_beta)+

lemma keeps_mem_stop [mem_keeps]: "keeps_mem S T \<Longrightarrow> keeps_mem S (T\<lparr>rt_current_pid := -1\<rparr>)"
  by (simp add: keeps_mem_def)

lemma keeps_mem_if [mem_keeps]: "(b \<Longrightarrow> keeps_mem S T) \<Longrightarrow> (\<not> b \<Longrightarrow> keeps_mem S U) \<Longrightarrow> keeps_mem S (if b then T else U)"
  by simp

lemma keeps_mem_enqueue [mem_keeps]: "keeps_mem S T \<Longrightarrow> keeps_mem S (enqueue_ready q T)"
  unfolding enqueue_ready_def Let_def split_beta by (intro mem_keeps) simp_all

lemma keeps_mem_wake [mem_keeps]: "keeps_mem S T \<Longrightarrow> keeps_mem S (wake_pid q why T)"
  by (auto simp: wake_pid_def intro!: mem_keeps split: option.split)

lemma keeps_mem_wake_time [mem_keeps]: "keeps_mem S T \<Longrightarrow> keeps_mem S (wake_blocked_by_time i T)"
  unfolding wake_blocked_by_time_def Let_def
  using vms_entry [of "\<lambda>p. p\<lparr>p_wakeup_tick := 0\<rparr>" "ptable T" i] by (auto simp: keeps_id_def intro!: mem_keeps)

lemma keeps_mem_rebuild [mem_keeps]: "keeps_mem S T \<Longrightarrow> keeps_mem S (rebuild_ready_queues T)"
  unfolding rebuild_eq by (intro mem_keeps)

lemma keeps_mem_boost [mem_keeps]: "keeps_mem S T \<Longrightarrow> keeps_mem S (boost_queues T)"
  unfolding boost_queues_def Let_def by (rule keeps_mem_if) (intro mem_keeps vms_simps, assumption+)

lemma keeps_mem_refresh [mem_keeps]: "keeps_mem S T \<Longrightarrow> keeps_mem S (refresh_queues T)"
proof -
  assume T: "keeps_mem S T"
  let ?T1 = "proc_fold ptable wake_blocked_by_time T"
  let ?T2 = "set_ptable (sched_age_ready (rt_scheduler ?T1) (rt_tick ?T1) (ptable ?T1)) ?T1"
  have "keeps_mem S ?T1" by (rule proc_fold_inv [where P = "keeps_mem S"]) (erule keeps_mem_wake_time, rule T)
  then have "keeps_mem S ?T2" by (rule keeps_mem_table) (rule vms_simps)
  then show ?thesis unfolding refresh_queues_def Let_def by (intro keeps_mem_boost keeps_mem_if keeps_mem_rebuild)
qed

lemma keeps_mem_leave [mem_keeps]:
  assumes "keeps_mem S T"
  shows "keeps_mem S (exit_current e c T)" "keeps_mem S (block_current why T)" "keeps_mem S (maybe_preempt T)"
  unfolding exit_current_def block_current_def maybe_preempt_def Let_def split_beta by (intro mem_keeps vms_simps assms)+

lemma keeps_mem_snd [mem_keeps]:
  "keeps_mem S T \<Longrightarrow> keeps_mem S (snd (r, T))"
  "(b \<Longrightarrow> keeps_mem S (snd x)) \<Longrightarrow> (\<not> b \<Longrightarrow> keeps_mem S (snd y)) \<Longrightarrow> keeps_mem S (snd (if b then x else y))"
  by simp_all

lemma keeps_mem_upd:
  assumes "keeps_mem S T" "vms_of t = vms_of (ptable T)"
  shows "keeps_mem S (set_ptable (proc_upd q (\<lambda>p. p\<lparr>p_wakeup_tick := m\<rparr>) t) T)"
    "keeps_mem S (set_ptable (proc_upd q (\<lambda>p. p\<lparr>p_cpu_time := p_cpu_time p + 1\<rparr>) t) T)"
    "keeps_mem S (set_ptable (proc_upd q (\<lambda>p. p\<lparr>p_vm_last_alloc := x\<rparr>) t) T)"
  by (rule keeps_mem_table [OF assms(1)], subst vms_upd, simp_all add: keeps_id_def assms(2))+

lemma keeps_mem_exec:
  "keeps_mem S (snd (exec_io e q i insn S))" "keeps_mem S (snd (exec_send e q i insn S))" "keeps_mem S (snd (exec_recv e q i insn S))"
  "keeps_mem S (snd (exec_sem_wait e q i insn S))" "keeps_mem S (snd (exec_sem_post e q i insn S))" "keeps_mem S (snd (exec_lock e q i insn S))"
  "keeps_mem S (snd (exec_unlock e q i insn S))"
  unfolding exec_io_def exec_send_def exec_recv_def exec_sem_wait_def exec_sem_post_def exec_lock_def exec_unlock_def Let_def split_beta
  by (intro mem_keeps keeps_mem_upd refl)+

lemma keeps_mem_cpu: "keeps_mem S (snd (exec_cpu e q i insn S))"
  unfolding exec_cpu_def Let_def by (intro mem_keeps keeps_mem_upd vms_simps)


section \<open>The memory invariant of the runtime\<close>

definition mem_ok :: "sys \<Rightarrow> bool" where
  "mem_ok S \<longleftrightarrow> mem_inv (sy_mem S) \<and> (\<forall>a. vm_of (sy_mem S) (rt_current_pid S) = Some a \<longrightarrow> tlb_coherent (sy_mem S) a)"

lemma vm_of_none [simp]: "vm_of w (-1) = None"
  by (simp add: vm_of_def proc_get_def find_slot_by_pid_def)

text \<open>A table with the same address spaces is as good.\<close>

lemma mem_inv_table:
  assumes "vms_of t = vm_of w"
  shows "mem_inv (w\<lparr>w_pt := t\<rparr>) = mem_inv w" "tlb_coherent (w\<lparr>w_pt := t\<rparr>) a = tlb_coherent w a" "vm_of (w\<lparr>w_pt := t\<rparr>) = vm_of w"
proof -
  show v: "vm_of (w\<lparr>w_pt := t\<rparr>) = vm_of w" using assms by (simp add: vm_of_vms)
  have "ppte (w\<lparr>w_pt := t\<rparr>) = ppte w" using v by (simp add: ppte_def fun_eq_iff split: option.split)
  moreover have "vm_wf (w\<lparr>w_pt := t\<rparr>) = vm_wf w" using v by (intro vm_wf_cong) simp_all
  ultimately show "mem_inv (w\<lparr>w_pt := t\<rparr>) = mem_inv w" by (simp add: mem_inv_def)
  have "pte_at (w\<lparr>w_pt := t\<rparr>) = pte_at w" by (simp add: pte_at_def fun_eq_iff)
  then have "translates (w\<lparr>w_pt := t\<rparr>) a = translates w a" by (simp add: translates_def fun_eq_iff)
  then show "tlb_coherent (w\<lparr>w_pt := t\<rparr>) a = tlb_coherent w a" by (simp add: tlb_coherent_def)
qed

lemma mem_inv_tlb [simp]: "mem_inv (w\<lparr>w_tlb := z\<rparr>) = mem_inv w"
  by (simp add: mem_inv_def)

lemma mem_ok_keeps:
  assumes "mem_ok S" "keeps_mem S S'"
  shows "mem_ok S'"
proof -
  have k: "sy_mem S' = (sy_mem S)\<lparr>w_pt := ptable S'\<rparr>" "vms_of (ptable S') = vm_of (sy_mem S)"
    "rt_current_pid S' = rt_current_pid S \<or> rt_current_pid S' = -1"
    using assms(2) keeps_mem_eq by (auto simp: keeps_mem_def vm_of_vms)
  note T = mem_inv_table [OF k(2)]
  show ?thesis unfolding mem_ok_def using assms(1) k(1,3) T by (metis mem_ok_def option.distinct(1) vm_of_none)
qed

lemma mem_ok_dispatch:
  assumes "mem_ok S"
  shows "mem_ok (snd (dispatch S))"
proof (cases "0 \<le> rt_current_pid S")
  case True
  then show ?thesis using assms by (simp add: dispatch_def)
next
  case False
  obtain q sch where p: "sched_pick_next (ptable S) (rt_scheduler S) = (q, sch)" by fastforce
  obtain ok t where s: "proc_set_state q PROC_RUNNING (rt_tick S) (ptable S) = (ok, t)" by fastforce
  have v: "vms_of t = vms_of (ptable S)" using vms_simps(1) [of q PROC_RUNNING "rt_tick S" "ptable S"] s by simp
  have k: "keeps_mem S (S\<lparr>rt_scheduler := sch\<rparr>)" "keeps_mem S (set_ptable t (S\<lparr>rt_scheduler := sch\<rparr>))"
    using v by (auto intro!: mem_keeps)
  define T where "T = trace q ''DISPATCH'' (runtime_scheduler_name (set_ptable t (S\<lparr>rt_scheduler := sch\<rparr>)))
    ((set_ptable t (S\<lparr>rt_scheduler := sch\<rparr>))\<lparr>rt_current_pid := q\<rparr>)"
  have T: "sy_mem T = (sy_mem S)\<lparr>w_pt := t\<rparr>" "rt_current_pid T = q" by (simp_all add: T_def trace_def print_def set_ptable_def split_beta)
  have inv: "mem_inv (sy_mem T)" using assms mem_inv_table(1) [of t "sy_mem S"] v by (simp add: T(1) mem_ok_def vm_of_vms)
  have flushed: "mem_ok (process_context_trampoline q (T\<lparr>sy_mem := (sy_mem T)\<lparr>w_tlb := tlb_flush (w_tlb (sy_mem T))\<rparr>\<rparr>))"
    (is "mem_ok (process_context_trampoline q ?F)")
  proof (rule mem_ok_keeps)
    show "mem_ok ?F" using inv by (simp add: mem_ok_def tlb_coherent_def tlb.coherent_flush)
    show "keeps_mem ?F (process_context_trampoline q ?F)" unfolding process_context_trampoline_def by (intro mem_keeps)
  qed
  have "mem_ok T" if "proc_get q (ptable T) = None" using inv that T(2) by (simp add: mem_ok_def vm_of_def)
  then show ?thesis using False p s flushed mem_ok_keeps [OF assms k(1)] mem_ok_keeps [OF assms k(2)]
    by (auto simp: dispatch_def Let_def T_def [symmetric])
qed

text \<open>Memory instructions of the current process.\<close>

lemma mem_ok_own:
  assumes "mem_ok S" "proc_get (rt_current_pid S) (ptable S) = Some p" "p_vm p = Some a"
  shows "own_memory (vm_of (sy_mem S)) (rt_current_pid S) a (sy_mem S)"
proof -
  have "vm_of (sy_mem S) (rt_current_pid S) = Some a" using assms(2,3) by (simp add: vm_of_def)
  then show ?thesis using assms(1) by (simp add: mem_ok_def own_memory_def)
qed

lemma own_mem_ok: "own_memory V (rt_current_pid S) a w \<Longrightarrow> mem_ok (S\<lparr>sy_mem := w\<rparr>)"
  by (auto simp: mem_ok_def own_memory_def)

lemma mem_ok_access:
  assumes "mem_ok S"
  shows "mem_ok (snd (exec_access e (rt_current_pid S) i insn S))"
proof -
  let ?q = "rt_current_pid S"
  have x: "mem_ok (exit_current e c S)" for c by (rule mem_ok_keeps [OF assms]) (intro mem_keeps)
  show ?thesis
  proof (cases "proc_get ?q (ptable S)")
    case None
    then show ?thesis using x by (simp add: exec_access_def)
  next
    case (Some p)
    show ?thesis
    proof (cases "p_vm p")
      case None
      then show ?thesis using x Some by (simp add: exec_access_def)
    next
      case vm: (Some a)
      note O = mem_ok_own [OF assms Some vm]
      define addr where "addr = (if wi_arg0 insn < 0 then of_int (int (unat (p_vm_last_alloc p)) - wi_arg0 insn) else of_int (wi_arg0 insn) :: u16)"
      define r where "r = (if wi_arg1 insn \<noteq> 0 then vm_write_mem ?q a addr (\<lambda>_. 0xAA) 1 (rt_tick S) (sy_mem S)
        else (fst (vm_read_mem ?q a addr 1 (rt_tick S) (sy_mem S)), snd (snd (vm_read_mem ?q a addr 1 (rt_tick S) (sy_mem S)))))"
      have "own_memory (vm_of (sy_mem S)) ?q a (snd r)"
        unfolding r_def using own.read_mem [OF O, of 1 addr "rt_tick S"] own.write_mem [OF O, of 1 addr "\<lambda>_. 0xAA" "rt_tick S"]
        by (simp add: prod_eq_iff)
      then have w: "mem_ok (S\<lparr>sy_mem := snd r\<rparr>)" by (rule own_mem_ok)
      have k: "keeps_mem (S\<lparr>sy_mem := snd r\<rparr>) (snd (exec_access e ?q i insn S))"
        unfolding exec_access_def Some vm option.case Let_def split_beta addr_def [symmetric] r_def [symmetric]
        by (intro mem_keeps keeps_mem_upd refl)
      show ?thesis by (rule mem_ok_keeps [OF w k])
    qed
  qed
qed

lemma mem_ok_mfree:
  assumes "mem_ok S"
  shows "mem_ok (snd (exec_mfree h (rt_current_pid S) i S))"
proof -
  let ?q = "rt_current_pid S"
  have x: "mem_ok (exit_current e c S)" for e c by (rule mem_ok_keeps [OF assms]) (intro mem_keeps)
  have "mem_ok (snd (exec_mfree h ?q i S))" if p: "proc_get ?q (ptable S) = Some p" "p_vm p = Some a" for p a
  proof -
    let ?w = "vm_free (h_pad h) ?q a (p_vm_last_alloc p) (rt_tick S) (sy_mem S)"
    have w: "mem_ok (S\<lparr>sy_mem := ?w\<rparr>)" by (rule own_mem_ok [OF own.vm_free [OF mem_ok_own [OF assms p]]])
    show ?thesis by (rule mem_ok_keeps [OF w]) (simp only: exec_mfree_def Let_def p option.case, intro mem_keeps keeps_mem_upd refl)
  qed
  then show ?thesis using x by (auto simp: exec_mfree_def split: option.split)
qed

lemma mem_ok_execute:
  assumes "mem_ok S" "no_mmap S" "execute_instruction h S = Some (b, S')"
  shows "mem_ok S'"
proof (cases "slot_index (rt_current_pid S) S")
  case None
  then have "S' = exit_current (h_os h) 1 S" using assms(3) by (simp add: execute_instruction_def)
  then show ?thesis using mem_ok_keeps [OF assms(1)] by (auto intro!: mem_keeps)
next
  case (Some i)
  let ?insn = "wl_insns (sl_workload (rt_slots S i)) (sl_pc (rt_slots S i))"
  have nm: "sl_pc (rt_slots S i) < wl_count (sl_workload (rt_slots S i)) \<Longrightarrow> wi_op ?insn \<noteq> WORKLOAD_MMAP"
    using assms(2) slot_indexD(1,2) [OF Some] by (simp add: no_mmap_def)
  have S': "S' = snd (the (execute_instruction h S))" using assms(3) by simp
  have k: "keeps_mem S T \<Longrightarrow> mem_ok T" for T by (rule mem_ok_keeps [OF assms(1)])
  note K = keeps_mem_exec [THEN k] keeps_mem_cpu [THEN k] keeps_mem_leave(1) [OF keeps_mem_refl, THEN k] mem_ok_access [OF assms(1)] mem_ok_mfree [OF assms(1)]
  show ?thesis
  proof (cases "sl_pc (rt_slots S i) < wl_count (sl_workload (rt_slots S i))")
    case True
    then show ?thesis using nm Some unfolding S'
      by (cases "wi_op ?insn"; simp add: execute_instruction_def Let_def K)
  next
    case False
    then show ?thesis using Some unfolding S' by (simp add: execute_instruction_def Let_def K)
  qed
qed

lemma mem_ok_round:
  assumes "mem_ok S" "no_mmap S" "step_round h S = Some (b, S')"
  shows "mem_ok S'"
proof -
  obtain ok S1 where d: "dispatch (refresh_queues S) = (ok, S1)" by fastforce
  have "mem_ok (refresh_queues S)" by (rule mem_ok_keeps [OF assms(1)]) (intro mem_keeps)
  then have m: "mem_ok S1" using mem_ok_dispatch [of "refresh_queues S"] d by simp
  have "same_programs S S1" using d dispatch_slots [of "refresh_queues S"] by (intro same_programs_slots) simp
  then have n: "no_mmap S1" by (rule no_mmap_programs [OF assms(2)])
  have "keeps_mem S1 (idle_tick S1)" unfolding idle_tick_def by (intro mem_keeps) simp
  then show ?thesis using assms(3) d m mem_ok_execute [OF m n] mem_ok_keeps [OF m] by (auto simp: step_round_def split: if_splits)
qed


section \<open>Starting programs and the other calls\<close>

lemma init_none: "proc_get q (ptable (runtime_init h S)) = None"
  by (auto simp: proc_get_def find_slot_by_pid_def init_table proc_table_clear_def zero_pcb_def split: option.split)

lemma mem_ok_init: "mem_ok (runtime_init h S)"
proof -
  let ?w = "sy_mem (runtime_init h S)"
  have "vm_of ?w = (\<lambda>_. None)" by (simp add: vm_of_def init_none fun_eq_iff)
  moreover have "ppte ?w = (\<lambda>_ _. None)" using calculation by (simp add: ppte_def fun_eq_iff)
  moreover have "frame_owner ?w = (\<lambda>_. None)"
    by (simp add: runtime_init_def vm_init_def frame_owner_def frame_get_owner_def frame_init_def zero_meta_def fun_eq_iff)
  moreover have "frame_inv (w_frame ?w)" "swap_inv (w_swap ?w)" by (simp_all add: runtime_init_def vm_init_def frame_inv_init swap_inv_init)
  moreover have "pager_ok (w_pager ?w)"
    by (auto simp: runtime_init_def vm_init_def pager_init_def pager_ok_def dest: policy_init_inv)
  ultimately show ?thesis by (simp add: mem_ok_def mem_inv_def vm_wf_def pages_ok_def)
qed

lemma mem_ok_attach:
  assumes "mem_ok S" "vm_of (sy_mem S) q = None" "w_vms (sy_mem S) b = None" "rt_current_pid S \<noteq> q"
    and w': "vm_of w' = (vm_of (sy_mem S))(q \<mapsto> b)" "w_vms w' = (w_vms (sy_mem S))(b \<mapsto> new_vm q)" "w_frame w' = w_frame (sy_mem S)"
      "w_swap w' = w_swap (sy_mem S)" "w_tlb w' = w_tlb (sy_mem S)" "w_pager w' = w_pager (sy_mem S)"
  shows "mem_ok (S\<lparr>sy_mem := w'\<rparr>)"
proof -
  let ?w = "sy_mem S"
  have i: "vm_wf ?w" "frame_inv (w_frame ?w)" "swap_inv (w_swap ?w)" "pager_ok (w_pager ?w)" "pages_ok (ppte ?w) (frame_owner ?w) (swap_owner ?w)"
    using assms(1) by (auto simp: mem_ok_def mem_inv_def)
  have other: "vm_of ?w p = Some a \<Longrightarrow> a \<noteq> b" for p a by (erule vm_wf_live [OF i(1)]) (use assms(3) in auto)
  have P: "ppte w' p v = (if p = q then Some (vs_pt (new_vm q) v) else ppte ?w p v)" for p v
    using other by (auto simp: ppte_def w' split: option.split)
  have G: "frame_owner w' = frame_owner ?w" "swap_owner w' = swap_owner ?w" by (simp_all add: frame_owner_def swap_owner_def fun_eq_iff w')
  have n: "ppte ?w q v = None" for v using assms(2) by (simp add: ppte_def)
  have "pages_ok (ppte w') (frame_owner w') (swap_owner w')"
  proof (rule pages_okI)
    have z: "\<not> present (vs_pt (new_vm q) v)" "\<not> in_swap (vs_pt (new_vm q) v)" for v by (simp_all add: new_vm_def page_table_init_def zero_pte_def)
    show "\<not> in_swap e \<and> frame_owner w' (frame_num e) = Some (p, v)" if "ppte w' p v = Some e" "present e" for p v e
      using that z pages_ok_present [OF i(5)] by (auto simp: P G split: if_splits)
    show "swap_owner w' (unat (swap_slot e)) = Some (p, v)" if "ppte w' p v = Some e" "in_swap e" for p v e
      using that z pages_ok_swapped [OF i(5)] by (auto simp: P G split: if_splits)
    show "\<exists>e. ppte w' p v = Some e \<and> present e \<and> frame_num e = f" if "frame_owner w' f = Some (p, v)" for f p v
      using pages_ok_owner [OF i(5), of f p v] that n [of v] by (auto simp: P G)
  qed
  moreover have "vm_wf w'" using i(1) other by (auto simp: vm_wf_def w' split: if_splits)
  ultimately have inv: "mem_inv w'" using i by (simp add: mem_inv_def w')
  have "tlb_coherent w' a" if c: "vm_of w' (rt_current_pid S) = Some a" for a
  proof -
    have a: "vm_of ?w (rt_current_pid S) = Some a" using c assms(4) by (simp add: w')
    then have "pte_at w' a = pte_at ?w a" using other [OF a] by (simp add: pte_at_def fun_eq_iff w')
    then have "translates w' a = translates ?w a" by (simp add: translates_def fun_eq_iff)
    then show ?thesis using assms(1) a by (simp add: mem_ok_def tlb_coherent_def w')
  qed
  then show ?thesis using inv by (simp add: mem_ok_def)
qed

lemma mem_ok_destroy:
  assumes "mem_ok S" "ptable_inv (ptable S)" "rt_current_pid S \<noteq> q"
  shows "mem_ok (S\<lparr>sy_mem := proc_destroy e q code (sy_mem S)\<rparr>)"
proof (cases "find_slot_by_pid q (ptable S)")
  case None
  then show ?thesis using assms(1) by (simp add: proc_destroy_def)
next
  case (Some i)
  let ?w = "sy_mem S" and ?d = "proc_destroy e q code (sy_mem S)"
  obtain t' where t': "dropped (ptable S) q i t'" "?d = (case vm_of ?w q of None \<Rightarrow> ?w | Some a \<Rightarrow> vm_proc_destroy a ?w)\<lparr>w_pt := t'\<rparr>"
    by (rule proc_destroy_table [OF Some, of e code])
  have t: "vms_of t' p = (if p = q then None else vm_of ?w p)" for p
    by (simp add: vms_of_def vm_of_def dropped_get(2) [OF assms(2) Some t'(1)])
  show ?thesis
  proof (cases "vm_of ?w q")
    case None
    then have "vms_of t' = vm_of ?w" using t by auto
    note T = mem_inv_table [OF this]
    have "?d = ?w\<lparr>w_pt := t'\<rparr>" using None t'(2) by simp
    then show ?thesis using assms(1) T by (simp add: mem_ok_def)
  next
    case vm: (Some a)
    have inv: "mem_inv ?w" using assms(1) by (simp add: mem_ok_def)
    have d: "?d = (vm_proc_destroy a ?w)\<lparr>w_pt := t'\<rparr>" using t'(2) vm by simp
    have v: "vm_of ?d p = (if p = q then None else vm_of ?w p)" for p using t [of p] by (simp add: vm_of_vms d)
    note E = vm_proc_destroy_effect [OF inv vm d v]
    obtain vm where "w_vms ?w a = Some vm" by (rule vm_wf_live [OF _ vm]) (use inv in \<open>auto simp: mem_inv_def\<close>)
    then have vms: "w_vms ?d = (w_vms ?w)(a := None)" by (simp add: d vm_proc_destroy_eq)
    have "tlb_coherent ?d b" if c: "vm_of ?d (rt_current_pid S) = Some b" for b
    proof -
      have b: "vm_of ?w (rt_current_pid S) = Some b" using c assms(3) by (simp add: v)
      then have "b \<noteq> a" using inv vm assms(3) unfolding mem_inv_def vm_wf_def by metis
      then have "pte_at ?d b = pte_at ?w b" by (simp add: pte_at_def fun_eq_iff vms)
      then have "translates ?d b = translates ?w b" by (simp add: translates_def fun_eq_iff)
      then show ?thesis using assms(1) b E(5) by (simp add: mem_ok_def tlb_coherent_def)
    qed
    then show ?thesis using E(1) by (simp add: mem_ok_def)
  qed
qed

lemma new_proc_current: "new_proc q S \<Longrightarrow> rt_current_pid S \<noteq> q \<and> ptable_inv (ptable S)"
  using one_running_current [of "ptable S" "rt_current_pid S"] by (auto simp: new_proc_def pstate_def split: option.splits)

lemma create_vms:
  assumes "ptable_inv t" "proc_create e ppid prio now ssize t = (q, t')"
  shows "vms_of t' = vms_of t" "0 \<le> q \<Longrightarrow> vms_of t q = None"
proof -
  have "vms_of t' = vms_of t \<and> (0 \<le> q \<longrightarrow> vms_of t q = None)"
    using assms(2)
  proof (cases rule: proc_create_cases)
    case (fail maps)
    have "proc_get p t' = proc_get p t" for p using fail(2) find_slot_cong [of t' t p] by (simp add: proc_get_def)
    then show ?thesis using fail(1) by (simp add: vms_of_def fun_eq_iff)
  next
    case (made i st sz ms maps)
    let ?p = "new_pcb (next_pid t) ppid (clamp_prio prio) now st sz ms"
    note F = find_free_slotD [OF made(1)]
    have g: "proc_get x t' = (if x = q then (if x \<le> 1024 then Some ?p else None) else proc_get x t)" for x
      using proc_get_table_with [OF assms(1), of i ?p x maps] F made clamp_prio_range(1,2) [of prio] by (simp add: prio_ok_def)
    have "pstate t q = None" using pstate_next [of t q] made(2) by (cases "pstate t q") auto
    then have "proc_get q t = None" by (simp add: pstate_def)
    moreover have "p_vm ?p = None" by (simp add: new_pcb_def zero_pcb_def)
    ultimately show ?thesis using g by (auto simp: vms_of_def fun_eq_iff)
  qed
  then show "vms_of t' = vms_of t" "0 \<le> q \<Longrightarrow> vms_of t q = None" by blast+
qed


lemma mem_ok_install:
  assumes "mem_ok S" "new_proc q S"
  shows "mem_ok (snd (install_workload h q wl S))"
proof (cases "alloc_slot q S")
  case (Pair r S1)
  have S1: "sy_mem S1 = sy_mem S" "rt_current_pid S1 = rt_current_pid S" using Pair by (auto simp: alloc_slot_def set_slot_def Let_def split: option.splits)
  show ?thesis
  proof (cases r)
    case None
    then have "S1 = S" using alloc_slot_table [OF Pair] by simp
    then show ?thesis using Pair None mem_ok_destroy [OF assms(1)] new_proc_current [OF assms(2)] by (simp add: install_workload_def)
  next
    case (Some i)
    have "keeps_mem S S1" by (rule keeps_mem_cong [OF keeps_mem_refl]) (simp_all add: S1)
    then show ?thesis using Pair Some
      by (intro mem_ok_keeps [OF assms(1)]) (simp add: install_workload_def keeps_mem_fields keeps_mem_enqueue)
  qed
qed

text \<open>\<^verbatim>\<open>malloc\<close> does not return memory that is in use.\<close>

definition fresh_malloc :: "host \<Rightarrow> sys \<Rightarrow> bool" where
  "fresh_malloc h S \<longleftrightarrow> (\<forall>b. h_vm_alloc h = Some b \<longrightarrow> w_vms (sy_mem S) b = None)"

lemma mem_ok_new_vm:
  assumes "mem_ok S" "new_proc q S" "vms_of (ptable S) q = None" "proc_get q (ptable S) \<noteq> None" "w_vms (sy_mem S) b = None"
  defines "w \<equiv> (sy_mem S)\<lparr>w_vms := (w_vms (sy_mem S))(b \<mapsto> new_vm q)\<rparr>"
  shows "mem_ok (S\<lparr>sy_mem := w\<lparr>w_pt := proc_upd q (\<lambda>p. p\<lparr>p_vm := Some b\<rparr>) (w_pt w)\<rparr>\<rparr>)"
    "new_proc q (S\<lparr>sy_mem := w\<lparr>w_pt := proc_upd q (\<lambda>p. p\<lparr>p_vm := Some b\<rparr>) (w_pt w)\<rparr>\<rparr>)"
proof -
  have vm: "vm_of (w\<lparr>w_pt := proc_upd q (\<lambda>p. p\<lparr>p_vm := Some b\<rparr>) (w_pt w)\<rparr>) = (vm_of (sy_mem S))(q \<mapsto> b)"
    using assms(4) by (auto simp: w_def vm_of_def fun_eq_iff proc_get_upd keeps_id_def split: option.split)
  show "mem_ok (S\<lparr>sy_mem := w\<lparr>w_pt := proc_upd q (\<lambda>p. p\<lparr>p_vm := Some b\<rparr>) (w_pt w)\<rparr>\<rparr>)"
    by (rule mem_ok_attach [OF assms(1) _ assms(5) _ vm]) (use assms(3) new_proc_current [OF assms(2)] in \<open>simp_all add: w_def vm_of_vms\<close>)
  show "new_proc q (S\<lparr>sy_mem := w\<lparr>w_pt := proc_upd q (\<lambda>p. p\<lparr>p_vm := Some b\<rparr>) (w_pt w)\<rparr>\<rparr>)"
    by (rule new_proc_vm [OF assms(2)]) (simp add: w_def)
qed

lemma mem_ok_no_vm:
  assumes "mem_ok S" "new_proc q S" "vms_of (ptable S) q = None"
  defines "S' \<equiv> S\<lparr>sy_mem := (sy_mem S)\<lparr>w_pt := proc_upd q (\<lambda>p. p\<lparr>p_vm := None\<rparr>) (ptable S)\<rparr>\<rparr>"
  shows "mem_ok (S'\<lparr>sy_mem := proc_destroy e q code (sy_mem S')\<rparr>)"
proof (rule mem_ok_destroy)
  have "vms_of (proc_upd q (\<lambda>p. p\<lparr>p_vm := None\<rparr>) (ptable S)) = vms_of (ptable S)"
    using assms(3) by (auto simp: vms_of_def fun_eq_iff proc_get_upd keeps_id_def split: option.split)
  then show "mem_ok S'" by (intro mem_ok_keeps [OF assms(1)]) (simp add: S'_def keeps_mem_def)
  show "ptable_inv (ptable S')" "rt_current_pid S' \<noteq> q"
    using new_proc_current [OF new_proc_vm [OF assms(2), of "sy_mem S" None]] by (simp_all add: S'_def)
qed

lemma mem_ok_run:
  assumes "mem_ok S" "rt_inv S" "fresh_malloc h S"
  shows "mem_ok (snd (runtime_run_workload h path prio S))"
proof (cases "load_candidates (h_files h) path")
  case None
  have "keeps_mem S (print s S)" for s by (intro mem_keeps)
  then show ?thesis using None mem_ok_keeps [OF assms(1)] by (simp add: runtime_run_workload_def)
next
  case (Some wl)
  obtain q t where c: "proc_create (h_os h) 0 prio (rt_tick S) 0 (ptable S) = (q, t)" by fastforce
  let ?S1 = "set_ptable t S"
  note V = create_vms [OF rt_invD(1) [OF assms(2)] c]
  note N = create_new_proc(2) [OF assms(2) c]
  have k: "keeps_mem S ?S1" by (intro mem_keeps) (rule V(1))
  have ok1: "mem_ok ?S1" by (rule mem_ok_keeps [OF assms(1) k])
  show ?thesis
  proof (cases "q < 0 \<or> proc_get q t = None")
    case True
    then show ?thesis using Some c ok1 mem_ok_install [OF ok1 N] by (auto simp: runtime_run_workload_def Let_def)
  next
    case False
    then have q: "0 \<le> q" and p: "proc_get q t \<noteq> None" by auto
    have n: "new_proc q ?S1" by (rule N [OF q])
    have none: "vms_of (ptable ?S1) q = None" using V q by simp
    show ?thesis
    proof (cases "h_vm_alloc h")
      case None
      then show ?thesis using Some c q p mem_ok_no_vm [OF ok1 n none] by (auto simp: runtime_run_workload_def vm_proc_init_def Let_def)
    next
      case b: (Some b)
      have "w_vms (sy_mem ?S1) b = None" using assms(3) b by (simp add: fresh_malloc_def set_ptable_def)
      note M = mem_ok_new_vm [OF ok1 n none _ this]
      then show ?thesis using Some c q p b mem_ok_install [OF M] by (auto simp: runtime_run_workload_def vm_proc_init_def Let_def)
    qed
  qed
qed


lemma pager_ok_policy:
  assumes "pager_ok s"
  shows "pager_ok (snd (pager_set_policy name ok f s))"
proof (cases "policy_of_name name")
  case None
  then show ?thesis using assms by (simp add: pager_set_policy_def)
next
  case (Some k)
  define good where "good st \<longleftrightarrow> (\<forall>ps. st = Some ps \<longrightarrow> policy_inv ps \<and> (\<forall>f \<in> set (policy_tracked ps). unat f < 64))" for st
  define step where "step pfn st = (if frame_get_owner (of_nat pfn) f \<noteq> None then map_option (policy_insert (of_nat pfn) 0) st else st)" for pfn st
  have one: "good (step n st)" if "n < 64" "good st" for n st
  proof -
    have "unat (of_nat n :: u8) < 64" using that(1) by (simp add: unat_of_nat)
    then show ?thesis using that(2) policy_insert_facts unfolding good_def step_def by (fastforce split: if_splits)
  qed
  have "good (fold step xs st)" if "set xs \<subseteq> {..<64}" "good st" for xs st
    using that by (induction xs arbitrary: st) (simp_all add: one)
  moreover have "good (policy_init k ok)" using policy_init_inv by (fastforce simp: good_def)
  ultimately have "good (fold step [0..<64] (policy_init k ok))" by (simp add: atLeast_upt [symmetric] atLeast0LessThan)
  then show ?thesis using Some by (simp add: pager_set_policy_def pager_ok_def good_def step_def [abs_def])
qed

lemma mem_ok_admin:
  assumes "admin_step S S'" "mem_ok S"
  shows "mem_ok S'"
  using assms(1)
proof cases
  case (kill h q)
  let ?S1 = "if rt_current_pid S = q then S\<lparr>rt_current_pid := -1\<rparr> else S"
  have "keeps_mem S (snd (runtime_kill h q S))" unfolding runtime_kill_def Let_def split_beta
    by (cases "slot_index q (set_ptable (snd (proc_mark_exited (h_os h) q 130 (rt_tick ?S1) (ptable ?S1))) ?S1)";
        simp only: option.case; intro mem_keeps vms_simps)
  then show ?thesis unfolding kill by (rule mem_ok_keeps [OF assms(2)])
next
  case (nice q v)
  have "keeps_mem S (snd (runtime_set_nice q v S))"
    by (auto simp: runtime_set_nice_def Let_def keeps_id_def intro!: keeps_mem_refl keeps_mem_table vms_upd split: option.split)
  then show ?thesis unfolding nice by (rule mem_ok_keeps [OF assms(2)])
next
  case (priority q v)
  have "keeps_mem S (snd (runtime_set_priority q v S))"
    by (auto simp: runtime_set_priority_def Let_def keeps_id_def intro!: keeps_mem_refl keeps_mem_table vms_upd split: option.split)
  then show ?thesis unfolding priority by (rule mem_ok_keeps [OF assms(2)])
next
  case (policy name ok)
  have "translates (w\<lparr>w_pager := g\<rparr>) = translates w" for w g by (simp add: translates_def pte_at_def fun_eq_iff)
  then show ?thesis using assms(2) pager_ok_policy [of "w_pager (sy_mem S)" name ok] unfolding policy
    by (simp add: mem_ok_def mem_inv_def tlb_coherent_def)
next
  case (reset h h')
  then show ?thesis using mem_ok_init by simp
qed (rule mem_ok_keeps [OF assms(2)];
     simp add: runtime_start_def runtime_stop_def runtime_yield_def runtime_set_scheduler_def runtime_set_quantum_def runtime_trace_def split_beta mem_keeps)+


section \<open>Systems without \<^verbatim>\<open>MMAP\<close>\<close>

definition mmap_free :: "workload_t \<Rightarrow> bool" where
  "mmap_free w \<longleftrightarrow> (\<forall>k < wl_count w. wi_op (wl_insns w k) \<noteq> WORKLOAD_MMAP)"

definition files_mmap_free :: "host \<Rightarrow> bool" where
  "files_mmap_free h \<longleftrightarrow> (\<forall>path w. workload_load (h_files h) path ERR_BUF_SIZE = Inr w \<longrightarrow> mmap_free w)"

lemma no_mmap_slots: "no_mmap S \<Longrightarrow> rt_slots S' = rt_slots S \<Longrightarrow> no_mmap S'"
  by (simp add: no_mmap_def)

lemma load_mmap_free: "files_mmap_free h \<Longrightarrow> load_candidates (h_files h) path = Some w \<Longrightarrow> mmap_free w"
  by (auto simp: load_candidates_def files_mmap_free_def Let_def split: sum.splits)

lemma no_mmap_run:
  assumes "files_mmap_free h" "no_mmap S"
  shows "no_mmap (snd (runtime_run_workload h path prio S))"
proof (cases "load_candidates (h_files h) path")
  case None
  then show ?thesis using assms(2) by (simp add: runtime_run_workload_def no_mmap_def print_def)
next
  case (Some w)
  have w: "mmap_free w" by (rule load_mmap_free [OF assms(1) Some])
  have i: "no_mmap (snd (install_workload h q w T))" if "no_mmap T" for q T
    using that w by (auto simp: install_workload_def alloc_slot_def no_mmap_def mmap_free_def Let_def split: option.split)
  show ?thesis using Some i assms(2)
    by (auto simp: runtime_run_workload_def Let_def split_beta no_mmap_slots [of S])
qed

lemma no_mmap_init: "no_mmap (runtime_init h S)"
  by (simp add: no_mmap_def runtime_init_def zero_slot_def)

lemma no_mmap_admin:
  assumes "admin_step S S'" "no_mmap S"
  shows "no_mmap S'"
  using assms(1)
proof cases
  case (kill h q)
  then show ?thesis using assms(2) by (auto simp: runtime_kill_def no_mmap_def Let_def split_beta zero_slot_def split: option.split)
next
  case (reset h h')
  then show ?thesis using no_mmap_init by simp
qed (rule no_mmap_slots [OF assms(2)];
     simp add: runtime_set_scheduler_def runtime_set_quantum_def runtime_trace_def runtime_start_def runtime_stop_def runtime_yield_def
       runtime_set_nice_def runtime_set_priority_def print_def Let_def split_beta split: option.split)+

text \<open>The transitions of a system whose programs have no \<^verbatim>\<open>MMAP\<close> and whose \<^verbatim>\<open>malloc\<close> behaves.\<close>

inductive plain_step :: "sys \<Rightarrow> sys \<Rightarrow> bool" where
  run: "files_mmap_free h \<Longrightarrow> fresh_malloc h S \<Longrightarrow> plain_step S (snd (runtime_run_workload h path prio S))"
| round: "step_round h S = Some (b, S') \<Longrightarrow> plain_step S S'"
| admin: "admin_step S S' \<Longrightarrow> plain_step S S'"

definition plain_inv :: "sys \<Rightarrow> bool" where
  "plain_inv S \<longleftrightarrow> rt_inv S \<and> no_mmap S \<and> mem_ok S"

interpretation plain_life: transition_invariant plain_step plain_inv
proof
  fix S S'
  assume "plain_step S S'" "plain_inv S"
  then show "plain_inv S'"
  proof (induction rule: plain_step.induct)
    case (run h S path prio)
    then show ?case using mem_ok_run no_mmap_run sys_step_inv [OF sys_step.run] by (simp add: plain_inv_def)
  next
    case (round h S b S')
    then show ?case
      using mem_ok_round no_mmap_programs [OF _ round_programs] sys_step_inv [OF sys_step.round] by (metis plain_inv_def)
  next
    case (admin S S')
    then show ?case using mem_ok_admin no_mmap_admin admin_step_inv by (simp add: plain_inv_def)
  qed
qed

lemma plain_inv_init: "plain_inv (runtime_init h S)"
  by (simp add: plain_inv_def rt_inv_init no_mmap_init mem_ok_init)

lemma tlb_hit_owner:
  assumes "mem_ok S" "vm_of (sy_mem S) (rt_current_pid S) = Some a" "fst (tlb_lookup v t (w_tlb (sy_mem S))) = Some (f, d, perm)"
  shows "frame_owner (sy_mem S) f = Some (rt_current_pid S, v)"
proof -
  let ?w = "sy_mem S"
  have i: "vm_wf ?w" "pages_ok (ppte ?w) (frame_owner ?w) (swap_owner ?w)" and c: "tlb.coherent (translates ?w a) (w_tlb ?w)"
    using assms(1,2) by (auto simp: mem_ok_def mem_inv_def tlb_coherent_def)
  have "translates ?w a v (f, d, perm)" using c assms(3) tlb.lookup_result [of "w_tlb ?w" v t] by (simp add: tlb.coherent_def)
  then have "present (pte_at ?w a v)" "frame_num (pte_at ?w a v) = f" by (auto simp: translates_def Let_def)
  then show ?thesis using pages_ok_present(2) [OF i(2) pte_at_ppte [OF i(1) assms(2), of v]] by simp
qed


section \<open>Isolation\<close>

lemma shutdown_vms: "w_vms w b = None \<Longrightarrow> w_vms (proc_table_shutdown e w) b = None"
proof -
  have "w_vms w b = None \<Longrightarrow> w_vms (vm_proc_destroy a w) b = None" for a w
    by (cases "w_vms w a") (simp add: vm_proc_destroy_def, simp add: vm_proc_destroy_eq)
  then have step: "w_vms w b = None \<Longrightarrow> w_vms (release_vm i (w\<lparr>w_pt := release_stack e i (w_pt w)\<rparr>)) b = None" for i w
    by (simp add: release_vm_def set_entry_def split: option.split)
  have "w_vms w b = None \<Longrightarrow> w_vms (fold (\<lambda>i w. release_vm i (w\<lparr>w_pt := release_stack e i (w_pt w)\<rparr>)) xs w) b = None" for xs w
    by (induction xs arbitrary: w) (simp_all add: step)
  then show "w_vms w b = None \<Longrightarrow> w_vms (proc_table_shutdown e w) b = None" by (simp add: proc_table_shutdown_def)
qed

lemma sample_host_mmap_free: "files_mmap_free sample_host"
proof -
  have "mmap_free w" if "workload_load sample_files path 160 = Inr w" for path w
  proof (cases "path = ''a.wl''")
    case True
    then have w: "insn_list w = [zero_insn\<lparr>wi_ticks := 3\<rparr>, zero_insn\<lparr>wi_op := WORKLOAD_SEND, wi_arg0 := 1, wi_arg1 := -7\<rparr>,
        zero_insn\<lparr>wi_op := WORKLOAD_EXIT\<rparr>]"
      using that sample_load by simp
    have "wi_op (insn_list w ! j) \<noteq> WORKLOAD_MMAP" if "j < length (insn_list w)" for j
      using that unfolding w by (auto simp: less_Suc_eq zero_insn_def)
    then show ?thesis by (simp add: mmap_free_def insn_list_def)
  next
    case False
    then show ?thesis using that by (simp add: workload_load_def sample_files_def)
  qed
  then show ?thesis by (simp add: files_mmap_free_def sample_host_def ERR_BUF_SIZE_def)
qed

lemma fresh_booted: "fresh_malloc sample_host booted"
  by (simp add: fresh_malloc_def booted_def runtime_init_def vm_init_def proc_table_init_def shutdown_vms zero_sys_def zero_mem_def Let_def)

text \<open>C2. Memory isolation of the whole runtime. From start-up, through any sequence of program starts, rounds,
  signals and commands, as long as no program uses \<^verbatim>\<open>MMAP\<close> and \<^verbatim>\<open>malloc\<close> returns unused memory: the paging
  invariant holds, no frame and no swap slot is shared by two pages of any processes, every allocated frame
  belongs to a process of the table, and a TLB hit while a process is running leads to the frame that this process owns for that page.\<close>

theorem memory_isolation:
  assumes "plain_step\<^sup>*\<^sup>* (runtime_init h S0) S"
  shows "mem_inv (sy_mem S) \<and>
    (\<forall>q v e q' v' e'. ppte (sy_mem S) q v = Some e \<and> ppte (sy_mem S) q' v' = Some e' \<and>
       (present e \<and> present e' \<and> frame_num e = frame_num e' \<or> in_swap e \<and> in_swap e' \<and> swap_slot e = swap_slot e') \<longrightarrow>
       q = q' \<and> v = v') \<and>
    (\<forall>f q v. frame_owner (sy_mem S) f = Some (q, v) \<longrightarrow> proc_get q (ptable S) \<noteq> None) \<and>
    (\<forall>a v t f d r. vm_of (sy_mem S) (rt_current_pid S) = Some a \<longrightarrow>
       fst (tlb_lookup v t (w_tlb (sy_mem S))) = Some (f, d, r) \<longrightarrow> frame_owner (sy_mem S) f = Some (rt_current_pid S, v))"
proof -
  have m: "mem_ok S" using plain_life.steps_inv [OF assms plain_inv_init] by (simp add: plain_inv_def)
  then have inv: "mem_inv (sy_mem S)" and ok: "pages_ok (ppte (sy_mem S)) (frame_owner (sy_mem S)) (swap_owner (sy_mem S))"
    by (simp_all add: mem_ok_def mem_inv_def)
  have shared: "q = q' \<and> v = v'" if e: "ppte (sy_mem S) q v = Some e" "ppte (sy_mem S) q' v' = Some e'"
    "present e \<and> present e' \<and> frame_num e = frame_num e' \<or> in_swap e \<and> in_swap e' \<and> swap_slot e = swap_slot e'" for q v e q' v' e'
    using pages_ok_frame_inj [OF ok e(1) _ e(2)] pages_ok_swapped [OF ok e(1)] pages_ok_swapped [OF ok e(2)] e(3) by auto
  have "proc_get q (ptable S) \<noteq> None" if "frame_owner (sy_mem S) f = Some (q, v)" for f q v
    using pages_ok_owner [OF ok that] by (auto simp: ppte_def vm_of_def split: option.splits)
  then show ?thesis using inv shared tlb_hit_owner [OF m] by blast
qed

theorem memory_isolation_witness: "mem_inv (sy_mem loaded)"
proof -
  have "plain_step booted loaded" using plain_step.run [OF sample_host_mmap_free fresh_booted, of "''a.wl''" 5] by (simp add: loaded_def)
  then show ?thesis using memory_isolation [of sample_host zero_sys loaded] unfolding booted_def by blast
qed

end
