(* ===== verification/C_Double.thy ===== *)
theory C_Double
  imports C_Text
begin

text \<open>
  The arithmetic on \<^verbatim>\<open>double\<close> the metrics use: conversion of unsigned counts, product and quotient of
  non-negative values in IEEE 754 binary64 with rounding to nearest, ties to even, and the
  conversion \<^verbatim>\<open>%.kf\<close> of \<^verbatim>\<open>printf\<close>. A value is a fraction, numerator and denominator; \<open>fl\<close> rounds
  a fraction to the nearest value with a significand of 53 bits. The counts are below \<open>2 ^ 64\<close>, so
  neither overflow nor subnormal results arise.
\<close>

type_synonym frac = "int \<times> int"

definition half_even :: "int \<Rightarrow> int \<Rightarrow> int" where
  "half_even p q = (let d = p div q; r = p mod q in if 2 * r < q \<or> 2 * r = q \<and> even d then d else d + 1)"

text \<open>Powers of two are moved between numerator and denominator until the quotient has 53 bits before the point.\<close>

function widen :: "int \<Rightarrow> int \<Rightarrow> nat \<Rightarrow> int \<times> nat" where
  "widen p q a = (if 0 < p \<and> p < q * 4503599627370496 then widen (2 * p) q (Suc a) else (p, a))"
  by pat_completeness auto
termination
  by (relation "measure (\<lambda>(p, q, a). nat (q * 4503599627370496 - p))") auto

function narrow :: "int \<Rightarrow> int \<Rightarrow> nat \<Rightarrow> int \<times> nat" where
  "narrow p q b = (if 0 < q \<and> q * 9007199254740992 \<le> p then narrow p (2 * q) (Suc b) else (q, b))"
  by pat_completeness auto
termination
  by (relation "measure (\<lambda>(p, q, b). nat (p - q))") auto

declare widen.simps [simp del] narrow.simps [simp del]

definition fl :: "frac \<Rightarrow> frac" where
  "fl x = (let (p, a) = widen (fst x) (snd x) 0; (q, b) = narrow p (snd x) 0 in (half_even p q * 2 ^ b, 2 ^ a))"

definition dbl_of :: "'a::len word \<Rightarrow> frac" where
  "dbl_of x = fl (uint x, 1)"

definition dbl_mul :: "frac \<Rightarrow> frac \<Rightarrow> frac" where
  "dbl_mul x y = fl (fst x * fst y, snd x * snd y)"

definition dbl_div :: "frac \<Rightarrow> frac \<Rightarrow> frac" where
  "dbl_div x y = fl (fst x * snd y, snd x * fst y)"

definition fmt_f :: "nat \<Rightarrow> frac \<Rightarrow> string" where
  "fmt_f k x =
     (let n = half_even (fst x * 10 ^ k) (snd x)
      in dec_nat (nat (n div 10 ^ k)) @ ''.'' @ pad_zero k (dec_nat (nat (n mod 10 ^ k))))"


section \<open>Rounding\<close>

lemma half_even_error:
  assumes "0 < q"
  shows "2 * \<bar>half_even p q * q - p\<bar> \<le> q"
proof -
  define d r where "d = p div q" and "r = p mod q"
  have p: "p = d * q + r" "0 \<le> r" "r < q" using assms by (simp_all add: d_def r_def)
  show ?thesis
  proof (cases "2 * r < q \<or> 2 * r = q \<and> even d")
    case True
    then have "half_even p q = d" by (simp add: half_even_def d_def r_def)
    then have "half_even p q * q - p = - r" using p(1) by simp
    then show ?thesis using True p(2) by auto
  next
    case False
    then have "half_even p q = d + 1" by (simp add: half_even_def d_def r_def Let_def)
    then have "half_even p q * q - p = q - r" using p(1) by (simp add: distrib_right)
    then show ?thesis using False p(3) by (simp add: abs_if)
  qed
qed

lemma half_even_exact [simp]: "0 < q \<Longrightarrow> half_even (k * q) q = k"
  by (simp add: half_even_def)

lemma half_even_le:
  assumes "0 < q" "p \<le> k * q"
  shows "half_even p q \<le> k"
proof (rule ccontr)
  define e where "e = half_even p q * q - p"
  assume "\<not> half_even p q \<le> k"
  then have "(k + 1) * q \<le> half_even p q * q" using assms(1) by simp
  then have "q \<le> e" using assms(2) by (simp add: e_def algebra_simps)
  moreover have "2 * \<bar>e\<bar> \<le> q" using half_even_error [OF assms(1), of p] by (simp add: e_def)
  ultimately show False using assms(1) by simp
qed

lemma half_even_ge:
  assumes "0 < q" "k * q \<le> p"
  shows "k \<le> half_even p q"
proof (rule ccontr)
  define e where "e = half_even p q * q - p"
  assume "\<not> k \<le> half_even p q"
  then have "half_even p q * q \<le> (k - 1) * q" using assms(1) by simp
  then have "e \<le> - q" using assms(2) by (simp add: e_def algebra_simps)
  moreover have "2 * \<bar>e\<bar> \<le> q" using half_even_error [OF assms(1), of p] by (simp add: e_def)
  ultimately show False using assms(1) by simp
qed

lemma widen_result:
  "0 < q \<Longrightarrow> 0 \<le> p \<Longrightarrow> \<exists>d. widen p q a = (p * 2 ^ d, a + d) \<and> (0 < p \<longrightarrow> q * 4503599627370496 \<le> p * 2 ^ d) \<and>
     (0 < d \<longrightarrow> p * 2 ^ d < q * 9007199254740992)"
proof (induction p q a rule: widen.induct)
  case (1 p q a)
  show ?case
  proof (cases "0 < p \<and> p < q * 4503599627370496")
    case True
    then obtain d where d: "widen (2 * p) q (Suc a) = (2 * p * 2 ^ d, Suc a + d)" "q * 4503599627370496 \<le> 2 * p * 2 ^ d"
      "0 < d \<longrightarrow> 2 * p * 2 ^ d < q * 9007199254740992"
      using 1 by auto
    moreover have "d = 0 \<Longrightarrow> 2 * p < q * 9007199254740992" using True by simp
    ultimately show ?thesis using True by (intro exI [of _ "Suc d"]) (cases d; simp add: widen.simps [of p q a] algebra_simps)
  next
    case False
    then show ?thesis using 1(2,3) by (intro exI [of _ 0]) (auto simp: widen.simps [of p q a])
  qed
qed

lemma narrow_result: "\<exists>d. narrow p q b = (q * 2 ^ d, b + d) \<and> (0 < d \<longrightarrow> q * 2 ^ d * 4503599627370496 \<le> p \<and> q * 9007199254740992 \<le> p)"
proof (induction p q b rule: narrow.induct)
  case (1 p q b)
  show ?case
  proof (cases "0 < q \<and> q * 9007199254740992 \<le> p")
    case True
    then obtain d where d: "narrow p (2 * q) (Suc b) = (2 * q * 2 ^ d, Suc b + d)" "0 < d \<longrightarrow> 2 * q * 2 ^ d * 4503599627370496 \<le> p"
      using 1 by auto
    then show ?thesis using True by (intro exI [of _ "Suc d"]) (cases d; simp add: narrow.simps [of p q b] algebra_simps)
  next
    case False
    then show ?thesis by (intro exI [of _ 0]) (auto simp: narrow.simps [of p q b])
  qed
qed

lemma fl_cases:
  assumes "0 < q" "0 \<le> p"
  obtains a b where "fl (p, q) = (half_even (p * 2 ^ a) (q * 2 ^ b) * 2 ^ b, 2 ^ a)"
    "0 < p \<Longrightarrow> q * 2 ^ b * 4503599627370496 \<le> p * 2 ^ a" "0 < b \<Longrightarrow> a = 0 \<and> q * 9007199254740992 \<le> p"
proof -
  obtain a where a: "widen p q 0 = (p * 2 ^ a, a)" "0 < p \<longrightarrow> q * 4503599627370496 \<le> p * 2 ^ a"
    "0 < a \<longrightarrow> p * 2 ^ a < q * 9007199254740992"
    using widen_result [OF assms, of 0] by auto
  obtain b where b: "narrow (p * 2 ^ a) q 0 = (q * 2 ^ b, b)" "0 < b \<longrightarrow> q * 2 ^ b * 4503599627370496 \<le> p * 2 ^ a \<and> q * 9007199254740992 \<le> p * 2 ^ a"
    using narrow_result [of "p * 2 ^ a" q 0] by auto
  have "a = 0 \<and> q * 9007199254740992 \<le> p" if "0 < b" using a(3) b(2) that by (cases a) auto
  then show ?thesis using that [of a b] a b by (cases b) (auto simp: fl_def)
qed

text \<open>Rounding is exact on small integers, respects small integer bounds, and has a relative error of at most \<open>2\<^sup>-\<^sup>5\<^sup>3\<close>.\<close>

lemma fl_error:
  assumes "0 < q" "0 \<le> p" "fl (p, q) = (n, d)"
  shows "0 < d" "9007199254740992 * \<bar>n * q - p * d\<bar> \<le> p * d"
proof -
  obtain a b where f: "fl (p, q) = (half_even (p * 2 ^ a) (q * 2 ^ b) * 2 ^ b, 2 ^ a)"
    "0 < p \<Longrightarrow> q * 2 ^ b * 4503599627370496 \<le> p * 2 ^ a" by (rule fl_cases [OF assms(1,2)]) blast
  have e: "n = half_even (p * 2 ^ a) (q * 2 ^ b) * 2 ^ b" "d = 2 ^ a" using f(1) assms(3) by simp_all
  show "0 < d" using e by simp
  have h: "2 * \<bar>half_even (p * 2 ^ a) (q * 2 ^ b) * (q * 2 ^ b) - p * 2 ^ a\<bar> \<le> q * 2 ^ b" using assms(1) by (intro half_even_error) simp
  have nq: "n * q - p * d = half_even (p * 2 ^ a) (q * 2 ^ b) * (q * 2 ^ b) - p * 2 ^ a" using e by (simp add: algebra_simps)
  show "9007199254740992 * \<bar>n * q - p * d\<bar> \<le> p * d"
  proof (cases "p = 0")
    case True
    then show ?thesis using e assms(1) half_even_exact [of "q * 2 ^ b" 0] by simp
  next
    case False
    have "9007199254740992 * E \<le> P" if "2 * E \<le> Q" "Q * 4503599627370496 \<le> P" for E P Q :: int using that by simp
    from this [OF h [folded nq]] show ?thesis using False f(2) assms(2) e by simp
  qed
qed

lemma fl_nonneg:
  assumes "0 < q" "0 \<le> p" "fl (p, q) = (n, d)"
  shows "0 \<le> n"
proof -
  obtain a b where f: "fl (p, q) = (half_even (p * 2 ^ a) (q * 2 ^ b) * 2 ^ b, 2 ^ a)" by (rule fl_cases [OF assms(1,2)]) blast
  have "0 \<le> half_even (p * 2 ^ a) (q * 2 ^ b)" using assms(1,2) by (intro half_even_ge) simp_all
  then show ?thesis using f assms(3) by auto
qed

lemma fl_le:
  assumes "0 < q" "0 \<le> p" "fl (p, q) = (n, d)" "p \<le> c * q" "c < 9007199254740992"
  shows "n \<le> c * d"
proof -
  obtain a b where f: "fl (p, q) = (half_even (p * 2 ^ a) (q * 2 ^ b) * 2 ^ b, 2 ^ a)" "0 < b \<Longrightarrow> q * 9007199254740992 \<le> p"
    by (rule fl_cases [OF assms(1,2)]) blast
  have "b = 0"
  proof (rule ccontr)
    assume "b \<noteq> 0"
    then have "q * 9007199254740992 \<le> c * q" using f(2) assms(4) by simp
    then show False using assms(1,5) by (simp add: mult.commute)
  qed
  moreover have "half_even (p * 2 ^ a) q \<le> c * 2 ^ a" using assms(1,4) by (intro half_even_le) (simp_all add: algebra_simps)
  ultimately show ?thesis using f(1) assms(3) by simp
qed

lemma fl_exact:
  assumes "0 < q" "0 \<le> k" "k < 9007199254740992" "fl (k * q, q) = (n, d)"
  shows "n = k * d"
proof -
  have kq: "0 \<le> k * q" using assms(1,2) by simp
  obtain a b where f: "fl (k * q, q) = (half_even (k * q * 2 ^ a) (q * 2 ^ b) * 2 ^ b, 2 ^ a)" "0 < b \<Longrightarrow> q * 9007199254740992 \<le> k * q"
    by (rule fl_cases [OF assms(1) kq]) blast
  have "b = 0" using f(2) assms(1,3) by (cases b) (simp_all add: mult.commute)
  moreover have "half_even (k * q * 2 ^ a) q = k * 2 ^ a" using half_even_exact [OF assms(1), of "k * 2 ^ a"] by (simp add: algebra_simps)
  ultimately show ?thesis using f(1) assms(4) by simp
qed


section \<open>Printed quotients\<close>

text \<open>The decimal \<open>k / 10 ^ p\<close> in the format \<^verbatim>\<open>%.pf\<close>, and that it is the quotient \<open>s / n\<close> rounded to
  the nearest such decimal; a zero divisor stands for the value zero.\<close>

definition fixed_point :: "nat \<Rightarrow> nat \<Rightarrow> string" where
  "fixed_point p k = dec_nat (k div 10 ^ p) @ ''.'' @ pad_zero p (dec_nat (k mod 10 ^ p))"

definition nearest :: "nat \<Rightarrow> int \<Rightarrow> int \<Rightarrow> nat \<Rightarrow> bool" where
  "nearest p s n k \<longleftrightarrow> (if n = 0 then k = 0 else 2 * \<bar>int k * n - 10 ^ p * s\<bar> \<le> n)"

lemma fmt_f_fixed:
  assumes "0 < d" "0 \<le> n"
  shows "fmt_f p (n, d) = fixed_point p (nat (half_even (n * 10 ^ p) d))" "0 \<le> half_even (n * 10 ^ p) d"
proof -
  show h: "0 \<le> half_even (n * 10 ^ p) d" using assms by (intro half_even_ge) simp_all
  then show "fmt_f p (n, d) = fixed_point p (nat (half_even (n * 10 ^ p) d))"
    by (simp add: fmt_f_def fixed_point_def Let_def nat_div_distrib nat_mod_distrib nat_power_eq)
qed

lemma fmt_f_zero: "fmt_f p (0, 1) = fixed_point p 0"
  using fmt_f_fixed(1) [of 1 0 p] half_even_exact [of 1 0] by simp

text \<open>The two roundings, of the quotient and of its decimal, together still give a nearest decimal while
  the quotient's numerator is small against \<open>2 ^ 53\<close>.\<close>

lemma rounded_twice:
  fixes s q n d h :: int
  assumes "0 < d" "0 < q" "9007199254740992 * \<bar>n * q - s * d\<bar> \<le> s * d" "2 * \<bar>h * d - n * 10 ^ p\<bar> \<le> d" "2 * 10 ^ p * s < 9007199254740992"
  shows "2 * \<bar>h * q - 10 ^ p * s\<bar> \<le> q"
proof -
  let ?c = "10 ^ p :: int" and ?B = "9007199254740992 :: int"
  have "(h * q - ?c * s) * d = (h * d - n * ?c) * q + ?c * (n * q - s * d)" by (simp add: algebra_simps)
  then have "\<bar>h * q - ?c * s\<bar> * d \<le> \<bar>h * d - n * ?c\<bar> * q + ?c * \<bar>n * q - s * d\<bar>"
    using abs_triangle_ineq [of "(h * d - n * ?c) * q" "?c * (n * q - s * d)"] assms(1,2) by (simp add: abs_mult)
  moreover have "2 * \<bar>h * d - n * ?c\<bar> * q \<le> d * q" using assms(2,4) by (intro mult_right_mono) simp_all
  moreover have "?B * (?c * \<bar>n * q - s * d\<bar>) \<le> ?c * (s * d)" using mult_left_mono [OF assms(3), of ?c] by (simp add: algebra_simps)
  ultimately have "?B * (2 * \<bar>h * q - ?c * s\<bar> * d) \<le> ?B * (d * q) + 2 * (?c * (s * d))" by linarith
  then have "(?B * (2 * \<bar>h * q - ?c * s\<bar>)) * d \<le> (?B * q + 2 * ?c * s) * d" by (simp add: algebra_simps)
  then have "?B * (2 * \<bar>h * q - ?c * s\<bar>) \<le> ?B * q + 2 * ?c * s" using assms(1) by simp
  then show ?thesis using assms(5) by linarith
qed

lemma quotient_nearest:
  assumes "0 < c" "0 < q" "0 \<le> s" "2 * 10 ^ p * s < 9007199254740992" "fl (s * c, q * c) = (n, d)"
  obtains k where "fmt_f p (n, d) = fixed_point p k" "nearest p s q k" "0 \<le> n" "0 < d" "k = nat (half_even (n * 10 ^ p) d)"
proof -
  have pos: "0 < q * c" "0 \<le> s * c" using assms(1-3) by simp_all
  note E = fl_error [OF pos assms(5)] and n = fl_nonneg [OF pos assms(5)]
  have "9007199254740992 * \<bar>(n * q - s * d) * c\<bar> \<le> (s * d) * c" using E(2) by (simp add: algebra_simps)
  then have e: "9007199254740992 * \<bar>n * q - s * d\<bar> \<le> s * d" using assms(1) by (simp add: abs_mult mult.assoc [symmetric])
  note F = fmt_f_fixed [OF E(1) n, of p]
  have "2 * \<bar>half_even (n * 10 ^ p) d * q - 10 ^ p * s\<bar> \<le> q"
    by (rule rounded_twice [OF E(1) assms(2) e half_even_error [OF E(1)] assms(4)])
  then show ?thesis using that [OF F(1)] F(2) assms(2) n E(1) by (simp add: nearest_def)
qed

end
