(* ===== verification/Metrics.thy ===== *)
theory Metrics
  imports Runtime_Steps C_Double
begin

text \<open>
  The metrics and the benchmark of \<^verbatim>\<open>runtime.c\<close>. Averages are computed with the binary64
  arithmetic of \<^verbatim>\<open>C_Double\<close>. The benchmark runs on a runtime of its own and on the shared static
  state; each of its calls meets the next of a sequence of environments.
\<close>

definition BENCH_MAX_TICKS :: nat where "BENCH_MAX_TICKS = 500"

record metric_accum =
  ma_completed :: u32
  ma_turnaround_sum :: u64
  ma_response_sum :: u64
  ma_wait_sum :: u64

definition zero_accum :: metric_accum where
  "zero_accum = \<lparr>ma_completed = 0, ma_turnaround_sum = 0, ma_response_sum = 0, ma_wait_sum = 0\<rparr>"

definition collect_metrics :: "pcb \<Rightarrow> metric_accum \<Rightarrow> metric_accum" where
  "collect_metrics p m =
     (if p_state p = PROC_EXITED then
        (let m1 = m\<lparr>ma_completed := ma_completed m + 1,
                    ma_turnaround_sum := ma_turnaround_sum m + (p_finish_tick p - p_start_tick p),
                    ma_wait_sum := ma_wait_sum m + p_wait_time p\<rparr>
         in if p_response_time p \<noteq> UINT64_MAX then m1\<lparr>ma_response_sum := ma_response_sum m1 + p_response_time p\<rparr> else m1)
      else m)"

definition all_metrics :: "process_table \<Rightarrow> metric_accum" where
  "all_metrics t = proc_fold (\<lambda>_. t) (\<lambda>i. collect_metrics (entries t i)) zero_accum"

definition export_metric_row :: "pcb \<Rightarrow> string" where
  "export_metric_row p =
     (let turnaround = (if p_start_tick p \<le> p_finish_tick p then p_finish_tick p - p_start_tick p else 0)
      in dec_int (p_pid p) @ '','' @ proc_state_to_string (p_state p) @ '','' @ dec_word (p_cpu_time p) @ '','' @
         dec_word (p_wait_time p) @ '','' @
         dec_word (if p_response_time p = UINT64_MAX then 0 else p_response_time p) @ '','' @ dec_word turnaround @ '','' @
         dec_word (p_start_tick p) @ '','' @ dec_word (p_finish_tick p) @ '','' @ dec_int (p_priority p) @ '','' @
         dec_word (p_mlfq_level p) @ [nl])"

text \<open>\<^verbatim>\<open>100.0 * (double)part / (double)total\<close> and \<^verbatim>\<open>(double)sum / (double)n\<close>, zero for a zero divisor where the code tests it.\<close>

definition percent :: "u64 \<Rightarrow> u64 \<Rightarrow> frac" where
  "percent part whole = (if whole = 0 then (0, 1) else dbl_div (dbl_mul (100, 1) (dbl_of part)) (dbl_of whole))"

definition ratio :: "'a::len word \<Rightarrow> 'b::len word \<Rightarrow> frac" where
  "ratio x n = (if n = 0 then (0, 1) else dbl_div (dbl_of x) (dbl_of n))"

definition runtime_print_metrics :: "sys \<Rightarrow> string" where
  "runtime_print_metrics S =
     (let m = all_metrics (ptable S);
          whole = rt_busy_ticks S + rt_idle_ticks S;
          util = percent (rt_busy_ticks S) whole;
          throughput = ratio (ma_completed m) (rt_tick S)
      in ''ticks='' @ dec_word (rt_tick S) @ '' completed='' @ dec_word (ma_completed m) @ '' throughput='' @ fmt_f 3 throughput @
         '' cpu_util='' @ fmt_f 2 util @ ''%'' @ [nl] @
         (if 0 < ma_completed m
          then ''avg_turnaround='' @ fmt_f 2 (ratio (ma_turnaround_sum m) (ma_completed m)) @
               '' avg_wait='' @ fmt_f 2 (ratio (ma_wait_sum m) (ma_completed m)) @
               '' avg_response='' @ fmt_f 2 (ratio (ma_response_sum m) (ma_completed m)) @ [nl]
          else []))"

definition runtime_export_metrics :: "bool \<Rightarrow> sys \<Rightarrow> int \<times> string option" where
  "runtime_export_metrics fopen_ok S =
     (if \<not> fopen_ok then (-1, None)
      else (0, Some (''pid,state,cpu,wait,response,turnaround,start,finish,priority,queue'' @ [nl] @
              concat (map (\<lambda>i. if p_used (entries (ptable S) i) then export_metric_row (entries (ptable S) i) else []) [0..<MOSRT_MAX_PROCS]))))"

definition runtime_export_trace :: "bool \<Rightarrow> sys \<Rightarrow> int \<times> string option" where
  "runtime_export_trace fopen_ok S = trace_export_csv fopen_ok (rt_trace S)"


section \<open>The benchmark\<close>

fun run_while_live :: "(nat \<Rightarrow> host) \<Rightarrow> nat \<Rightarrow> sys \<Rightarrow> sys option" where
  "run_while_live hs 0 S = Some S"
| "run_while_live hs (Suc n) S =
     (if 0 < proc_live_count (ptable S) then
        (case runtime_step (hs 0) 1 S of None \<Rightarrow> None | Some S1 \<Rightarrow> run_while_live (\<lambda>k. hs (Suc k)) n S1)
      else Some S)"

text \<open>The variable \<^verbatim>\<open>rt\<close> is local: afterwards the caller's runtime is as before, while the static state and the output stay.\<close>

definition keep_runtime :: "sys \<Rightarrow> sys \<Rightarrow> sys" where
  "keep_runtime S S' =
     S'\<lparr>rt_tick := rt_tick S, rt_started := rt_started S, rt_need_resched := rt_need_resched S, rt_current_pid := rt_current_pid S,
        rt_busy_ticks := rt_busy_ticks S, rt_idle_ticks := rt_idle_ticks S, rt_completed := rt_completed S,
        rt_scheduler := rt_scheduler S, rt_trace := rt_trace S, rt_slots := rt_slots S\<rparr>"

definition bench_one :: "(nat \<Rightarrow> host) \<Rightarrow> sched_algo \<Rightarrow> sys \<Rightarrow> sys option" where
  "bench_one hs algo S =
     (let S1 = runtime_set_scheduler algo (runtime_init (hs 0) S);
          S2 = snd (runtime_run_workload (hs 1) ''workloads/cpu_bound.wl'' MOSRT_DEFAULT_PRIO S1);
          S3 = snd (runtime_run_workload (hs 2) ''workloads/io_bound.wl'' MOSRT_DEFAULT_PRIO S2);
          S4 = snd (runtime_run_workload (hs 3) ''workloads/mixed.wl'' MOSRT_DEFAULT_PRIO S3)
      in case run_while_live (\<lambda>k. hs (5 + k)) BENCH_MAX_TICKS S4 of
           None \<Rightarrow> None
         | Some S5 \<Rightarrow>
             Some (keep_runtime S
                     (runtime_shutdown (hs 4) (print (sched_algo_name algo @ '': '' @ runtime_print_metrics S5) S5))))"

definition runtime_benchmark :: "(sched_algo \<Rightarrow> nat \<Rightarrow> host) \<Rightarrow> sys \<Rightarrow> sys option" where
  "runtime_benchmark hs S =
     fold (\<lambda>algo r. case r of None \<Rightarrow> None | Some S \<Rightarrow> bench_one (hs algo) algo S)
       [SCHED_FCFS, SCHED_RR, SCHED_PRIO, SCHED_MLFQ] (Some S)"


section \<open>What the metrics say\<close>

lemma dbl_of_exact:
  assumes "uint x < 9007199254740992" "dbl_of x = (n, d)"
  shows "n = uint x * d" "0 < d"
  using fl_exact [of 1 "uint x" n d] fl_error(1) [of 1 "uint x" n d] assms by (simp_all add: dbl_of_def)

text \<open>While a hundred times the total is an exact \<^verbatim>\<open>double\<close>, only the quotient is rounded; a share of the
  total is then between 0 and 100 percent.\<close>

lemma percent_quotient:
  assumes "part \<le> whole" "uint whole < 90071992547409" "whole \<noteq> 0"
  obtains c where "0 < c" "percent part whole = fl (100 * uint part * c, uint whole * c)"
proof -
  have le: "uint part \<le> uint whole" using assms(1) by (simp add: word_le_def)
  obtain np dp where p: "dbl_of part = (np, dp)" by fastforce
  obtain nt dt where t: "dbl_of whole = (nt, dt)" by fastforce
  have P: "np = uint part * dp" "0 < dp" using dbl_of_exact [OF _ p] le assms(2) by simp_all
  have T: "nt = uint whole * dt" "0 < dt" using dbl_of_exact [OF _ t] assms(2) by simp_all
  obtain nm dm where m: "dbl_mul (100, 1) (np, dp) = (nm, dm)" by fastforce
  have M: "nm = 100 * uint part * dm" "0 < dm"
    using fl_exact [of dp "100 * uint part" nm dm] fl_error(1) [of dp "100 * np" nm dm] m P le assms(2)
    by (simp_all add: dbl_mul_def algebra_simps)
  have "percent part whole = fl (100 * uint part * (dm * dt), uint whole * (dm * dt))"
    using assms(3) p t m M(1) T(1) by (simp add: percent_def dbl_div_def algebra_simps)
  then show ?thesis using that [of "dm * dt"] M(2) T(2) by simp
qed

lemma percent_printed:
  assumes "part \<le> whole" "uint whole < 90071992547409"
  obtains k where "fmt_f 2 (percent part whole) = fixed_point 2 k" "k \<le> 10000" "part = whole \<Longrightarrow> whole \<noteq> 0 \<Longrightarrow> k = 10000"
    "uint whole < 450359962737 \<Longrightarrow> nearest 2 (100 * uint part) (uint whole) k"
proof (cases "whole = 0")
  case True
  then show ?thesis using that [of 0] by (simp add: percent_def fmt_f_zero nearest_def)
next
  case False
  obtain c where c: "0 < c" "percent part whole = fl (100 * uint part * c, uint whole * c)" by (rule percent_quotient [OF assms False])
  obtain n d where f: "fl (100 * uint part * c, uint whole * c) = (n, d)" by fastforce
  have le: "uint part \<le> uint whole" "0 < uint whole" using assms(1) False by (simp_all add: word_le_def uint_0_iff less_le)
  have pos: "0 < uint whole * c" "0 \<le> 100 * uint part * c" using c(1) le(2) by simp_all
  have "100 * uint part * c \<le> 100 * (uint whole * c)" using le(1) c(1) by simp
  then have u: "n \<le> 100 * d" by (intro fl_le [OF pos f]) simp_all
  have e: "n = 100 * d" if "part = whole" using fl_exact [OF pos(1), of 100 n d] f that by (simp add: mult.assoc)
  have d: "0 < d" and n: "0 \<le> n" using fl_error(1) [OF pos f] fl_nonneg [OF pos f] by simp_all
  let ?k = "nat (half_even (n * 10 ^ 2) d)"
  have "?k \<le> 10000" using half_even_le [OF d, of "n * 10 ^ 2" 10000] u by simp
  moreover have "?k = 10000" if "part = whole" using half_even_exact [OF d, of 10000] e [OF that] by (simp add: algebra_simps)
  moreover have "nearest 2 (100 * uint part) (uint whole) ?k" if "uint whole < 450359962737"
    by (rule quotient_nearest [OF c(1) le(2) _ _ f, of 2]) (use le(1) that in simp_all)
  ultimately show ?thesis using that [of ?k] fmt_f_fixed(1) [OF d n, of 2] c(2) f by simp
qed

definition exited_entries :: "process_table \<Rightarrow> nat set" where
  "exited_entries t = {i. i < 1024 \<and> p_used (entries t i) \<and> p_state (entries t i) = PROC_EXITED}"

definition turnaround_of :: "pcb \<Rightarrow> u64" where
  "turnaround_of p = p_finish_tick p - p_start_tick p"

definition response_of :: "pcb \<Rightarrow> u64" where
  "response_of p = (if p_response_time p = UINT64_MAX then 0 else p_response_time p)"

lemma finite_exited_entries [simp]: "finite (exited_entries t)"
  by (simp add: exited_entries_def)

lemma card_exited_entries: "card (exited_entries t) \<le> 1024"
proof -
  have "exited_entries t \<subseteq> {..<1024}" by (auto simp: exited_entries_def)
  then show ?thesis using card_mono [of "{..<1024 :: nat}"] by fastforce
qed

text \<open>The loop over the table sums over its exited entries.\<close>

lemma all_metrics_sums:
  "all_metrics t = \<lparr>ma_completed = of_nat (card (exited_entries t)),
     ma_turnaround_sum = (\<Sum>i \<in> exited_entries t. turnaround_of (entries t i)),
     ma_response_sum = (\<Sum>i \<in> exited_entries t. response_of (entries t i)),
     ma_wait_sum = (\<Sum>i \<in> exited_entries t. p_wait_time (entries t i))\<rparr>"
proof -
  let ?P = "\<lambda>i. p_used (entries t i) \<and> p_state (entries t i) = PROC_EXITED" and ?f = "\<lambda>xs g. \<Sum>i \<leftarrow> xs. g (entries t i) :: u64"
  define step where "step i m = (if p_used (entries t i) then collect_metrics (entries t i) m else m)" for i m
  have step: "step i m = (if ?P i then \<lparr>ma_completed = ma_completed m + 1, ma_turnaround_sum = ma_turnaround_sum m + turnaround_of (entries t i),
      ma_response_sum = ma_response_sum m + response_of (entries t i), ma_wait_sum = ma_wait_sum m + p_wait_time (entries t i)\<rparr> else m)" for i m
    by (cases m) (simp add: step_def collect_metrics_def turnaround_of_def response_of_def Let_def)
  have "fold step xs m = \<lparr>ma_completed = ma_completed m + of_nat (length (filter ?P xs)),
      ma_turnaround_sum = ma_turnaround_sum m + ?f (filter ?P xs) turnaround_of,
      ma_response_sum = ma_response_sum m + ?f (filter ?P xs) response_of,
      ma_wait_sum = ma_wait_sum m + ?f (filter ?P xs) p_wait_time\<rparr>" for xs m
    by (induction xs arbitrary: m) (simp_all add: step add.assoc)
  from this [of "[0..<1024]" zero_accum] have "all_metrics t = \<lparr>ma_completed = of_nat (length (filter ?P [0..<1024])),
      ma_turnaround_sum = ?f (filter ?P [0..<1024]) turnaround_of,
      ma_response_sum = ?f (filter ?P [0..<1024]) response_of, ma_wait_sum = ?f (filter ?P [0..<1024]) p_wait_time\<rparr>"
    unfolding step_def by (simp add: all_metrics_def proc_fold_def zero_accum_def)
  moreover have "set (filter ?P [0..<1024]) = exited_entries t" by (auto simp: exited_entries_def)
  ultimately show ?thesis
    using distinct_card [of "filter ?P [0..<1024]"] by (simp only: sum_list_distinct_conv_sum_set distinct_filter distinct_upt)
qed

lemma uint_sum_exact:
  assumes "finite A" "(\<Sum>i \<in> A. uint (f i :: u64)) < 18446744073709551616"
  shows "uint (\<Sum>i \<in> A. f i) = (\<Sum>i \<in> A. uint (f i))"
  using assms
proof (induction A)
  case (insert x A)
  have "(\<Sum>i \<in> A. uint (f i)) < 18446744073709551616" using insert.prems uint_ge_0 [of "f x"] unfolding sum.insert [OF insert.hyps] by linarith
  then show ?case using insert by (simp add: uint_plus_if')
qed simp

lemma ratio_nearest:
  assumes "uint n < 9007199254740992" "2 * 10 ^ p * uint x < 9007199254740992"
  obtains k where "fmt_f p (ratio x n) = fixed_point p k" "nearest p (uint x) (uint n) k"
proof (cases "n = 0")
  case True
  then show ?thesis using that [of 0] by (simp add: ratio_def fmt_f_zero nearest_def)
next
  case False
  have "1 \<le> (10 ^ p :: int)" by (rule one_le_power) simp
  then have "1 \<le> (2 * 10 ^ p :: int)" by linarith
  then have "1 * uint x \<le> 2 * 10 ^ p * uint x" by (rule mult_right_mono) simp
  then have x: "uint x < 9007199254740992" using assms(2) by linarith
  obtain nx dx where X: "dbl_of x = (nx, dx)" by fastforce
  obtain nn dn where N: "dbl_of n = (nn, dn)" by fastforce
  note EX = dbl_of_exact [OF x X] and EN = dbl_of_exact [OF assms(1) N]
  have "ratio x n = fl (uint x * (dx * dn), uint n * (dx * dn))"
    using False by (simp add: ratio_def X N dbl_div_def EX(1) EN(1) algebra_simps)
  moreover obtain a d where f: "fl (uint x * (dx * dn), uint n * (dx * dn)) = (a, d)" by fastforce
  moreover obtain k where "fmt_f p (a, d) = fixed_point p k" "nearest p (uint x) (uint n) k"
    by (rule quotient_nearest [OF _ _ _ assms(2) f]) (use False EX(2) EN(2) in \<open>simp_all add: uint_0_iff less_le\<close>)
  ultimately show ?thesis using that by simp
qed

text \<open>An average over exited entries, printed with two places.\<close>

lemma average_nearest:
  fixes f :: "pcb \<Rightarrow> u64"
  assumes "(\<Sum>i \<in> exited_entries t. uint (f (entries t i))) < 45035996273704"
  obtains k where "fmt_f 2 (ratio (\<Sum>i \<in> exited_entries t. f (entries t i)) (of_nat (card (exited_entries t)) :: u32)) = fixed_point 2 k"
    "nearest 2 (\<Sum>i \<in> exited_entries t. uint (f (entries t i))) (int (card (exited_entries t))) k"
proof -
  let ?n = "of_nat (card (exited_entries t)) :: u32" and ?x = "\<Sum>i \<in> exited_entries t. f (entries t i)"
  have x: "uint ?x = (\<Sum>i \<in> exited_entries t. uint (f (entries t i)))" using assms by (intro uint_sum_exact) simp_all
  have n: "uint ?n = int (card (exited_entries t))" using card_exited_entries [of t] by (simp add: uint_nat unat_of_nat take_bit_eq_mod)
  obtain k where "fmt_f 2 (ratio ?x ?n) = fixed_point 2 k" "nearest 2 (uint ?x) (uint ?n) k"
    by (rule ratio_nearest [of ?n 2 ?x]) (use assms x n card_exited_entries [of t] in simp_all)
  then show ?thesis using that unfolding x n by blast
qed


section \<open>Properties\<close>

text \<open>C40. The printed metrics are right, for every state with fewer than 90071992547409 busy and idle ticks
  together, a tick counter below 9007199254740992, and sums of turnaround, waiting and response
  times over the exited entries of the process table below 45035996273704 each. The first line
  gives the tick counter, the number of exited entries, their number per tick rounded to the
  nearest decimal with three places (0.000 at tick 0), and the processor utilisation: a decimal
  with two places from 0.00 to 100.00; with fewer than 450359962737 busy and idle ticks, the
  share of busy ticks in percent rounded to the nearest such decimal (0.00 when there are no
  ticks); 100.00 whenever there are busy ticks and no idle ones. If no entry has exited nothing
  follows; otherwise the second line gives the averages over the exited entries of turnaround
  (finish minus start tick), waiting time and response time (none counts as 0), each the sum
  divided by the number of entries rounded to the nearest decimal with two places.\<close>

theorem metrics_report:
  assumes "E = exited_entries (ptable S)" "e = entries (ptable S)"
    and "uint (rt_busy_ticks S) + uint (rt_idle_ticks S) < 90071992547409" "uint (rt_tick S) < 9007199254740992"
    and "(\<Sum>i \<in> E. uint (turnaround_of (e i))) < 45035996273704" "(\<Sum>i \<in> E. uint (p_wait_time (e i))) < 45035996273704"
    and "(\<Sum>i \<in> E. uint (response_of (e i))) < 45035996273704"
  shows "\<exists>kp ku kt kw kr.
    runtime_print_metrics S =
      ''ticks='' @ dec_word (rt_tick S) @ '' completed='' @ dec_nat (card E) @ '' throughput='' @ fixed_point 3 kp @
      '' cpu_util='' @ fixed_point 2 ku @ ''%'' @ [nl] @
      (if E = {} then []
       else ''avg_turnaround='' @ fixed_point 2 kt @ '' avg_wait='' @ fixed_point 2 kw @ '' avg_response='' @ fixed_point 2 kr @ [nl]) \<and>
    nearest 3 (int (card E)) (uint (rt_tick S)) kp \<and>
    ku \<le> 10000 \<and>
    (uint (rt_busy_ticks S) + uint (rt_idle_ticks S) < 450359962737 \<longrightarrow>
       nearest 2 (100 * uint (rt_busy_ticks S)) (uint (rt_busy_ticks S) + uint (rt_idle_ticks S)) ku) \<and>
    (rt_idle_ticks S = 0 \<and> rt_busy_ticks S \<noteq> 0 \<longrightarrow> ku = 10000) \<and>
    nearest 2 (\<Sum>i \<in> E. uint (turnaround_of (e i))) (int (card E)) kt \<and>
    nearest 2 (\<Sum>i \<in> E. uint (p_wait_time (e i))) (int (card E)) kw \<and>
    nearest 2 (\<Sum>i \<in> E. uint (response_of (e i))) (int (card E)) kr"
proof -
  let ?w = "rt_busy_ticks S + rt_idle_ticks S" and ?n = "of_nat (card E) :: u32"
  have u: "uint ?w = uint (rt_busy_ticks S) + uint (rt_idle_ticks S)" using assms(3) by (simp add: uint_plus_if')
  obtain ku where ku: "fmt_f 2 (percent (rt_busy_ticks S) ?w) = fixed_point 2 ku" "ku \<le> 10000" "rt_busy_ticks S = ?w \<Longrightarrow> ?w \<noteq> 0 \<Longrightarrow> ku = 10000"
    "uint ?w < 450359962737 \<Longrightarrow> nearest 2 (100 * uint (rt_busy_ticks S)) (uint ?w) ku"
    by (rule percent_printed [of "rt_busy_ticks S" ?w]) (use u assms(3) in \<open>simp_all add: word_le_def\<close>)
  have n: "uint ?n = int (card E)" "unat ?n = card E" "card E \<le> 1024" "?n = 0 \<longleftrightarrow> E = {}"
    using card_exited_entries [of "ptable S"] finite_exited_entries [of "ptable S"]
    by (simp_all add: assms(1) uint_nat unat_of_nat take_bit_eq_mod word_unat_eq_iff [of _ 0])
  obtain kp where kp: "fmt_f 3 (ratio ?n (rt_tick S)) = fixed_point 3 kp" "nearest 3 (int (card E)) (uint (rt_tick S)) kp"
    by (rule ratio_nearest [of "rt_tick S" 3 ?n]) (use assms(4) n in simp_all)
  obtain kt where kt: "fmt_f 2 (ratio (\<Sum>i \<in> E. turnaround_of (e i)) ?n) = fixed_point 2 kt" "nearest 2 (\<Sum>i \<in> E. uint (turnaround_of (e i))) (int (card E)) kt"
    unfolding assms(1,2) by (rule average_nearest [OF assms(5) [unfolded assms(1,2)]])
  obtain kw where kw: "fmt_f 2 (ratio (\<Sum>i \<in> E. p_wait_time (e i)) ?n) = fixed_point 2 kw" "nearest 2 (\<Sum>i \<in> E. uint (p_wait_time (e i))) (int (card E)) kw"
    unfolding assms(1,2) by (rule average_nearest [OF assms(6) [unfolded assms(1,2)]])
  obtain kr where kr: "fmt_f 2 (ratio (\<Sum>i \<in> E. response_of (e i)) ?n) = fixed_point 2 kr" "nearest 2 (\<Sum>i \<in> E. uint (response_of (e i))) (int (card E)) kr"
    unfolding assms(1,2) by (rule average_nearest [OF assms(7) [unfolded assms(1,2)]])
  have m: "all_metrics (ptable S) = \<lparr>ma_completed = ?n, ma_turnaround_sum = (\<Sum>i \<in> E. turnaround_of (e i)),
      ma_response_sum = (\<Sum>i \<in> E. response_of (e i)), ma_wait_sum = (\<Sum>i \<in> E. p_wait_time (e i))\<rparr>"
    unfolding assms(1,2) by (rule all_metrics_sums)
  have shown: "runtime_print_metrics S =
      ''ticks='' @ dec_word (rt_tick S) @ '' completed='' @ dec_nat (card E) @ '' throughput='' @ fixed_point 3 kp @
      '' cpu_util='' @ fixed_point 2 ku @ ''%'' @ [nl] @
      (if E = {} then []
       else ''avg_turnaround='' @ fixed_point 2 kt @ '' avg_wait='' @ fixed_point 2 kw @ '' avg_response='' @ fixed_point 2 kr @ [nl])"
    using n(2,4) by (simp add: runtime_print_metrics_def Let_def m kp(1) ku(1) kt(1) kw(1) kr(1) dec_word_def word_neq_0_conv [symmetric])
  have util: "uint (rt_busy_ticks S) + uint (rt_idle_ticks S) < 450359962737 \<longrightarrow>
      nearest 2 (100 * uint (rt_busy_ticks S)) (uint (rt_busy_ticks S) + uint (rt_idle_ticks S)) ku"
    using ku(4) unfolding u by blast
  have busy: "rt_idle_ticks S = 0 \<and> rt_busy_ticks S \<noteq> 0 \<longrightarrow> ku = 10000" using ku(3) by simp
  show ?thesis
    by (rule exI [of _ kp], rule exI [of _ ku], rule exI [of _ kt], rule exI [of _ kw], rule exI [of _ kr])
      (intro conjI shown kp(2) ku(2) util busy kt(2) kw(2) kr(2))
qed

text \<open>One busy tick, two idle ticks and one process that exited at tick 3 after waiting for one tick.\<close>

definition one_exited :: sys where
  "one_exited = zero_sys\<lparr>rt_tick := 3, rt_busy_ticks := 1, rt_idle_ticks := 2,
     sy_mem := zero_mem\<lparr>w_pt := (w_pt zero_mem)\<lparr>entries := (\<lambda>_. zero_pcb)
       (0 := zero_pcb\<lparr>p_used := True, p_pid := 1, p_state := PROC_EXITED, p_wait_time := 1, p_finish_tick := 3\<rparr>)\<rparr>\<rparr>\<rparr>"

theorem metrics_report_witness:
  "runtime_print_metrics one_exited =
     ''ticks=3 completed=1 throughput=0.333 cpu_util=33.33%'' @ [nl] @ ''avg_turnaround=3.00 avg_wait=1.00 avg_response=0.00'' @ [nl]"
proof -
  let ?e = "entries (ptable one_exited)"
  have b: "rt_busy_ticks one_exited = 1" "rt_idle_ticks one_exited = 2" "rt_tick one_exited = 3" by (simp_all add: one_exited_def)
  have e: "?e = (\<lambda>_. zero_pcb)(0 := zero_pcb\<lparr>p_used := True, p_pid := 1, p_state := PROC_EXITED, p_wait_time := 1, p_finish_tick := 3\<rparr>)"
    by (simp add: one_exited_def)
  have E: "{0} = exited_entries (ptable one_exited)" by (auto simp: exited_entries_def e zero_pcb_def)
  have p: "turnaround_of (?e 0) = 3" "p_wait_time (?e 0) = 1" "response_of (?e 0) = 0"
    by (simp_all add: e turnaround_of_def response_of_def zero_pcb_def)
  obtain kp ku kt kw kr where k: "runtime_print_metrics one_exited =
      ''ticks='' @ dec_word (3 :: u64) @ '' completed='' @ dec_nat (card {0 :: nat}) @ '' throughput='' @ fixed_point 3 kp @
      '' cpu_util='' @ fixed_point 2 ku @ ''%'' @ [nl] @
      (if {0 :: nat} = {} then []
       else ''avg_turnaround='' @ fixed_point 2 kt @ '' avg_wait='' @ fixed_point 2 kw @ '' avg_response='' @ fixed_point 2 kr @ [nl])"
    "nearest 3 1 3 kp" "nearest 2 100 3 ku" "nearest 2 3 1 kt" "nearest 2 1 1 kw" "nearest 2 0 1 kr"
    using metrics_report [OF E refl] by (simp add: b p) blast
  have "2 * \<bar>int kp * 3 - 1000\<bar> \<le> 3" "2 * \<bar>int ku * 3 - 10000\<bar> \<le> 3" "2 * \<bar>int kt - 300\<bar> \<le> 1" "2 * \<bar>int kw - 100\<bar> \<le> 1" "2 * int kr \<le> 1"
    using k(2-6) by (simp_all add: nearest_def)
  note near = this
  have "kp = 333" using near(1) by presburger
  moreover have "ku = 3333" using near(2) by presburger
  moreover have "kt = 300" "kw = 100" "kr = 0" using near(3-5) by (presburger, presburger, presburger)
  moreover have "dec_nat 3 = ''3''" "dec_nat 1 = ''1''" "fixed_point 3 333 = ''0.333''" "fixed_point 2 3333 = ''33.33''"
    "fixed_point 2 300 = ''3.00''" "fixed_point 2 100 = ''1.00''" "fixed_point 2 0 = ''0.00''" by code_simp+
  ultimately show ?thesis using k(1) by (simp add: dec_word_def)
qed

end
