(* ===== verification/Shell.thy ===== *)
theory Shell
  imports Runtime_Memory Metrics
begin

text \<open>
  \<^verbatim>\<open>shell.c\<close> and \<^verbatim>\<open>main.c\<close>: the command interpreter, as a function of the text on its standard
  input. For every line the environment \<open>shell_env\<close> supplies the number of timer signals
  delivered before the command runs and the sequence of environments its calls meet. A command
  that does not return is \<open>None\<close>.
\<close>

definition SHELL_MAX_LINE :: nat where "SHELL_MAX_LINE = 256"
definition SHELL_MAX_ARGS :: nat where "SHELL_MAX_ARGS = 8"

record shell_env =
  se_alarms :: nat
  se_hosts :: "nat \<Rightarrow> host"
  se_bench :: "sched_algo \<Rightarrow> nat \<Rightarrow> host"

type_synonym handler = "shell_env \<Rightarrow> string list \<Rightarrow> sys \<Rightarrow> sys option"

abbreviation se_host :: "shell_env \<Rightarrow> host" where
  "se_host E \<equiv> se_hosts E 0"

definition split_args :: "string \<Rightarrow> string list" where
  "split_args line = take SHELL_MAX_ARGS (tokens blanks (c_str line))"

definition parse_int :: "string \<Rightarrow> int option" where
  "parse_int s =
     (case strtol s of
        None \<Rightarrow> None
      | Some (v, rest, erange) \<Rightarrow> if rest \<noteq> [] then None else if v < INT_MIN \<or> INT_MAX < v then None else Some v)"

text \<open>\<^verbatim>\<open>argc >= k + 1 && parse_int(argv[k], ...)\<close>.\<close>

definition arg_int :: "string list \<Rightarrow> nat \<Rightarrow> int option" where
  "arg_int argv k = (if k < length argv then parse_int (argv ! k) else None)"

definition say :: "string \<Rightarrow> sys \<Rightarrow> sys" where
  "say txt S = print (txt @ [nl]) S"

definition cmd_help :: "sys \<Rightarrow> sys" where
  "cmd_help S =
     fold say
       [''commands:'', ''  run <workload> [priority]'', ''  ps'', ''  kill <pid>'', ''  sched <fcfs|rr|prio|mlfq>'', ''  quantum <ticks>'',
        ''  nice <pid> <nice>'', ''  prio <pid> <priority>'', ''  trace <pid|all>'', ''  start'', ''  stop'', ''  step <n>'', ''  queues'',
        ''  metrics'', ''  export trace <path.csv>'', ''  export metrics <path.csv>'', ''  bench'', ''  reset'', ''  vmmap <pid>'',
        ''  pte <pid>'', ''  frames'', ''  tlb'', ''  policy [fifo|lru|clock]'', ''  vmem'', ''  help'', ''  exit''] S"

definition cmd_run :: handler where
  "cmd_run E argv S =
     (if length argv < 2 then Some (say ''usage: run <workload>'' S)
      else if 3 \<le> length argv \<and> arg_int argv 2 = None then Some (say ''usage: run <workload> [priority]'' S)
      else
        (let priority = (if 3 \<le> length argv then the (arg_int argv 2) else MOSRT_DEFAULT_PRIO);
             (pid, S1) = runtime_run_workload (se_host E) (argv ! 1) priority S
         in if pid < 0 then Some (say ''error: failed to create process'' S1)
            else Some (say (''created pid='' @ dec_int pid @ '' from workload='' @ argv ! 1) S1)))"

definition cmd_kill :: handler where
  "cmd_kill E argv S =
     (case arg_int argv 1 of
        None \<Rightarrow> Some (say ''usage: kill <pid>'' S)
      | Some pid \<Rightarrow>
          (case runtime_kill (se_host E) pid S of
             (False, S1) \<Rightarrow> Some (say (''error: pid '' @ dec_int pid @ '' not found'') S1)
           | (True, S1) \<Rightarrow> Some (say (''killed pid='' @ dec_int pid) S1)))"

definition cmd_sched :: handler where
  "cmd_sched E argv S =
     (if length argv < 2 then Some (say ''usage: sched <rr|prio|mlfq>'' S)
      else case sched_parse_algo (argv ! 1) of
             None \<Rightarrow> Some (say (''error: unknown scheduler '' @ [CHR 0x27] @ argv ! 1 @ [CHR 0x27]) S)
           | Some algo \<Rightarrow>
               (let S1 = runtime_set_scheduler algo S in Some (say (''scheduler set to '' @ runtime_scheduler_name S1) S1)))"

definition cmd_quantum :: handler where
  "cmd_quantum E argv S =
     (case arg_int argv 1 of
        None \<Rightarrow> Some (say ''usage: quantum <ticks>'' S)
      | Some ticks \<Rightarrow>
          if ticks \<le> 0 then Some (say ''usage: quantum <ticks>'' S)
          else Some (say (''quantum set to '' @ dec_word (of_int ticks :: u32) @ '' tick(s)'') (runtime_set_quantum (of_int ticks) S)))"

definition cmd_trace :: handler where
  "cmd_trace E argv S =
     (if length argv < 2 then Some (say ''usage: trace <pid|all>'' S)
      else if argv ! 1 = ''all'' then Some (say ''trace target set to all'' (runtime_trace True (-1) S))
      else case arg_int argv 1 of
             None \<Rightarrow> Some (say ''usage: trace <pid|all>'' S)
           | Some pid \<Rightarrow> Some (say (''trace target set to pid='' @ dec_int pid) (runtime_trace False pid S)))"

definition cmd_start :: handler where
  "cmd_start E argv S =
     (case runtime_start (se_host E) S of
        (False, S1) \<Rightarrow> Some (say ''error: failed to start timer'' S1)
      | (True, S1) \<Rightarrow> Some (say (''runtime started at tick='' @ dec_word (runtime_tick S1)) S1))"

definition cmd_stop :: handler where
  "cmd_stop E argv S =
     (let S1 = runtime_stop (se_host E) S in Some (say (''runtime stopped at tick='' @ dec_word (runtime_tick S1)) S1))"

definition cmd_step :: handler where
  "cmd_step E argv S =
     (case arg_int argv 1 of
        None \<Rightarrow> Some (say ''usage: step <n>'' S)
      | Some n \<Rightarrow>
          if n \<le> 0 then Some (say ''usage: step <n>'' S)
          else if \<not> rt_started S
          then Some (say (''error: runtime not started (use '' @ [CHR 0x27] @ ''start'' @ [CHR 0x27] @ '')'') S)
          else case runtime_step (se_host E) (of_int n) S of
                 None \<Rightarrow> None
               | Some S1 \<Rightarrow>
                   Some (say (''advanced '' @ dec_int n @ '' tick(s), now at tick='' @ dec_word (runtime_tick S1)) S1))"

definition cmd_nice :: handler where
  "cmd_nice E argv S =
     (case (arg_int argv 1, arg_int argv 2) of
        (Some pid, Some nice_value) \<Rightarrow>
          (case runtime_set_nice pid nice_value S of
             (False, S1) \<Rightarrow> Some (say (''error: pid '' @ dec_int pid @ '' not found'') S1)
           | (True, S1) \<Rightarrow> Some (say (''pid='' @ dec_int pid @ '' nice='' @ dec_int nice_value) S1))
      | _ \<Rightarrow> Some (say ''usage: nice <pid> <nice>'' S))"

definition cmd_prio :: handler where
  "cmd_prio E argv S =
     (case (arg_int argv 1, arg_int argv 2) of
        (Some pid, Some priority) \<Rightarrow>
          (case runtime_set_priority pid priority S of
             (False, S1) \<Rightarrow> Some (say (''error: pid '' @ dec_int pid @ '' not found'') S1)
           | (True, S1) \<Rightarrow> Some (say (''pid='' @ dec_int pid @ '' priority='' @ dec_int priority) S1))
      | _ \<Rightarrow> Some (say ''usage: prio <pid> <priority>'' S))"

text \<open>The text written to the exported file is the second component of the export functions.\<close>

definition cmd_export :: handler where
  "cmd_export E argv S =
     (if length argv < 3 then Some (say ''usage: export <trace|metrics> <path.csv>'' S)
      else
        (let fopen_ok = h_create (se_host E) (argv ! 2);
             done = (\<lambda>rc. say (argv ! 1 @ '' export '' @ argv ! 2 @ '': '' @ (if rc = 0 then ''ok'' else ''failed'')) S)
         in if argv ! 1 = ''trace'' then Some (done (fst (runtime_export_trace fopen_ok S)))
            else if argv ! 1 = ''metrics'' then Some (done (fst (runtime_export_metrics fopen_ok S)))
            else Some (say ''usage: export <trace|metrics> <path.csv>'' S)))"

definition cmd_reset :: handler where
  "cmd_reset E argv S = Some (say ''runtime reset'' (runtime_init (se_hosts E 1) (runtime_shutdown (se_host E) S)))"

definition cmd_queues :: handler where
  "cmd_queues E argv S = Some (print (runtime_dump_queues S) S)"

definition cmd_metrics_cmd :: handler where
  "cmd_metrics_cmd E argv S = Some (print (runtime_print_metrics S) S)"

definition cmd_bench_cmd :: handler where
  "cmd_bench_cmd E argv S =
     (case runtime_benchmark (se_bench E) S of None \<Rightarrow> None | Some S1 \<Rightarrow> Some (runtime_init (se_host E) S1))"

definition cmd_ps_cmd :: handler where
  "cmd_ps_cmd E argv S = Some (print (proc_dump (ptable S)) S)"

text \<open>\<^verbatim>\<open>cmd_vmmap\<close> and \<^verbatim>\<open>cmd_pte\<close> differ in the report they print.\<close>

definition with_vm :: "string \<Rightarrow> (vm_state \<Rightarrow> string) \<Rightarrow> string list \<Rightarrow> sys \<Rightarrow> sys option" where
  "with_vm cmd report argv S =
     (if length argv < 2 then Some (say (''usage: '' @ cmd @ '' <pid>'') S)
      else case parse_int (argv ! 1) of
             None \<Rightarrow> Some (say (''invalid pid: '' @ argv ! 1) S)
           | Some pid \<Rightarrow>
               (case proc_get pid (ptable S) of
                  None \<Rightarrow> Some (say (''pid not found or has no VM: '' @ dec_int pid) S)
                | Some p \<Rightarrow>
                    (case p_vm p of
                       None \<Rightarrow> Some (say (''pid not found or has no VM: '' @ dec_int pid) S)
                     | Some a \<Rightarrow>
                         Some (case w_vms (sy_mem S) a of None \<Rightarrow> S | Some vm \<Rightarrow> print (report vm) S))))"

definition cmd_vmmap :: handler where
  "cmd_vmmap E argv S = with_vm ''vmmap'' vm_dump_proc_map argv S"

definition cmd_pte :: handler where
  "cmd_pte E argv S = with_vm ''pte'' vm_dump_proc_pte argv S"

definition cmd_frames :: handler where
  "cmd_frames E argv S = Some (print (vm_dump_global_frames (w_frame (sy_mem S))) S)"

definition cmd_tlb_cmd :: handler where
  "cmd_tlb_cmd E argv S = Some (print (vm_dump_global_tlb (w_tlb (sy_mem S))) S)"

definition cmd_policy :: handler where
  "cmd_policy E argv S =
     (if length argv < 2
      then Some (say ''usage to set: policy <fifo|lru|clock>''
                   (say (''Current page replacement policy: '' @ pager_get_policy_name (w_pager (sy_mem S))) S))
      else
        (let (ok, g) = pager_set_policy (argv ! 1) (h_policy_alloc (se_host E)) (w_frame (sy_mem S)) (w_pager (sy_mem S));
             S1 = S\<lparr>sy_mem := (sy_mem S)\<lparr>w_pager := g\<rparr>\<rparr>
         in if ok then Some (say (''Replacement policy changed to: '' @ argv ! 1) S1)
            else Some (say (''Invalid replacement policy: '' @ argv ! 1 @ '' (choose fifo, lru, clock)'') S1)))"

definition cmd_vmem :: handler where
  "cmd_vmem E argv S = Some (print (vm_dump_global_faults (w_pager (sy_mem S)) (w_swap (sy_mem S))) S)"

definition cmd_help_cmd :: handler where
  "cmd_help_cmd E argv S = Some (cmd_help S)"

definition k_commands :: "(string \<times> handler) list" where
  "k_commands =
     [(''step'', cmd_step), (''run'', cmd_run), (''ps'', cmd_ps_cmd), (''kill'', cmd_kill), (''sched'', cmd_sched),
      (''quantum'', cmd_quantum), (''nice'', cmd_nice), (''prio'', cmd_prio), (''trace'', cmd_trace), (''start'', cmd_start),
      (''stop'', cmd_stop), (''queues'', cmd_queues), (''metrics'', cmd_metrics_cmd), (''export'', cmd_export),
      (''bench'', cmd_bench_cmd), (''reset'', cmd_reset), (''vmmap'', cmd_vmmap), (''pte'', cmd_pte), (''frames'', cmd_frames),
      (''tlb'', cmd_tlb_cmd), (''policy'', cmd_policy), (''vmem'', cmd_vmem), (''help'', cmd_help_cmd)]"

definition run_command :: handler where
  "run_command E argv S =
     (case map_of k_commands (argv ! 0) of
        Some handler \<Rightarrow> handler E argv S
      | None \<Rightarrow> Some (say (''unknown command: '' @ argv ! 0) S))"

text \<open>One pass of the loop reads one line; the loop ends at the end of the input or at \<^verbatim>\<open>exit\<close>.\<close>

function shell_loop :: "(nat \<Rightarrow> shell_env) \<Rightarrow> nat \<Rightarrow> string \<Rightarrow> sys \<Rightarrow> sys option" where
  "shell_loop env k stdin S =
     (let S1 = print ''mosrt> '' S
      in case fgets SHELL_MAX_LINE stdin of
           None \<Rightarrow> Some (print [nl] S1)
         | Some (line, stdin') \<Rightarrow>
             (let argv = split_args line; E = env k;
                  S2 = S1\<lparr>sy_timer := (on_sigalrm ^^ se_alarms E) (sy_timer S1)\<rparr>
              in if argv = [] then shell_loop env (Suc k) stdin' S2
                 else if argv ! 0 = ''exit'' \<or> argv ! 0 = ''quit'' then Some (runtime_shutdown (se_host E) S2)
                 else case run_command E argv S2 of
                        None \<Rightarrow> None
                      | Some S3 \<Rightarrow> shell_loop env (Suc k) stdin' S3))"
  by pat_completeness auto
termination
  by (relation "measure (\<lambda>(env, k, stdin, S). length stdin)")
     (auto simp: fgets_def SHELL_MAX_LINE_def Let_def split: if_splits dest!: sym [where t = "read_line _ _"], (metis read_line_shorter snd_conv zero_less_numeral)+)

declare shell_loop.simps [simp del]

definition shell_run_repl :: "(nat \<Rightarrow> shell_env) \<Rightarrow> host \<Rightarrow> host \<Rightarrow> string \<Rightarrow> sys \<Rightarrow> sys option" where
  "shell_run_repl env h h' stdin S =
     (let S1 = say (''MOSRT shell (type '' @ [CHR 0x27] @ ''help'' @ [CHR 0x27] @ '' for commands)'') (runtime_init h S)
      in case shell_loop env 0 stdin S1 of None \<Rightarrow> None | Some S2 \<Rightarrow> Some (runtime_shutdown h' S2))"

definition mosrt_main :: "(nat \<Rightarrow> shell_env) \<Rightarrow> host \<Rightarrow> host \<Rightarrow> string \<Rightarrow> sys option" where
  "mosrt_main env h h' stdin = shell_run_repl env h h' stdin zero_sys"


section \<open>Commands return and lead to reachable states\<close>

definition env_mmap_free :: "shell_env \<Rightarrow> bool" where
  "env_mmap_free E \<longleftrightarrow> (\<forall>i. files_mmap_free (se_hosts E i)) \<and> (\<forall>algo i. files_mmap_free (se_bench E algo i))"

definition safe :: "sys \<Rightarrow> bool" where
  "safe S \<longleftrightarrow> reachable S \<and> no_mmap S"

lemma reachable_step: "reachable S \<Longrightarrow> sys_step S S' \<Longrightarrow> reachable S'"
  unfolding reachable_def by (meson rtranclp.rtrancl_into_rtrancl)

lemma safe_admin_step: "safe S \<Longrightarrow> admin_step S S' \<Longrightarrow> safe S'"
  using reachable_step [OF _ sys_step.admin] no_mmap_admin by (auto simp: safe_def)

lemma safe_print [simp]: "safe S \<Longrightarrow> safe (print txt S)"
  by (erule safe_admin_step [OF _ admin_step.printed])

lemma safe_say [simp]: "safe S \<Longrightarrow> safe (say txt S)"
  by (simp add: say_def)

lemma safe_init [simp]: "safe (runtime_init h S)"
  unfolding safe_def reachable_def by (auto simp: no_mmap_def runtime_init_def zero_slot_def)

lemma safe_run: "safe S \<Longrightarrow> files_mmap_free h \<Longrightarrow> safe (snd (runtime_run_workload h path prio S))"
  using reachable_step [OF _ sys_step.run] no_mmap_run by (auto simp: safe_def)

lemmas safe_kill = safe_admin_step [OF _ admin_step.kill]

lemmas safe_admin = safe_admin_step [OF _ admin_step.set_scheduler] safe_admin_step [OF _ admin_step.set_quantum]
  safe_admin_step [OF _ admin_step.set_trace] safe_admin_step [OF _ admin_step.start] safe_admin_step [OF _ admin_step.stop]
  safe_admin_step [OF _ admin_step.nice] safe_admin_step [OF _ admin_step.priority] safe_admin_step [OF _ admin_step.alarm]
  safe_admin_step [OF _ admin_step.policy]

lemma safe_alarms: "safe S \<Longrightarrow> safe (S\<lparr>sy_timer := (on_sigalrm ^^ n) (sy_timer S)\<rparr>)"
proof (induction n)
  case (Suc n)
  from safe_admin(8) [OF Suc.IH [OF Suc.prems]] show ?case by simp
qed simp

lemma step_returns_safe: "safe S \<Longrightarrow> \<exists>S'. runtime_step h n S = Some S' \<and> safe S'"
proof -
  assume S: "safe S"
  then have "no_mmap S" by (simp add: safe_def)
  then obtain S' where S': "step_ticks h (unat n) S = Some S'" "same_programs S S'" using ticks_return by blast
  then have r: "runtime_step h n S = Some S'" by (simp add: runtime_step_def)
  have "reachable S'" using S runtime_step_steps [OF r] by (auto simp: safe_def reachable_def intro: rtranclp_trans)
  then show ?thesis using r S no_mmap_programs [OF _ S'(2)] by (auto simp: safe_def)
qed

lemma live_returns: "safe S \<Longrightarrow> \<exists>S'. run_while_live hs n S = Some S' \<and> safe S'"
proof (induction n arbitrary: hs S)
  case (Suc n)
  obtain S1 where S1: "runtime_step (hs 0) 1 S = Some S1" "safe S1" using step_returns_safe [OF Suc.prems] by blast
  then show ?case using Suc.IH [OF S1(2), of "\<lambda>k. hs (Suc k)"] Suc.prems by auto
qed simp

lemma bench_one_returns:
  assumes "\<And>i. files_mmap_free (hs i)"
  shows "\<exists>S'. bench_one hs algo S = Some S'"
proof -
  have "safe (runtime_set_scheduler algo (runtime_init (hs 0) S))" by (intro safe_admin safe_init)
  note s4 = safe_run [OF safe_run [OF safe_run [OF this assms] assms] assms]
  obtain S5 where "run_while_live (\<lambda>k. hs (5 + k)) BENCH_MAX_TICKS
    (snd (runtime_run_workload (hs 3) ''workloads/mixed.wl'' MOSRT_DEFAULT_PRIO
      (snd (runtime_run_workload (hs 2) ''workloads/io_bound.wl'' MOSRT_DEFAULT_PRIO
        (snd (runtime_run_workload (hs 1) ''workloads/cpu_bound.wl'' MOSRT_DEFAULT_PRIO
          (runtime_set_scheduler algo (runtime_init (hs 0) S)))))))) = Some S5"
    using live_returns [OF s4] by blast
  then show ?thesis by (simp add: bench_one_def Let_def)
qed

lemma benchmark_returns:
  assumes "\<And>algo i. files_mmap_free (hs algo i)"
  shows "\<exists>S'. runtime_benchmark hs S = Some S'"
proof -
  have "\<exists>S'. fold (\<lambda>algo r. case r of None \<Rightarrow> None | Some S \<Rightarrow> bench_one (hs algo) algo S) algos (Some S) = Some S'" for algos
  proof (induction algos arbitrary: S)
    case (Cons algo algos)
    obtain S1 where "bench_one (hs algo) algo S = Some S1" using bench_one_returns [of "hs algo", OF assms] by blast
    then show ?case using Cons.IH by simp
  qed simp
  then show ?thesis unfolding runtime_benchmark_def .
qed

definition safe_handler :: "handler \<Rightarrow> bool" where
  "safe_handler f \<longleftrightarrow> (\<forall>E argv S. safe S \<longrightarrow> env_mmap_free E \<longrightarrow> (\<exists>S'. f E argv S = Some S' \<and> safe S'))"

lemma safe_handlers_call:
  "safe_handler cmd_run" "safe_handler cmd_kill" "safe_handler cmd_sched" "safe_handler cmd_quantum" "safe_handler cmd_trace"
  "safe_handler cmd_start" "safe_handler cmd_stop" "safe_handler cmd_nice" "safe_handler cmd_prio" "safe_handler cmd_policy"
  unfolding safe_handler_def cmd_run_def cmd_kill_def cmd_sched_def cmd_quantum_def cmd_trace_def cmd_start_def cmd_stop_def cmd_nice_def
    cmd_prio_def cmd_policy_def Let_def split_beta
  using safe_run safe_kill safe_admin
  by (auto simp: env_mmap_free_def split_beta split: option.split bool.split prod.split)

lemma safe_handlers_report:
  "safe_handler cmd_ps_cmd" "safe_handler cmd_queues" "safe_handler cmd_metrics_cmd" "safe_handler cmd_export" "safe_handler cmd_vmmap"
  "safe_handler cmd_pte" "safe_handler cmd_frames" "safe_handler cmd_tlb_cmd" "safe_handler cmd_vmem" "safe_handler cmd_help_cmd"
  unfolding safe_handler_def cmd_ps_cmd_def cmd_queues_def cmd_metrics_cmd_def cmd_export_def cmd_vmmap_def cmd_pte_def cmd_frames_def
    cmd_tlb_cmd_def cmd_vmem_def cmd_help_cmd_def cmd_help_def with_vm_def Let_def
  by (auto split: option.split)

lemma safe_handlers_run: "safe_handler cmd_step" "safe_handler cmd_reset" "safe_handler cmd_bench_cmd"
proof -
  show "safe_handler cmd_step" unfolding safe_handler_def cmd_step_def
  proof (intro allI impI)
    fix E argv S
    assume S: "safe S"
    obtain S' where "runtime_step (se_host E) (of_int (the (arg_int argv 1))) S = Some S'" "safe S'" using step_returns_safe [OF S] by blast
    then show "\<exists>S'. (case arg_int argv 1 of None \<Rightarrow> Some (say ''usage: step <n>'' S)
        | Some n \<Rightarrow> if n \<le> 0 then Some (say ''usage: step <n>'' S)
          else if \<not> rt_started S then Some (say (''error: runtime not started (use '' @ [CHR 0x27] @ ''start'' @ [CHR 0x27] @ '')'') S)
          else case runtime_step (se_host E) (of_int n) S of None \<Rightarrow> None
               | Some S1 \<Rightarrow> Some (say (''advanced '' @ dec_int n @ '' tick(s), now at tick='' @ dec_word (runtime_tick S1)) S1)) = Some S' \<and> safe S'"
      using S by (auto split: option.split)
  qed
  show "safe_handler cmd_reset" by (simp add: safe_handler_def cmd_reset_def)
  show "safe_handler cmd_bench_cmd" unfolding safe_handler_def cmd_bench_cmd_def
  proof (intro allI impI)
    fix E argv S
    assume "env_mmap_free E"
    then obtain S1 where "runtime_benchmark (se_bench E) S = Some S1" using benchmark_returns [of "se_bench E" S] by (auto simp: env_mmap_free_def)
    then show "\<exists>S'. (case runtime_benchmark (se_bench E) S of None \<Rightarrow> None | Some S1 \<Rightarrow> Some (runtime_init (se_host E) S1)) = Some S' \<and> safe S'" by simp
  qed
qed

lemma run_command_safe:
  assumes "safe S" "env_mmap_free E"
  shows "\<exists>S'. run_command E argv S = Some S' \<and> safe S'"
proof (cases "map_of k_commands (argv ! 0)")
  case None
  then show ?thesis using assms by (simp add: run_command_def)
next
  case (Some f)
  have "\<forall>x \<in> set k_commands. safe_handler (snd x)"
    by (simp add: k_commands_def safe_handlers_call safe_handlers_report safe_handlers_run)
  then have "safe_handler f" using map_of_SomeD [OF Some] by force
  then show ?thesis using assms Some by (simp add: run_command_def safe_handler_def)
qed


section \<open>Sessions\<close>

lemma shell_loop_returns:
  assumes "safe S" "\<And>k. env_mmap_free (env k)"
  shows "\<exists>S1 S'. shell_loop env k stdin S = Some S' \<and> safe S1 \<and> (S' = print [nl] S1 \<or> (\<exists>h. S' = runtime_shutdown h S1))"
  using assms
proof (induction env k stdin S rule: shell_loop.induct)
  case (1 env k stdin S)
  define S1 where "S1 = print ''mosrt> '' S"
  have s1: "safe S1" using 1(3) by (simp add: S1_def)
  show ?case
  proof (cases "fgets SHELL_MAX_LINE stdin")
    case None
    then show ?thesis using s1 by (subst shell_loop.simps) (auto simp: S1_def Let_def)
  next
    case (Some x)
    obtain line stdin' where x: "fgets SHELL_MAX_LINE stdin = Some (line, stdin')" using Some by (cases x) simp
    define S2 where "S2 = S1\<lparr>sy_timer := (on_sigalrm ^^ se_alarms (env k)) (sy_timer S1)\<rparr>"
    have s2: "safe S2" unfolding S2_def by (rule safe_alarms [OF s1])
    note IH = 1(1,2) [OF S1_def x refl refl refl S2_def]
    obtain S3 where c: "run_command (env k) (split_args line) S2 = Some S3" "safe S3" using run_command_safe [OF s2 1(4)] by blast
    show ?thesis
    proof (cases "split_args line = []")
      case True
      then show ?thesis using IH(1) [OF True s2 1(4)] x by (subst shell_loop.simps) (simp add: S1_def S2_def Let_def)
    next
      case ne: False
      show ?thesis
      proof (cases "split_args line ! 0 = ''exit'' \<or> split_args line ! 0 = ''quit''")
        case True
        have "shell_loop env k stdin S = Some (runtime_shutdown (se_host (env k)) S2)"
          using True ne x by (subst shell_loop.simps) (simp add: S1_def S2_def Let_def)
        then show ?thesis using s2 by blast
      next
        case False
        have "shell_loop env k stdin S = shell_loop env (Suc k) stdin' S3"
          using False ne x c(1) by (subst shell_loop.simps) (simp add: S1_def S2_def Let_def)
        then show ?thesis using IH(2) [OF ne False c 1(4)] by simp
      qed
    qed
  qed
qed

definition released :: "nat \<Rightarrow> mem \<Rightarrow> bool" where
  "released i w \<longleftrightarrow> p_stack (entries (w_pt w) i) = None \<and> p_vm (entries (w_pt w) i) = None"

lemma released_step:
  "j = i \<or> released j w \<Longrightarrow> released j (release_vm i (w\<lparr>w_pt := release_stack e i (w_pt w)\<rparr>))"
  by (cases "p_vm (entries (w_pt w) i)") (auto simp: released_def release_vm_def set_entry_def release_stack_def Let_def)

lemma shutdown_releases:
  assumes "i < 1024"
  shows "released i (sy_mem (runtime_shutdown h S))"
proof -
  let ?f = "\<lambda>i w. release_vm i (w\<lparr>w_pt := release_stack (h_os h) i (w_pt w)\<rparr>)"
  have "i \<in> set xs \<or> released i w \<Longrightarrow> released i (fold ?f xs w)" for xs w
  proof (induction xs arbitrary: w)
    case (Cons j xs)
    then have "i \<in> set xs \<or> released i (?f j w)" using released_step by auto
    then show ?case using Cons.IH by simp
  qed simp
  moreover have "i \<in> set [0..<1024]" using assms by simp
  ultimately have "released i (proc_table_shutdown (h_os h) (sy_mem S))" unfolding proc_table_shutdown_def MOSRT_MAX_PROCS_def by blast
  then show ?thesis by (simp add: runtime_shutdown_def vm_shutdown_def released_def)
qed

definition sample_env :: "nat \<Rightarrow> shell_env" where
  "sample_env k = \<lparr>se_alarms = k, se_hosts = (\<lambda>_. sample_host), se_bench = (\<lambda>_ _. sample_host)\<rparr>"

lemma sample_mmap_free: "env_mmap_free (sample_env k)"
  by (simp add: env_mmap_free_def sample_env_def sample_host_mmap_free)


section \<open>Properties\<close>

text \<open>C24. A shell session always ends, and cleanly: whatever is typed, however the environment answers and however many
  timer signals arrive between the commands, as long as no workload file contains \<^verbatim>\<open>MMAP\<close> every
  command returns and the program ends. The state at the last prompt, and so at every prompt, is
  a reachable one, so the runtime invariant holds there; at the end no process in the table has
  a stack or an address space.\<close>

theorem shell_session:
  assumes "\<And>k. env_mmap_free (env k)"
  shows "\<exists>S1 S2 S'. mosrt_main env h h' stdin = Some S' \<and> reachable S1 \<and>
    (S2 = print [nl] S1 \<or> (\<exists>h''. S2 = runtime_shutdown h'' S1)) \<and> S' = runtime_shutdown h' S2 \<and>
    (\<forall>i < 1024. p_stack (entries (ptable S') i) = None \<and> p_vm (entries (ptable S') i) = None)"
proof -
  define S0 where "S0 = say (''MOSRT shell (type '' @ [CHR 0x27] @ ''help'' @ [CHR 0x27] @ '' for commands)'') (runtime_init h zero_sys)"
  have s0: "safe S0" by (simp add: S0_def)
  obtain S1 S2 where L: "shell_loop env 0 stdin S0 = Some S2" "safe S1" "S2 = print [nl] S1 \<or> (\<exists>h. S2 = runtime_shutdown h S1)"
    using shell_loop_returns [where env = env and k = 0 and stdin = stdin, OF s0 assms] by blast
  have "mosrt_main env h h' stdin = Some (runtime_shutdown h' S2)"
    using L(1) by (simp add: mosrt_main_def shell_run_repl_def S0_def Let_def)
  then show ?thesis using L(2,3) shutdown_releases [of _ h' S2] by (auto simp: safe_def released_def)
qed

theorem shell_session_witness:
  "\<exists>S'. mosrt_main sample_env sample_host sample_host (''run a.wl'' @ [nl] @ ''start'' @ [nl] @ ''step 9'' @ [nl] @ ''kill 1'' @ [nl]) = Some S' \<and>
     p_stack (entries (ptable S') 0) = None"
proof -
  obtain S' where "mosrt_main sample_env sample_host sample_host (''run a.wl'' @ [nl] @ ''start'' @ [nl] @ ''step 9'' @ [nl] @ ''kill 1'' @ [nl]) = Some S'"
    "\<forall>i < 1024. p_stack (entries (ptable S') i) = None \<and> p_vm (entries (ptable S') i) = None"
    using shell_session [of sample_env, OF sample_mmap_free] by blast
  then show ?thesis by simp
qed

end
