(* ===== verification/Bench.thy ===== *)
theory Bench
  imports Shell
begin

text \<open>
  \<^verbatim>\<open>tools/mosrt_bench.c\<close>: the stand-alone benchmark program. It runs every case under every
  scheduling policy and writes one row per run to a CSV file and to a Markdown file; the rows are
  the strings returned here. Each call meets the next of a sequence of environments.
\<close>

record bench_case =
  bc_name :: string
  bc_workload :: string
  bc_processes :: u32
  bc_max_ticks :: u32

record bench_metrics =
  bm_completed :: u32
  bm_turnaround_sum :: u64
  bm_wait_sum :: u64
  bm_response_sum :: u64

definition k_algos :: "sched_algo list" where
  "k_algos = [SCHED_FCFS, SCHED_RR, SCHED_PRIO, SCHED_MLFQ]"

definition k_cases :: "bench_case list" where
  "k_cases =
     [\<lparr>bc_name = ''cpu_bound'', bc_workload = ''benchmarks/workloads/cpu_bound.wl'', bc_processes = 4, bc_max_ticks = 2000\<rparr>,
      \<lparr>bc_name = ''io_bound'', bc_workload = ''benchmarks/workloads/io_bound.wl'', bc_processes = 4, bc_max_ticks = 2000\<rparr>,
      \<lparr>bc_name = ''mixed'', bc_workload = ''benchmarks/workloads/mixed.wl'', bc_processes = 4, bc_max_ticks = 2000\<rparr>,
      \<lparr>bc_name = ''100_process'', bc_workload = ''benchmarks/workloads/tiny_mixed.wl'', bc_processes = 100, bc_max_ticks = 5000\<rparr>,
      \<lparr>bc_name = ''1000_process'', bc_workload = ''benchmarks/workloads/tiny_cpu.wl'', bc_processes = 1000, bc_max_ticks = 5000\<rparr>]"

definition collect_one :: "pcb \<Rightarrow> bench_metrics \<Rightarrow> bench_metrics" where
  "collect_one p m =
     (if p_state p \<noteq> PROC_EXITED then m
      else
        (let m1 = m\<lparr>bm_completed := bm_completed m + 1,
                    bm_turnaround_sum := bm_turnaround_sum m + (p_finish_tick p - p_start_tick p),
                    bm_wait_sum := bm_wait_sum m + p_wait_time p\<rparr>
         in if p_response_time p \<noteq> UINT64_MAX then m1\<lparr>bm_response_sum := bm_response_sum m1 + p_response_time p\<rparr> else m1))"

definition collect_all :: "process_table \<Rightarrow> bench_metrics" where
  "collect_all t =
     proc_fold (\<lambda>_. t) (\<lambda>i. collect_one (entries t i))
       \<lparr>bm_completed = 0, bm_turnaround_sum = 0, bm_wait_sum = 0, bm_response_sum = 0\<rparr>"

text \<open>The loop that creates processes number \<open>i\<close> onwards; it stops at the first that cannot be created.\<close>

fun start_processes :: "(nat \<Rightarrow> host) \<Rightarrow> string \<Rightarrow> nat \<Rightarrow> nat \<Rightarrow> sys \<Rightarrow> bool \<times> sys" where
  "start_processes hs path i 0 S = (True, S)"
| "start_processes hs path i (Suc n) S =
     (let prio = MOSRT_DEFAULT_PRIO + int (i mod 5);
          (pid, S1) = runtime_run_workload (hs i) path prio S
      in if pid < 0 then (False, S1) else start_processes hs path (Suc i) n S1)"

text \<open>The ten columns of a row.\<close>

definition row_columns :: "bench_case \<Rightarrow> sched_algo \<Rightarrow> sys \<Rightarrow> string list" where
  "row_columns c algo S =
     (let m = collect_all (ptable S); total_ticks = rt_busy_ticks S + rt_idle_ticks S
      in [bc_name c, sched_algo_name algo, dec_word (bc_processes c), dec_word (runtime_tick S), dec_word (bm_completed m),
          fmt_f 2 (percent (rt_busy_ticks S) total_ticks),
          fmt_f 6 (ratio (bm_completed m) (runtime_tick S)),
          fmt_f 2 (ratio (bm_turnaround_sum m) (bm_completed m)),
          fmt_f 2 (ratio (bm_wait_sum m) (bm_completed m)),
          fmt_f 2 (ratio (bm_response_sum m) (bm_completed m))])"

fun separated :: "string \<Rightarrow> string list \<Rightarrow> string" where
  "separated sep [] = []"
| "separated sep [x] = x"
| "separated sep (x # y # xs) = x @ sep @ separated sep (y # xs)"

definition csv_line :: "string list \<Rightarrow> string" where
  "csv_line cols = separated '','' cols @ [nl]"

definition md_line :: "string list \<Rightarrow> string" where
  "md_line cols = ''| '' @ separated '' | '' cols @ '' |'' @ [nl]"

record bench_hosts =
  bh_init :: host
  bh_run :: "nat \<Rightarrow> host"
  bh_start :: host
  bh_step :: "nat \<Rightarrow> host"
  bh_stop :: host
  bh_shutdown :: host

definition run_case :: "bench_hosts \<Rightarrow> bench_case \<Rightarrow> sched_algo \<Rightarrow> sys \<Rightarrow> (int \<times> string \<times> string \<times> sys) option" where
  "run_case H c algo S =
     (let S1 = runtime_set_quantum 4 (runtime_set_scheduler algo (runtime_init (bh_init H) S));
          (ok, S2) = start_processes (bh_run H) (bc_workload c) 0 (unat (bc_processes c)) S1
      in if \<not> ok then Some (-1, [], [], runtime_shutdown (bh_shutdown H) S2)
         else case run_while_live (bh_step H) (unat (bc_max_ticks c)) (snd (runtime_start (bh_start H) S2)) of
                None \<Rightarrow> None
              | Some S3 \<Rightarrow>
                  (let S4 = runtime_stop (bh_stop H) S3; cols = row_columns c algo S4
                   in Some (0, csv_line cols, md_line cols, runtime_shutdown (bh_shutdown H) S4)))"

definition csv_header :: string where
  "csv_header = ''scenario,scheduler,processes,ticks,completed,cpu_util,throughput,avg_turnaround,avg_wait,avg_response'' @ [nl]"

definition md_header :: string where
  "md_header = ''# MOSRT Scheduler Benchmark Results'' @ [nl, nl] @
     ''| Scenario | Scheduler | Processes | Ticks | Completed | CPU Util % | Throughput | Avg Turnaround | Avg Wait | Avg Response |'' @ [nl] @
     ''|---|---:|---:|---:|---:|---:|---:|---:|---:|---:|'' @ [nl]"

definition run_and_write ::
  "bench_hosts \<Rightarrow> bench_case \<times> sched_algo \<Rightarrow> (int \<times> string \<times> string \<times> sys) option \<Rightarrow> (int \<times> string \<times> string \<times> sys) option" where
  "run_and_write H x r =
     (case r of
        None \<Rightarrow> None
      | Some (rc, csv, md, S) \<Rightarrow>
          (case run_case H (fst x) (snd x) S of
             None \<Rightarrow> None
           | Some (e, row, line, S1) \<Rightarrow> Some (if e \<noteq> 0 then 1 else rc, csv @ row, md @ line, S1)))"

text \<open>
  \<^verbatim>\<open>main\<close>: the exit status and the contents of the two files, \<open>None\<close> for a file that has not been
  created; when the second cannot be created, the first stays empty. \<open>Hs\<close> gives the environments
  of each run.
\<close>

definition bench_main ::
  "bool \<Rightarrow> bool \<Rightarrow> (bench_case \<times> sched_algo \<Rightarrow> bench_hosts) \<Rightarrow> sys \<Rightarrow> (int \<times> string option \<times> string option) option" where
  "bench_main csv_ok md_ok Hs S =
     (if \<not> csv_ok then Some (1, None, None)
      else if \<not> md_ok then Some (1, Some [], None)
      else map_option (\<lambda>(rc, csv, md, S). (rc, Some csv, Some md))
             (fold (\<lambda>x. run_and_write (Hs x) x) (List.product k_cases k_algos) (Some (0, csv_header, md_header, S))))"


section \<open>The program returns\<close>

definition hosts_mmap_free :: "bench_hosts \<Rightarrow> bool" where
  "hosts_mmap_free H \<longleftrightarrow> (\<forall>i. files_mmap_free (bh_run H i))"

lemma start_processes_safe: "safe S \<Longrightarrow> (\<And>i. files_mmap_free (hs i)) \<Longrightarrow> safe (snd (start_processes hs path i n S))"
proof (induction n arbitrary: i S)
  case (Suc n)
  note R = safe_run [OF Suc.prems(1) Suc.prems(2) [of i], of path "MOSRT_DEFAULT_PRIO + int (i mod 5)"]
  show ?case using R Suc.IH [OF R Suc.prems(2), of "Suc i"] by (simp add: Let_def split_beta)
qed simp

lemma run_case_returns:
  assumes "hosts_mmap_free H"
  shows "\<exists>e row line S'. run_case H c algo S = Some (e, row, line, S') \<and> e \<in> {0, -1}"
proof -
  define S1 where "S1 = runtime_set_quantum 4 (runtime_set_scheduler algo (runtime_init (bh_init H) S))"
  obtain ok S2 where s: "start_processes (bh_run H) (bc_workload c) 0 (unat (bc_processes c)) S1 = (ok, S2)" by fastforce
  have "safe S1" unfolding S1_def by (intro safe_admin safe_init)
  then have "safe S2" using start_processes_safe [of S1 "bh_run H"] assms s by (metis hosts_mmap_free_def snd_conv)
  then obtain S3 where "run_while_live (bh_step H) (unat (bc_max_ticks c)) (snd (runtime_start (bh_start H) S2)) = Some S3"
    using live_returns [OF safe_admin(4)] by blast
  then show ?thesis using s by (cases ok) (simp_all add: run_case_def S1_def [symmetric] Let_def)
qed

lemma bench_main_returns:
  assumes "\<And>x. hosts_mmap_free (Hs x)"
  shows "\<exists>rc files. bench_main csv_ok md_ok Hs S = Some (rc, files) \<and> rc \<in> {0, 1}"
proof -
  have "\<exists>rc csv md S'. fold (\<lambda>x. run_and_write (Hs x) x) xs (Some (r, c, m, S)) = Some (rc, csv, md, S') \<and> rc \<in> {0, 1}"
    if "r \<in> {0, 1}" for xs r c m
    using that
  proof (induction xs arbitrary: r c m S)
    case (Cons x xs)
    obtain e row line S1 where e: "run_case (Hs x) (fst x) (snd x) S = Some (e, row, line, S1)" using run_case_returns [OF assms] by blast
    have "(if e \<noteq> 0 then 1 else r) \<in> {0, 1}" using Cons.prems by simp
    from Cons.IH [OF this] show ?case using e by (simp add: run_and_write_def)
  qed auto
  from this [of 0 "List.product k_cases k_algos" csv_header md_header] show ?thesis by (auto simp: bench_main_def)
qed

end
