(* ===== verification/Runtime_Fair.thy ===== *)
theory Runtime_Fair
  imports Runtime_Memory
begin

text \<open>
  Fairness of round robin, through the runtime, the scheduler and the programs: a ready process is
  dispatched after a number of rounds bounded by its place in the queue and the quantum.
\<close>

named_theorems rr_keeps \<open>operations that add to the end of the ready queue at most\<close>


section \<open>The queue grows at its end only\<close>

definition rr_grows :: "sys \<Rightarrow> sys \<Rightarrow> bool" where
  "rr_grows S S' \<longleftrightarrow>
     (let s = rt_scheduler S; s' = rt_scheduler S'
      in s_algo s' = s_algo s \<and> s_quantum_ticks s' = s_quantum_ticks s \<and> s_current_pid s' = s_current_pid s \<and>
         s_consumed_ticks s' = s_consumed_ticks s \<and> sy_slot_by_pid S' = sy_slot_by_pid S \<and>
         (ring_ok (s_rr s) \<longrightarrow> ring_ok (s_rr s') \<and> (\<exists>xs. ring_view (s_rr s') = ring_view (s_rr s) @ xs)))"

lemma rr_grows_refl [rr_keeps]: "rr_grows S S"
  by (simp add: rr_grows_def Let_def)

lemma rr_grows_trans: "rr_grows S T \<Longrightarrow> rr_grows T U \<Longrightarrow> rr_grows S U"
  unfolding rr_grows_def Let_def by (metis append.assoc)

lemma rr_grows_same: "rr_grows S T \<Longrightarrow> rt_scheduler U = rt_scheduler T \<Longrightarrow> sy_slot_by_pid U = sy_slot_by_pid T \<Longrightarrow> rr_grows S U"
  by (simp add: rr_grows_def)

lemma rr_grows_fields [rr_keeps]:
  assumes "rr_grows S T"
  shows "rr_grows S (trace q e d T)" "rr_grows S (print txt T)" "rr_grows S (set_slot i f T)" "rr_grows S (complete_immediate i T)"
    "rr_grows S (set_ptable t T)" "rr_grows S (T\<lparr>sy_ipc := g\<rparr>)" "rr_grows S (T\<lparr>sy_sync := y\<rparr>)" "rr_grows S (T\<lparr>sy_timer := tm\<rparr>)"
    "rr_grows S (T\<lparr>sy_mem := w\<rparr>)" "rr_grows S (T\<lparr>rt_current_pid := c\<rparr>)"
    "rr_grows S (T\<lparr>rt_need_resched := b\<rparr>)" "rr_grows S (T\<lparr>rt_completed := k\<rparr>)"
  by (rule rr_grows_same [OF assms]; simp add: print_def complete_immediate_def)+

lemma rr_grows_if [rr_keeps]:
  "(b \<Longrightarrow> rr_grows S T) \<Longrightarrow> (\<not> b \<Longrightarrow> rr_grows S U) \<Longrightarrow> rr_grows S (if b then T else U)"
  "rr_grows S T \<Longrightarrow> rr_grows S (snd (r, T))"
  "(b \<Longrightarrow> rr_grows S (snd x)) \<Longrightarrow> (\<not> b \<Longrightarrow> rr_grows S (snd y)) \<Longrightarrow> rr_grows S (snd (if b then x else y))"
  by simp_all

lemma heap_push_queue: "s_rr (snd (heap_push t s q)) = s_rr s \<and> s_algo (snd (heap_push t s q)) = s_algo s \<and>
    s_quantum_ticks (snd (heap_push t s q)) = s_quantum_ticks s \<and> s_current_pid (snd (heap_push t s q)) = s_current_pid s \<and>
    s_consumed_ticks (snd (heap_push t s q)) = s_consumed_ticks s"
  by (simp add: heap_push_def Let_def)

lemma rr_grows_enqueue [rr_keeps]: "rr_grows S T \<Longrightarrow> rr_grows S (enqueue_ready q T)"
proof -
  assume "rr_grows S T"
  moreover have "rr_grows T (T\<lparr>rt_scheduler := snd (sched_enqueue t (rt_scheduler T) q)\<rparr>)" for t
    using queue_push_view [of "s_rr (rt_scheduler T)" q] heap_push_queue [of t "rt_scheduler T" q]
    by (auto simp: rr_grows_def sched_enqueue_def Let_def split_beta split: option.split)
  then have "rr_grows T (enqueue_ready q T)"
    unfolding enqueue_ready_def Let_def split_beta by (auto intro!: rr_keeps simp: rr_grows_def)
  ultimately show ?thesis by (rule rr_grows_trans)
qed

lemma rr_grows_wake [rr_keeps]: "rr_grows S T \<Longrightarrow> rr_grows S (wake_pid q why T)"
  by (auto simp: wake_pid_def intro!: rr_keeps split: option.split)

lemma rr_grows_refresh:
  assumes "s_algo (rt_scheduler S) = SCHED_RR"
  shows "rr_grows S (refresh_queues S)"
proof -
  let ?T = "proc_fold ptable wake_blocked_by_time S"
  have w: "rr_grows S (wake_blocked_by_time i U)" if "rr_grows S U" for i U
    unfolding wake_blocked_by_time_def Let_def by (intro rr_keeps that)
  have T: "rr_grows S ?T" by (rule proc_fold_inv [where P = "rr_grows S"]) (erule w, rule rr_grows_refl)
  then have "s_algo (rt_scheduler ?T) = SCHED_RR" using assms by (simp add: rr_grows_def Let_def)
  then have "refresh_queues S = set_ptable (sched_age_ready (rt_scheduler ?T) (rt_tick ?T) (ptable ?T)) ?T"
    by (simp add: refresh_queues_def boost_queues_def boost_due_def sched_algo_def Let_def)
  then show ?thesis using T by (simp add: rr_grows_fields)
qed

lemma rr_grows_leave [rr_keeps]:
  assumes "rr_grows S T"
  shows "rr_grows S (exit_current e c T)" "rr_grows S (block_current why T)" "rr_grows S (maybe_preempt T)"
  unfolding exit_current_def block_current_def maybe_preempt_def Let_def split_beta by (intro rr_keeps assms)+

lemma rr_grows_exec:
  "rr_grows S (snd (exec_io e q i insn S))" "rr_grows S (snd (exec_send e q i insn S))" "rr_grows S (snd (exec_recv e q i insn S))"
  "rr_grows S (snd (exec_sem_wait e q i insn S))" "rr_grows S (snd (exec_sem_post e q i insn S))" "rr_grows S (snd (exec_lock e q i insn S))"
  "rr_grows S (snd (exec_unlock e q i insn S))"
  unfolding exec_io_def exec_send_def exec_recv_def exec_sem_wait_def exec_sem_post_def exec_lock_def exec_unlock_def Let_def split_beta
  by (intro rr_keeps)+

lemma rr_grows_case:
  "(x = None \<Longrightarrow> rr_grows S (snd a)) \<Longrightarrow> (\<And>y. x = Some y \<Longrightarrow> rr_grows S (snd (f y))) \<Longrightarrow> rr_grows S (snd (case x of None \<Rightarrow> a | Some y \<Rightarrow> f y))"
  by (simp split: option.split)

lemma rr_grows_exec_mem: "rr_grows S (snd (exec_access e q i insn S))" "rr_grows S (snd (exec_mfree h q i S))"
  unfolding exec_access_def exec_mfree_def Let_def split_beta by (intro rr_keeps rr_grows_case)+


section \<open>The tenure of a running process\<close>

text \<open>
  The rounds for which the current process can stay: one per tick of its quantum that is left, and one
  per instruction that takes no time. The counter of ticks has 32 bits and may be about to wrap around when the
  quantum has been shortened.
\<close>

definition ticks_left :: "scheduler \<Rightarrow> nat" where
  "ticks_left s = (if s_consumed_ticks s = -1 then Suc (unat (s_quantum_ticks s)) else unat (s_quantum_ticks s) - unat (s_consumed_ticks s))"

definition insns_left :: "sys \<Rightarrow> nat" where
  "insns_left S = (let sl = rt_slots S (nat (sy_slot_by_pid S (nat (rt_current_pid S - 1)))) in wl_count (sl_workload sl) - sl_pc sl)"

definition tenure :: "sys \<Rightarrow> nat" where
  "tenure S = (if rt_current_pid S < 0 then 0 else Suc (ticks_left (rt_scheduler S) + insns_left S))"

text \<open>The scheduler counts the ticks of the process that is running.\<close>

definition charged :: "sys \<Rightarrow> bool" where
  "charged S \<longleftrightarrow> 0 \<le> rt_current_pid S \<longrightarrow> s_current_pid (rt_scheduler S) = rt_current_pid S"

lemma leave_current [simp]:
  "0 \<le> rt_current_pid S \<Longrightarrow> rt_current_pid (exit_current e c S) = -1" "0 \<le> rt_current_pid S \<Longrightarrow> rt_current_pid (block_current why S) = -1"
  by (simp_all add: exit_current_def block_current_def Let_def split_beta)

lemma slot_of_index: "slot_index q S = Some i \<Longrightarrow> i = nat (sy_slot_by_pid S (nat (q - 1)))"
  by (auto simp: slot_index_def Let_def split: if_splits)

text \<open>An instruction other than a CPU burst is done at once, or the process leaves.\<close>

definition immediate :: "nat \<Rightarrow> sys \<Rightarrow> sys \<Rightarrow> bool" where
  "immediate i S S' \<longleftrightarrow> rt_current_pid S' = -1 \<or> rt_current_pid S' = rt_current_pid S \<and> sl_pc (rt_slots S' i) = Suc (sl_pc (rt_slots S i))"

lemma immediate_exec:
  assumes "0 \<le> rt_current_pid S" "q = rt_current_pid S"
  shows "immediate i S (snd (exec_io e q i insn S))" "immediate i S (snd (exec_send e q i insn S))" "immediate i S (snd (exec_recv e q i insn S))"
    "immediate i S (snd (exec_sem_wait e q i insn S))" "immediate i S (snd (exec_sem_post e q i insn S))" "immediate i S (snd (exec_lock e q i insn S))"
    "immediate i S (snd (exec_unlock e q i insn S))" "immediate i S (snd (exec_access e q i insn S))" "immediate i S (snd (exec_mfree h q i S))"
  using assms
  by (auto simp: immediate_def exec_io_def exec_send_def exec_recv_def exec_sem_wait_def exec_sem_post_def exec_lock_def exec_unlock_def
      exec_access_def exec_mfree_def complete_immediate_def Let_def split_beta split: option.split)

text \<open>A CPU burst uses up a tick of the quantum.\<close>

lemma maybe_preempt_current: "rt_current_pid (maybe_preempt S) = -1 \<or> maybe_preempt S = S \<and> \<not> sched_should_preempt (ptable S) (rt_scheduler S) (rt_current_pid S)"
  if "0 \<le> rt_current_pid S"
  using that by (auto simp: maybe_preempt_def Let_def)

lemma exec_cpu_slots:
  "sy_slot_by_pid (snd (exec_cpu e q i insn S)) = sy_slot_by_pid S" "sl_pc (rt_slots S i) \<le> sl_pc (rt_slots (snd (exec_cpu e q i insn S)) i)"
proof -
  have "rr_grows T (maybe_preempt T)" "rr_grows T (exit_current e c T)" for T c by (intro rr_keeps)+
  then have m: "sy_slot_by_pid (maybe_preempt T) = sy_slot_by_pid T" "sy_slot_by_pid (exit_current e c T) = sy_slot_by_pid T" for T c
    by (simp_all add: rr_grows_def Let_def)
  then show "sy_slot_by_pid (snd (exec_cpu e q i insn S)) = sy_slot_by_pid S" by (simp add: exec_cpu_def Let_def)
  show "sl_pc (rt_slots S i) \<le> sl_pc (rt_slots (snd (exec_cpu e q i insn S)) i)" by (simp add: exec_cpu_def Let_def)
qed

lemma cpu_tick_left:
  assumes "s_current_pid s = q" "\<not> s_quantum_ticks s \<le> s_consumed_ticks (sched_on_tick s q)"
  shows "ticks_left (sched_on_tick s q) < ticks_left s"
proof -
  let ?c = "s_consumed_ticks s" and ?Q = "s_quantum_ticks s"
  have q: "\<not> ?Q \<le> ?c + 1" using assms by (simp add: sched_on_tick_def)
  have n: "?c + 1 \<noteq> -1"
  proof
    assume "?c + 1 = -1"
    then show False using q unfolding \<open>?c + 1 = -1\<close> by simp
  qed
  have lt: "unat (?c + 1) < unat ?Q" using q by (simp add: word_le_nat_alt)
  show ?thesis
  proof (cases "?c = -1")
    case True
    then show ?thesis using assms(1) n by (simp add: ticks_left_def sched_on_tick_def)
  next
    case False
    then have "1 + ?c \<noteq> 0" by (metis add.commute eq_neg_iff_add_eq_0)
    then have "unat (?c + 1) = Suc (unat ?c)" by (simp add: unatSuc add.commute)
    then show ?thesis using assms(1) n lt False by (simp add: ticks_left_def sched_on_tick_def)
  qed
qed

lemma tenure_bound:
  assumes "rt_inv S"
  shows "tenure S < unat (s_quantum_ticks (rt_scheduler S)) + 131"
proof (cases "rt_current_pid S < 0")
  case False
  obtain i where i: "slot_index (rt_current_pid S) S = Some i" by (rule current_insn [OF assms]) (use False in auto)
  have "slot_wf (next_pid (ptable S)) (sy_slot_by_pid S) i (rt_slots S i)"
    using rt_invD(4) [OF assms] slot_indexD(1,2) [OF i] by (simp add: programs_def)
  then have "insns_left S \<le> 128" by (auto simp: insns_left_def slot_of_index [OF i, symmetric] slot_wf_def workload_wf_def Let_def)
  moreover have "ticks_left (rt_scheduler S) \<le> Suc (unat (s_quantum_ticks (rt_scheduler S)))" by (simp add: ticks_left_def le_SucI)
  ultimately show ?thesis by (simp add: tenure_def)
qed (simp add: tenure_def)

text \<open>Executing an instruction of the current process shortens its tenure.\<close>

definition rr_runs_on :: "sys \<Rightarrow> sys \<Rightarrow> bool" where
  "rr_runs_on S S' \<longleftrightarrow> s_algo (rt_scheduler S') = SCHED_RR \<and> s_quantum_ticks (rt_scheduler S') = s_quantum_ticks (rt_scheduler S) \<and> charged S' \<and>
     (\<exists>xs. ring_view (s_rr (rt_scheduler S')) = ring_view (s_rr (rt_scheduler S)) @ xs)"

lemma execute_other:
  assumes "at_insn S i insn" "s_algo (rt_scheduler S) = SCHED_RR" "charged S" "same_programs S S'" "rr_grows S S'" "immediate i S S'"
  shows "rr_runs_on S S' \<and> tenure S' < tenure S"
proof -
  note A = at_insnD [OF assms(1)]
  have i: "i = nat (sy_slot_by_pid S (nat (rt_current_pid S - 1)))" using assms(1) by (auto simp: at_insn_def dest: slot_of_index)
  have "ring_ok (s_rr (rt_scheduler S))" using rt_invD(2) [OF A(1)] by (simp add: sched_exact_def sched_inv_def)
  then have "rr_runs_on S S'" using assms(2,3,5,6) by (auto simp: rr_runs_on_def rr_grows_def immediate_def charged_def Let_def)
  moreover have "tenure S' < tenure S"
  proof (cases "rt_current_pid S' = -1")
    case False
    then have c: "rt_current_pid S' = rt_current_pid S" "sl_pc (rt_slots S' i) = Suc (sl_pc (rt_slots S i))" using assms(6) by (auto simp: immediate_def)
    have "ticks_left (rt_scheduler S') = ticks_left (rt_scheduler S)" "sy_slot_by_pid S' = sy_slot_by_pid S"
      using assms(5) by (simp_all add: rr_grows_def ticks_left_def Let_def)
    then show ?thesis using A(2,5) c assms(4) by (auto simp: tenure_def insns_left_def i [symmetric] same_programs_def Let_def)
  qed (use A(2) in \<open>simp add: tenure_def\<close>)
  ultimately show ?thesis by blast
qed

lemma execute_cpu:
  assumes "at_insn S i insn" "wi_op insn = WORKLOAD_CPU" "s_algo (rt_scheduler S) = SCHED_RR" "charged S"
    and S'_def: "S' = snd (exec_cpu e (rt_current_pid S) i insn S)"
  shows "rr_runs_on S S' \<and> tenure S' < tenure S"
proof -
  note A = at_insnD [OF assms(1)]
  let ?q = "rt_current_pid S" and ?s = "rt_scheduler S"
  have i: "i = nat (sy_slot_by_pid S (nat (?q - 1)))" using assms(1) by (auto simp: at_insn_def dest: slot_of_index)
  obtain T where T: "rt_current_pid T = ?q" "rt_scheduler T = sched_on_tick ?s ?q" "S' = maybe_preempt T"
  proof -
    obtain S5 where "rt_current_pid S5 = ?q" "rt_scheduler S5 = sched_on_tick ?s ?q"
      "exec_cpu e ?q i insn S = (True, maybe_preempt (trace ?q ''CPU'' ''tick'' S5))"
      by (rule exec_cpu_eq [OF assms(1,2), where e = e]) blast
    then show ?thesis using that [of "trace ?q ''CPU'' ''tick'' S5"] by (simp add: S'_def)
  qed
  have q: "s_current_pid ?s = ?q" using assms(4) A(2) by (simp add: charged_def)
  then have s: "s_algo (rt_scheduler T) = SCHED_RR" "s_quantum_ticks (rt_scheduler T) = s_quantum_ticks ?s" "s_current_pid (rt_scheduler T) = ?q"
    "s_rr (rt_scheduler T) = s_rr ?s" using assms(3) by (simp_all add: T(2) sched_on_tick_def)
  have g: "rr_grows T S'" unfolding T(3) by (intro rr_keeps)
  have "ring_ok (s_rr ?s)" using rt_invD(2) [OF A(1)] by (simp add: sched_exact_def sched_inv_def)
  moreover have stay: "rt_current_pid S' = -1 \<or> S' = T \<and> \<not> s_quantum_ticks ?s \<le> s_consumed_ticks (sched_on_tick ?s ?q)"
    using maybe_preempt_current [of T] A(2) assms(3) s(2) T by (auto simp: sched_should_preempt_def sched_on_tick_def split: if_splits)
  ultimately have "rr_runs_on S S'" using g s T(1) by (auto simp: rr_runs_on_def rr_grows_def charged_def Let_def)
  moreover have "tenure S' < tenure S"
  proof (cases "rt_current_pid S' = -1")
    case False
    then have "S' = T" "ticks_left (rt_scheduler S') < ticks_left ?s" using stay cpu_tick_left [OF q] T(2) by auto
    moreover have "same_programs S S'" using exec_programs_cpu unfolding S'_def by (metis prod.collapse)
    then have "insns_left S' \<le> insns_left S"
      using exec_cpu_slots(1) [of e ?q i insn S] exec_cpu_slots(2) [of S i e ?q insn] T(1) \<open>S' = T\<close>
      unfolding insns_left_def S'_def [symmetric] Let_def by (simp add: i [symmetric] same_programs_def)
    ultimately show ?thesis using A(2) T(1) by (simp add: tenure_def)
  qed (use A(2) in \<open>simp add: tenure_def\<close>)
  ultimately show ?thesis by blast
qed

lemma execute_tenure:
  assumes "rt_inv S" "0 \<le> rt_current_pid S" "s_algo (rt_scheduler S) = SCHED_RR" "charged S" "no_mmap S" "execute_instruction h S = Some (b, S')"
  shows "rr_runs_on S S' \<and> tenure S' < tenure S"
  using assms(1,2)
proof (cases rule: execute_cases [where h = h])
  case exit
  then have S': "S' = exit_current (h_os h) 0 S" using assms(6) by simp
  have "ring_ok (s_rr (rt_scheduler S))" using rt_invD(2) [OF assms(1)] by (simp add: sched_exact_def sched_inv_def)
  moreover have "rr_grows S S'" unfolding S' by (intro rr_keeps)
  ultimately show ?thesis using assms(2-4) by (auto simp: S' rr_runs_on_def rr_grows_def charged_def tenure_def Let_def)
next
  case (insn i insn)
  have "wi_op insn \<noteq> WORKLOAD_MMAP"
    using assms(5) at_insnD(3-5) [OF insn(1)] insn(1) by (simp add: no_mmap_def at_insn_def)
  moreover have "wi_op insn \<noteq> WORKLOAD_EXIT" using insn(1) unfolding at_insn_def by blast
  moreover have S': "S' = snd (the (execute_instruction h S))" using assms(6) by simp
  moreover note R = execute_other [OF insn(1) assms(3,4) execute_programs [OF assms(6)]] immediate_exec [OF assms(2) refl] rr_grows_exec rr_grows_exec_mem
    execute_cpu [OF insn(1) _ assms(3,4) refl]
  ultimately show ?thesis by (cases "wi_op insn") (simp_all add: insn(2))
qed


section \<open>Rounds until a process is dispatched\<close>

text \<open>\<open>n\<close> rounds; the environment of each and whether a signal arrives after it are given by \<open>env\<close>.\<close>

primrec rounds :: "(nat \<Rightarrow> host \<times> bool) \<Rightarrow> nat \<Rightarrow> sys \<Rightarrow> sys option" where
  "rounds env 0 S = Some S"
| "rounds env (Suc n) S =
     (case step_round (fst (env 0)) S of
        None \<Rightarrow> None
      | Some (b, S1) \<Rightarrow> rounds (\<lambda>k. env (Suc k)) n (if snd (env 0) then S1\<lparr>sy_timer := on_sigalrm (sy_timer S1)\<rparr> else S1))"

text \<open>Process \<open>p\<close> is the \<open>k\<close>-th in the queue of a round robin scheduler.\<close>

definition rr_waits :: "int \<Rightarrow> nat \<Rightarrow> sys \<Rightarrow> bool" where
  "rr_waits p k S \<longleftrightarrow> s_algo (rt_scheduler S) = SCHED_RR \<and> (\<exists>xs ys. ring_view (s_rr (rt_scheduler S)) = xs @ p # ys \<and> length xs = k)"

lemma rr_waits_more:
  assumes "rr_waits p k S" "s_algo (rt_scheduler S') = SCHED_RR" "ring_view (s_rr (rt_scheduler S')) = ring_view (s_rr (rt_scheduler S)) @ zs"
  shows "rr_waits p k S'"
proof -
  obtain us vs where "ring_view (s_rr (rt_scheduler S)) = us @ p # vs" "length us = k" using assms(1) by (auto simp: rr_waits_def)
  then have "ring_view (s_rr (rt_scheduler S')) = us @ p # (vs @ zs)" using assms(3) by simp
  then show ?thesis using assms(2) \<open>length us = k\<close> unfolding rr_waits_def by blast
qed

lemma rr_waits_on: "rr_waits p k S \<Longrightarrow> rr_runs_on S S' \<Longrightarrow> rr_waits p k S'"
  using rr_waits_more by (auto simp: rr_runs_on_def)

lemma rr_ready_all:
  assumes "rt_inv S" "s_algo (rt_scheduler S) = SCHED_RR"
  shows "\<forall>q \<in> set (ring_view (s_rr (rt_scheduler S))). is_ready (ptable S) q"
proof -
  have "mset (ring_view (s_rr (rt_scheduler S))) = mset_set {q. is_ready (ptable S) q}"
    using rt_invD(2) [OF assms(1)] assms(2) by (simp add: sched_exact_def pool_def)
  then have "set (ring_view (s_rr (rt_scheduler S))) = {q. is_ready (ptable S) q}" by (metis finite_ready finite_set_mset_mset_set set_mset_mset)
  then show ?thesis by blast
qed

lemma rr_pick:
  assumes "rt_inv S" "s_algo (rt_scheduler S) = SCHED_RR" "ring_view (s_rr (rt_scheduler S)) = x # xs"
    "sched_pick_next (ptable S) (rt_scheduler S) = (q, s')"
  shows "q = x" "ring_view (s_rr s') = xs" "s_algo s' = SCHED_RR" "s_quantum_ticks s' = s_quantum_ticks (rt_scheduler S)" "s_current_pid s' = x"
proof -
  have "ring_ok (s_rr (rt_scheduler S))" using rt_invD(2) [OF assms(1)] by (simp add: sched_exact_def sched_inv_def)
  moreover have "is_ready (ptable S) x" using rr_ready_all [OF assms(1,2)] assms(3) by simp
  ultimately have "fst (queue_pop (ptable S) (s_rr (rt_scheduler S))) = x" "ring_view (snd (queue_pop (ptable S) (s_rr (rt_scheduler S)))) = xs"
    using queue_pop_view [of "s_rr (rt_scheduler S)" "ptable S"] assms(3) by simp_all
  then show "q = x" "ring_view (s_rr s') = xs" "s_algo s' = SCHED_RR" "s_quantum_ticks s' = s_quantum_ticks (rt_scheduler S)" "s_current_pid s' = x"
    using assms(2,4) by (auto simp: sched_pick_next_def Let_def split_beta)
qed

text \<open>Dispatching while \<open>p\<close> waits: the current process goes on, or the head of the queue is dispatched.\<close>

lemma rr_dispatch:
  assumes "rt_inv S" "rr_waits p k S" "charged S"
  obtains (stay) "0 \<le> rt_current_pid S" "dispatch S = (True, S)"
  | (now) "k = 0" "rt_current_pid S = -1" "rt_current_pid (snd (dispatch S)) = p"
  | (shift) S1 k' where "k = Suc k'" "rt_current_pid S = -1" "dispatch S = (True, S1)" "0 \<le> rt_current_pid S1" "rr_waits p k' S1" "charged S1"
      "s_quantum_ticks (rt_scheduler S1) = s_quantum_ticks (rt_scheduler S)" "rt_slots S1 = rt_slots S"
  using assms(1)
proof (cases rule: dispatch_cases)
  case running
  then show ?thesis by (rule stay)
next
  case (idle sch)
  have "p \<in> set (ring_view (s_rr (rt_scheduler S)))" using assms(2) by (auto simp: rr_waits_def)
  then show ?thesis using idle(2) rr_ready_all [OF assms(1)] assms(2) by (auto simp: rr_waits_def)
next
  case (start q sch t' S')
  have rr: "s_algo (rt_scheduler S) = SCHED_RR" using assms(2) by (simp add: rr_waits_def)
  obtain us vs where w: "ring_view (s_rr (rt_scheduler S)) = us @ p # vs" "length us = k" using assms(2) by (auto simp: rr_waits_def)
  obtain x xs where v: "us @ p # vs = x # xs" by (cases "us @ p # vs") auto
  note P = rr_pick [OF assms(1) rr w(1) [unfolded v] start(3)]
  have "0 \<le> q" using is_ready_pos [OF start(2)] by simp
  show ?thesis
  proof (cases k)
    case 0
    then show ?thesis using w v P(1) start(1,6,9) by (intro now) simp_all
  next
    case (Suc k')
    then obtain u where "us = u # tl us" "length (tl us) = k'" using w(2) by (cases us) auto
    then have "ring_view (s_rr (rt_scheduler S')) = tl us @ p # vs" using v P(2) start(8) by (metis append_Cons list.inject)
    then have "rr_waits p k' S'" using \<open>length (tl us) = k'\<close> P(3) start(8) by (auto simp: rr_waits_def)
    then show ?thesis using Suc P start \<open>0 \<le> q\<close> by (intro shift [of k' S']) (simp_all add: charged_def)
  qed
qed


text \<open>A round in which \<open>p\<close> is not dispatched brings it nearer to its turn.\<close>

lemma rr_round:
  assumes "rt_inv S" "no_mmap S" "rr_waits p k S" "charged S" "rt_current_pid (snd (dispatch (refresh_queues S))) \<noteq> p"
  obtains b S' k' where "step_round h S = Some (b, S')" "rt_inv S'" "no_mmap S'" "rr_waits p k' S'" "charged S'"
    "s_quantum_ticks (rt_scheduler S') = s_quantum_ticks (rt_scheduler S)"
    "k' * (unat (s_quantum_ticks (rt_scheduler S)) + 131) + tenure S' < k * (unat (s_quantum_ticks (rt_scheduler S)) + 131) + tenure S"
proof -
  define T where "T = refresh_queues S"
  have rr: "s_algo (rt_scheduler S) = SCHED_RR" using assms(3) by (simp add: rr_waits_def)
  have inv: "rt_inv T" unfolding T_def by (rule rt_inv_refresh [OF assms(1)])
  have g: "rr_grows S T" unfolding T_def by (rule rr_grows_refresh [OF rr])
  have "ring_ok (s_rr (rt_scheduler S))" using rt_invD(2) [OF assms(1)] by (simp add: sched_exact_def sched_inv_def)
  then obtain zs where "ring_view (s_rr (rt_scheduler T)) = ring_view (s_rr (rt_scheduler S)) @ zs" using g by (auto simp: rr_grows_def Let_def)
  then have T: "rr_waits p k T" "charged T" "tenure T = tenure S" "s_quantum_ticks (rt_scheduler T) = s_quantum_ticks (rt_scheduler S)"
    using g assms(4) rr rr_waits_more [OF assms(3)] by (auto simp: rr_grows_def charged_def tenure_def insns_left_def ticks_left_def T_def Let_def)
  let ?N = "unat (s_quantum_ticks (rt_scheduler S)) + 131"
  obtain b S' where S': "step_round h S = Some (b, S')" using round_returns [OF assms(2), of h] by (cases "step_round h S") auto
  have inv': "rt_inv S'" by (rule sys_step_inv [OF sys_step.round [OF S'] assms(1)])
  have n': "no_mmap S'" by (rule no_mmap_programs [OF assms(2) round_programs [OF S']])
  have run: "rr_runs_on U S' \<and> tenure S' < tenure U" if "dispatch T = (True, U)" "rt_inv U" "0 \<le> rt_current_pid U" "rr_waits p j U" "charged U" "rt_slots U = rt_slots S" for U j
  proof (rule execute_tenure [OF that(2,3)])
    show "execute_instruction h U = Some (b, S')" using S' that(1) by (simp add: step_round_def T_def)
    show "no_mmap U" using assms(2) that(6) by (simp add: no_mmap_def)
  qed (use that in \<open>auto simp: rr_waits_def\<close>)
  from inv T(1,2) show ?thesis
  proof (cases rule: rr_dispatch)
    case stay
    then have R: "rr_runs_on T S' \<and> tenure S' < tenure T" by (intro run [of T k]) (use inv T in \<open>simp_all add: T_def\<close>)
    show ?thesis by (rule that [OF S' inv' n' rr_waits_on [OF T(1)]]) (use R T in \<open>auto simp: rr_runs_on_def\<close>)
  next
    case now
    then show ?thesis using assms(5) by (simp add: T_def)
  next
    case (shift U j)
    have U: "rt_inv U" using rt_inv_dispatch [OF inv] shift(3) by simp
    have R: "rr_runs_on U S'" using run [of U j] shift U by (simp add: T_def)
    then have "s_quantum_ticks (rt_scheduler S') = s_quantum_ticks (rt_scheduler S)" using shift(7) T(4) by (simp add: rr_runs_on_def)
    then show ?thesis
      using that [OF S' inv' n' rr_waits_on [OF shift(5) R]] R tenure_bound [OF inv'] shift(1) by (simp add: rr_runs_on_def)
  qed
qed

lemma alarm_same:
  fixes S :: sys
  defines "S' \<equiv> S\<lparr>sy_timer := on_sigalrm (sy_timer S)\<rparr>"
  shows "rt_inv S' = rt_inv S" "no_mmap S' = no_mmap S" "rr_waits p k S' = rr_waits p k S" "charged S' = charged S" "tenure S' = tenure S"
  by (simp_all add: S'_def no_mmap_def rr_waits_def charged_def tenure_def insns_left_def)

lemma rr_served:
  assumes "rt_inv S" "no_mmap S" "rr_waits p k S" "charged S"
  shows "\<exists>n \<le> k * (unat (s_quantum_ticks (rt_scheduler S)) + 131) + tenure S.
    \<exists>S'. rounds env n S = Some S' \<and> rt_current_pid (snd (dispatch (refresh_queues S'))) = p"
  using assms
proof (induction "k * (unat (s_quantum_ticks (rt_scheduler S)) + 131) + tenure S" arbitrary: S k env rule: less_induct)
  case less
  let ?N = "unat (s_quantum_ticks (rt_scheduler S)) + 131"
  show ?case
  proof (cases "rt_current_pid (snd (dispatch (refresh_queues S))) = p")
    case True
    then show ?thesis by (intro exI [of _ 0]) simp
  next
    case False
    obtain b S1 k' where S1: "step_round (fst (env 0)) S = Some (b, S1)" "rt_inv S1" "no_mmap S1" "rr_waits p k' S1" "charged S1"
      "s_quantum_ticks (rt_scheduler S1) = s_quantum_ticks (rt_scheduler S)" "k' * ?N + tenure S1 < k * ?N + tenure S"
      by (rule rr_round [OF less.prems False])
    define S' where "S' = (if snd (env 0) then S1\<lparr>sy_timer := on_sigalrm (sy_timer S1)\<rparr> else S1)"
    have S': "rt_inv S'" "no_mmap S'" "rr_waits p k' S'" "charged S'" "tenure S' = tenure S1"
      "s_quantum_ticks (rt_scheduler S') = s_quantum_ticks (rt_scheduler S)" using S1 by (simp_all add: S'_def alarm_same)
    obtain n S2 where n: "n \<le> k' * ?N + tenure S1" "rounds (\<lambda>j. env (Suc j)) n S' = Some S2" "rt_current_pid (snd (dispatch (refresh_queues S2))) = p"
      using less.hyps [of k' S' "\<lambda>j. env (Suc j)"] S' S1(7) by auto
    then show ?thesis using S1(1,7) by (intro exI [of _ "Suc n"]) (simp add: S'_def [symmetric])
  qed
qed


section \<open>No starvation\<close>

lemma run_algo [simp]: "s_algo (rt_scheduler (snd (runtime_run_workload h path prio S))) = s_algo (rt_scheduler S)"
proof -
  have "s_algo (rt_scheduler (enqueue_ready q T)) = s_algo (rt_scheduler T)" for q T by (simp add: enqueue_ready_def Let_def split_beta)
  moreover have "rt_scheduler S1 = rt_scheduler T" if "alloc_slot q T = (r, S1)" for q T r S1
    using that by (auto simp: alloc_slot_def Let_def split: option.splits)
  ultimately have "s_algo (rt_scheduler (snd (install_workload h q wl T))) = s_algo (rt_scheduler T)" for q wl T
    by (auto simp: install_workload_def split: prod.split option.split)
  then show ?thesis by (simp add: runtime_run_workload_def print_def Let_def split_beta split: option.split)
qed

text \<open>
  The scheduler stops counting when the policy is changed while a process runs: the change clears
  the scheduler's own record of the current process, and the ticks of that process are no longer
  counted, so the quantum does not end its turn.
\<close>

lemma set_scheduler_uncharged:
  assumes "0 \<le> rt_current_pid S"
  shows "\<not> charged (runtime_set_scheduler algo S)" "sched_on_tick (rt_scheduler (runtime_set_scheduler algo S)) (rt_current_pid S) = rt_scheduler (runtime_set_scheduler algo S)"
proof -
  have "s_current_pid (rt_scheduler (rebuild_ready_queues T)) = s_current_pid (rt_scheduler T)" for T by (simp add: rebuild_eq)
  then have "s_current_pid (rt_scheduler (runtime_set_scheduler algo S)) = -1" by (simp add: runtime_set_scheduler_def sched_set_algo_def sched_init_def)
  moreover have "rt_current_pid (runtime_set_scheduler algo S) = rt_current_pid S" by (simp add: runtime_set_scheduler_def)
  ultimately show "\<not> charged (runtime_set_scheduler algo S)" "sched_on_tick (rt_scheduler (runtime_set_scheduler algo S)) (rt_current_pid S) = rt_scheduler (runtime_set_scheduler algo S)"
    using assms by (simp_all add: charged_def sched_on_tick_def)
qed

text \<open>C3. Round robin starves nobody: in every reachable state in which the scheduler counts the ticks of the running
  process, and while no program uses \<^verbatim>\<open>MMAP\<close>, every ready process is dispatched within a number of
  rounds that is bounded by the number of ready processes times the quantum plus 131, whatever
  the other processes execute, however the environment answers and whenever signals arrive.\<close>

theorem rr_no_starvation:
  assumes "reachable S" "no_mmap S" "s_algo (rt_scheduler S) = SCHED_RR" "charged S" "is_ready (ptable S) p"
  shows "\<exists>n < card {q. is_ready (ptable S) q} * (unat (s_quantum_ticks (rt_scheduler S)) + 131).
    \<exists>S'. rounds env n S = Some S' \<and> rt_current_pid (snd (dispatch (refresh_queues S'))) = p"
proof -
  let ?v = "ring_view (s_rr (rt_scheduler S))" and ?N = "unat (s_quantum_ticks (rt_scheduler S)) + 131"
  have inv: "rt_inv S" by (rule reachable_inv [OF assms(1)])
  have m: "mset ?v = mset_set {q. is_ready (ptable S) q}"
    using rt_invD(2) [OF inv] assms(3) by (simp add: sched_exact_def pool_def)
  then have "size (mset ?v) = size (mset_set {q. is_ready (ptable S) q})" by (rule arg_cong)
  then have len: "length ?v = card {q. is_ready (ptable S) q}" by simp
  have "p \<in># mset ?v" unfolding m using assms(5) by simp
  then obtain us vs where v: "?v = us @ p # vs" by (metis set_mset_mset split_list)
  then have "rr_waits p (length us) S" using assms(3) unfolding rr_waits_def by blast
  then obtain n S' where n: "n \<le> length us * ?N + tenure S" "rounds env n S = Some S'" "rt_current_pid (snd (dispatch (refresh_queues S'))) = p"
    using rr_served [OF inv assms(2) _ assms(4)] by blast
  have "length us * ?N + tenure S < Suc (length us) * ?N" using tenure_bound [OF inv] by simp
  also have "\<dots> \<le> card {q. is_ready (ptable S) q} * ?N" using len v by (intro mult_le_mono1) simp
  finally have "n < card {q. is_ready (ptable S) q} * ?N" using n(1) by simp
  then show ?thesis using n(2,3) by blast
qed

theorem rr_no_starvation_witness:
  "\<exists>n S'. rounds (\<lambda>k. (sample_host, even k)) n loaded = Some S' \<and> rt_current_pid (snd (dispatch (refresh_queues S'))) = 1"
proof -
  have "no_mmap booted" by (simp add: booted_def no_mmap_init)
  then have "no_mmap loaded" unfolding loaded_def by (rule no_mmap_run [OF sample_host_mmap_free])
  moreover have "s_algo (rt_scheduler loaded) = SCHED_RR" by (simp add: loaded_def booted_def runtime_init_def sched_init_def)
  moreover have "charged loaded" using loaded_facts(4) by (simp add: charged_def)
  moreover have "is_ready (ptable loaded) 1" using loaded_facts(3) by (simp add: is_ready_pstate)
  ultimately show ?thesis using rr_no_starvation [OF loaded_facts(2), of 1 "\<lambda>k. (sample_host, even k)"] by blast
qed

end
