(* ===== verification/Spec2Isabelle.thy ===== *)
theory Spec2Isabelle
  imports Bench Runtime_Fair
begin

text \<open>
  MOSRT is a small operating system in one C program: it simulates processes that run short
  scripts (workloads) on a scheduler, message queues, semaphores and a paged virtual memory, all
  driven by an interactive shell. This library models the sources under \<^verbatim>\<open>src/mosrt/src\<close> and
  the benchmark program \<^verbatim>\<open>src/mosrt/tools/mosrt_bench.c\<close>, and proves what makes them correct.


  \<^bold>\<open>The program.\<close> The shell (\<^verbatim>\<open>shell.c\<close>, \<^verbatim>\<open>main.c\<close>) reads commands and calls the runtime
  (\<^verbatim>\<open>runtime.c\<close>). The runtime loads workloads (\<^verbatim>\<open>workload.c\<close>), creates a process for each
  (\<^verbatim>\<open>proc.c\<close>) with an address space (\<^verbatim>\<open>vm.c\<close>), queues it (\<^verbatim>\<open>sched.c\<close>) and, tick by tick,
  dispatches a ready process and executes its next instruction. Instructions use the message
  queues (\<^verbatim>\<open>ipc.c\<close>), the semaphores and mutexes (\<^verbatim>\<open>sync.c\<close>) and virtual memory: an access goes
  through the TLB (\<^verbatim>\<open>tlb.c\<close>) or the page table (\<^verbatim>\<open>page_table.c\<close>) and, on a fault, through the
  pager (\<^verbatim>\<open>pager.c\<close>), which takes a physical frame (\<^verbatim>\<open>frame.c\<close>), evicting a page chosen by one
  of three policies (\<^verbatim>\<open>replacement_fifo.c\<close>, \<^verbatim>\<open>replacement_lru.c\<close>, \<^verbatim>\<open>replacement_clock.c\<close>) to swap
  space (\<^verbatim>\<open>swap.c\<close>) when none is free. A heap allocator (\<^verbatim>\<open>vm_alloc.c\<close>) keeps its block headers
  inside the simulated memory. A timer signal (\<^verbatim>\<open>timer.c\<close>) asks for rescheduling, and events are
  logged (\<^verbatim>\<open>log.c\<close>).


  \<^bold>\<open>How the model is written.\<close> A C structure is a record, an enumeration a datatype, and the static
  variables of a file are the fields of a state record that its operations take and return.
  Unsigned integers of 8, 16, 32 and 64 bits are machine words and wrap around; \<^verbatim>\<open>int\<close> is a
  mathematical integer, with the range tests of the code where it converts text; its overflow,
  which C leaves undefined, is not modelled. Arrays are functions from indices. A null pointer and a failure
  code become \<open>None\<close>, except that process ids keep the -1 of the code. Loops are recursive
  functions with a termination proof. What the operating system or the C library decides is a
  parameter: the results of \<^verbatim>\<open>mmap\<close> and \<^verbatim>\<open>malloc\<close>, the contents of files, whether a file can be
  created, whether \<^verbatim>\<open>setitimer\<close> succeeds (the records \<open>os_env\<close> and \<open>host\<close>). Functions that print return
  the text, and the runtime collects the text written to the console in the field \<open>sy_out\<close>.


  \<^bold>\<open>The theories.\<close>

  \<^item> \<^verbatim>\<open>Mosrt_Prelude\<close>: word types, arrays, search loops and the collections of lemmas;
    \<^verbatim>\<open>Mosrt_Interfaces\<close>: the contracts that components share, as locales (first-fit slot tables,
    circular buffers, wait queues, tables searched by id, transition systems with an invariant);
    each is interpreted on the operations of the components that provide it;
    \<^verbatim>\<open>C_Text\<close>: the conversions of \<^verbatim>\<open>printf\<close>, \<^verbatim>\<open>strtol\<close>, \<^verbatim>\<open>strtoull\<close>, \<^verbatim>\<open>fgets\<close> and \<^verbatim>\<open>strtok\<close>;
    \<^verbatim>\<open>C_Double\<close>: binary64 products and quotients, rounded to nearest, ties to even, and the
    error of a quotient printed as a decimal.
  \<^item> \<^verbatim>\<open>VM_Types\<close>, \<^verbatim>\<open>Frame\<close>, \<^verbatim>\<open>Swap\<close>, \<^verbatim>\<open>Page_Table\<close>, \<^verbatim>\<open>TLB\<close>, \<^verbatim>\<open>Replacement\<close>: the parts of the paging
    system. Shown: allocation returns the lowest free frame or slot and keeps every other; a page
    comes back from swap as it went; the TLB returns what was inserted and displaces a least
    recently used entry; FIFO, LRU and clock choose the victims their definitions promise, and
    the loops of the clock end.
  \<^item> \<^verbatim>\<open>Pager\<close>, \<^verbatim>\<open>VM\<close>, \<^verbatim>\<open>VM_Resident\<close>: \<^verbatim>\<open>pager.c\<close> and \<^verbatim>\<open>vm.c\<close>, with the invariant \<open>mem_inv\<close> (every present page
    owns its frame, every swapped page its slot, none is shared). Shown: every branch of an access
    keeps it; bytes written are read back, across pages and under paging; protection is
    respected; an access fails for lack of memory only when swap is full; and a clean page
    evicted a second time loses its bytes.
  \<^item> \<^verbatim>\<open>VM_Alloc\<close>, \<^verbatim>\<open>VM_Heap\<close>, \<^verbatim>\<open>VM_Malloc\<close>: \<^verbatim>\<open>vm_alloc.c\<close>. The headers found in memory form a list of blocks that
    tiles the heap; allocation and release terminate, keep it, never hand out memory in use and
    keep the contents of every block in use, and release merges a block with its free neighbours.
    The theorems are about heaps that satisfy \<open>heap_ok\<close>: memory satisfies \<open>mem_inv\<close> and holds such a
    list, the TLB agrees with the page table, the pages of the heap can be read and written, and
    enough frames are free for those that are not present, so that no access to the heap evicts
    a page.
  \<^item> \<^verbatim>\<open>Proc\<close>, \<^verbatim>\<open>Proc_Life\<close>: \<^verbatim>\<open>proc.c\<close>, with the table invariant \<open>ptable_inv\<close>, the state machine of a process, and the
    return of all its memory when it is destroyed.
  \<^item> \<^verbatim>\<open>Sched\<close>: the ready queues, the binary heap and the four policies of \<^verbatim>\<open>sched.c\<close>; every queued process is picked
    exactly once, in the order of the policy.
  \<^item> \<^verbatim>\<open>IPC\<close>, \<^verbatim>\<open>Sync\<close>: message queues refine abstract channels and lose no message; mutexes exclude each other,
    semaphores admit at most their units.
  \<^item> \<^verbatim>\<open>Log\<close>, \<^verbatim>\<open>Timer\<close>, \<^verbatim>\<open>Workload\<close>, \<^verbatim>\<open>Report\<close>: the trace log, the timer, the parser of workload files (well typed
    results, round trip with a printer) and the text of all status reports.
  \<^item> \<^verbatim>\<open>Runtime\<close>: every function of \<^verbatim>\<open>runtime.c\<close>, one definition per instruction; \<^verbatim>\<open>Runtime_Inv\<close>: the invariant
    \<open>rt_inv\<close> and that every function keeps it; \<^verbatim>\<open>Runtime_Steps\<close>: the runtime as a transition system
    (calls of the interface, rounds of stepping, timer signals in between); \<^verbatim>\<open>Runtime_Props\<close>: at most one process
    runs, the queues hold exactly the ready processes, the processor is not idle while a process
    can run, stepping returns, killing does what it says; \<^verbatim>\<open>Runtime_Memory\<close>: the runtime composed
    with virtual memory, where no two processes ever share a frame or a swap slot and the TLB
    never leads a process to memory of another; \<^verbatim>\<open>Runtime_Fair\<close>: under round robin every ready process is
    dispatched within a bounded number of rounds.
  \<^item> \<^verbatim>\<open>Metrics\<close>, \<^verbatim>\<open>Shell\<close>, \<^verbatim>\<open>Bench\<close>: the metrics and the built-in benchmark of \<^verbatim>\<open>runtime.c\<close>, all commands and the loop of the shell
    as a function of the text typed, and the stand-alone benchmark program. Shown: the printed
    figures are the exact quotients to the last decimal, and every session and the benchmark end.


  \<^bold>\<open>Loops and bounds.\<close> The walks along the block list of the heap (\<open>find_fit\<close>, \<open>count_blocks\<close>) and
  \<open>vm_alloc_malloc\<close> follow links that lie in memory a program can overwrite, so they may run
  forever: they are partial functions and \<open>None\<close> is a call that does not return. On a well-formed heap they
  are proved to return. Everything that may execute \<^verbatim>\<open>MMAP\<close> inherits this type, and the theorems on
  stepping, on the shell and on the benchmark show that it returns when no program contains
  \<^verbatim>\<open>MMAP\<close>. All other loops are total functions. The bounds in the model are those of the code: 1024 rounds per tick
  (\<^verbatim>\<open>MAX_DISPATCH_GUARD\<close>), 500 ticks per benchmark run (\<^verbatim>\<open>BENCH_MAX_TICKS\<close>), and the sizes of the
  tables; no bound is added. The isolation theorem also excludes \<^verbatim>\<open>MMAP\<close>, because growing the heap over a page in
  use leaves its frame allocated to no page, which breaks the paging invariant; this defect is itself
  a theorem of \<^verbatim>\<open>VM_Malloc\<close>. It assumes that \<^verbatim>\<open>malloc\<close> does not return memory in use.


  \<^bold>\<open>Not modelled.\<close>

  \<^item> The register contents of \<^verbatim>\<open>ucontext\<close>: a switch into a process runs its trampoline up to the
    switch back, whose only other effect is a trace event. The stacks are modelled by their
    mappings, not by their bytes.
  \<^item> A signal that arrives within a round. The handler only sets the flag and counts; the flag is read and
    cleared once per round, so a signal is delivered between rounds here.
  \<^item> \<^verbatim>\<open>pager_proc_init\<close> and \<^verbatim>\<open>pager_proc_destroy\<close>, with the field \<^verbatim>\<open>policy_state\<close> of an address space, which they keep null and nothing reads, and the \<^verbatim>\<open>shutdown\<close> functions of the policies, which only free their
    memory: the policy state becomes \<open>None\<close> when it is replaced.
  \<^item> The messages of \<^verbatim>\<open>perror\<close>, the buffering of streams, failing writes to an open file, the tests under
    \<^verbatim>\<open>src/mosrt/tests\<close>, and declarations that no code uses.
\<close>

end
